(* ===== verification/CMem.thy ===== *)
theory CMem
  imports Main "HOL-Library.Word" "HOL-Library.Monad_Syntax"
begin

unbundle bit_operations_syntax

section \<open>Prelude: memory, C strings and machine integers\<close>

text \<open>
  The vocabulary every other theory of this development uses.

  \<^item> Memory is a partial map from addresses to bytes. An address outside its domain is
    unmapped: reading or writing it is the fault the hardware raises. The region and string
    predicates are the same for an array of wide characters, indexed by the character.
  \<^item> A C computation is a value of an option type. \<open>None\<close> stands for every run that has no
    defined outcome: an access to unmapped memory, a signed overflow, a loop that does not
    end. A theorem of the form \<open>f m p = Some r\<close> therefore says that the call returns, that it
    returns \<open>r\<close>, and that every access it makes on the way is to mapped memory.
  \<^item> A pointer is a natural number, \<open>NULL\<close> is 0. Objects do not wrap around the end of the
    address space, so pointer arithmetic is arithmetic on natural numbers.
  \<^item> The target is the 64-bit ARM port: \<open>char\<close> is unsigned and 8 bits wide, \<open>int\<close> is 32 bits,
    \<open>long\<close>, \<open>size_t\<close> and \<open>time_t\<close> are 64 bits.
\<close>

type_synonym byte = "8 word"
type_synonym addr = nat
type_synonym 'c array = "nat \<Rightarrow> 'c option"
type_synonym mem = "byte array"
type_synonym u32 = "32 word"
type_synonym u64 = "64 word"

abbreviation (input) NULL :: addr where "NULL \<equiv> 0"

text \<open>The values of \<open>errno\<close> (and of the negative error returns) the modelled functions use.\<close>

datatype errno = EINVAL | ERANGE | ENOMEM | EAGAIN | EBUSY | EDEADLK | ETIME | EAFNOSUPPORT
  | EFBIG | ESPIPE | EIO | EEXIST | ENAMETOOLONG | ENOSYS | ENOTSUP | ETIMEDOUT | ESRCH | ENOSPC | EOVERFLOW | EILSEQ | ENOENT | ENOTEMPTY | EINTR | EBADF | ENFILE | EPERM

named_theorems mem_simps \<open>equations about memory regions and C strings\<close>

subsection \<open>Signed integers\<close>

definition INT_MAX :: int where "INT_MAX = 2147483647"
definition INT_MIN :: int where "INT_MIN = - 2147483648"
definition LONG_MAX :: int where "LONG_MAX = 9223372036854775807"
definition LONG_MIN :: int where "LONG_MIN = - 9223372036854775808"

text \<open>A signed result that does not fit its type has no defined value.\<close>

definition to_int :: "int \<Rightarrow> int option" where
  "to_int i = (if INT_MIN \<le> i \<and> i \<le> INT_MAX then Some i else None)"

text \<open>Conversion of a wider value to \<open>int\<close> keeps the low 32 bits, read as two's complement.\<close>

definition cast_int :: "int \<Rightarrow> int" where
  "cast_int i = signed_take_bit 31 i"

lemma to_int_in [simp]: "INT_MIN \<le> i \<Longrightarrow> i \<le> INT_MAX \<Longrightarrow> to_int i = Some i"
  by (simp add: to_int_def)

lemma to_int_nat [simp]: "n < 2 ^ 31 \<Longrightarrow> to_int (int n) = Some (int n)"
  by (simp add: to_int_def INT_MIN_def INT_MAX_def)

lemma to_int_Some_iff: "to_int i = Some j \<longleftrightarrow> j = i \<and> INT_MIN \<le> i \<and> i \<le> INT_MAX"
  by (auto simp: to_int_def)

lemma cast_int_id: "INT_MIN \<le> i \<Longrightarrow> i \<le> INT_MAX \<Longrightarrow> cast_int i = i"
  by (simp add: cast_int_def INT_MIN_def INT_MAX_def signed_take_bit_int_eq_self)

lemma unat_of_nat_small: "n < 2 ^ LENGTH('a) \<Longrightarrow> unat (of_nat n :: 'a::len word) = n"
  by (simp add: unsigned_of_nat take_bit_nat_eq_self)

lemma unat_ucast_mod: "unat (ucast w :: 'b::len word) = unat w mod 2 ^ LENGTH('b)"
  by (simp add: unsigned_ucast_eq take_bit_eq_mod)

lemma unat_ucast_up:
  fixes w :: "'a::len word"
  assumes "LENGTH('a) \<le> LENGTH('b::len)"
  shows "unat (ucast w :: 'b word) = unat w"
proof -
  have "unat w < 2 ^ LENGTH('a)" by (rule unsigned_less)
  also have "\<dots> \<le> 2 ^ LENGTH('b)" using assms by simp
  finally show ?thesis unfolding unat_ucast_mod by (rule mod_less)
qed

lemma unat_drop_bit: "unat (drop_bit n w) = unat w div 2 ^ n" for w :: "'a::len word"
  by (subst unsigned_drop_bit_eq) (simp add: drop_bit_eq_div take_bit_nat_eq_self)

lemma unat_push_bit: "unat (push_bit n w) = unat w * 2 ^ n mod 2 ^ LENGTH('a)" for w :: "'a::len word"
  by (subst unsigned_push_bit_eq) (simp add: push_bit_eq_mult take_bit_eq_mod)

lemma unat_take_bit: "unat (take_bit n w) = unat w mod 2 ^ n" for w :: "'a::len word"
  by (subst unsigned_take_bit_eq) (simp add: take_bit_eq_mod)

text \<open>An OR of a shifted word with bits below the shift is a sum.\<close>

lemma unat_shift_or:
  fixes x y :: "'a::len word"
  assumes "unat y < 2 ^ k" and "k \<le> LENGTH('a)"
  shows "unat (push_bit k x OR y) = unat x * 2 ^ k mod 2 ^ LENGTH('a) + unat y"
proof -
  have y: "take_bit k y = y"
    using assms(1) by (simp add: word_unat_eq_iff unat_take_bit)
  have "push_bit k x AND y = 0"
    by (subst y [symmetric], rule bit_eqI) (auto simp: bit_simps)
  then have or: "push_bit k x OR y = push_bit k x + y" by (simp add: disjunctive_add_eq_or)
  obtain c where c: "2 ^ LENGTH('a) = 2 ^ k * (c::nat)" using assms(2) by (metis le_Suc_ex power_add)
  have "unat x * 2 ^ k mod 2 ^ LENGTH('a) = 2 ^ k * (unat x mod c)"
    unfolding c by (simp add: mult.commute)
  moreover have "unat x mod c < c" using c by (cases c) auto
  moreover from this have "2 ^ k * (unat x mod c) + 2 ^ k \<le> 2 ^ k * c"
    by (metis Suc_leI mult_Suc_right add.commute mult_le_mono2)
  ultimately have "unat x * 2 ^ k mod 2 ^ LENGTH('a) + unat y < 2 ^ LENGTH('a)"
    using assms(1) c by simp
  then show ?thesis unfolding or unat_word_ariths(1) unat_push_bit by simp
qed

subsection \<open>Stores and regions\<close>

definition store :: "'c array \<Rightarrow> addr \<Rightarrow> 'c \<Rightarrow> 'c array option" where
  "store m a v = (case m a of None \<Rightarrow> None | Some _ \<Rightarrow> Some (m(a \<mapsto> v)))"

primrec put :: "'c array \<Rightarrow> addr \<Rightarrow> 'c list \<Rightarrow> 'c array" where
  "put m p [] = m"
| "put m p (b # bs) = put (m(p \<mapsto> b)) (Suc p) bs"

primrec bytes_at :: "'c array \<Rightarrow> addr \<Rightarrow> 'c list \<Rightarrow> bool" where
  "bytes_at m p [] = True"
| "bytes_at m p (b # bs) = (m p = Some b \<and> bytes_at m (Suc p) bs)"

definition mapped :: "'c array \<Rightarrow> addr \<Rightarrow> nat \<Rightarrow> bool" where
  "mapped m p n \<longleftrightarrow> list_all (\<lambda>i. m (p + i) \<noteq> None) [0..<n]"

lemma upd_fold [simp]: "(\<lambda>a. if a = d then x else m a) = m(d := x)"
  by auto

lemma store_mapped [simp]: "m a \<noteq> None \<Longrightarrow> store m a v = Some (m(a \<mapsto> v))"
  by (auto simp: store_def)

lemma store_Some_iff: "store m a v = Some m' \<longleftrightarrow> m a \<noteq> None \<and> m' = m(a \<mapsto> v)"
  by (auto simp: store_def split: option.splits)

lemma mapped_iff: "mapped m p n \<longleftrightarrow> (\<forall>i<n. m (p + i) \<noteq> None)"
  by (auto simp: mapped_def list_all_iff)

lemma mappedD: "mapped m p n \<Longrightarrow> i < n \<Longrightarrow> m (p + i) \<noteq> None"
  by (simp add: mapped_iff)

lemma mapped_0 [simp]: "mapped m p 0"
  by (simp add: mapped_iff)

lemma mapped_Suc: "mapped m p (Suc n) \<longleftrightarrow> m p \<noteq> None \<and> mapped m (Suc p) n"
  unfolding mapped_iff by (auto simp: less_Suc_eq_0_disj)

lemma mapped_upd [simp]: "mapped m p n \<Longrightarrow> mapped (m(a \<mapsto> v)) p n"
  by (simp add: mapped_iff)

lemma mapped_le: "mapped m p n \<Longrightarrow> k \<le> n \<Longrightarrow> mapped m p k"
  by (simp add: mapped_iff)

lemma mapped_shift: "mapped m p n \<Longrightarrow> mapped m (p + k) (n - k)"
  unfolding mapped_iff
proof (intro allI impI)
  fix i assume "\<forall>i<n. m (p + i) \<noteq> None" and "i < n - k"
  then show "m (p + k + i) \<noteq> None" by (simp add: add.assoc)
qed

lemma put_append: "put m p (xs @ ys) = put (put m p xs) (p + length xs) ys"
  by (induction xs arbitrary: m p) auto

lemma put_other: "a < p \<or> p + length bs \<le> a \<Longrightarrow> put m p bs a = m a"
  by (induction bs arbitrary: m p) auto

lemma put_inside: "i < length bs \<Longrightarrow> put m p bs (p + i) = Some (bs ! i)"
proof (induction bs arbitrary: m p i)
  case Nil
  then show ?case by simp
next
  case (Cons b bs)
  show ?case
  proof (cases i)
    case 0
    then show ?thesis by (simp add: put_other)
  next
    case (Suc j)
    with Cons.prems have "j < length bs" by simp
    then have "put (m(p \<mapsto> b)) (Suc p) bs (Suc p + j) = Some (bs ! j)" by (rule Cons.IH)
    with Suc show ?thesis by simp
  qed
qed

lemma put_lookup:
  "put m p bs a = (if p \<le> a \<and> a < p + length bs then Some (bs ! (a - p)) else m a)"
  using put_inside [of "a - p" bs m p] put_other [of a p bs m] by auto

lemma put_upd_commute:
  "a < p \<or> p + length bs \<le> a \<Longrightarrow> put (m(a \<mapsto> v)) p bs = (put m p bs)(a \<mapsto> v)"
  by (rule ext) (auto simp: put_lookup)

lemma put_snoc: "put m p (bs @ [b]) = put (m(p + length bs \<mapsto> b)) p bs"
  by (simp add: put_append put_upd_commute)

lemma mapped_put [simp]: "mapped m q n \<Longrightarrow> mapped (put m p bs) q n"
  by (simp add: mapped_iff put_lookup)

lemma bytes_at_iff: "bytes_at m p bs \<longleftrightarrow> (\<forall>i<length bs. m (p + i) = Some (bs ! i))"
proof (induction bs arbitrary: p)
  case (Cons b bs)
  show ?case by (auto simp: Cons.IH less_Suc_eq_0_disj)
qed simp

lemma bytes_atD: "bytes_at m p bs \<Longrightarrow> i < length bs \<Longrightarrow> m (p + i) = Some (bs ! i)"
  by (simp add: bytes_at_iff)

lemma bytes_at_append: "bytes_at m p (xs @ ys) \<longleftrightarrow> bytes_at m p xs \<and> bytes_at m (p + length xs) ys"
  by (induction xs arbitrary: p) auto

lemma bytes_at_put: "bytes_at (put m p bs) p bs"
  by (simp add: bytes_at_iff put_lookup)

lemma bytes_at_put_other:
  assumes "p + length bs \<le> q \<or> q + length cs \<le> p"
  shows "bytes_at (put m p bs) q cs = bytes_at m q cs"
proof -
  have "put m p bs (q + i) = m (q + i)" if "i < length cs" for i
    by (rule put_other) (use assms that in auto)
  then show ?thesis by (simp add: bytes_at_iff)
qed

lemma bytes_at_mapped: "bytes_at m p bs \<Longrightarrow> mapped m p (length bs)"
  by (simp add: bytes_at_iff mapped_iff)

lemma bytes_at_exists: "mapped m p n \<Longrightarrow> \<exists>bs. length bs = n \<and> bytes_at m p bs"
  by (rule exI [of _ "map (\<lambda>i. the (m (p + i))) [0..<n]"]) (auto simp: bytes_at_iff mapped_iff)

subsection \<open>C strings\<close>

text \<open>
  \<open>cstr m p s\<close>: the bytes at \<open>p\<close> are the string \<open>s\<close>, terminated by a NUL.
  \<open>ncstr m p n s\<close>: \<open>s\<close> is what a routine bounded by \<open>n\<close> may see at \<open>p\<close>: at most \<open>n\<close> bytes,
  fewer only where a NUL follows them. Nothing behind the \<open>n\<close>-th byte need be mapped.
\<close>

primrec cstr :: "'c::zero array \<Rightarrow> addr \<Rightarrow> 'c list \<Rightarrow> bool" where
  "cstr m p [] = (m p = Some 0)"
| "cstr m p (c # s) = (c \<noteq> 0 \<and> m p = Some c \<and> cstr m (Suc p) s)"

fun ncstr :: "'c::zero array \<Rightarrow> addr \<Rightarrow> nat \<Rightarrow> 'c list \<Rightarrow> bool" where
  "ncstr m p 0 s = (s = [])"
| "ncstr m p (Suc n) [] = (m p = Some 0)"
| "ncstr m p (Suc n) (c # s) = (c \<noteq> 0 \<and> m p = Some c \<and> ncstr m (Suc p) n s)"

lemma cstr_iff: "cstr m p s \<longleftrightarrow> 0 \<notin> set s \<and> bytes_at m p (s @ [0])"
  by (induction s arbitrary: p) auto

lemma cstr_nonzero: "cstr m p s \<Longrightarrow> 0 \<notin> set s"
  by (simp add: cstr_iff)

lemma cstr_byte: "cstr m p s \<Longrightarrow> i < length s \<Longrightarrow> m (p + i) = Some (s ! i)"
  by (auto simp: cstr_iff bytes_at_iff nth_append less_SucI)

lemma cstr_end: "cstr m p s \<Longrightarrow> m (p + length s) = Some 0"
  by (simp add: cstr_iff bytes_at_append)

lemma cstr_append: "cstr m p (a @ b) \<longleftrightarrow> 0 \<notin> set a \<and> bytes_at m p a \<and> cstr m (p + length a) b"
  by (auto simp: cstr_iff bytes_at_append)

lemma cstr_drop: "cstr m p s \<Longrightarrow> k \<le> length s \<Longrightarrow> cstr m (p + k) (drop k s)"
  using cstr_append [of m p "take k s" "drop k s"] by (simp add: min.absorb2)

lemma cstr_unique: "cstr m p s \<Longrightarrow> cstr m p t \<Longrightarrow> s = t"
proof (induction s arbitrary: p t)
  case Nil
  then show ?case by (cases t) auto
next
  case (Cons c s)
  then show ?case by (cases t) auto
qed

lemma cstr_put_other:
  "p + length bs \<le> q \<or> q + length s < p \<Longrightarrow> cstr (put m p bs) q s = cstr m q s"
  by (subst (1 2) cstr_iff, subst bytes_at_put_other) auto

lemma cstr_put: "0 \<notin> set s \<Longrightarrow> cstr (put m p (s @ [0])) p s"
  by (simp add: cstr_iff bytes_at_put)

lemma cstr_mapped: "cstr m p s \<Longrightarrow> mapped m p (Suc (length s))"
  using bytes_at_mapped [of m p "s @ [0]"] by (simp add: cstr_iff)

lemma cstr_ncstr: "cstr m p s \<Longrightarrow> ncstr m p n (take n s)"
proof (induction n arbitrary: p s)
  case (Suc n)
  then show ?case by (cases s) auto
qed simp

lemma ncstr_bytes: "0 \<notin> set s \<Longrightarrow> bytes_at m p s \<Longrightarrow> ncstr m p (length s) s"
  by (induction s arbitrary: p) auto

lemma ncstr_length: "ncstr m p n s \<Longrightarrow> length s \<le> n"
  by (induction m p n s rule: ncstr.induct) auto

lemma ncstr_short: "ncstr m p n s \<Longrightarrow> length s < n \<Longrightarrow> cstr m p s"
  by (induction m p n s rule: ncstr.induct) auto

lemmas cstr_rules [mem_simps] = cstr.simps ncstr.simps bytes_at.simps

lemma cstr_upd: "a < q \<or> q + length s < a \<Longrightarrow> cstr (m(a \<mapsto> v)) q s = cstr m q s"
  using cstr_put_other [of a "[v]" q s m] by auto

lemma bytes_at_upd: "a < q \<or> q + length s \<le> a \<Longrightarrow> bytes_at (m(a \<mapsto> v)) q s = bytes_at m q s"
  using bytes_at_put_other [of a "[v]" q s m] by auto

lemma ncstr_upd: "a < q \<or> q + n \<le> a \<Longrightarrow> ncstr (m(a \<mapsto> v)) q n s = ncstr m q n s"
  by (induction m q n s rule: ncstr.induct) auto

text \<open>Two regions that share no byte.\<close>

definition apart :: "addr \<Rightarrow> nat \<Rightarrow> addr \<Rightarrow> nat \<Rightarrow> bool" where
  "apart p n q k \<longleftrightarrow> p + n \<le> q \<or> q + k \<le> p"

subsection \<open>Block operations of the architecture\<close>

text \<open>
  \<open>memset\<close> and \<open>memcpy\<close> are assembly routines of the port; what ISO C says of them is a fill and a
  copy between regions that do not overlap.
\<close>

primrec load_bytes :: "mem \<Rightarrow> addr \<Rightarrow> nat \<Rightarrow> byte list option" where
  "load_bytes m p 0 = Some []"
| "load_bytes m p (Suc n) = do { b \<leftarrow> m p; bs \<leftarrow> load_bytes m (Suc p) n; Some (b # bs) }"

definition store_bytes :: "mem \<Rightarrow> addr \<Rightarrow> byte list \<Rightarrow> mem option" where
  "store_bytes m p bs = (if mapped m p (length bs) then Some (put m p bs) else None)"

definition memset :: "mem \<Rightarrow> addr \<Rightarrow> byte \<Rightarrow> nat \<Rightarrow> mem option" where
  "memset m p v n = store_bytes m p (replicate n v)"

definition memcpy :: "mem \<Rightarrow> addr \<Rightarrow> addr \<Rightarrow> nat \<Rightarrow> mem option" where
  "memcpy m d s n =
     (if apart d n s n \<or> n = 0 then do { bs \<leftarrow> load_bytes m s n; store_bytes m d bs } else None)"

lemma load_bytes_at: "bytes_at m p bs \<Longrightarrow> load_bytes m p (length bs) = Some bs"
  by (induction bs arbitrary: p) auto

lemma load_bytes_Some: "load_bytes m p n = Some bs \<longleftrightarrow> length bs = n \<and> bytes_at m p bs"
proof (induction n arbitrary: p bs)
  case (Suc n)
  then show ?case by (cases bs) (auto simp: bind_eq_Some_conv)
qed auto

lemma memset_mapped: "mapped m p n \<Longrightarrow> memset m p v n = Some (put m p (replicate n v))"
  by (simp add: memset_def store_bytes_def)

lemma memcpy_apart:
  "bytes_at m s bs \<Longrightarrow> mapped m d (length bs) \<Longrightarrow> apart d (length bs) s (length bs) \<Longrightarrow>
   memcpy m d s (length bs) = Some (put m d bs)"
  by (simp add: memcpy_def load_bytes_at store_bytes_def)

subsection \<open>Memory images\<close>

text \<open>A concrete memory for evaluation: bytes laid out from an address, nothing else mapped.\<close>

definition image_at :: "addr \<Rightarrow> 'c list \<Rightarrow> 'c array" where
  "image_at p bs = put Map.empty p bs"

definition str :: "string \<Rightarrow> byte list" where
  "str s = map of_char s"

end
