(* ===== verification/CType.thy ===== *)
theory CType
  imports CMem
begin

section \<open>Character classification: include/ctype.h and ctype/ctype.c\<close>

text \<open>
  The inline functions of the header (named \<open>__islower\<close> and so on in the code, \<open>islower_inline\<close>
  here) and the exported functions of ctype/ctype.c that call them, both over \<open>int\<close>, with the
  0/1 results of the code. In the header each name is also a macro for its inline function, so
  the calls between the inline functions are calls of the inline functions.
\<close>

definition islower_inline :: "int \<Rightarrow> int" where
  "islower_inline c = (if 97 \<le> c \<and> c \<le> 122 then 1 else 0)"

definition isupper_inline :: "int \<Rightarrow> int" where
  "isupper_inline c = (if 65 \<le> c \<and> c \<le> 90 then 1 else 0)"

definition isalpha_inline :: "int \<Rightarrow> int" where
  "isalpha_inline c = (if islower_inline c \<noteq> 0 \<or> isupper_inline c \<noteq> 0 then 1 else 0)"

definition iscntrl_inline :: "int \<Rightarrow> int" where
  "iscntrl_inline c = (if (0 \<le> c \<and> c \<le> 31) \<or> c = 127 then 1 else 0)"

definition isdigit_inline :: "int \<Rightarrow> int" where
  "isdigit_inline c = (if 48 \<le> c \<and> c \<le> 57 then 1 else 0)"

definition isalnum_inline :: "int \<Rightarrow> int" where
  "isalnum_inline c = (if isalpha_inline c \<noteq> 0 \<or> isdigit_inline c \<noteq> 0 then 1 else 0)"

definition isprint_inline :: "int \<Rightarrow> int" where
  "isprint_inline c = (if 31 < c \<and> c < 127 then 1 else 0)"

definition isgraph_inline :: "int \<Rightarrow> int" where
  "isgraph_inline c = (if c \<noteq> 32 \<and> isprint_inline c \<noteq> 0 then 1 else 0)"

definition ispunct_inline :: "int \<Rightarrow> int" where
  "ispunct_inline c = (if isgraph_inline c \<noteq> 0 \<and> isalnum_inline c = 0 then 1 else 0)"

definition isspace_inline :: "int \<Rightarrow> int" where
  "isspace_inline c = (if c = 32 \<or> c = 12 \<or> c = 9 \<or> c = 10 \<or> c = 13 \<or> c = 11 then 1 else 0)"

definition isxdigit_inline :: "int \<Rightarrow> int" where
  "isxdigit_inline c = (if (48 \<le> c \<and> c \<le> 57) \<or> (97 \<le> c \<and> c \<le> 102) \<or> (65 \<le> c \<and> c \<le> 70) then 1 else 0)"

definition isblank_inline :: "int \<Rightarrow> int" where
  "isblank_inline c = (if c = 32 \<or> c = 9 then 1 else 0)"

definition tolower_inline :: "int \<Rightarrow> int" where
  "tolower_inline c = (if isupper_inline c \<noteq> 0 then c - 65 + 97 else c)"

definition toupper_inline :: "int \<Rightarrow> int" where
  "toupper_inline c = (if islower_inline c \<noteq> 0 then c - 97 + 65 else c)"

definition isascii_inline :: "int \<Rightarrow> int" where
  "isascii_inline c = (if c < 0 \<or> 127 < c then 0 else 1)"

definition islower :: "int \<Rightarrow> int" where
  "islower c = islower_inline c"

definition isupper :: "int \<Rightarrow> int" where
  "isupper c = isupper_inline c"

definition isalpha :: "int \<Rightarrow> int" where
  "isalpha c = isalpha_inline c"

definition iscntrl :: "int \<Rightarrow> int" where
  "iscntrl c = iscntrl_inline c"

definition isdigit :: "int \<Rightarrow> int" where
  "isdigit c = isdigit_inline c"

definition isalnum :: "int \<Rightarrow> int" where
  "isalnum c = isalnum_inline c"

definition isprint :: "int \<Rightarrow> int" where
  "isprint c = isprint_inline c"

definition isgraph :: "int \<Rightarrow> int" where
  "isgraph c = isgraph_inline c"

definition ispunct :: "int \<Rightarrow> int" where
  "ispunct c = ispunct_inline c"

definition isspace :: "int \<Rightarrow> int" where
  "isspace c = isspace_inline c"

definition isxdigit :: "int \<Rightarrow> int" where
  "isxdigit c = isxdigit_inline c"

definition isblank :: "int \<Rightarrow> int" where
  "isblank c = isblank_inline c"

definition tolower :: "int \<Rightarrow> int" where
  "tolower c = tolower_inline c"

definition toupper :: "int \<Rightarrow> int" where
  "toupper c = toupper_inline c"

definition isascii :: "int \<Rightarrow> int" where
  "isascii c = isascii_inline c"

lemmas ctype_defs =
  islower_def islower_inline_def
  isupper_def isupper_inline_def
  isalpha_def isalpha_inline_def
  iscntrl_def iscntrl_inline_def
  isdigit_def isdigit_inline_def
  isalnum_def isalnum_inline_def
  isprint_def isprint_inline_def
  isgraph_def isgraph_inline_def
  ispunct_def ispunct_inline_def
  isspace_def isspace_inline_def
  isxdigit_def isxdigit_inline_def
  isblank_def isblank_inline_def
  tolower_def tolower_inline_def
  toupper_def toupper_inline_def
  isascii_def isascii_inline_def

text \<open>Bytes promoted to \<open>int\<close>, as the callers pass them.\<close>

abbreviation (input) byte_int :: "byte \<Rightarrow> int" where "byte_int b \<equiv> uint b"

definition lower :: "byte \<Rightarrow> byte" where
  "lower b = (if 65 \<le> uint b \<and> uint b \<le> 90 then b + 32 else b)"

lemma uint_lower: "uint (lower b) = tolower (uint b)"
  by (auto simp: lower_def ctype_defs uint_word_ariths)

lemma lower_zero_iff [simp]: "lower b = 0 \<longleftrightarrow> b = 0"
proof
  assume "lower b = 0"
  then have "uint (lower b) = 0" by simp
  then have "uint b = 0" by (auto simp: uint_lower ctype_defs split: if_splits)
  then show "b = 0" by (simp add: word_uint_eq_iff)
qed (simp add: lower_def)

lemma lower_0 [simp]: "lower 0 = 0"
  by (simp add: lower_def)

lemma zero_lower_iff [simp]: "0 = lower b \<longleftrightarrow> b = 0"
  using lower_zero_iff [of b] by metis

lemma tolower_eq_iff: "tolower (uint a) = tolower (uint b) \<longleftrightarrow> lower a = lower b"
  by (simp flip: uint_lower add: word_uint_eq_iff)

lemma tolower_less_iff: "tolower (uint a) < tolower (uint b) \<longleftrightarrow> lower a < lower b"
  by (simp flip: uint_lower add: word_less_def)

lemma tolower_0 [simp]:
  fixes b :: byte
  shows
  "tolower 0 = tolower (uint b) \<longleftrightarrow> b = 0"
  "tolower (uint b) = tolower 0 \<longleftrightarrow> b = 0"
  "tolower 0 < tolower (uint b) \<longleftrightarrow> b \<noteq> 0"
  "\<not> tolower (uint b) < tolower 0"
  using tolower_eq_iff [of 0 b] tolower_eq_iff [of b 0] tolower_less_iff [of 0 b]
    tolower_less_iff [of b 0]
  by (auto simp: word_gt_0)

lemma isdigit_iff: "isdigit c \<noteq> 0 \<longleftrightarrow> 48 \<le> c \<and> c \<le> 57"
  by (simp add: ctype_defs)

lemma isspace_iff: "isspace c \<noteq> 0 \<longleftrightarrow> c \<in> {9, 10, 11, 12, 13, 32}"
  by (auto simp: ctype_defs)

text \<open>
  The classes partition the character set the way ISO C requires, for every \<open>int\<close>: a printing
  character is a graphic one or the space; a graphic character is alphanumeric or punctuation but
  never both; an alphanumeric one is a letter or a digit but never both; a letter is of exactly one
  case; control characters are the ASCII characters that do not print; hexadecimal digits are
  alphanumeric, blanks are white space.
\<close>

theorem ctype_partition:
  "(isprint c = 0 \<longleftrightarrow> isgraph c = 0 \<and> c \<noteq> 32) \<and>
   (isgraph c \<noteq> 0 \<longleftrightarrow> (isalnum c \<noteq> 0) \<noteq> (ispunct c \<noteq> 0)) \<and>
   (isalnum c \<noteq> 0 \<longleftrightarrow> (isalpha c \<noteq> 0) \<noteq> (isdigit c \<noteq> 0)) \<and>
   (isalpha c \<noteq> 0 \<longleftrightarrow> (isupper c \<noteq> 0) \<noteq> (islower c \<noteq> 0)) \<and>
   (iscntrl c \<noteq> 0 \<longleftrightarrow> isascii c \<noteq> 0 \<and> isprint c = 0) \<and>
   isxdigit c * isalnum c = isxdigit c \<and> isblank c * isspace c = isblank c"
  by (simp add: ctype_defs)

text \<open>
  Case mapping: \<open>tolower\<close> and \<open>toupper\<close> invert each other on letters, leave every other
  \<open>int\<close> alone, never leave the class of letters and are idempotent.
\<close>

theorem case_mapping:
  "tolower (toupper c) = tolower c \<and> toupper (tolower c) = toupper c \<and>
   tolower (tolower c) = tolower c \<and> toupper (toupper c) = toupper c \<and>
   isalpha (tolower c) = isalpha c \<and> isalpha (toupper c) = isalpha c \<and>
   (tolower c \<noteq> c \<longleftrightarrow> isupper c \<noteq> 0) \<and> (toupper c \<noteq> c \<longleftrightarrow> islower c \<noteq> 0)"
  by (simp add: ctype_defs)

end
