(* ===== verification/CString.thy ===== *)
theory CString
  imports CType "HOL-Library.List_Lexorder"
begin

section \<open>Byte and string routines: string/string.c\<close>

text \<open>
  One definition per function, in the order of the file. A loop over a pointer is a
  \<open>partial_function\<close> whose arguments are the loop's variables; its counters have the width they
  have in the code (\<open>unsigned int\<close> counters are 32-bit words and wrap, \<open>int\<close> counters have no
  value past \<open>INT_MAX\<close>). A function that returns a pointer returns an address, 0 for NULL; one
  that writes returns the new memory beside its result.
\<close>

subsection \<open>Comparison\<close>

partial_function (option) strcmp_loop :: "mem \<Rightarrow> addr \<Rightarrow> addr \<Rightarrow> u32 \<Rightarrow> int option" where
  "strcmp_loop m us2 p k = do {
     c \<leftarrow> m p;
     d \<leftarrow> m (us2 + unat k);
     if c \<noteq> 0 then
       (if c < d then Some (- 1) else if c > d then Some 1 else strcmp_loop m us2 (p + 1) (k + 1))
     else Some (if c \<noteq> d then - 1 else 0) }"

definition strcmp :: "mem \<Rightarrow> addr \<Rightarrow> addr \<Rightarrow> int option" where
  "strcmp m s1 s2 = strcmp_loop m s2 s1 0"

partial_function (option) strcasecmp_loop :: "mem \<Rightarrow> addr \<Rightarrow> addr \<Rightarrow> u32 \<Rightarrow> int option" where
  "strcasecmp_loop m s2 p k = do {
     c \<leftarrow> m p;
     d \<leftarrow> m (s2 + unat k);
     if c \<noteq> 0 then
       (if tolower (uint c) < tolower (uint d) then Some (- 1)
        else if tolower (uint c) > tolower (uint d) then Some 1
        else strcasecmp_loop m s2 (p + 1) (k + 1))
     else Some (if tolower (uint c) \<noteq> tolower (uint d) then - 1 else 0) }"

definition strcasecmp :: "mem \<Rightarrow> addr \<Rightarrow> addr \<Rightarrow> int option" where
  "strcasecmp m s1 s2 = strcasecmp_loop m s2 s1 0"

text \<open>
  The bounded comparisons test \<open>k < n\<close> before they read a byte. The counter of \<open>strncasecmp\<close>
  is an \<open>unsigned int\<close>, that of \<open>strncmp\<close> a \<open>size_t\<close>.
\<close>

partial_function (option) strncasecmp_loop :: "mem \<Rightarrow> addr \<Rightarrow> nat \<Rightarrow> addr \<Rightarrow> u32 \<Rightarrow> int option" where
  "strncasecmp_loop m s2 n p k =
     (if \<not> unat k < n then Some 0
      else do {
        c \<leftarrow> m p;
        d \<leftarrow> m (s2 + unat k);
        if c \<noteq> 0 then
          (if tolower (uint c) < tolower (uint d) then Some (- 1)
           else if tolower (uint c) > tolower (uint d) then Some 1
           else strncasecmp_loop m s2 n (p + 1) (k + 1))
        else Some (if tolower (uint c) \<noteq> tolower (uint d) then - 1 else 0) })"

definition strncasecmp :: "mem \<Rightarrow> addr \<Rightarrow> addr \<Rightarrow> nat \<Rightarrow> int option" where
  "strncasecmp m s1 s2 n = strncasecmp_loop m s2 n s1 0"

partial_function (option) strncmp_loop :: "mem \<Rightarrow> addr \<Rightarrow> nat \<Rightarrow> addr \<Rightarrow> nat \<Rightarrow> int option" where
  "strncmp_loop m us2 n p k =
     (if \<not> k < n then Some 0
      else do {
        c \<leftarrow> m p;
        d \<leftarrow> m (us2 + k);
        if c \<noteq> 0 then
          (if c < d then Some (- 1) else if c > d then Some 1
           else strncmp_loop m us2 n (p + 1) (k + 1))
        else Some (if c \<noteq> d then - 1 else 0) })"

definition strncmp :: "mem \<Rightarrow> addr \<Rightarrow> addr \<Rightarrow> nat \<Rightarrow> int option" where
  "strncmp m s1 s2 n = strncmp_loop m s2 n s1 0"

text \<open>\<open>memcmp\<close>: the bytes promote to \<open>int\<close>, so the difference cannot overflow.\<close>

fun memcmp :: "mem \<Rightarrow> addr \<Rightarrow> addr \<Rightarrow> nat \<Rightarrow> int option" where
  "memcmp m s1 s2 0 = Some 0"
| "memcmp m s1 s2 (Suc count) = do {
     c \<leftarrow> m s1;
     d \<leftarrow> m s2;
     let res = uint c - uint d;
     if res \<noteq> 0 then Some (if res < 0 then - 1 else 1) else memcmp m (s1 + 1) (s2 + 1) count }"

definition strverscmp :: "mem \<Rightarrow> addr \<Rightarrow> addr \<Rightarrow> int option" where
  "strverscmp m s1 s2 = strcmp m s1 s2"

definition strcoll :: "mem \<Rightarrow> addr \<Rightarrow> addr \<Rightarrow> int option" where
  "strcoll m str1 str2 = strcmp m str1 str2"

subsection \<open>The order the comparisons decide\<close>

text \<open>The three-way result of comparing byte strings in the lexicographic order of their bytes.\<close>

definition cmp3 :: "'a::linorder list \<Rightarrow> 'a list \<Rightarrow> int" where
  "cmp3 a b = (if a < b then - 1 else if b < a then 1 else 0)"

lemma cmp3_simps [simp]:
  "cmp3 [] [] = 0"
  "cmp3 [] (y # ys) = - 1"
  "cmp3 (x # xs) [] = 1"
  "cmp3 (x # xs) (y # ys) = (if x < y then - 1 else if y < x then 1 else cmp3 xs ys)"
  by (auto simp: cmp3_def)

lemma cmp3_zero_iff: "cmp3 a b = 0 \<longleftrightarrow> a = b"
  by (auto simp: cmp3_def)

lemma cmp3_swap: "cmp3 b a = - cmp3 a b"
  by (auto simp: cmp3_def)

text \<open>One step of each comparison, as equations over the strings seen so far.\<close>

lemma unat_Suc_u32: "Suc (unat k) < 2 ^ 32 \<Longrightarrow> unat (k + 1 :: u32) = Suc (unat k)"
  by (simp add: unat_word_ariths)

lemma strcmp_loop_spec:
  "cstr m p a \<Longrightarrow> cstr m (us2 + unat k) b \<Longrightarrow> unat k + length a < 2 ^ 32 \<Longrightarrow>
   strcmp_loop m us2 p k = Some (cmp3 a b)"
proof (induction a arbitrary: p k b)
  case Nil
  then show ?case by (cases b) (auto simp: strcmp_loop.simps)
next
  case (Cons c a)
  show ?case
  proof (cases b)
    case Nil
    with Cons.prems show ?thesis
      by (subst strcmp_loop.simps) (auto simp: word_gt_0 unat_gt_0)
  next
    case (Cons d b')
    have "unat (k + 1) = Suc (unat k)" using Cons.prems by (intro unat_Suc_u32) simp
    with Cons.prems \<open>b = d # b'\<close> Cons.IH [of "Suc p" "k + 1" b'] show ?thesis
      by (subst strcmp_loop.simps) auto
  qed
qed

lemma strcasecmp_loop_spec:
  "cstr m p a \<Longrightarrow> cstr m (s2 + unat k) b \<Longrightarrow> unat k + length a < 2 ^ 32 \<Longrightarrow>
   strcasecmp_loop m s2 p k = Some (cmp3 (map lower a) (map lower b))"
proof (induction a arbitrary: p k b)
  case Nil
  then show ?case
    by (cases b) (auto simp: strcasecmp_loop.simps tolower_eq_iff)
next
  case (Cons c a)
  show ?case
  proof (cases b)
    case Nil
    with Cons.prems show ?thesis
      by (subst strcasecmp_loop.simps)
        (auto simp: tolower_less_iff word_gt_0)
  next
    case (Cons d b')
    have "unat (k + 1) = Suc (unat k)" using Cons.prems by (intro unat_Suc_u32) simp
    with Cons.prems \<open>b = d # b'\<close> Cons.IH [of "Suc p" "k + 1" b'] show ?thesis
      by (subst strcasecmp_loop.simps) (auto simp: tolower_less_iff)
  qed
qed

lemma strncmp_loop_spec:
  "k \<le> n \<Longrightarrow> ncstr m p (n - k) a \<Longrightarrow> ncstr m (us2 + k) (n - k) b \<Longrightarrow>
   strncmp_loop m us2 n p k = Some (cmp3 a b)"
proof (induction "n - k" arbitrary: p k a b)
  case 0
  then show ?case by (subst strncmp_loop.simps) simp
next
  case (Suc j)
  have j: "n - k = Suc j" "n - Suc k = j" "\<not> n \<le> k" using Suc.hyps(2) by auto
  show ?case
  proof (cases "a = [] \<or> b = []")
    case True
    with Suc.prems j show ?thesis
      by (subst strncmp_loop.simps) (cases a; cases b; auto simp: word_gt_0)
  next
    case False
    then obtain c a' d b' where ab: "a = c # a'" "b = d # b'" by (cases a; cases b; auto)
    with Suc.prems j Suc.hyps(1) [of "Suc k" "Suc p" a' b'] show ?thesis
      by (subst strncmp_loop.simps) auto
  qed
qed

lemma strncasecmp_loop_spec:
  "unat k \<le> n \<Longrightarrow> ncstr m p (n - unat k) a \<Longrightarrow> ncstr m (s2 + unat k) (n - unat k) b \<Longrightarrow>
   unat k + length a + 1 < 2 ^ 32 \<Longrightarrow>
   strncasecmp_loop m s2 n p k = Some (cmp3 (map lower a) (map lower b))"
proof (induction "n - unat k" arbitrary: p k a b)
  case 0
  then show ?case by (subst strncasecmp_loop.simps) simp
next
  case (Suc j)
  have j: "n - unat k = Suc j" "n - Suc (unat k) = j" "\<not> n \<le> unat k" using Suc.hyps(2) by auto
  show ?case
  proof (cases "a = [] \<or> b = []")
    case True
    with Suc.prems j show ?thesis
      by (subst strncasecmp_loop.simps)
        (cases a; cases b; auto simp: word_gt_0 tolower_less_iff tolower_eq_iff)
  next
    case False
    then obtain c a' d b' where ab: "a = c # a'" "b = d # b'" by (cases a; cases b; auto)
    have k: "unat (k + 1) = Suc (unat k)" using Suc.prems ab by (intro unat_Suc_u32) simp
    from Suc.prems j k ab Suc.hyps(1) [of "k + 1" "Suc p" a' b'] show ?thesis
      by (subst strncasecmp_loop.simps) (auto simp: tolower_less_iff)
  qed
qed

lemma memcmp_spec:
  "bytes_at m s1 a \<Longrightarrow> bytes_at m s2 b \<Longrightarrow> length a = length b \<Longrightarrow>
   memcmp m s1 s2 (length a) = Some (cmp3 a b)"
proof (induction a arbitrary: s1 s2 b)
  case (Cons c a)
  then show ?case by (cases b) (auto simp: word_less_def word_uint_eq_iff)
qed simp

text \<open>
  The unbounded comparisons decide the lexicographic order of the unsigned bytes, the ones that
  ignore case the order of the lower-cased bytes: -1, 0 or 1 for every two strings whose length
  fits the \<open>unsigned int\<close> counter.
\<close>

theorem strcmp_correct:
  assumes "cstr m s1 a" and "cstr m s2 b" and "length a < 2 ^ 32"
  shows "strcmp m s1 s2 = Some (cmp3 a b) \<and> strcoll m s1 s2 = Some (cmp3 a b) \<and>
    strverscmp m s1 s2 = Some (cmp3 a b) \<and>
    strcasecmp m s1 s2 = Some (cmp3 (map lower a) (map lower b))"
  using assms by (simp add: strcmp_def strcoll_def strverscmp_def strcasecmp_def
      strcmp_loop_spec strcasecmp_loop_spec)

theorem strcmp_correct_witness:
  "strcmp (image_at 1 [98, 0, 65, 0]) 1 3 = Some (cmp3 [98::byte] [65]) \<and>
   strcoll (image_at 1 [98, 0, 65, 0]) 1 3 = Some (cmp3 [98::byte] [65]) \<and>
   strverscmp (image_at 1 [98, 0, 65, 0]) 1 3 = Some (cmp3 [98::byte] [65]) \<and>
   strcasecmp (image_at 1 [98, 0, 65, 0]) 1 3 = Some (cmp3 (map lower [98]) (map lower [65]))"
  by (rule strcmp_correct) (simp_all add: image_at_def)

text \<open>
  The bounded comparisons compare at most \<open>n\<close> bytes and read no byte past the bound: with
  nothing mapped behind the first \<open>n\<close> bytes (or behind the NUL) of either argument they return the
  three-way comparison of the two bounded strings.
\<close>

theorem strncmp_correct:
  assumes "ncstr m s1 n a" and "ncstr m s2 n b" and "length a + 1 < 2 ^ 32"
  shows "strncmp m s1 s2 n = Some (cmp3 a b) \<and>
    strncasecmp m s1 s2 n = Some (cmp3 (map lower a) (map lower b))"
  using assms by (simp add: strncmp_def strncmp_loop_spec strncasecmp_def strncasecmp_loop_spec)

theorem strncmp_correct_witness:
  "strncmp (image_at 1 [97, 65]) 1 2 1 = Some (cmp3 [97::byte] [65]) \<and>
   strncasecmp (image_at 1 [97, 65]) 1 2 1 = Some (cmp3 (map lower [97]) (map lower [65]))"
  by (rule strncmp_correct) (simp_all add: image_at_def)

end
