(* ===== verification/StrSearch.thy ===== *)
theory StrSearch
  imports CString "HOL-Library.Sublist"
begin

section \<open>Searching routines of string/string.c\<close>

text \<open>
  The functions of string/string.c that read memory and return a position, a length or a pointer.
  An \<open>int\<close> counter has no value past \<open>INT_MAX\<close>, an \<open>unsigned int\<close> counter wraps at $2^{32}$.
\<close>

subsection \<open>Single bytes\<close>

partial_function (option) strchr_loop :: "mem \<Rightarrow> byte \<Rightarrow> addr \<Rightarrow> addr option" where
  "strchr_loop m ch p = do {
     x \<leftarrow> m p;
     if x = ch then Some p else if x \<noteq> 0 then strchr_loop m ch (p + 1) else Some NULL }"

definition strchr :: "mem \<Rightarrow> addr \<Rightarrow> int \<Rightarrow> addr option" where
  "strchr m s c = strchr_loop m (word_of_int c) s"

partial_function (option) memchr_loop :: "mem \<Rightarrow> byte \<Rightarrow> nat \<Rightarrow> int \<Rightarrow> addr \<Rightarrow> addr option" where
  "memchr_loop m ch n i s =
     (if \<not> nat i < n then Some NULL
      else do {
        x \<leftarrow> m s;
        if x = ch then Some s
        else do { i' \<leftarrow> to_int (i + 1); memchr_loop m ch n i' (s + 1) } })"

definition memchr :: "mem \<Rightarrow> addr \<Rightarrow> int \<Rightarrow> nat \<Rightarrow> addr option" where
  "memchr m s c n = memchr_loop m (word_of_int c) n 0 s"

partial_function (option) strchrnul_loop :: "mem \<Rightarrow> byte \<Rightarrow> addr \<Rightarrow> addr option" where
  "strchrnul_loop m ch p = do {
     x \<leftarrow> m p;
     if x \<noteq> 0 \<and> x \<noteq> ch then strchrnul_loop m ch (p + 1) else Some p }"

definition strchrnul :: "mem \<Rightarrow> addr \<Rightarrow> int \<Rightarrow> addr option" where
  "strchrnul m s c = strchrnul_loop m (word_of_int c) s"

partial_function (option) strrchr_loop :: "mem \<Rightarrow> byte \<Rightarrow> addr \<Rightarrow> addr \<Rightarrow> addr option" where
  "strrchr_loop m ch s p = do {
     x \<leftarrow> m s;
     let p' = (if x = ch then s else p);
     if x \<noteq> 0 then strrchr_loop m ch (s + 1) p' else Some p' }"

definition strrchr :: "mem \<Rightarrow> addr \<Rightarrow> int \<Rightarrow> addr option" where
  "strrchr m s c = strrchr_loop m (word_of_int c) s NULL"

fun memrchr_loop :: "mem \<Rightarrow> byte \<Rightarrow> addr \<Rightarrow> nat \<Rightarrow> addr option" where
  "memrchr_loop m uc src 0 = Some NULL"
| "memrchr_loop m uc src (Suc n) = do {
     x \<leftarrow> m src;
     if x = uc then Some src else memrchr_loop m uc (src - 1) n }"

definition memrchr :: "mem \<Rightarrow> addr \<Rightarrow> int \<Rightarrow> nat \<Rightarrow> addr option" where
  "memrchr m s c n = memrchr_loop m (word_of_int c) (s + n - 1) n"

subsection \<open>Lengths\<close>

partial_function (option) strlen_loop :: "mem \<Rightarrow> addr \<Rightarrow> u32 \<Rightarrow> u32 option" where
  "strlen_loop m s k = do { x \<leftarrow> m s; if x \<noteq> 0 then strlen_loop m (s + 1) (k + 1) else Some k }"

definition strlen :: "mem \<Rightarrow> addr \<Rightarrow> nat option" where
  "strlen m s = map_option unat (strlen_loop m s 0)"

partial_function (option) strnlen_loop :: "mem \<Rightarrow> nat \<Rightarrow> addr \<Rightarrow> u32 \<Rightarrow> u32 option" where
  "strnlen_loop m maxlen s k =
     (if \<not> unat k < maxlen then Some k
      else do { x \<leftarrow> m s; if x \<noteq> 0 then strnlen_loop m maxlen (s + 1) (k + 1) else Some k })"

definition strnlen :: "mem \<Rightarrow> addr \<Rightarrow> nat \<Rightarrow> nat option" where
  "strnlen m s maxlen = map_option unat (strnlen_loop m maxlen s 0)"

subsection \<open>Byte sets\<close>

text \<open>
  The inner loop of \<open>strcspn\<close>, \<open>strpbrk\<close> and \<open>strspn\<close>: walk \<open>p\<close> along the set until its NUL or
  a byte equal to \<open>c\<close>; whether it stopped at such a byte.
\<close>

partial_function (option) in_set_loop :: "mem \<Rightarrow> byte \<Rightarrow> addr \<Rightarrow> bool option" where
  "in_set_loop m c p = do {
     d \<leftarrow> m p;
     if d = 0 then Some False else if c = d then Some True else in_set_loop m c (p + 1) }"

partial_function (option) strcspn_loop :: "mem \<Rightarrow> addr \<Rightarrow> addr \<Rightarrow> int \<Rightarrow> int option" where
  "strcspn_loop m s2 s1 count = do {
     c \<leftarrow> m s1;
     if c = 0 then Some count
     else do {
       found \<leftarrow> in_set_loop m c s2;
       if found then Some count
       else do { count' \<leftarrow> to_int (count + 1); strcspn_loop m s2 (s1 + 1) count' } } }"

definition strcspn :: "mem \<Rightarrow> addr \<Rightarrow> addr \<Rightarrow> nat option" where
  "strcspn m s1 s2 = map_option nat (strcspn_loop m s2 s1 0)"

partial_function (option) strpbrk_loop :: "mem \<Rightarrow> addr \<Rightarrow> addr \<Rightarrow> addr option" where
  "strpbrk_loop m s2 s1 = do {
     c \<leftarrow> m s1;
     if c = 0 then Some NULL
     else do {
       found \<leftarrow> in_set_loop m c s2;
       if found then Some s1 else strpbrk_loop m s2 (s1 + 1) } }"

definition strpbrk :: "mem \<Rightarrow> addr \<Rightarrow> addr \<Rightarrow> addr option" where
  "strpbrk m s1 s2 = strpbrk_loop m s2 s1"

partial_function (option) strspn_loop :: "mem \<Rightarrow> addr \<Rightarrow> addr \<Rightarrow> int \<Rightarrow> int option" where
  "strspn_loop m s2 s1 count = do {
     c \<leftarrow> m s1;
     if c = 0 then Some count
     else do {
       found \<leftarrow> in_set_loop m c s2;
       if \<not> found then Some count
       else do { count' \<leftarrow> to_int (count + 1); strspn_loop m s2 (s1 + 1) count' } } }"

definition strspn :: "mem \<Rightarrow> addr \<Rightarrow> addr \<Rightarrow> nat option" where
  "strspn m s1 s2 = map_option nat (strspn_loop m s2 s1 0)"

subsection \<open>Substrings\<close>

text \<open>The inner loop of \<open>strstr\<close>, and the test of \<open>*p2\<close> behind it.\<close>

partial_function (option) match_loop :: "mem \<Rightarrow> addr \<Rightarrow> addr \<Rightarrow> bool option" where
  "match_loop m p1 p2 = do {
     d \<leftarrow> m p2;
     if d = 0 then Some True
     else do {
       c \<leftarrow> m p1;
       if c \<noteq> 0 \<and> c = d then match_loop m (p1 + 1) (p2 + 1) else Some False } }"

partial_function (option) strstr_loop :: "mem \<Rightarrow> addr \<Rightarrow> addr \<Rightarrow> addr option" where
  "strstr_loop m s2 s1 = do {
     c \<leftarrow> m s1;
     if c = 0 then Some NULL
     else do {
       found \<leftarrow> match_loop m s1 s2;
       if found then Some s1 else strstr_loop m s2 (s1 + 1) } }"

definition strstr :: "mem \<Rightarrow> addr \<Rightarrow> addr \<Rightarrow> addr option" where
  "strstr m s1 s2 = do { d \<leftarrow> m s2; if d = 0 then Some s1 else strstr_loop m s2 s1 }"

partial_function (option) casematch_loop :: "mem \<Rightarrow> addr \<Rightarrow> addr \<Rightarrow> bool option" where
  "casematch_loop m p1 p2 = do {
     d \<leftarrow> m p2;
     if d = 0 then Some True
     else do {
       c \<leftarrow> m p1;
       if c \<noteq> 0 \<and> tolower (uint c) = tolower (uint d) then casematch_loop m (p1 + 1) (p2 + 1)
       else Some False } }"

partial_function (option) strcasestr :: "mem \<Rightarrow> addr \<Rightarrow> addr \<Rightarrow> addr option" where
  "strcasestr m s1 s2 = do {
     c \<leftarrow> m s1;
     if c = 0 then Some NULL
     else do {
       found \<leftarrow> casematch_loop m s1 s2;
       if found then Some s1 else strcasestr m (s1 + 1) s2 } }"

partial_function (option) memmem_loop :: "mem \<Rightarrow> addr \<Rightarrow> nat \<Rightarrow> addr \<Rightarrow> nat \<Rightarrow> nat \<Rightarrow> addr option" where
  "memmem_loop m h haystacklen n needlelen i =
     (if i \<le> haystacklen - needlelen then do {
        c \<leftarrow> m (h + i);
        d \<leftarrow> m n;
        r \<leftarrow> (if c = d then memcmp m (h + i) n needlelen else Some 1);
        if c = d \<and> r = 0 then Some (h + i)
        else memmem_loop m h haystacklen n needlelen (i + 1) }
      else Some NULL)"

definition memmem :: "mem \<Rightarrow> addr \<Rightarrow> nat \<Rightarrow> addr \<Rightarrow> nat \<Rightarrow> addr option" where
  "memmem m haystack haystacklen needle needlelen =
     (if needlelen = 0 then Some haystack
      else if haystacklen < needlelen then Some NULL
      else memmem_loop m haystack haystacklen needle needlelen 0)"

text \<open>\<open>ffs\<close>: the position of the least set bit, from 1; \<open>ctz\<close> is the compiler's \<open>__builtin_ctz\<close>.\<close>

definition ctz :: "u32 \<Rightarrow> nat" where
  "ctz i = length (takeWhile (\<lambda>n. \<not> bit i n) [0..<32])"

definition ffs :: "u32 \<Rightarrow> int" where
  "ffs i = (if i = 0 then 0 else int (ctz i) + 1)"

subsection \<open>What the loops compute\<close>

lemma strchr_loop_spec:
  "cstr m p a \<Longrightarrow> strchr_loop m ch p =
     Some (if ch \<in> set a \<or> ch = 0 then p + length (takeWhile (\<lambda>x. x \<noteq> ch) a) else NULL)"
proof (induction a arbitrary: p)
  case Nil
  then show ?case by (subst strchr_loop.simps) auto
next
  case (Cons c a)
  then show ?case by (subst strchr_loop.simps) auto
qed

lemma strchrnul_loop_spec:
  "cstr m p a \<Longrightarrow> strchrnul_loop m ch p = Some (p + length (takeWhile (\<lambda>x. x \<noteq> ch) a))"
proof (induction a arbitrary: p)
  case Nil
  then show ?case by (subst strchrnul_loop.simps) simp
next
  case (Cons c a)
  then show ?case by (subst strchrnul_loop.simps) auto
qed

lemma memchr_loop_spec:
  "bytes_at m s bs \<Longrightarrow> 0 \<le> i \<Longrightarrow> nat i + length bs = n \<Longrightarrow> n < 2 ^ 31 \<Longrightarrow>
   memchr_loop m ch n i s =
     Some (if ch \<in> set bs then s + length (takeWhile (\<lambda>x. x \<noteq> ch) bs) else NULL)"
proof (induction bs arbitrary: i s)
  case Nil
  then show ?case by (subst memchr_loop.simps) simp
next
  case (Cons c bs)
  have i: "to_int (i + 1) = Some (i + 1)" "nat (i + 1) = Suc (nat i)" "nat i < n"
    using Cons.prems by (auto simp: to_int_def INT_MIN_def INT_MAX_def)
  with Cons.prems Cons.IH [of "Suc s" "i + 1"] show ?case
    by (subst memchr_loop.simps) auto
qed

lemma strrchr_loop_spec:
  "cstr m s a \<Longrightarrow> strrchr_loop m ch s p =
     Some (if ch = 0 then s + length a
           else if ch \<in> set a then s + length a - Suc (length (takeWhile (\<lambda>x. x \<noteq> ch) (rev a)))
           else p)"
proof (induction a arbitrary: s p)
  case Nil
  then show ?case by (subst strrchr_loop.simps) auto
next
  case (Cons c a)
  have "takeWhile (\<lambda>x. x \<noteq> ch) (rev a @ [c]) =
      (if ch \<in> set a then takeWhile (\<lambda>x. x \<noteq> ch) (rev a) else rev a @ takeWhile (\<lambda>x. x \<noteq> ch) [c])"
    by (auto simp: takeWhile_append)
  with Cons show ?case
    by (subst strrchr_loop.simps) (auto simp: Let_def)
qed

lemma memrchr_loop_spec:
  "bytes_at m s bs \<Longrightarrow> memrchr_loop m uc (s + length bs - 1) (length bs) =
     Some (if uc \<in> set bs then s + length bs - Suc (length (takeWhile (\<lambda>x. x \<noteq> uc) (rev bs))) else NULL)"
proof (induction bs rule: rev_induct)
  case (snoc b bs)
  then show ?case by (auto simp: bytes_at_append)
qed simp

lemma strlen_loop_spec: "cstr m s a \<Longrightarrow> strlen_loop m s k = Some (k + of_nat (length a))"
proof (induction a arbitrary: s k)
  case Nil
  then show ?case by (subst strlen_loop.simps) simp
next
  case (Cons c a)
  then show ?case by (subst strlen_loop.simps) (simp add: algebra_simps)
qed

lemma strlen_small: "cstr m s a \<Longrightarrow> length a < 2 ^ 32 \<Longrightarrow> strlen m s = Some (length a)"
  by (simp add: strlen_def strlen_loop_spec unat_of_nat)

lemma strnlen_loop_spec:
  "unat k \<le> n \<Longrightarrow> ncstr m s (n - unat k) a \<Longrightarrow> unat k + length a < 2 ^ 32 \<Longrightarrow>
   strnlen_loop m n s k = Some (k + of_nat (length a))"
proof (induction a arbitrary: s k)
  case Nil
  then show ?case by (subst strnlen_loop.simps) (cases "n - unat k"; auto)
next
  case (Cons c a)
  then obtain j where j: "n - unat k = Suc j" by (cases "n - unat k") auto
  have k: "unat (k + 1) = Suc (unat k)" using Cons.prems by (intro unat_Suc_u32) simp
  have j': "n - Suc (unat k) = j" "unat k < n" using j by auto
  have "strnlen_loop m n (Suc s) (k + 1) = Some (k + 1 + of_nat (length a))"
    using Cons.prems Cons.IH [of "k + 1" "Suc s"] j j' k by simp
  with Cons.prems j j' show ?case
    by (subst strnlen_loop.simps) (simp add: algebra_simps)
qed

lemma strnlen_spec: "ncstr m s n a \<Longrightarrow> length a < 2 ^ 32 \<Longrightarrow> strnlen m s n = Some (length a)"
  by (simp add: strnlen_def strnlen_loop_spec unat_of_nat)

lemma in_set_loop_spec: "cstr m p b \<Longrightarrow> c \<noteq> 0 \<Longrightarrow> in_set_loop m c p = Some (c \<in> set b)"
proof (induction b arbitrary: p)
  case Nil
  then show ?case by (subst in_set_loop.simps) simp
next
  case (Cons d b)
  then show ?case by (subst in_set_loop.simps) auto
qed

lemma to_int_count: "0 \<le> i \<Longrightarrow> nat i + Suc l < 2 ^ 31 \<Longrightarrow> to_int (i + 1) = Some (i + 1)"
  by (simp add: to_int_def INT_MIN_def INT_MAX_def)

lemma strcspn_loop_spec:
  "cstr m s2 b \<Longrightarrow> cstr m s1 a \<Longrightarrow> 0 \<le> i \<Longrightarrow> nat i + length a < 2 ^ 31 \<Longrightarrow>
   strcspn_loop m s2 s1 i = Some (i + int (length (takeWhile (\<lambda>x. x \<notin> set b) a)))"
proof (induction a arbitrary: s1 i)
  case Nil
  then show ?case by (subst strcspn_loop.simps) simp
next
  case (Cons c a)
  then have "to_int (i + 1) = Some (i + 1)" by (intro to_int_count) auto
  with Cons.prems Cons.IH [of "Suc s1" "i + 1"] show ?case
    by (subst strcspn_loop.simps) (auto simp: in_set_loop_spec)
qed

lemma strspn_loop_spec:
  "cstr m s2 b \<Longrightarrow> cstr m s1 a \<Longrightarrow> 0 \<le> i \<Longrightarrow> nat i + length a < 2 ^ 31 \<Longrightarrow>
   strspn_loop m s2 s1 i = Some (i + int (length (takeWhile (\<lambda>x. x \<in> set b) a)))"
proof (induction a arbitrary: s1 i)
  case Nil
  then show ?case by (subst strspn_loop.simps) simp
next
  case (Cons c a)
  then have "to_int (i + 1) = Some (i + 1)" by (intro to_int_count) auto
  with Cons.prems Cons.IH [of "Suc s1" "i + 1"] show ?case
    by (subst strspn_loop.simps) (auto simp: in_set_loop_spec)
qed

lemma strcspn_spec:
  "cstr m s1 a \<Longrightarrow> cstr m s2 b \<Longrightarrow> length a < 2 ^ 31 \<Longrightarrow>
   strcspn m s1 s2 = Some (length (takeWhile (\<lambda>x. x \<notin> set b) a))"
  by (simp add: strcspn_def strcspn_loop_spec)

lemma strspn_spec:
  "cstr m s1 a \<Longrightarrow> cstr m s2 b \<Longrightarrow> length a < 2 ^ 31 \<Longrightarrow>
   strspn m s1 s2 = Some (length (takeWhile (\<lambda>x. x \<in> set b) a))"
  by (simp add: strspn_def strspn_loop_spec)

lemma strpbrk_loop_spec:
  "cstr m s2 b \<Longrightarrow> cstr m s1 a \<Longrightarrow> strpbrk_loop m s2 s1 =
     Some (if set a \<inter> set b = {} then NULL else s1 + length (takeWhile (\<lambda>x. x \<notin> set b) a))"
proof (induction a arbitrary: s1)
  case Nil
  then show ?case by (subst strpbrk_loop.simps) simp
next
  case (Cons c a)
  then show ?case by (subst strpbrk_loop.simps) (auto simp: in_set_loop_spec)
qed

subsection \<open>Substring search finds the first occurrence\<close>

fun find_sub :: "'a list \<Rightarrow> 'a list \<Rightarrow> nat option" where
  "find_sub [] b = (if b = [] then Some 0 else None)"
| "find_sub (x # a) b = (if prefix b (x # a) then Some 0 else map_option Suc (find_sub a b))"

lemma find_sub_None: "find_sub a b = None \<longleftrightarrow> \<not> sublist b a"
  by (induction a) (auto simp: sublist_Cons_right)

lemma find_sub_Some:
  "find_sub a b = Some i \<Longrightarrow>
   i \<le> length a \<and> prefix b (drop i a) \<and> (\<forall>j<i. \<not> prefix b (drop j a))"
proof (induction a arbitrary: i)
  case Nil
  then show ?case by (simp split: if_splits)
next
  case (Cons x a)
  show ?case
  proof (cases "prefix b (x # a)")
    case False
    with Cons.prems obtain k where k: "find_sub a b = Some k" "i = Suc k" by auto
    have "\<not> prefix b (drop j (x # a))" if "j < i" for j
      using that k Cons.IH [OF k(1)] False by (cases j) auto
    with Cons.IH [OF k(1)] k show ?thesis by simp
  qed (use Cons.prems in simp)
qed

lemma match_loop_spec: "cstr m p1 a \<Longrightarrow> cstr m p2 b \<Longrightarrow> match_loop m p1 p2 = Some (prefix b a)"
proof (induction b arbitrary: p1 p2 a)
  case Nil
  then show ?case by (subst match_loop.simps) simp
next
  case (Cons d b)
  then show ?case by (subst match_loop.simps) (cases a; auto)
qed

lemma casematch_loop_spec:
  "cstr m p1 a \<Longrightarrow> cstr m p2 b \<Longrightarrow> casematch_loop m p1 p2 = Some (prefix (map lower b) (map lower a))"
proof (induction b arbitrary: p1 p2 a)
  case Nil
  then show ?case by (subst casematch_loop.simps) simp
next
  case (Cons d b)
  then show ?case by (subst casematch_loop.simps) (cases a; auto simp: tolower_eq_iff)
qed

definition ptr_of :: "addr \<Rightarrow> nat option \<Rightarrow> addr" where
  "ptr_of p i = (case i of None \<Rightarrow> NULL | Some k \<Rightarrow> p + k)"

lemma strstr_loop_spec:
  "cstr m s2 b \<Longrightarrow> b \<noteq> [] \<Longrightarrow> cstr m s1 a \<Longrightarrow> strstr_loop m s2 s1 = Some (ptr_of s1 (find_sub a b))"
proof (induction a arbitrary: s1)
  case Nil
  then show ?case by (subst strstr_loop.simps) (simp add: ptr_of_def)
next
  case (Cons c a)
  have "match_loop m s1 s2 = Some (prefix b (c # a))"
    using Cons.prems by (intro match_loop_spec) auto
  with Cons show ?case
    by (subst strstr_loop.simps) (auto simp: ptr_of_def split: option.splits)
qed

lemma strstr_spec:
  assumes "cstr m s1 a" and "cstr m s2 b"
  shows "strstr m s1 s2 = Some (ptr_of s1 (find_sub a b))"
proof (cases b)
  case Nil
  then show ?thesis using assms by (cases a) (auto simp: strstr_def ptr_of_def)
next
  case (Cons d b')
  then show ?thesis using assms by (simp add: strstr_def strstr_loop_spec)
qed

lemma strcasestr_spec:
  "cstr m s2 b \<Longrightarrow> cstr m s1 a \<Longrightarrow> a \<noteq> [] \<or> b \<noteq> [] \<Longrightarrow>
   strcasestr m s1 s2 =
     Some (if b = [] then s1 else ptr_of s1 (find_sub (map lower a) (map lower b)))"
proof (induction a arbitrary: s1)
  case Nil
  then show ?case by (subst strcasestr.simps) (simp add: ptr_of_def)
next
  case (Cons c a)
  have "casematch_loop m s1 s2 = Some (prefix (map lower b) (map lower (c # a)))"
    using Cons.prems by (intro casematch_loop_spec) auto
  with Cons show ?case
    by (subst strcasestr.simps) (auto simp: ptr_of_def split: option.splits)
qed

lemma memmem_loop_spec:
  assumes "bytes_at m h hs" and "bytes_at m n ns" and "ns \<noteq> []" and "length ns \<le> length hs"
  shows "i \<le> length hs \<Longrightarrow>
    memmem_loop m h (length hs) n (length ns) i = Some (ptr_of (h + i) (find_sub (drop i hs) ns))"
proof (induction "length hs - i" arbitrary: i)
  case 0
  then have i: "i = length hs" by simp
  have "0 < length ns" using assms by simp
  then have "\<not> length hs \<le> length hs - length ns" using assms(4) by arith
  with i assms show ?case by (subst memmem_loop.simps) (simp add: ptr_of_def)
next
  case (Suc j)
  then have i: "i < length hs" by simp
  have IH: "memmem_loop m h (length hs) n (length ns) (Suc i) =
      Some (ptr_of (h + Suc i) (find_sub (drop (Suc i) hs) ns))"
    using Suc by (intro Suc.hyps(1)) auto
  have eq: "find_sub (drop i hs) ns =
      (if prefix ns (drop i hs) then Some 0 else map_option Suc (find_sub (drop (Suc i) hs) ns))"
    using i find_sub.simps(2) [of "hs ! i" "drop (Suc i) hs" ns]
    by (simp only: Cons_nth_drop_Suc)
  show ?case
  proof (cases "i \<le> length hs - length ns")
    case False
    then have "\<not> sublist ns (drop i hs)" using sublist_length_le [of ns "drop i hs"] assms by auto
    with False show ?thesis
      by (subst memmem_loop.simps) (simp add: ptr_of_def find_sub_None [THEN iffD2])
  next
    case True
    have bi: "bytes_at m (h + i) (take (length ns) (drop i hs))"
      using assms(1) True assms(4) by (auto simp: bytes_at_iff add.assoc)
    have len: "length (take (length ns) (drop i hs)) = length ns" using True assms(4) by auto
    have "memcmp m (h + i) n (length ns) = Some (cmp3 (take (length ns) (drop i hs)) ns)"
      using memcmp_spec [OF bi assms(2) len] len by simp
    moreover have "take (length ns) (drop i hs) = ns \<longleftrightarrow> prefix ns (drop i hs)"
      by (metis append_take_drop_id prefixI append_eq_conv_conj prefixE)
    moreover have "m (h + i) = Some (hs ! i)" "m n = Some (hd ns)"
      using assms i by (auto simp: bytes_at_iff neq_Nil_conv)
    moreover have "hs ! i = hd ns" if "prefix ns (drop i hs)"
      using that i assms(3) by (auto simp: prefix_def Cons_nth_drop_Suc [symmetric] neq_Nil_conv)
    ultimately show ?thesis using True IH eq
      by (subst memmem_loop.simps) (auto simp: cmp3_zero_iff ptr_of_def split: option.splits)
  qed
qed

text \<open>
  \<open>strlen\<close> of a NUL-terminated string returns for every length; the \<open>unsigned int\<close> counter
  makes the result the length modulo $2^{32}$, so it is the length exactly below 4 GiB.
\<close>

theorem strlen_mod: "cstr m s a \<Longrightarrow> strlen m s = Some (length a mod 2 ^ 32)"
  by (simp add: strlen_def strlen_loop_spec unat_of_nat)

theorem strlen_mod_witness:
  "strlen (image_at 5 [104, 105, 0]) 5 = Some 2"
  using strlen_mod [of "image_at 5 [104, 105, 0]" 5 "[104, 105]"] by (simp add: image_at_def)

text \<open>
  C37. \<open>strstr\<close> returns the first occurrence: for every pair of C strings it returns without
  touching unmapped memory; NULL exactly where the needle is no contiguous part of the haystack,
  and otherwise the address of the least position at which the needle starts.
\<close>

theorem strstr_first_occurrence:
  assumes "cstr m s1 a" and "cstr m s2 b"
  shows "\<exists>r. strstr m s1 s2 = Some r \<and>
    (if sublist b a
     then \<exists>i\<le>length a. r = s1 + i \<and> prefix b (drop i a) \<and> (\<forall>j<i. \<not> prefix b (drop j a))
     else r = NULL)"
proof (cases "find_sub a b")
  case None
  then have "\<not> sublist b a" by (simp add: find_sub_None)
  with None show ?thesis using strstr_spec [OF assms] by (simp add: ptr_of_def)
next
  case (Some i)
  then have "sublist b a" using find_sub_None [of a b] by simp
  then show ?thesis
    using assms Some find_sub_Some [OF Some] by (auto simp: strstr_spec ptr_of_def)
qed

theorem strstr_first_occurrence_witness:
  "\<exists>r. strstr (image_at 1 [97, 98, 98, 0, 98, 0]) 1 5 = Some r \<and>
    (if sublist [98::byte] [97, 98, 98]
     then \<exists>i\<le>length [97::byte, 98, 98]. r = 1 + i \<and> prefix [98] (drop i [97::byte, 98, 98]) \<and>
       (\<forall>j<i. \<not> prefix [98::byte] (drop j [97, 98, 98]))
     else r = NULL)"
  by (rule strstr_first_occurrence) (simp_all add: image_at_def)

text \<open>
  \<open>memmem\<close> agrees with \<open>strstr\<close>'s specification on raw memory: it returns the first position
  of the needle in the haystack, NULL where there is none, and reads only the two regions.
\<close>

theorem memmem_correct:
  assumes "bytes_at m h hs" and "bytes_at m n ns"
  shows "memmem m h (length hs) n (length ns) = Some (ptr_of h (find_sub hs ns))"
proof (cases "ns = []")
  case True
  have "find_sub hs [] = Some 0" by (cases hs) auto
  with True show ?thesis by (simp add: memmem_def ptr_of_def)
next
  case False
  show ?thesis
  proof (cases "length hs < length ns")
    case True
    then have "find_sub hs ns = None"
      using sublist_length_le [of ns hs] by (auto simp: find_sub_None)
    with True False show ?thesis by (simp add: memmem_def ptr_of_def)
  next
    case nlt: False
    with False assms memmem_loop_spec [OF assms False, of 0] show ?thesis
      by (simp add: memmem_def)
  qed
qed

theorem memmem_correct_witness:
  "memmem (image_at 1 [7, 0, 9, 0, 9]) 1 3 4 2 = Some 2"
proof -
  have l: "length [7::byte, 0, 9] = 3" "length [0::byte, 9] = 2" by simp_all
  show ?thesis
    using memmem_correct [of "image_at 1 [7, 0, 9, 0, 9]" 1 "[7, 0, 9]" 4 "[0, 9]"]
    unfolding l by (simp add: image_at_def ptr_of_def)
qed

text \<open>
  \<open>strcasestr\<close> of an empty haystack and an empty needle is NULL, although the needle occurs
  there; \<open>strstr\<close>, whose first test is the empty needle, returns the haystack.
\<close>

theorem strcasestr_empty:
  "m s1 = Some 0 \<Longrightarrow> m s2 = Some 0 \<Longrightarrow> strcasestr m s1 s2 = Some NULL \<and> strstr m s1 s2 = Some s1"
  by (simp add: strcasestr.simps strstr_def)

theorem strcasestr_empty_witness:
  "strcasestr (image_at 3 [0, 0]) 3 4 = Some NULL \<and> strstr (image_at 3 [0, 0]) 3 4 = Some 3"
  by (rule strcasestr_empty) (simp_all add: image_at_def)

text \<open>\<open>ffs\<close> finds the least set bit.\<close>

lemma ctz_least:
  assumes "i \<noteq> 0"
  shows "bit i (ctz i) \<and> (\<forall>n<ctz i. \<not> bit i n) \<and> ctz i < 32"
proof -
  obtain n where "bit i n" using assms by (auto simp: bit_eq_iff)
  moreover from this have "n < 32" using bit_imp_le_length [of i n] by simp
  ultimately have "takeWhile (\<lambda>n. \<not> bit i n) [0..<32] \<noteq> [0..<32]"
    by (auto simp: takeWhile_eq_all_conv)
  then have "ctz i \<noteq> 32"
    using takeWhile_eq_take [of "\<lambda>n. \<not> bit i n" "[0..<32]"] by (auto simp: ctz_def)
  moreover have "ctz i \<le> 32"
    using length_takeWhile_le [of "\<lambda>n. \<not> bit i n" "[0..<32]"] by (simp add: ctz_def)
  ultimately have lt: "ctz i < 32" by simp
  have "\<not> bit i n" if "n < ctz i" for n
    using that lt nth_mem [of n "takeWhile (\<lambda>n. \<not> bit i n) [0..<32]"]
      takeWhile_nth [of n "\<lambda>n. \<not> bit i n" "[0..<32]"]
    by (auto simp: ctz_def dest: set_takeWhileD)
  moreover have "bit i (ctz i)"
    using nth_length_takeWhile [of "\<lambda>n. \<not> bit i n" "[0..<32]"] lt by (simp add: ctz_def)
  ultimately show ?thesis using lt by blast
qed

lemma ffs_least:
  "ffs i = 0 \<and> i = 0 \<or> (\<exists>k<32. ffs i = int k + 1 \<and> bit i k \<and> (\<forall>n<k. \<not> bit i n))"
  using ctz_least [of i] by (auto simp: ffs_def)

end
