(* ===== verification/StrCopy.thy ===== *)
theory StrCopy
  imports StrSearch
begin

section \<open>Copying, concatenation and tokens of string/string.c\<close>

text \<open>
  The functions of string/string.c that write memory. Each loop threads the memory, reads again
  what the code reads again after a write, and keeps the width of the code's counters, so an
  overlap of source and destination behaves as it does in the code.
\<close>

subsection \<open>Copies\<close>

partial_function (option) strcpy_loop :: "mem \<Rightarrow> addr \<Rightarrow> addr \<Rightarrow> u32 \<Rightarrow> mem option" where
  "strcpy_loop m dest src i = do {
     x \<leftarrow> m (src + unat i);
     m' \<leftarrow> store m (dest + unat i) x;
     y \<leftarrow> m' (src + unat i);
     if y \<noteq> 0 then strcpy_loop m' dest src (i + 1) else Some m' }"

definition strcpy :: "mem \<Rightarrow> addr \<Rightarrow> addr \<Rightarrow> (mem \<times> addr) option" where
  "strcpy m dest src = do { m' \<leftarrow> strcpy_loop m dest src 0; Some (m', dest) }"

partial_function (option) strncpy_loop :: "mem \<Rightarrow> addr \<Rightarrow> addr \<Rightarrow> nat \<Rightarrow> nat \<Rightarrow> mem option" where
  "strncpy_loop m dest src n i =
     (if \<not> i < n then Some m
      else do {
        x \<leftarrow> m (src + i);
        if x \<noteq> 0 then do {
          m' \<leftarrow> store m (dest + i) x;
          strncpy_loop m' dest src n (i + 1) }
        else memset m (dest + i) 0 (n - i) })"

definition strncpy :: "mem \<Rightarrow> addr \<Rightarrow> addr \<Rightarrow> nat \<Rightarrow> (mem \<times> addr) option" where
  "strncpy m dest src n = do { m' \<leftarrow> strncpy_loop m dest src n 0; Some (m', dest) }"

partial_function (option) stpcpy :: "mem \<Rightarrow> addr \<Rightarrow> addr \<Rightarrow> (mem \<times> addr) option" where
  "stpcpy m dest src = do {
     x \<leftarrow> m src;
     if x \<noteq> 0 then do { m' \<leftarrow> store m dest x; stpcpy m' (dest + 1) (src + 1) }
     else do { m' \<leftarrow> store m dest 0; Some (m', dest) } }"

partial_function (option) stpncpy_copy ::
  "mem \<Rightarrow> addr \<Rightarrow> addr \<Rightarrow> nat \<Rightarrow> nat \<Rightarrow> (mem \<times> nat) option" where
  "stpncpy_copy m dest src n i =
     (if \<not> i < n then Some (m, i)
      else do {
        x \<leftarrow> m (src + i);
        if x \<noteq> 0 then do { m' \<leftarrow> store m (dest + i) x; stpncpy_copy m' dest src n (i + 1) }
        else Some (m, i) })"

partial_function (option) stpncpy_fill :: "mem \<Rightarrow> addr \<Rightarrow> nat \<Rightarrow> nat \<Rightarrow> mem option" where
  "stpncpy_fill m dest n i =
     (if \<not> i < n then Some m
      else do { m' \<leftarrow> store m (dest + i) 0; stpncpy_fill m' dest n (i + 1) })"

definition stpncpy :: "mem \<Rightarrow> addr \<Rightarrow> addr \<Rightarrow> nat \<Rightarrow> (mem \<times> addr) option" where
  "stpncpy m dest src n = do {
     (m', i) \<leftarrow> stpncpy_copy m dest src n 0;
     m'' \<leftarrow> stpncpy_fill m' dest n i;
     Some (m'', dest + i) }"

partial_function (option) memccpy_loop ::
  "mem \<Rightarrow> addr \<Rightarrow> addr \<Rightarrow> byte \<Rightarrow> nat \<Rightarrow> nat \<Rightarrow> (mem \<times> addr) option" where
  "memccpy_loop m d s uc n i =
     (if \<not> i < n then Some (m, NULL)
      else do {
        x \<leftarrow> m (s + i);
        m' \<leftarrow> store m (d + i) x;
        y \<leftarrow> m' (s + i);
        if y = uc then Some (m', d + i + 1) else memccpy_loop m' d s uc n (i + 1) })"

definition memccpy :: "mem \<Rightarrow> addr \<Rightarrow> addr \<Rightarrow> int \<Rightarrow> nat \<Rightarrow> (mem \<times> addr) option" where
  "memccpy m dest src c n = memccpy_loop m dest src (word_of_int c) n 0"

text \<open>\<open>memmove\<close>: both loops run on an \<open>int\<close>, the backward one from \<open>n - 1\<close> converted to \<open>int\<close>.\<close>

partial_function (option) memmove_up :: "mem \<Rightarrow> addr \<Rightarrow> addr \<Rightarrow> nat \<Rightarrow> int \<Rightarrow> mem option" where
  "memmove_up m dest src n i =
     (if \<not> nat i < n then Some m
      else do {
        x \<leftarrow> m (src + nat i);
        m' \<leftarrow> store m (dest + nat i) x;
        i' \<leftarrow> to_int (i + 1);
        memmove_up m' dest src n i' })"

partial_function (option) memmove_down :: "mem \<Rightarrow> addr \<Rightarrow> addr \<Rightarrow> int \<Rightarrow> mem option" where
  "memmove_down m dest src i =
     (if \<not> 0 \<le> i then Some m
      else do {
        x \<leftarrow> m (src + nat i);
        m' \<leftarrow> store m (dest + nat i) x;
        memmove_down m' dest src (i - 1) })"

definition memmove :: "mem \<Rightarrow> addr \<Rightarrow> addr \<Rightarrow> nat \<Rightarrow> (mem \<times> addr) option" where
  "memmove m dest src n = do {
     m' \<leftarrow> (if dest < src then memmove_up m dest src n 0
           else memmove_down m dest src (cast_int (int n - 1)));
     Some (m', dest) }"

definition mempcpy :: "mem \<Rightarrow> addr \<Rightarrow> addr \<Rightarrow> nat \<Rightarrow> (mem \<times> addr) option" where
  "mempcpy m dest src n = do { m' \<leftarrow> memcpy m dest src n; Some (m', dest + n) }"

subsection \<open>Concatenation and bounded copies\<close>

text \<open>\<open>strcat\<close> keeps the length in an \<open>int\<close>.\<close>

definition strcat :: "mem \<Rightarrow> addr \<Rightarrow> addr \<Rightarrow> (mem \<times> addr) option" where
  "strcat m s1 s2 = do {
     k \<leftarrow> strlen m s1;
     let len = cast_int (int k);
     (m', d) \<leftarrow> strcpy m (nat (int s1 + len)) s2;
     Some (m', nat (int d - len)) }"

partial_function (option) strncat_loop ::
  "mem \<Rightarrow> addr \<Rightarrow> nat \<Rightarrow> addr \<Rightarrow> nat \<Rightarrow> nat \<Rightarrow> (mem \<times> nat) option" where
  "strncat_loop m dest len src n i =
     (if \<not> i < n then Some (m, i)
      else do {
        x \<leftarrow> m (src + i);
        if x \<noteq> 0 then do {
          m' \<leftarrow> store m (dest + (len + i)) x;
          strncat_loop m' dest len src n (i + 1) }
        else Some (m, i) })"

definition strncat :: "mem \<Rightarrow> addr \<Rightarrow> addr \<Rightarrow> nat \<Rightarrow> (mem \<times> addr) option" where
  "strncat m dest src n = do {
     len \<leftarrow> strlen m dest;
     (m', i) \<leftarrow> strncat_loop m dest len src n 0;
     m'' \<leftarrow> store m' (dest + (len + i)) 0;
     Some (m'', dest) }"

text \<open>The two loops of \<open>strlcpy\<close>; the first decrements \<open>size\<close> before each test.\<close>

partial_function (option) strlcpy_copy ::
  "mem \<Rightarrow> addr \<Rightarrow> addr \<Rightarrow> nat \<Rightarrow> nat \<Rightarrow> (mem \<times> addr \<times> addr \<times> nat) option" where
  "strlcpy_copy m dst src sz len =
     (let sz1 = sz - 1 in
      if sz1 = 0 then Some (m, dst, src, len)
      else do {
        x \<leftarrow> m src;
        if x \<noteq> 0 then do {
          m' \<leftarrow> store m dst x;
          strlcpy_copy m' (dst + 1) (src + 1) sz1 (len + 1) }
        else Some (m, dst, src, len) })"

partial_function (option) strlcpy_rest :: "mem \<Rightarrow> addr \<Rightarrow> nat \<Rightarrow> nat option" where
  "strlcpy_rest m src len = do {
     x \<leftarrow> m src; if x \<noteq> 0 then strlcpy_rest m (src + 1) (len + 1) else Some len }"

definition strlcpy :: "mem \<Rightarrow> addr \<Rightarrow> addr \<Rightarrow> nat \<Rightarrow> (mem \<times> nat) option" where
  "strlcpy m dst src sz = do {
     (m', src', len) \<leftarrow>
       (if sz \<noteq> 0 then do {
          (m1, dst1, src1, len1) \<leftarrow> strlcpy_copy m dst src sz 0;
          m2 \<leftarrow> store m1 dst1 0;
          Some (m2, src1, len1) }
        else Some (m, src, 0));
     len' \<leftarrow> strlcpy_rest m' src' len;
     Some (m', len') }"

definition strlcat :: "mem \<Rightarrow> addr \<Rightarrow> addr \<Rightarrow> nat \<Rightarrow> (mem \<times> nat) option" where
  "strlcat m dst src sz = do {
     dstlen \<leftarrow> strnlen m dst sz;
     if dstlen = sz then do { k \<leftarrow> strlen m src; Some (m, sz + k) }
     else do {
       (m', k) \<leftarrow> strlcpy m (dst + dstlen) src (sz - dstlen);
       Some (m', dstlen + k) } }"

partial_function (option) strxfrm_loop ::
  "mem \<Rightarrow> addr \<Rightarrow> addr \<Rightarrow> nat \<Rightarrow> nat \<Rightarrow> (mem \<times> nat) option" where
  "strxfrm_loop m dest src n cur =
     (if 0 < n then do {
        x \<leftarrow> m src;
        m' \<leftarrow> store m dest x;
        if x \<noteq> 0 then strxfrm_loop m' (dest + 1) (src + 1) (n - 1) (cur + 1)
        else Some (m', cur) }
      else do { len \<leftarrow> strlcpy_rest m src cur; Some (m, len) })"

definition strxfrm :: "mem \<Rightarrow> addr \<Rightarrow> addr \<Rightarrow> nat \<Rightarrow> (mem \<times> nat) option" where
  "strxfrm m dest src n = strxfrm_loop m dest src n 0"

subsection \<open>Tokens\<close>

text \<open>
  \<open>strtok_r\<close> returns the memory, the token and the new value of \<open>*lasts\<close>. \<open>strtok\<close> is the same code
  with the static \<open>string_common.next_token\<close> in place of \<open>*lasts\<close>. \<open>strsep\<close> returns the memory, the
  token and the new value of \<open>*string_ptr\<close>; its scan is the loop of \<open>strcspn\<close> on pointers.
\<close>

definition strtok_r :: "mem \<Rightarrow> addr \<Rightarrow> addr \<Rightarrow> addr \<Rightarrow> (mem \<times> addr \<times> addr) option" where
  "strtok_r m s0 sep lasts = do {
     let s1 = (if s0 = NULL then lasts else s0);
     k \<leftarrow> strspn m s1 sep;
     let s = s1 + k;
     x \<leftarrow> m s;
     if x = 0 then Some (m, NULL, s)
     else do {
       l \<leftarrow> strcspn m s sep;
       let tokend = s + l;
       y \<leftarrow> m tokend;
       if y \<noteq> 0 then do { m' \<leftarrow> store m tokend 0; Some (m', s, tokend + 1) }
       else Some (m, s, tokend) } }"

definition strtok :: "mem \<Rightarrow> addr \<Rightarrow> addr \<Rightarrow> addr \<Rightarrow> (mem \<times> addr \<times> addr) option" where
  "strtok m s0 s2 next_token = do {
     let s1 = (if s0 = NULL then next_token else s0);
     k \<leftarrow> strspn m s1 s2;
     let s = s1 + k;
     x \<leftarrow> m s;
     if x = 0 then Some (m, NULL, s)
     else do {
       l \<leftarrow> strcspn m s s2;
       let tokend = s + l;
       y \<leftarrow> m tokend;
       if y \<noteq> 0 then do { m' \<leftarrow> store m tokend 0; Some (m', s, tokend + 1) }
       else Some (m, s, tokend) } }"

partial_function (option) strsep_loop :: "mem \<Rightarrow> addr \<Rightarrow> addr \<Rightarrow> addr option" where
  "strsep_loop m delimiter p = do {
     c \<leftarrow> m p;
     if c = 0 then Some p
     else do {
       found \<leftarrow> in_set_loop m c delimiter;
       if found then Some p else strsep_loop m delimiter (p + 1) } }"

definition strsep :: "mem \<Rightarrow> addr \<Rightarrow> addr \<Rightarrow> (mem \<times> addr \<times> addr) option" where
  "strsep m string_ptr delimiter =
     (if string_ptr = NULL then Some (m, NULL, NULL)
      else do {
        p \<leftarrow> strsep_loop m delimiter string_ptr;
        c \<leftarrow> m p;
        if c = 0 then Some (m, string_ptr, NULL)
        else do { m' \<leftarrow> store m p 0; Some (m', string_ptr, p + 1) } })"

subsection \<open>What the copies write\<close>

lemma strcpy_loop_spec:
  "cstr m (src + unat i) a \<Longrightarrow> mapped m (dest + unat i) (Suc (length a)) \<Longrightarrow>
   apart (dest + unat i) (Suc (length a)) (src + unat i) (Suc (length a)) \<Longrightarrow>
   unat i + length a < 2 ^ 32 \<Longrightarrow>
   strcpy_loop m dest src i = Some (put m (dest + unat i) (a @ [0]))"
proof (induction a arbitrary: m i)
  case Nil
  then show ?case by (subst strcpy_loop.simps) (auto simp: mapped_Suc apart_def)
next
  case (Cons c a)
  have i: "unat (i + 1) = Suc (unat i)" using Cons.prems by (intro unat_Suc_u32) simp
  let ?m = "m(dest + unat i \<mapsto> c)"
  have ne: "src + unat i \<noteq> dest + unat i" using Cons.prems(3) by (auto simp: apart_def)
  have c: "c \<noteq> 0" "m (src + unat i) = Some c" using Cons.prems by auto
  have mp: "m (dest + unat i) \<noteq> None" using Cons.prems by (simp add: mapped_Suc)
  have "cstr ?m (src + unat (i + 1)) a"
    using Cons.prems i by (auto simp: cstr_upd apart_def)
  moreover have "mapped ?m (dest + unat (i + 1)) (Suc (length a))"
    using Cons.prems i by (simp add: mapped_Suc [of m "dest + unat i"])
  moreover have "apart (dest + unat (i + 1)) (Suc (length a)) (src + unat (i + 1)) (Suc (length a))"
    using Cons.prems i by (auto simp: apart_def)
  moreover have "unat (i + 1) + length a < 2 ^ 32" using Cons.prems(4) i by simp
  ultimately have "strcpy_loop ?m dest src (i + 1) = Some (put ?m (dest + unat (i + 1)) (a @ [0]))"
    by (rule Cons.IH)
  with c mp ne i show ?case by (subst strcpy_loop.simps) auto
qed

lemma strcpy_spec:
  "cstr m src a \<Longrightarrow> mapped m dest (Suc (length a)) \<Longrightarrow>
   apart dest (Suc (length a)) src (Suc (length a)) \<Longrightarrow> length a < 2 ^ 32 \<Longrightarrow>
   strcpy m dest src = Some (put m dest (a @ [0]), dest)"
  using strcpy_loop_spec [of m src 0 a dest] by (simp add: strcpy_def)

lemma stpcpy_spec:
  "cstr m src a \<Longrightarrow> mapped m dest (Suc (length a)) \<Longrightarrow>
   apart dest (Suc (length a)) src (Suc (length a)) \<Longrightarrow>
   stpcpy m dest src = Some (put m dest (a @ [0]), dest + length a)"
proof (induction a arbitrary: m dest src)
  case Nil
  then show ?case by (subst stpcpy.simps) (auto simp: mapped_Suc)
next
  case (Cons c a)
  have "cstr (m(dest \<mapsto> c)) (Suc src) a"
    using Cons.prems by (auto simp: cstr_upd apart_def)
  moreover have "mapped (m(dest \<mapsto> c)) (Suc dest) (Suc (length a))"
    using Cons.prems by (simp add: mapped_Suc [of m dest])
  moreover have "apart (Suc dest) (Suc (length a)) (Suc src) (Suc (length a))"
    using Cons.prems by (auto simp: apart_def)
  ultimately have "stpcpy (m(dest \<mapsto> c)) (Suc dest) (Suc src) =
      Some (put (m(dest \<mapsto> c)) (Suc dest) (a @ [0]), Suc dest + length a)"
    by (rule Cons.IH)
  with Cons.prems show ?case by (subst stpcpy.simps) (auto simp: mapped_Suc)
qed

text \<open>Storing the first byte of a bounded copy leaves what remains to be copied as it was.\<close>

lemma ncstr_step:
  assumes "ncstr m src (Suc k) (c # a)" and "mapped m dest (Suc k)" and "apart dest (Suc k) src (Suc k)"
  shows "c \<noteq> 0" and "m src = Some c" and "m dest \<noteq> None" and "src \<noteq> dest"
    and "ncstr (m(dest \<mapsto> c)) (Suc src) k a" and "mapped (m(dest \<mapsto> c)) (Suc dest) k"
    and "apart (Suc dest) k (Suc src) k"
  using assms by (auto simp: apart_def ncstr_upd mapped_Suc [of m dest])

lemma strncpy_loop_spec:
  "n = i + k \<Longrightarrow> ncstr m (src + i) k a \<Longrightarrow> mapped m (dest + i) k \<Longrightarrow>
   apart (dest + i) k (src + i) k \<Longrightarrow>
   strncpy_loop m dest src n i = Some (put m (dest + i) (a @ replicate (k - length a) 0))"
proof (induction k arbitrary: m i a)
  case 0
  then show ?case by (subst strncpy_loop.simps) simp
next
  case (Suc k)
  show ?case
  proof (cases a)
    case Nil
    with Suc.prems show ?thesis
      by (subst strncpy_loop.simps) (simp add: memset_mapped del: replicate.simps)
  next
    case (Cons c a')
    note step = ncstr_step [OF Suc.prems(2) [unfolded Cons] Suc.prems(3,4)]
    have "strncpy_loop (m(dest + i \<mapsto> c)) dest src n (Suc i) =
       Some (put (m(dest + i \<mapsto> c)) (dest + Suc i) (a' @ replicate (k - length a') 0))"
      by (rule Suc.IH) (use step Suc.prems in simp_all)
    with Suc.prems step Cons show ?thesis by (subst strncpy_loop.simps) simp
  qed
qed

lemma strncpy_spec:
  "ncstr m src n a \<Longrightarrow> mapped m dest n \<Longrightarrow> apart dest n src n \<Longrightarrow>
   strncpy m dest src n = Some (put m dest (a @ replicate (n - length a) 0), dest)"
  using strncpy_loop_spec [of n 0 n m src a dest] by (simp add: strncpy_def)

lemma stpncpy_copy_spec:
  "n = i + k \<Longrightarrow> ncstr m (src + i) k a \<Longrightarrow> mapped m (dest + i) k \<Longrightarrow>
   apart (dest + i) k (src + i) k \<Longrightarrow>
   stpncpy_copy m dest src n i = Some (put m (dest + i) a, i + length a)"
proof (induction k arbitrary: m i a)
  case 0
  then show ?case by (subst stpncpy_copy.simps) simp
next
  case (Suc k)
  show ?case
  proof (cases a)
    case Nil
    with Suc.prems show ?thesis by (subst stpncpy_copy.simps) simp
  next
    case (Cons c a')
    note step = ncstr_step [OF Suc.prems(2) [unfolded Cons] Suc.prems(3,4)]
    have "stpncpy_copy (m(dest + i \<mapsto> c)) dest src n (Suc i) =
       Some (put (m(dest + i \<mapsto> c)) (dest + Suc i) a', Suc i + length a')"
      by (rule Suc.IH) (use step Suc.prems in simp_all)
    with Suc.prems step Cons show ?thesis by (subst stpncpy_copy.simps) simp
  qed
qed

lemma stpncpy_fill_spec:
  "n = i + k \<Longrightarrow> mapped m (dest + i) k \<Longrightarrow>
   stpncpy_fill m dest n i = Some (put m (dest + i) (replicate k 0))"
proof (induction k arbitrary: m i)
  case 0
  then show ?case by (subst stpncpy_fill.simps) simp
next
  case (Suc k)
  have "stpncpy_fill (m(dest + i \<mapsto> 0)) dest n (Suc i) =
      Some (put (m(dest + i \<mapsto> 0)) (dest + Suc i) (replicate k 0))"
    by (rule Suc.IH) (use Suc.prems in \<open>simp_all add: mapped_Suc [of m "dest + i"]\<close>)
  with Suc.prems show ?case by (subst stpncpy_fill.simps) (simp add: mapped_Suc)
qed

lemma stpncpy_spec:
  assumes "ncstr m src n a" and "mapped m dest n" and "apart dest n src n"
  shows "stpncpy m dest src n =
    Some (put m dest (a @ replicate (n - length a) 0), dest + length a)"
proof -
  have "length a \<le> n" using assms(1) by (rule ncstr_length)
  then show ?thesis
    using assms stpncpy_copy_spec [of n 0 n m src a dest]
      stpncpy_fill_spec [of n "length a" "n - length a" "put m dest a" dest]
      mapped_shift [of m dest n "length a"]
    by (simp add: stpncpy_def put_append)
qed

text \<open>
  \<open>strncpy\<close> and \<open>stpncpy\<close> write exactly \<open>n\<close> bytes, the string and a padding of NULs, from a
  source of which only the first \<open>n\<close> bytes need be readable; \<open>strncpy\<close> returns the destination and
  \<open>stpncpy\<close> the address of the first NUL it wrote, or \<open>dest + n\<close> where it wrote none.
\<close>

theorem strncpy_stpncpy_correct:
  assumes "ncstr m src n a" and "mapped m dest n" and "apart dest n src n"
  shows "strncpy m dest src n = Some (put m dest (a @ replicate (n - length a) 0), dest) \<and>
    stpncpy m dest src n = Some (put m dest (a @ replicate (n - length a) 0), dest + length a)"
  using assms by (simp add: strncpy_spec stpncpy_spec)

theorem strncpy_stpncpy_correct_witness:
  "strncpy (image_at 1 [7, 0, 9, 9, 9]) 3 1 2 =
     Some (put (image_at 1 [7, 0, 9, 9, 9]) 3 ([7] @ replicate (2 - length [7::byte]) 0), 3) \<and>
   stpncpy (image_at 1 [7, 0, 9, 9, 9]) 3 1 2 =
     Some (put (image_at 1 [7, 0, 9, 9, 9]) 3 ([7] @ replicate (2 - length [7::byte]) 0),
       3 + length [7::byte])"
proof (rule strncpy_stpncpy_correct)
  have two: "(2::nat) = Suc (Suc 0)" by simp
  show "ncstr (image_at 1 [7, 0, 9, 9, 9 :: byte]) 1 2 [7]" unfolding two by (simp add: image_at_def)
qed (simp_all add: image_at_def mapped_iff apart_def less_Suc_eq numeral_2_eq_2)

lemma memmove_up_spec:
  "dest < src \<Longrightarrow> 0 \<le> i \<Longrightarrow> nat i + length bs = n \<Longrightarrow> n < 2 ^ 31 \<Longrightarrow>
   bytes_at m (src + nat i) bs \<Longrightarrow> mapped m (dest + nat i) (length bs) \<Longrightarrow>
   memmove_up m dest src n i = Some (put m (dest + nat i) bs)"
proof (induction bs arbitrary: m i)
  case Nil
  then show ?case by (subst memmove_up.simps) simp
next
  case (Cons b bs)
  let ?m = "m(dest + nat i \<mapsto> b)"
  have i: "to_int (i + 1) = Some (i + 1)" "nat (i + 1) = Suc (nat i)" "nat i < n"
    using Cons.prems by (auto simp: to_int_def INT_MIN_def INT_MAX_def)
  have "memmove_up ?m dest src n (i + 1) = Some (put ?m (dest + nat (i + 1)) bs)"
    by (rule Cons.IH)
      (use Cons.prems i in \<open>simp_all add: bytes_at_upd mapped_Suc [of m "dest + nat i"]\<close>)
  with Cons.prems i show ?case by (subst memmove_up.simps) (simp add: mapped_Suc)
qed

lemma memmove_down_spec:
  "src \<le> dest \<Longrightarrow> bytes_at m src bs \<Longrightarrow> mapped m dest (length bs) \<Longrightarrow>
   memmove_down m dest src (int (length bs) - 1) = Some (put m dest bs)"
proof (induction bs arbitrary: m rule: rev_induct)
  case Nil
  then show ?case by (subst memmove_down.simps) simp
next
  case (snoc b bs)
  let ?m = "m(dest + length bs \<mapsto> b)"
  have "memmove_down ?m dest src (int (length bs) - 1) = Some (put ?m dest bs)"
    by (rule snoc.IH)
      (use snoc.prems in \<open>simp_all add: bytes_at_append bytes_at_upd mapped_le [of m dest "Suc (length bs)"]\<close>)
  moreover have "m (dest + length bs) \<noteq> None"
    using snoc.prems(3) mappedD [of m dest "length (bs @ [b])" "length bs"] by simp
  ultimately show ?case using snoc.prems
    by (subst memmove_down.simps) (simp add: bytes_at_append put_snoc)
qed

text \<open>
  C34. \<open>memmove\<close> copies correctly whatever the overlap: below 2 GiB the destination holds the bytes
  the source held before the call, every other byte is unchanged, and only the two regions are
  touched.
\<close>

theorem memmove_correct:
  assumes "bytes_at m src bs" and "mapped m dest (length bs)" and "length bs < 2 ^ 31"
  shows "memmove m dest src (length bs) = Some (put m dest bs, dest)"
proof (cases "dest < src")
  case True
  then show ?thesis
    using assms memmove_up_spec [of dest src 0 bs "length bs" m] by (simp add: memmove_def)
next
  case False
  have "cast_int (int (length bs) - 1) = int (length bs) - 1"
    using assms(3) by (intro cast_int_id) (auto simp: INT_MIN_def INT_MAX_def)
  with False show ?thesis
    using assms memmove_down_spec [of src dest m bs] by (simp add: memmove_def)
qed

theorem memmove_correct_witness:
  "memmove (image_at 1 [7, 8, 9]) 2 1 (length [7::byte, 8]) =
    Some (put (image_at 1 [7, 8, 9]) 2 [7, 8], 2)"
  by (rule memmove_correct) (auto simp: image_at_def mapped_def)

text \<open>
  Above 2 GiB the backward loop of \<open>memmove\<close> starts at \<open>n - 1\<close> converted to \<open>int\<close>, which is
  negative: for $2^{31} < n \le 2^{32}$ and a destination not below the source nothing is copied.
\<close>

theorem memmove_large_backward:
  assumes "2 ^ 31 < n" and "n \<le> 2 ^ 32" and "src \<le> dest"
  shows "memmove m dest src n = Some (m, dest)"
proof -
  define i where "i = int n - 1"
  have "2 ^ 31 \<le> i" "i < 2 ^ 32" using assms unfolding i_def by auto
  then have "(i + 2147483648) mod 4294967296 = i - 2147483648"
    using mod_pos_pos_trivial [of "i - 2147483648" 4294967296]
      mod_add_self2 [of "i - 2147483648" 4294967296] by (simp add: add.commute)
  then have "cast_int i = i - 2 ^ 32"
    unfolding cast_int_def
    by (simp add: signed_take_bit_eq_take_bit_shift take_bit_eq_mod)
  with \<open>i < 2 ^ 32\<close> have "\<not> 0 \<le> cast_int i" by simp
  then have "memmove_down m dest src (cast_int i) = Some m"
    by (subst memmove_down.simps) simp
  with assms(3) show ?thesis by (simp add: memmove_def i_def)
qed

theorem memmove_large_backward_witness:
  "memmove Map.empty 9 9 3000000000 = Some (Map.empty, 9)"
  by (rule memmove_large_backward) simp_all

lemma strlcpy_rest_spec: "cstr m src a \<Longrightarrow> strlcpy_rest m src len = Some (len + length a)"
proof (induction a arbitrary: src len)
  case Nil
  then show ?case by (subst strlcpy_rest.simps) simp
next
  case (Cons c a)
  then show ?case by (subst strlcpy_rest.simps) simp
qed

lemma strlcpy_copy_spec:
  "cstr m src a \<Longrightarrow> mapped m dst (min k (length a)) \<Longrightarrow>
   apart dst (min k (length a)) src (Suc (length a)) \<Longrightarrow>
   strlcpy_copy m dst src (Suc k) len =
     Some (put m dst (take k a), dst + min k (length a), src + min k (length a), len + min k (length a))"
proof (induction k arbitrary: m dst src len a)
  case 0
  then show ?case by (subst strlcpy_copy.simps) simp
next
  case (Suc k)
  show ?case
  proof (cases a)
    case Nil
    with Suc.prems show ?thesis by (subst strlcpy_copy.simps) simp
  next
    case (Cons c a')
    let ?m = "m(dst \<mapsto> c)"
    have ap: "dst < src \<or> Suc (src + length a') < dst"
      using Suc.prems Cons by (auto simp: apart_def)
    have "strlcpy_copy ?m (Suc dst) (Suc src) (Suc k) (Suc len) =
      Some (put ?m (Suc dst) (take k a'), Suc dst + min k (length a'),
        Suc src + min k (length a'), Suc len + min k (length a'))"
      by (rule Suc.IH)
        (use Suc.prems Cons ap in
          \<open>auto simp: cstr_upd apart_def mapped_Suc [of m dst]\<close>)
    with Suc.prems Cons show ?thesis
      by (subst strlcpy_copy.simps) (simp add: mapped_Suc)
  qed
qed

lemma strlcpy_spec:
  assumes "cstr m src a" and "mapped m dst (min sz (Suc (length a)))"
    and "apart dst (min sz (Suc (length a))) src (Suc (length a))"
  shows "strlcpy m dst src sz =
    Some (if sz = 0 then m else put m dst (take (sz - 1) a @ [0]), length a)"
proof (cases sz)
  case 0
  then show ?thesis using assms by (simp add: strlcpy_def strlcpy_rest_spec)
next
  case (Suc k)
  let ?j = "min k (length a)"
  let ?m = "put m dst (take k a)"
  have "apart dst ?j src (Suc (length a))" using assms(3) Suc by (auto simp: apart_def)
  then have copy: "strlcpy_copy m dst src (Suc k) 0 = Some (?m, dst + ?j, src + ?j, ?j)"
    using strlcpy_copy_spec [of m src a dst k 0] assms Suc
    by (simp add: mapped_le [of m dst "min (Suc k) (Suc (length a))"])
  have st: "?m (dst + ?j) \<noteq> None"
    using mappedD [OF mapped_put [OF assms(2)], of ?j dst "take k a"] Suc by simp
  have eq: "?m(dst + ?j \<mapsto> 0) = put m dst (take k a @ [0])"
    by (simp add: put_append min.commute)
  have "cstr (put m dst (take k a @ [0])) src a"
    using assms Suc by (subst cstr_put_other) (auto simp: apart_def)
  then have "cstr (put m dst (take k a @ [0])) (src + ?j) (drop ?j a)"
    by (intro cstr_drop) simp_all
  then have "strlcpy_rest (put m dst (take k a @ [0])) (src + ?j) ?j = Some (length a)"
    using strlcpy_rest_spec by simp
  with copy st eq Suc show ?thesis by (simp add: strlcpy_def)
qed

text \<open>
  C38. \<open>strlcpy\<close> and \<open>strlcat\<close> never write past \<open>size\<close> bytes of the destination, always leave it
  terminated when there was room, truncate the source to what fits and return the length of the
  string they tried to build.
\<close>

theorem strlcpy_strlcat_correct:
  assumes "cstr m src a" and "ncstr m dst n d" and "mapped m dst n"
    and "apart dst n src (Suc (length a))" and "length a < 2 ^ 32" and "length d < 2 ^ 32"
  shows "strlcpy m dst src n =
      Some (if n = 0 then m else put m dst (take (n - 1) a @ [0]), length a) \<and>
    strlcat m dst src n =
      (if length d = n then Some (m, n + length a)
       else Some (put m (dst + length d) (take (n - 1 - length d) a @ [0]), length d + length a))"
proof
  show "strlcpy m dst src n =
      Some (if n = 0 then m else put m dst (take (n - 1) a @ [0]), length a)"
    by (rule strlcpy_spec)
      (use assms in \<open>auto simp: apart_def intro: mapped_le\<close>)
  have le: "length d \<le> n" using assms(2) by (rule ncstr_length)
  have sn: "strnlen m dst n = Some (length d)" using assms by (simp add: strnlen_spec)
  show "strlcat m dst src n =
      (if length d = n then Some (m, n + length a)
       else Some (put m (dst + length d) (take (n - 1 - length d) a @ [0]), length d + length a))"
  proof (cases "length d = n")
    case True
    then show ?thesis using sn assms by (simp add: strlcat_def strlen_small)
  next
    case False
    with le have lt: "length d < n" by simp
    have "strlcpy m (dst + length d) src (n - length d) =
      Some (if n - length d = 0 then m
        else put m (dst + length d) (take (n - length d - 1) a @ [0]), length a)"
      by (rule strlcpy_spec)
        (use assms lt mapped_shift [OF assms(3), of "length d"] in
          \<open>auto simp: apart_def intro: mapped_le\<close>)
    with lt sn False show ?thesis by (simp add: strlcat_def)
  qed
qed

theorem strlcpy_strlcat_correct_witness:
  "strlcpy (image_at 1 [7, 8, 0, 5, 0, 9]) 4 1 3 =
      Some (if (3::nat) = 0 then image_at 1 [7, 8, 0, 5, 0, 9]
        else put (image_at 1 [7, 8, 0, 5, 0, 9]) 4 (take (3 - 1) [7, 8] @ [0]), length [7::byte, 8]) \<and>
   strlcat (image_at 1 [7, 8, 0, 5, 0, 9]) 4 1 3 =
      (if length [5::byte] = 3 then Some (image_at 1 [7, 8, 0, 5, 0, 9], 3 + length [7::byte, 8])
       else Some (put (image_at 1 [7, 8, 0, 5, 0, 9]) (4 + length [5::byte])
         (take (3 - 1 - length [5::byte]) [7, 8] @ [0]), length [5::byte] + length [7::byte, 8]))"
  by (rule strlcpy_strlcat_correct)
    (auto simp: image_at_def mapped_def apart_def numeral_3_eq_3)

lemma strcat_spec:
  assumes "cstr m s1 d" and "cstr m s2 a" and "mapped m (s1 + length d) (Suc (length a))"
    and "apart (s1 + length d) (Suc (length a)) s2 (Suc (length a))"
    and "length d < 2 ^ 31" and "length a < 2 ^ 32"
  shows "strcat m s1 s2 = Some (put m (s1 + length d) (a @ [0]), s1)"
proof -
  have "cast_int (int (length d)) = int (length d)"
    using assms(5) by (intro cast_int_id) (auto simp: INT_MIN_def INT_MAX_def)
  then show ?thesis
    using assms strlen_small [OF assms(1)] strcpy_spec [of m s2 a "s1 + length d"]
    by (simp add: strcat_def nat_int_add)
qed

subsection \<open>Tokens of a string\<close>

text \<open>
  What \<open>strtok_r\<close> cuts a string into: the maximal runs of bytes outside the separator set.
\<close>

function tokens :: "'a set \<Rightarrow> 'a list \<Rightarrow> 'a list list" where
  "tokens B a =
     (let a' = dropWhile (\<lambda>x. x \<in> B) a in
      if a' = [] then []
      else takeWhile (\<lambda>x. x \<notin> B) a' # tokens B (tl (dropWhile (\<lambda>x. x \<notin> B) a')))"
  by pat_completeness auto
termination
proof (relation "measure (\<lambda>(B, a). length a)")
  fix B :: "'a set" and a x
  assume x: "x = dropWhile (\<lambda>x. x \<in> B) a" and "x \<noteq> []"
  then have "0 < length x" by simp
  moreover have "length (dropWhile (\<lambda>x. x \<notin> B) x) \<le> length x" by (rule length_dropWhile_le)
  moreover have "length x \<le> length a" unfolding x by (rule length_dropWhile_le)
  ultimately have "length (tl (dropWhile (\<lambda>x. x \<notin> B) x)) < length a"
    unfolding length_tl by arith
  then show "((B, tl (dropWhile (\<lambda>x. x \<notin> B) x)), B, a) \<in> measure (\<lambda>(B, a). length a)" by simp
qed simp

declare tokens.simps [simp del]

lemma cstr_cong: "cstr m p w \<Longrightarrow> \<forall>x. p \<le> x \<and> x \<le> p + length w \<longrightarrow> m' x = m x \<Longrightarrow> cstr m' p w"
proof (induction w arbitrary: p)
  case (Cons c w)
  then have "cstr m' (Suc p) w" by (intro Cons.IH) auto
  with Cons.prems show ?case by auto
qed simp

text \<open>One call: skip the separators, cut the token, remember where the next one may start.\<close>

lemma strtok_r_step:
  assumes "cstr m p a" and "cstr m sep b" and "length a < 2 ^ 31"
    and "p = (if s0 = NULL then lasts else s0)"
  defines "a' \<equiv> dropWhile (\<lambda>x. x \<in> set b) a"
  defines "w \<equiv> takeWhile (\<lambda>x. x \<notin> set b) a'"
  defines "s \<equiv> p + (length a - length a')"
  shows "strtok_r m s0 sep lasts =
    Some (if a' = [] then (m, NULL, p + length a)
      else if length w = length a' then (m, s, s + length w)
      else (m(s + length w \<mapsto> 0), s, s + length w + 1))" and "cstr m s a'"
proof -
  let ?k = "length (takeWhile (\<lambda>x. x \<in> set b) a)"
  have len: "?k + length a' = length a"
    unfolding a'_def using takeWhile_dropWhile_id [of "\<lambda>x. x \<in> set b" a]
    by (metis length_append)
  have s: "s = p + ?k" unfolding s_def using len by simp
  have span: "strspn m p sep = Some ?k" using assms by (intro strspn_spec)
  have unf: "strtok_r m s0 sep lasts = do {
     x \<leftarrow> m s;
     if x = 0 then Some (m, NULL, s)
     else do {
       l \<leftarrow> strcspn m s sep;
       y \<leftarrow> m (s + l);
       if y \<noteq> 0 then do { m' \<leftarrow> store m (s + l) 0; Some (m', s, s + l + 1) }
       else Some (m, s, s + l) } }"
    unfolding strtok_r_def Let_def assms(4) [symmetric] span s by simp
  show a': "cstr m s a'"
    using cstr_drop [OF assms(1), of ?k] len unfolding s a'_def by (simp add: dropWhile_eq_drop)
  show "strtok_r m s0 sep lasts =
    Some (if a' = [] then (m, NULL, p + length a)
      else if length w = length a' then (m, s, s + length w)
      else (m(s + length w \<mapsto> 0), s, s + length w + 1))"
  proof (cases a')
    case Nil
    then show ?thesis using a' by (simp add: unf s_def)
  next
    case (Cons c cs)
    have cspan: "strcspn m s sep = Some (length w)"
      unfolding w_def using a' assms(2,3) len by (intro strcspn_spec) simp_all
    have x: "m s = Some c" "c \<noteq> 0" using a' Cons by auto
    have wle: "length w \<le> length a'" unfolding w_def by (rule length_takeWhile_le)
    have "m (s + length w) = Some 0" if "length w = length a'"
      using cstr_end [OF a'] that by simp
    moreover have "m (s + length w) = Some (a' ! length w)" "a' ! length w \<noteq> 0"
      if "length w < length a'"
      using cstr_byte [OF a' that] cstr_nonzero [OF a'] that by (auto dest: nth_mem)
    ultimately show ?thesis
      using cspan x wle Cons unfolding unf by (cases "length w = length a'") auto
  qed
qed

text \<open>
  The loop a caller writes around \<open>strtok_r\<close>: call it with the string, then with NULL until it
  returns NULL, and collect the tokens.
\<close>

partial_function (option) strtok_r_all ::
  "mem \<Rightarrow> addr \<Rightarrow> addr \<Rightarrow> addr \<Rightarrow> (mem \<times> addr list) option" where
  "strtok_r_all m s sep lasts = do {
     (m', t, lasts') \<leftarrow> strtok_r m s sep lasts;
     if t = NULL then Some (m', [])
     else do { (m'', ts) \<leftarrow> strtok_r_all m' NULL sep lasts'; Some (m'', t # ts) } }"

lemma strtok_r_all_spec:
  "cstr m p a \<Longrightarrow> cstr m sep b \<Longrightarrow> apart p (Suc (length a)) sep (Suc (length b)) \<Longrightarrow>
   length a < 2 ^ 31 \<Longrightarrow> 0 < p \<Longrightarrow> p = (if s0 = NULL then lasts else s0) \<Longrightarrow>
   \<exists>m' ts. strtok_r_all m s0 sep lasts = Some (m', ts) \<and>
     list_all2 (cstr m') ts (tokens (set b) a) \<and>
     (\<forall>x. x < p \<or> p + length a \<le> x \<longrightarrow> m' x = m x)"
proof (induction "length a" arbitrary: m p a s0 lasts rule: less_induct)
  case less
  define a' where "a' = dropWhile (\<lambda>x. x \<in> set b) a"
  define w where "w = takeWhile (\<lambda>x. x \<notin> set b) a'"
  define r where "r = tl (dropWhile (\<lambda>x. x \<notin> set b) a')"
  define s where "s = p + (length a - length a')"
  note step = strtok_r_step [OF less.prems(1,2,4,6), folded a'_def, folded w_def s_def]
  have le: "length a' \<le> length a" unfolding a'_def by (rule length_dropWhile_le)
  show ?case
  proof (cases "a' = []")
    case True
    then show ?thesis
      using step(1) by (subst strtok_r_all.simps) (simp add: tokens.simps [of _ a] a'_def Let_def)
  next
    case False
    have split: "a' = w @ dropWhile (\<lambda>x. x \<notin> set b) a'" unfolding w_def by simp
    have tok: "tokens (set b) a = w # tokens (set b) r"
      using False by (simp add: tokens.simps [of _ a] a'_def w_def r_def Let_def)
    define q where "q = (if length w = length a' then s + length w else s + length w + 1)"
    define m1 where "m1 = (if length w = length a' then m else m(s + length w \<mapsto> 0))"
    have call: "strtok_r m s0 sep lasts = Some (m1, s, q)"
      using step(1) False by (simp add: m1_def q_def)
    have end_s: "s + length a' = p + length a" using le by (simp add: s_def)
    have wle: "length w \<le> length a'" unfolding w_def by (rule length_takeWhile_le)
    have r: "r = drop (q - s) a'" "q + length r = p + length a" "length r < length a"
    proof -
      show r: "r = drop (q - s) a'"
        using wle by (auto simp: r_def q_def w_def dropWhile_eq_drop drop_Suc tl_drop)
      then show "q + length r = p + length a" "length r < length a"
        using wle end_s False le by (auto simp: q_def)
    qed
    have frame1: "\<forall>x. x < p \<or> p + length a \<le> x \<longrightarrow> m1 x = m x"
      using wle end_s by (auto simp: m1_def s_def)
    have "cstr m q r"
      using cstr_drop [OF step(2), of "q - s"] wle r(1) by (auto simp: q_def)
    then have str_r: "cstr m1 q r"
      using wle by (cases "length w = length a'") (simp_all add: m1_def q_def cstr_upd)
    have "0 \<notin> set w" "bytes_at m s w"
      using step(2) split cstr_append [of m s w "dropWhile (\<lambda>x. x \<notin> set b) a'"] by auto
    moreover have "m1 (s + length w) = Some 0"
      using cstr_end [OF step(2)] by (auto simp: m1_def)
    ultimately have str_w: "cstr m1 s w"
      by (auto simp: cstr_iff bytes_at_append m1_def bytes_at_upd)
    have "s + length w < sep \<or> sep + length b < s + length w"
      using less.prems(3) end_s le wle by (auto simp: apart_def s_def)
    then have "cstr m1 sep b" using less.prems(2) by (auto simp: m1_def cstr_upd)
    moreover have "apart q (Suc (length r)) sep (Suc (length b))"
      using less.prems(3) r(2) by (auto simp: apart_def q_def s_def)
    moreover have "0 < q" using less.prems(5) by (simp add: q_def s_def)
    ultimately obtain m' ts where rest: "strtok_r_all m1 NULL sep q = Some (m', ts)"
      "list_all2 (cstr m') ts (tokens (set b) r)"
      "\<forall>x. x < q \<or> q + length r \<le> x \<longrightarrow> m' x = m1 x"
      using less.hyps [OF r(3) str_r, of NULL q] less.prems(4) r(3) by auto
    have "x < q \<or> q + length r \<le> x" if "x \<le> s + length w" "s \<le> x" for x
      using that r(2) end_s by (cases "length w = length a'") (auto simp: q_def)
    then have "cstr m' s w"
      by (intro cstr_cong [OF str_w]) (use rest(3) in blast)
    moreover have "\<forall>x. x < p \<or> p + length a \<le> x \<longrightarrow> m' x = m x"
      using frame1 rest(3) r(2) by (auto simp: q_def s_def)
    moreover have "0 < s" using less.prems(5) by (simp add: s_def)
    ultimately show ?thesis
      using call rest(1,2) tok by (subst strtok_r_all.simps) auto
  qed
qed

text \<open>
  C35. Driving \<open>strtok_r\<close> until it returns NULL yields the tokens of the string in order: the maximal
  runs of bytes that are not separators, each terminated in place. The loop ends, and only bytes
  of the string itself are written.
\<close>

theorem strtok_r_tokens:
  assumes "cstr m p a" and "cstr m sep b" and "apart p (Suc (length a)) sep (Suc (length b))"
    and "length a < 2 ^ 31" and "0 < p"
  shows "\<exists>m' ts. strtok_r_all m p sep lasts = Some (m', ts) \<and>
     list_all2 (cstr m') ts (tokens (set b) a) \<and>
     (\<forall>x. x < p \<or> p + length a \<le> x \<longrightarrow> m' x = m x)"
  by (rule strtok_r_all_spec) (use assms in simp_all)

theorem strtok_r_tokens_witness:
  "\<exists>m' ts. strtok_r_all (image_at 1 [7, 8, 0, 8, 0]) 1 4 0 = Some (m', ts) \<and>
     list_all2 (cstr m') ts (tokens (set [8::byte]) [7, 8]) \<and>
     (\<forall>x. x < 1 \<or> 1 + length [7::byte, 8] \<le> x \<longrightarrow> m' x = image_at 1 [7, 8, 0, 8, 0] x)"
  by (rule strtok_r_tokens) (simp_all add: image_at_def apart_def)

end
