(* ===== verification/StrNum.thy ===== *)
theory StrNum
  imports CString
begin

section \<open>Numbers from strings: stdlib/strtoul.c and stdlib/strtoull.c\<close>

text \<open>
  The two conversion routines \<open>strtoul_common\<close> and \<open>strtoll_common\<close>, which the code writes in
  different styles, and the functions that call them. A call returns the value, the value it
  stores in \<open>errno\<close>, if any, and the value it stores through \<open>endptr\<close>, if any; the flag
  \<open>want\<close> says that \<open>endptr\<close> is not NULL.
\<close>

record conv =
  val :: u64
  err :: "errno option"
  endp :: "addr option"

definition ULONG_MAX :: u64 where "ULONG_MAX = - 1"

partial_function (option) skip_space :: "mem \<Rightarrow> addr \<Rightarrow> addr option" where
  "skip_space m s = do {
     c \<leftarrow> m s; if isspace (byte_int c) \<noteq> 0 then skip_space m (s + 1) else Some s }"

text \<open>\<open>cutoff\<close> before the division: the largest magnitude that can be returned.\<close>

definition conv_limit :: "bool \<Rightarrow> bool \<Rightarrow> u64" where
  "conv_limit isUnsigned negative =
     (if isUnsigned then ULONG_MAX
      else if negative then - (word_of_int LONG_MIN) else word_of_int LONG_MAX)"

text \<open>\<open>strtoul_loop\<close> returns \<open>sptr\<close>, \<open>result\<close>, \<open>width\<close> and \<open>overflow\<close>.\<close>

partial_function (option) strtoul_loop ::
  "mem \<Rightarrow> int \<Rightarrow> u64 \<Rightarrow> int \<Rightarrow> addr \<Rightarrow> u64 \<Rightarrow> int \<Rightarrow> bool \<Rightarrow> (addr \<times> u64 \<times> int \<times> bool) option" where
  "strtoul_loop m base cutoff cutlim sptr result width overflow = do {
     c \<leftarrow> m sptr;
     if isalnum (byte_int c) = 0 then Some (sptr, result, width, overflow)
     else do {
       let t = byte_int c - 48;
       let t = (if t > 9 then (byte_int c OR 0x20) - 97 + 10 else t);
       if t \<ge> base then Some (sptr, result, width, overflow)
       else do {
         let overflow = (overflow \<or> result > cutoff \<or> result = cutoff \<and> t > cutlim);
         let result = (if \<not> overflow then result * word_of_int base + word_of_int t else result);
         width \<leftarrow> to_int (width + 1);
         strtoul_loop m base cutoff cutlim (sptr + 1) result width overflow } } }"

definition strtoul_common :: "mem \<Rightarrow> addr \<Rightarrow> bool \<Rightarrow> int \<Rightarrow> bool \<Rightarrow> conv option" where
  "strtoul_common m nptr want base isUnsigned = do {
     sptr \<leftarrow> skip_space m nptr;
     c \<leftarrow> m sptr;
     let negative = (c = 45);
     let sptr = (if c = 45 \<or> c = 43 then sptr + 1 else sptr);
     c0 \<leftarrow> m sptr;
     hex \<leftarrow> (if (base = 16 \<or> base = 0) \<and> c0 = 48 then do {
               c1 \<leftarrow> m (sptr + 1);
               if byte_int c1 OR 0x20 = 0x78 then do {
                 c2 \<leftarrow> m (sptr + 2); Some (isxdigit (byte_int c2) \<noteq> 0) }
               else Some False }
             else Some False);
     let base = (if hex then 16 else base);
     let sptr = (if hex then sptr + 2 else sptr);
     c0 \<leftarrow> m sptr;
     let base = (if base = 0 \<and> c0 = 48 then 8 else if base = 0 then 10 else base);
     if base < 2 \<or> base > 36 then Some \<lparr>val = 0, err = Some EINVAL, endp = None\<rparr>
     else do {
       let cutoff = conv_limit isUnsigned negative;
       let cutlim = uint (cutoff mod word_of_int base);
       let cutoff = cutoff div word_of_int base;
       (sptr, result, width, overflow) \<leftarrow> strtoul_loop m base cutoff cutlim sptr 0 0 False;
       Some \<lparr>val = (if overflow then
                      if isUnsigned then ULONG_MAX
                      else if negative then word_of_int LONG_MIN else word_of_int LONG_MAX
                    else if width = 0 then result
                    else if negative then - result else result),
             err = (if overflow then Some ERANGE else if width = 0 then Some EINVAL else None),
             endp = (if want then Some (if width > 0 then sptr else nptr) else None)\<rparr> } }"

definition strtoul :: "mem \<Rightarrow> addr \<Rightarrow> bool \<Rightarrow> int \<Rightarrow> conv option" where
  "strtoul m nptr want base = strtoul_common m nptr want base True"

text \<open>A \<open>long\<close> result is the 64-bit word read as two's complement.\<close>

definition strtol :: "mem \<Rightarrow> addr \<Rightarrow> bool \<Rightarrow> int \<Rightarrow> conv option" where
  "strtol m nptr want base = strtoul_common m nptr want base False"

definition atoi :: "mem \<Rightarrow> addr \<Rightarrow> int option" where
  "atoi m s = do { r \<leftarrow> strtol m s False 10; Some (cast_int (sint (val r))) }"

definition atol :: "mem \<Rightarrow> addr \<Rightarrow> int option" where
  "atol m s = do { r \<leftarrow> strtol m s False 10; Some (sint (val r)) }"

subsection \<open>The second routine\<close>

text \<open>\<open>strtoll_space\<close> is the \<open>do ... while\<close> loop: it returns \<open>c\<close> and \<open>s\<close>.\<close>

partial_function (option) strtoll_space :: "mem \<Rightarrow> addr \<Rightarrow> (byte \<times> addr) option" where
  "strtoll_space m s = do {
     c \<leftarrow> m s; if isspace (byte_int c) \<noteq> 0 then strtoll_space m (s + 1) else Some (c, s + 1) }"

text \<open>The digit of a character, where it has one; \<open>c\<close> is a \<open>char\<close> throughout.\<close>

definition strtoll_digit :: "byte \<Rightarrow> byte option" where
  "strtoll_digit c =
     (if c \<ge> 48 \<and> c \<le> 57 then Some (c - 48)
      else if c \<ge> 65 \<and> c \<le> 90 then Some (c - (65 - 10))
      else if c \<ge> 97 \<and> c \<le> 122 then Some (c - (97 - 10))
      else None)"

partial_function (option) strtoll_loop ::
  "mem \<Rightarrow> int \<Rightarrow> u64 \<Rightarrow> int \<Rightarrow> byte \<Rightarrow> addr \<Rightarrow> u64 \<Rightarrow> int \<Rightarrow> (addr \<times> u64 \<times> int) option" where
  "strtoll_loop m base cutoff cutlim c s acc any =
     (case strtoll_digit c of
        None \<Rightarrow> Some (s, acc, any)
      | Some c \<Rightarrow>
         if byte_int c \<ge> base then Some (s, acc, any)
         else if any < 0 then do { c' \<leftarrow> m s; strtoll_loop m base cutoff cutlim c' (s + 1) acc any }
         else if acc > cutoff \<or> acc = cutoff \<and> byte_int c > cutlim then do {
           c' \<leftarrow> m s; strtoll_loop m base cutoff cutlim c' (s + 1) acc (- 1) }
         else do {
           c' \<leftarrow> m s;
           strtoll_loop m base cutoff cutlim c' (s + 1) (acc * word_of_int base + ucast c) 1 })"

definition strtoll_common :: "mem \<Rightarrow> addr \<Rightarrow> bool \<Rightarrow> int \<Rightarrow> bool \<Rightarrow> conv option" where
  "strtoll_common m nptr want base isUnsigned = do {
     (c, s) \<leftarrow> strtoll_space m nptr;
     let neg = (c = 45);
     (c, s) \<leftarrow> (if c = 45 \<or> c = 43 then do { c' \<leftarrow> m s; Some (c', s + 1) } else Some (c, s));
     hex \<leftarrow> (if (base = 0 \<or> base = 16) \<and> c = 48 then do {
               c1 \<leftarrow> m s;
               if c1 = 0x78 \<or> c1 = 0x58 then do {
                 c2 \<leftarrow> m (s + 1); Some (isxdigit (byte_int c2) \<noteq> 0) }
               else Some False }
             else Some False);
     (c, s, base) \<leftarrow> (if hex then do { c' \<leftarrow> m (s + 1); Some (c', s + 2, 16) } else Some (c, s, base));
     let base = (if base = 0 then (if c = 48 then 8 else 10) else base);
     if base < 2 \<or> base > 36 then Some \<lparr>val = 0, err = Some EINVAL, endp = None\<rparr>
     else do {
       let cutoff = conv_limit isUnsigned neg;
       let cutlim = uint (cutoff mod word_of_int base);
       let cutoff = cutoff div word_of_int base;
       (s, acc, any) \<leftarrow> strtoll_loop m base cutoff cutlim c s 0 0;
       Some \<lparr>val = (if any = 0 then acc
                    else if any < 0 then
                      if isUnsigned then ULONG_MAX
                      else if neg then - (word_of_int LONG_MIN) else word_of_int LONG_MAX
                    else if neg then - acc else acc),
             err = (if any = 0 then Some EINVAL else if any < 0 then Some ERANGE else None),
             endp = (if want then Some (if any \<noteq> 0 then s - 1 else nptr) else None)\<rparr> } }"

definition strtoull :: "mem \<Rightarrow> addr \<Rightarrow> bool \<Rightarrow> int \<Rightarrow> conv option" where
  "strtoull m nptr want base = strtoll_common m nptr want base True"

definition strtoll :: "mem \<Rightarrow> addr \<Rightarrow> bool \<Rightarrow> int \<Rightarrow> conv option" where
  "strtoll m nptr want base = strtoll_common m nptr want base False"

definition strtoimax :: "mem \<Rightarrow> addr \<Rightarrow> bool \<Rightarrow> int \<Rightarrow> conv option" where
  "strtoimax m nptr want base = strtoll m nptr want base"

definition strtoumax :: "mem \<Rightarrow> addr \<Rightarrow> bool \<Rightarrow> int \<Rightarrow> conv option" where
  "strtoumax m nptr want base = strtoull m nptr want base"

definition atoll :: "mem \<Rightarrow> addr \<Rightarrow> int option" where
  "atoll m s = do { r \<leftarrow> strtoll m s False 10; Some (sint (val r)) }"

subsection \<open>What a conversion is\<close>

text \<open>
  The specification works on the string alone. \<open>digit_of\<close> is the value of a byte as a digit (99 for
  a byte that is none), \<open>subject\<close> splits a string into sign, effective base, the offset of the
  digits and what follows it, and \<open>conv_spec\<close> says what a call has to return.
\<close>

definition digit_of :: "byte \<Rightarrow> nat" where
  "digit_of c =
     (let n = unat c in
      if 48 \<le> n \<and> n \<le> 57 then n - 48
      else if 65 \<le> n \<and> n \<le> 90 then n - 55
      else if 97 \<le> n \<and> n \<le> 122 then n - 87 else 99)"

definition horner :: "nat \<Rightarrow> nat \<Rightarrow> nat list \<Rightarrow> nat" where
  "horner b v ds = foldl (\<lambda>v d. v * b + d) v ds"

definition hd0 :: "byte list \<Rightarrow> byte" where
  "hd0 a = (case a of [] \<Rightarrow> 0 | c # _ \<Rightarrow> c)"

definition subject :: "int \<Rightarrow> byte list \<Rightarrow> bool \<times> int \<times> byte list" where
  "subject base a =
     (let a1 = dropWhile (\<lambda>c. isspace (uint c) \<noteq> 0) a;
          neg = (hd0 a1 = 45);
          a2 = (if hd0 a1 = 45 \<or> hd0 a1 = 43 then tl a1 else a1);
          hex = ((base = 16 \<or> base = 0) \<and> hd0 a2 = 48 \<and>
            (hd0 (tl a2) = 0x78 \<or> hd0 (tl a2) = 0x58) \<and> isxdigit (uint (hd0 (tl (tl a2)))) \<noteq> 0);
          a3 = (if hex then tl (tl a2) else a2);
          b = (if hex then 16 else if base = 0 then if hd0 a2 = 48 then 8 else 10 else base)
      in (neg, b, a3))"

definition digits :: "nat \<Rightarrow> byte list \<Rightarrow> nat list" where
  "digits b a = map digit_of (takeWhile (\<lambda>c. digit_of c < b) a)"

definition conv_spec :: "addr \<Rightarrow> bool \<Rightarrow> int \<Rightarrow> bool \<Rightarrow> byte list \<Rightarrow> conv" where
  "conv_spec p want base isUnsigned a =
     (case subject base a of (neg, b, a3) \<Rightarrow>
      if b < 2 \<or> b > 36 then \<lparr>val = 0, err = Some EINVAL, endp = None\<rparr>
      else
        let ds = digits (nat b) a3;
            v = horner (nat b) 0 ds;
            over = v > unat (conv_limit isUnsigned neg)
        in \<lparr>val = (if over then conv_limit isUnsigned neg else if neg then - of_nat v else of_nat v),
            err = (if ds = [] then Some EINVAL else if over then Some ERANGE else None),
            endp = (if want
              then Some (if ds = [] then p else p + (length a - length a3) + length ds) else None)\<rparr>)"

lemma digit_table:
  "list_all (\<lambda>c. (let t = c - 48; t = (if t > 9 then (c OR 0x20) - 97 + 10 else t) in
      (isalnum c = 0 \<longleftrightarrow> digit_of (word_of_int c) = 99) \<and>
      (isalnum c \<noteq> 0 \<longrightarrow> t = int (digit_of (word_of_int c)) \<and> t < 36))) [0..255]"
  by code_simp

lemma strtoul_digit:
  fixes c :: byte
  defines "t \<equiv> uint c - 48"
  shows "isalnum (uint c) = 0 \<longleftrightarrow> digit_of c = 99"
    and "isalnum (uint c) \<noteq> 0 \<Longrightarrow>
      (if t > 9 then (uint c OR 0x20) - 97 + 10 else t) = int (digit_of c)"
    and "isalnum (uint c) \<noteq> 0 \<Longrightarrow> digit_of c < 36"
proof -
  have "uint c \<in> set [0..255]" using uint_lt2p [of c] by simp
  then have *: "let t = uint c - 48; t = (if t > 9 then (uint c OR 0x20) - 97 + 10 else t) in
      (isalnum (uint c) = 0 \<longleftrightarrow> digit_of c = 99) \<and>
      (isalnum (uint c) \<noteq> 0 \<longrightarrow> t = int (digit_of c) \<and> t < 36)"
    using digit_table unfolding list_all_iff by fastforce
  show "isalnum (uint c) = 0 \<longleftrightarrow> digit_of c = 99" using * by (simp add: Let_def)
  assume "isalnum (uint c) \<noteq> 0"
  with * show "(if t > 9 then (uint c OR 0x20) - 97 + 10 else t) = int (digit_of c)"
    and "digit_of c < 36"
    by (simp_all add: Let_def t_def split: if_splits)
qed

lemma strtoll_digit_eq:
  "strtoll_digit c = (if digit_of c = 99 then None else Some (of_nat (digit_of c)))"
  by (auto simp: strtoll_digit_def digit_of_def Let_def word_le_nat_alt of_nat_diff)

lemma horner_mono: "1 \<le> b \<Longrightarrow> v \<le> horner b v ds"
proof (induction ds arbitrary: v)
  case (Cons d ds)
  have "v \<le> v * b + d" using Cons.prems by (simp add: trans_le_add1)
  also have "\<dots> \<le> horner b (v * b + d) ds" using Cons by simp
  finally show ?case by (simp add: horner_def)
qed (simp add: horner_def)

text \<open>The test the code makes before it accumulates is the test that the new value exceeds the limit.\<close>

lemma cutoff_test:
  fixes v t b L :: nat
  assumes "0 < b" and "t < b"
  shows "(v > L div b \<or> v = L div b \<and> t > L mod b) \<longleftrightarrow> v * b + t > L"
proof -
  have L: "L = L div b * b + L mod b" by simp
  consider "v < L div b" | "v = L div b" | "v > L div b" by linarith
  then show ?thesis
  proof cases
    case 1
    then have "Suc v * b \<le> L div b * b" by (intro mult_le_mono1) simp
    then have "v * b + t < L div b * b" using assms by simp
    also have "\<dots> \<le> L" by simp
    finally have "v * b + t < L" .
    with 1 show ?thesis by simp
  next
    case 2
    then show ?thesis using L by (metis add_less_cancel_left less_irrefl)
  next
    case 3
    then have "Suc (L div b) * b \<le> v * b" by (intro mult_le_mono1) simp
    moreover have "L < Suc (L div b) * b" using assms L
      by (metis add.commute add_less_cancel_left mod_less_divisor mult_Suc)
    ultimately show ?thesis using 3 by simp
  qed
qed

lemma strtoul_loop_spec:
  assumes "2 \<le> b" and "b \<le> 36" and "L < 2 ^ 64"
  shows "cstr m s a \<Longrightarrow> width \<ge> 0 \<Longrightarrow> nat width + length a < 2 ^ 31 \<Longrightarrow> ov \<or> unat r \<le> L \<Longrightarrow>
   \<exists>r'. strtoul_loop m (int b) (of_nat (L div b)) (int (L mod b)) s r width ov =
      Some (s + length (digits b a), r', width + int (length (digits b a)),
        ov \<or> horner b (unat r) (digits b a) > L) \<and>
      (ov \<or> horner b (unat r) (digits b a) > L \<or> unat r' = horner b (unat r) (digits b a))"
proof (induction a arbitrary: s r width ov)
  case Nil
  then show ?case by (subst strtoul_loop.simps) (auto simp: digits_def horner_def ctype_defs)
next
  case (Cons c a)
  let ?t = "digit_of c"
  have stop: ?case if "\<not> ?t < b"
  proof (cases "isalnum (uint c) = 0")
    case True
    with Cons.prems that show ?thesis
      by (subst strtoul_loop.simps) (auto simp: digits_def horner_def)
  next
    case False
    have "(ov \<or> unat r > L) = ov" using Cons.prems by auto
    with False Cons.prems that show ?thesis
      using strtoul_digit(2) [OF False]
      by (subst strtoul_loop.simps) (simp add: digits_def horner_def Let_def del: One_nat_def)
  qed
  show ?case
  proof (cases "?t < b")
    case True
    then have an: "isalnum (uint c) \<noteq> 0" using strtoul_digit(1) [of c] assms(2) by auto
    define ov' where "ov' \<longleftrightarrow> ov \<or> unat r * b + ?t > L"
    define r' where "r' = (if ov' then r else r * of_nat b + of_nat ?t)"
    have L: "unat (of_nat (L div b) :: u64) = L div b"
      using le_less_trans [OF div_le_dividend assms(3)] by (intro unat_of_nat_small) simp
    have test: "(r > of_nat (L div b) \<or> r = of_nat (L div b) \<and> int ?t > int (L mod b))
        \<longleftrightarrow> unat r * b + ?t > L"
      using cutoff_test [where b = b and t = ?t and v = "unat r" and L = L] True assms(1) L
      by (auto simp: word_less_nat_alt word_unat_eq_iff)
    have r': "\<not> ov' \<Longrightarrow> unat r' = unat r * b + ?t"
    proof -
      assume "\<not> ov'"
      then have "unat r * b + ?t < 2 ^ 64" using assms(3) by (simp add: ov'_def)
      then have "unat (of_nat (unat r * b + ?t) :: u64) = unat r * b + ?t"
        by (intro unat_of_nat_small) simp
      with \<open>\<not> ov'\<close> show ?thesis by (simp add: r'_def)
    qed
    have inv: "ov' \<or> unat r' \<le> L" using r' by (metis not_less ov'_def)
    have "\<exists>r2. strtoul_loop m (int b) (of_nat (L div b)) (int (L mod b)) (Suc s) r' (width + 1) ov' =
      Some (Suc s + length (digits b a), r2, width + 1 + int (length (digits b a)),
        ov' \<or> horner b (unat r') (digits b a) > L) \<and>
      (ov' \<or> horner b (unat r') (digits b a) > L \<or> unat r2 = horner b (unat r') (digits b a))"
      by (rule Cons.IH) (use Cons.prems inv in auto)
    then obtain r2 where r2: "strtoul_loop m (int b) (of_nat (L div b)) (int (L mod b)) (Suc s) r'
        (width + 1) ov' = Some (Suc s + length (digits b a), r2, width + 1 + int (length (digits b a)),
        ov' \<or> horner b (unat r') (digits b a) > L)"
      "ov' \<or> horner b (unat r') (digits b a) > L \<or> unat r2 = horner b (unat r') (digits b a)"
      by blast
    have ds: "digits b (c # a) = ?t # digits b a" using True by (simp add: digits_def)
    have hor: "ov' \<or> horner b (unat r') (digits b a) > L \<longleftrightarrow>
        ov \<or> horner b (unat r) (digits b (c # a)) > L"
    proof (cases ov')
      case True
      have "unat r * b + ?t \<le> horner b (unat r) (digits b (c # a))"
        using horner_mono [of b "unat r * b + ?t" "digits b a"] assms(1)
        by (simp add: ds horner_def)
      with True show ?thesis by (auto simp: ov'_def)
    next
      case False
      with r' have "\<not> ov" "unat r' = unat r * b + ?t" by (auto simp: ov'_def)
      with False show ?thesis by (simp add: ds horner_def)
    qed
    have "to_int (width + 1) = Some (width + 1)"
      using Cons.prems by (intro to_int_in) (auto simp: INT_MIN_def INT_MAX_def)
    then have "strtoul_loop m (int b) (of_nat (L div b)) (int (L mod b)) s r width ov =
        strtoul_loop m (int b) (of_nat (L div b)) (int (L mod b)) (Suc s) r' (width + 1) ov'"
      using Cons.prems an True strtoul_digit(2) [OF an] test
      by (subst strtoul_loop.simps) (simp add: Let_def ov'_def r'_def)
    with r2 hor r' show ?thesis
      by (auto simp: ds horner_def)
  qed (rule stop)
qed

lemma strtoll_loop_spec:
  assumes "2 \<le> b" and "b \<le> 36" and "L < 2 ^ 64"
  shows "cstr m s a \<Longrightarrow> m s = Some c \<Longrightarrow> any \<in> {- 1, 0, 1} \<Longrightarrow> any < 0 \<or> unat acc \<le> L \<Longrightarrow>
   \<exists>acc' any'. strtoll_loop m (int b) (of_nat (L div b)) (int (L mod b)) c (Suc s) acc any =
      Some (Suc s + length (digits b a), acc', any') \<and>
      any' = (if any < 0 \<or> horner b (unat acc) (digits b a) > L then - 1
              else if digits b a = [] then any else 1) \<and>
      (any' < 0 \<or> unat acc' = horner b (unat acc) (digits b a))"
proof (induction a arbitrary: s c any acc)
  case Nil
  then show ?case by (subst strtoll_loop.simps) (auto simp: digits_def horner_def strtoll_digit_def)
next
  case (Cons x a)
  let ?t = "digit_of x"
  have x: "x = c" "cstr m (Suc s) a" using Cons.prems by auto
  show ?case
  proof (cases "?t < b")
    case False
    then have "?t = 99 \<or> ?t < 36" using strtoul_digit(1,3) [of x] by auto
    with False Cons.prems x show ?thesis
      by (subst strtoll_loop.simps) (auto simp: digits_def horner_def strtoll_digit_eq unsigned_of_nat take_bit_eq_mod)
  next
    case True
    obtain y where y: "m (Suc s) = Some y" using x(2) by (cases a) auto
    define over where "over \<longleftrightarrow> any < 0 \<or> unat acc * b + ?t > L"
    define acc1 where "acc1 = (if over then acc else acc * of_nat b + of_nat ?t)"
    define any1 :: int where "any1 = (if over then - 1 else 1)"
    have L: "unat (of_nat (L div b) :: u64) = L div b"
      using le_less_trans [OF div_le_dividend assms(3)] by (intro unat_of_nat_small) simp
    have test: "(acc > of_nat (L div b) \<or> acc = of_nat (L div b) \<and> int ?t > int (L mod b))
        \<longleftrightarrow> unat acc * b + ?t > L"
      using cutoff_test [where b = b and t = ?t and v = "unat acc" and L = L] True assms(1) L
      by (auto simp: word_less_nat_alt word_unat_eq_iff)
    have acc1: "\<not> over \<Longrightarrow> unat acc1 = unat acc * b + ?t"
    proof -
      assume "\<not> over"
      then have "unat acc * b + ?t < 2 ^ 64" using assms(3) by (simp add: over_def)
      then have "unat (of_nat (unat acc * b + ?t) :: u64) = unat acc * b + ?t"
        by (intro unat_of_nat_small) simp
      with \<open>\<not> over\<close> show ?thesis by (simp add: acc1_def)
    qed
    have any1: "any1 \<in> {- 1, 0, 1}" "any1 < 0 \<or> unat acc1 \<le> L" "any1 < 0 \<longleftrightarrow> over" "any1 \<noteq> 0"
      using acc1 by (auto simp: any1_def) (metis not_less over_def)
    obtain acc2 any2 where r2: "strtoll_loop m (int b) (of_nat (L div b)) (int (L mod b)) y
        (Suc (Suc s)) acc1 any1 = Some (Suc (Suc s) + length (digits b a), acc2, any2)"
      "any2 = (if any1 < 0 \<or> horner b (unat acc1) (digits b a) > L then - 1
              else if digits b a = [] then any1 else 1)"
      "any2 < 0 \<or> unat acc2 = horner b (unat acc1) (digits b a)"
      using Cons.IH [OF x(2) y any1(1,2)] by blast
    have ds: "digits b (x # a) = ?t # digits b a" using True by (simp add: digits_def)
    have hor: "over \<or> horner b (unat acc1) (digits b a) > L \<longleftrightarrow>
        any < 0 \<or> horner b (unat acc) (digits b (x # a)) > L"
    proof (cases over)
      case True
      have "unat acc * b + ?t \<le> horner b (unat acc) (digits b (x # a))"
        using horner_mono [of b "unat acc * b + ?t" "digits b a"] assms(1)
        by (simp add: ds horner_def)
      with True show ?thesis by (auto simp: over_def)
    next
      case False
      with acc1 have "\<not> any < 0" "unat acc1 = unat acc * b + ?t" by (auto simp: over_def)
      with False show ?thesis by (simp add: ds horner_def)
    qed
    have dig: "strtoll_digit c = Some (of_nat ?t)" "uint (of_nat ?t :: byte) = int ?t"
        "ucast (of_nat ?t :: byte) = (of_nat ?t :: u64)"
    proof -
      have "?t < 36" using True assms(2) by simp
      then show "strtoll_digit c = Some (of_nat ?t)" "uint (of_nat ?t :: byte) = int ?t"
        "ucast (of_nat ?t :: byte) = (of_nat ?t :: u64)"
        using x by (auto simp: strtoll_digit_eq unsigned_of_nat take_bit_nat_eq_self)
    qed
    have "strtoll_loop m (int b) (of_nat (L div b)) (int (L mod b)) c (Suc s) acc any =
        strtoll_loop m (int b) (of_nat (L div b)) (int (L mod b)) y (Suc (Suc s)) acc1 any1"
      using dig y test True Cons.prems(3)
      by (subst strtoll_loop.simps) (auto simp: over_def acc1_def any1_def)
    with r2 hor acc1 show ?thesis
      by (auto simp: ds horner_def any1_def)
  qed
qed

subsection \<open>Both routines compute the specification\<close>

lemma cstr_hd0: "cstr m p a \<Longrightarrow> m p = Some (hd0 a)"
  by (cases a) (auto simp: hd0_def)

lemma cstr_tl:
  "cstr m p a \<Longrightarrow> hd0 a \<noteq> 0 \<Longrightarrow> cstr m (Suc p) (tl a) \<and> Suc (length (tl a)) = length a"
  by (cases a) (auto simp: hd0_def)

lemma skip_space_spec:
  "cstr m p a \<Longrightarrow> skip_space m p = Some (p + length (takeWhile (\<lambda>c. isspace (uint c) \<noteq> 0) a))"
proof (induction a arbitrary: p)
  case Nil
  then show ?case by (subst skip_space.simps) (simp add: ctype_defs)
next
  case (Cons c a)
  then show ?case by (subst skip_space.simps) simp
qed

lemma strtoll_space_eq:
  "strtoll_space m s = do { q \<leftarrow> skip_space m s; c \<leftarrow> m q; Some (c, q + 1) }" if "cstr m s a"
  using that
proof (induction a arbitrary: s)
  case Nil
  then show ?case by (subst strtoll_space.simps, subst skip_space.simps) (simp add: ctype_defs)
next
  case (Cons c a)
  then show ?case by (subst strtoll_space.simps, subst skip_space.simps) auto
qed

lemma or_lower_x:
  fixes c :: byte
  shows "uint c OR 32 = 120 \<longleftrightarrow> c = 120 \<or> c = 88"
proof -
  have "list_all (\<lambda>i. i OR 32 = 120 \<longleftrightarrow> i = 120 \<or> i = 88) [0..255::int]" by code_simp
  moreover have "uint c \<in> set [0..255]" using uint_lt2p [of c] by simp
  ultimately have "uint c OR 32 = 120 \<longleftrightarrow> uint c = 120 \<or> uint c = 88"
    unfolding list_all_iff by blast
  then show ?thesis by (simp add: word_uint_eq_iff)
qed

text \<open>Where both routines stand after the white space, the sign and the prefix.\<close>

lemma subject_split:
  assumes "cstr m p a" and "subject base a = (neg, b, a3)"
  obtains q1 a1 q2 a2 hex where
    "skip_space m p = Some q1" "cstr m q1 a1" "neg = (hd0 a1 = 45)"
    "q2 = (if hd0 a1 = 45 \<or> hd0 a1 = 43 then q1 + 1 else q1)" "cstr m q2 a2"
    "hex = ((base = 16 \<or> base = 0) \<and> hd0 a2 = 48 \<and>
       (hd0 (tl a2) = 0x78 \<or> hd0 (tl a2) = 0x58) \<and> isxdigit (uint (hd0 (tl (tl a2)))) \<noteq> 0)"
    "p + (length a - length a3) = (if hex then q2 + 2 else q2)"
    "cstr m (p + (length a - length a3)) a3" "length a3 \<le> length a"
    "b = (if hex then 16 else if base = 0 then if hd0 a2 = 48 then 8 else 10 else base)"
    "hd0 a2 = 48 \<Longrightarrow> cstr m (q2 + 1) (tl a2)" "\<not> hex \<Longrightarrow> a3 = a2"
proof -
  define a1 where "a1 = dropWhile (\<lambda>c. isspace (uint c) \<noteq> 0) a"
  define u where "u = takeWhile (\<lambda>c. isspace (uint c) \<noteq> 0) a"
  define a2 where "a2 = (if hd0 a1 = 45 \<or> hd0 a1 = 43 then tl a1 else a1)"
  define q1 where "q1 = p + length u"
  define q2 where "q2 = (if hd0 a1 = 45 \<or> hd0 a1 = 43 then q1 + 1 else q1)"
  define hex where "hex = ((base = 16 \<or> base = 0) \<and> hd0 a2 = 48 \<and>
       (hd0 (tl a2) = 0x78 \<or> hd0 (tl a2) = 0x58) \<and> isxdigit (uint (hd0 (tl (tl a2)))) \<noteq> 0)"
  have a: "a = u @ a1" by (simp add: u_def a1_def)
  have q1: "cstr m q1 a1" "q1 + length a1 = p + length a"
    using assms(1) a by (auto simp: q1_def cstr_append)
  have q2: "cstr m q2 a2" "q2 + length a2 = p + length a"
    using cstr_tl [OF q1(1)] q1 by (auto simp: q2_def a2_def)
  have a3: "a3 = (if hex then tl (tl a2) else a2)"
    and b: "b = (if hex then 16 else if base = 0 then if hd0 a2 = 48 then 8 else 10 else base)"
    and neg: "neg = (hd0 a1 = 45)"
    using assms(2) unfolding subject_def Let_def a1_def [symmetric]
    unfolding a2_def [symmetric] unfolding hex_def [symmetric] by simp_all
  have tl1: "hd0 a2 = 48 \<Longrightarrow> cstr m (q2 + 1) (tl a2) \<and> Suc (length (tl a2)) = length a2"
    using cstr_tl [OF q2(1)] by (simp add: hex_def)
  then have tl2: "hex \<Longrightarrow> cstr m (q2 + 2) (tl (tl a2)) \<and> Suc (length (tl (tl a2))) = length (tl a2)"
    using cstr_tl [of m "q2 + 1" "tl a2"] by (auto simp: hex_def)
  moreover have "hex \<Longrightarrow> hd0 a2 = 48" by (simp add: hex_def)
  ultimately have q3: "cstr m (if hex then q2 + 2 else q2) a3"
      "(if hex then q2 + 2 else q2) + length a3 = p + length a"
    using tl1 q2 by (auto simp: a3)
  moreover have "length a3 \<le> length a" using a by (auto simp: a3 a2_def)
  ultimately have pos: "p + (length a - length a3) = (if hex then q2 + 2 else q2)" by simp
  have pos3: "cstr m (p + (length a - length a3)) a3" unfolding pos by (rule q3(1))
  have tl': "cstr m (q2 + 1) (tl a2)" if "hd0 a2 = 48" using tl1 that by simp
  have nhex: "a3 = a2" if "\<not> hex" using that by (simp add: a3)
  show ?thesis
    by (rule that [OF skip_space_spec [OF assms(1), folded u_def, folded q1_def] q1(1) neg q2_def
      q2(1) hex_def pos pos3 \<open>length a3 \<le> length a\<close> b tl' nhex])
qed

text \<open>The test for the prefix reads only bytes of the string.\<close>

lemma hex_test:
  assumes "cstr m q a" and "hd0 a = 48 \<Longrightarrow> cstr m (q + 1) (tl a)"
  shows "(if B \<and> hd0 a = 48 then do {
           c1 \<leftarrow> m (q + 1);
           if c1 = 0x78 \<or> c1 = 0x58 then do { c2 \<leftarrow> m (q + 2); Some (isxdigit (uint c2) \<noteq> 0) }
           else Some False }
         else Some False) =
    Some (B \<and> hd0 a = 48 \<and> (hd0 (tl a) = 0x78 \<or> hd0 (tl a) = 0x58) \<and>
      isxdigit (uint (hd0 (tl (tl a)))) \<noteq> 0)"
proof (cases "hd0 a = 48")
  case True
  with assms(2) have 1: "cstr m (q + 1) (tl a)" by simp
  have "m (q + 2) = Some (hd0 (tl (tl a)))" if "hd0 (tl a) \<noteq> 0"
    using cstr_tl [OF 1 that] cstr_hd0 [of m "q + 2" "tl (tl a)"] by simp
  with True cstr_hd0 [OF 1] show ?thesis by auto
qed simp

text \<open>What both routines do once the prefix is read, over the digits alone.\<close>

definition convert :: "addr \<Rightarrow> bool \<Rightarrow> bool \<Rightarrow> bool \<Rightarrow> int \<Rightarrow> byte list \<Rightarrow> addr \<Rightarrow> conv" where
  "convert p want isUnsigned neg b a3 q =
     (let ds = digits (nat b) a3;
          v = horner (nat b) 0 ds;
          over = v > unat (conv_limit isUnsigned neg)
      in \<lparr>val = (if over then conv_limit isUnsigned neg else if neg then - of_nat v else of_nat v),
          err = (if ds = [] then Some EINVAL else if over then Some ERANGE else None),
          endp = (if want then Some (if ds = [] then p else q + length ds) else None)\<rparr>)"

lemma limit_neg [simp]: "- word_of_int LONG_MIN = (word_of_int LONG_MIN :: u64)"
  by (simp add: LONG_MIN_def)

lemma limit_split:
  "2 \<le> b \<Longrightarrow> b \<le> 36 \<Longrightarrow> (x::u64) div word_of_int b = of_nat (unat x div nat b) \<and>
    uint (x mod word_of_int b) = int (unat x mod nat b)"
proof -
  assume b: "2 \<le> b" "b \<le> 36"
  define n where "n = nat b"
  have n: "b = int n" "n < 2 ^ 64" using b by (auto simp: n_def)
  have u: "unat (of_nat n :: u64) = n" using n(2) by (intro unat_of_nat_small) simp
  have "unat (x div of_nat n) = unat x div n" "unat (x mod of_nat n) = unat x mod n"
    by (simp_all add: unat_div unat_mod u)
  moreover have "x div of_nat n = of_nat (unat (x div of_nat n))"
    "uint (x mod of_nat n) = int (unat (x mod of_nat n))" by simp_all
  ultimately have "x div of_nat n = of_nat (unat x div n)" "uint (x mod of_nat n) = int (unat x mod n)"
    by presburger+
  then show ?thesis by (simp add: n(1))
qed

lemma strtoul_common_spec:
  assumes a: "cstr m p a" and len: "length a < 2 ^ 31"
  shows "strtoul_common m p want base isUnsigned = Some (conv_spec p want base isUnsigned a)"
proof -
  obtain neg b a3 where subj: "subject base a = (neg, b, a3)" by (cases "subject base a")
  show ?thesis
  proof (rule subject_split [OF a subj])
    fix q1 a1 q2 a2 hex
    assume skip: "skip_space m p = Some q1" and a1: "cstr m q1 a1" and neg: "neg = (hd0 a1 = 45)"
      and q2: "q2 = (if hd0 a1 = 45 \<or> hd0 a1 = 43 then q1 + 1 else q1)" and a2: "cstr m q2 a2"
      and hex: "hex = ((base = 16 \<or> base = 0) \<and> hd0 a2 = 48 \<and>
       (hd0 (tl a2) = 0x78 \<or> hd0 (tl a2) = 0x58) \<and> isxdigit (uint (hd0 (tl (tl a2)))) \<noteq> 0)"
      and pos: "p + (length a - length a3) = (if hex then q2 + 2 else q2)"
      and a3: "cstr m (p + (length a - length a3)) a3" and le: "length a3 \<le> length a"
      and b: "b = (if hex then 16 else if base = 0 then if hd0 a2 = 48 then 8 else 10 else base)"
      and tl: "hd0 a2 = 48 \<Longrightarrow> cstr m (q2 + 1) (tl a2)" and nhex: "\<not> hex \<Longrightarrow> a3 = a2"
    define q3 where "q3 = p + (length a - length a3)"
    have hext: "(if (base = 16 \<or> base = 0) \<and> hd0 a2 = 48 then do {
           c1 \<leftarrow> m (q2 + 1);
           if c1 = 0x78 \<or> c1 = 0x58 then do { c2 \<leftarrow> m (q2 + 2); Some (isxdigit (uint c2) \<noteq> 0) }
           else Some False }
         else Some False) = Some hex"
      unfolding hex by (rule hex_test [OF a2]) (rule tl)
    have beq: "(if (if hex then 16 else base) = 0 \<and> hd0 a3 = 48 then 8
        else if (if hex then 16 else base) = 0 then 10 else if hex then 16 else base) = b"
      using nhex by (cases hex) (auto simp: b)
    have "strtoul_common m p want base isUnsigned =
     (if b < 2 \<or> b > 36 then Some \<lparr>val = 0, err = Some EINVAL, endp = None\<rparr>
     else do {
       let cutoff = conv_limit isUnsigned neg;
       let cutlim = uint (cutoff mod word_of_int b);
       let cutoff = cutoff div word_of_int b;
       (sptr, result, width, overflow) \<leftarrow> strtoul_loop m b cutoff cutlim q3 0 0 False;
       Some \<lparr>val = (if overflow then
                      if isUnsigned then ULONG_MAX
                      else if neg then word_of_int LONG_MIN else word_of_int LONG_MAX
                    else if width = 0 then result
                    else if neg then - result else result),
             err = (if overflow then Some ERANGE else if width = 0 then Some EINVAL else None),
             endp = (if want then Some (if width > 0 then sptr else p) else None)\<rparr> })"
      unfolding strtoul_common_def skip bind.bind_lunit cstr_hd0 [OF a1] Let_def q2 [symmetric]
      unfolding cstr_hd0 [OF a2] or_lower_x hext bind.bind_lunit
      unfolding neg [symmetric] pos [symmetric] q3_def [symmetric] cstr_hd0 [OF a3, folded q3_def]
        bind.bind_lunit beq
      by (rule refl)
    then have "strtoul_common m p want base isUnsigned =
      Some (if b < 2 \<or> b > 36 then \<lparr>val = 0, err = Some EINVAL, endp = None\<rparr>
        else convert p want isUnsigned neg b a3 q3)"
    proof (cases "b < 2 \<or> b > 36")
      case False
      then have b36: "2 \<le> nat b" "nat b \<le> 36" "b = int (nat b)" by auto
      define ds where "ds = digits (nat b) a3"
      define v where "v = horner (nat b) 0 ds"
      have nil: "ds = [] \<Longrightarrow> v = 0" by (simp add: v_def horner_def)
      have lim: "conv_limit isUnsigned neg = (if isUnsigned then ULONG_MAX
          else if neg then word_of_int LONG_MIN else word_of_int LONG_MAX)"
        by (simp add: conv_limit_def)
      define L where "L = unat (conv_limit isUnsigned neg)"
      have L: "L < 2 ^ 64" unfolding L_def using unsigned_less [of "conv_limit isUnsigned neg"] by simp
      have "length a3 < 2 ^ 31" using le len by simp
      then obtain r' where loop: "strtoul_loop m b (of_nat (L div nat b)) (int (L mod nat b)) q3 0 0 False =
          Some (q3 + length (ds), r', int (length (ds)),
            v > L)"
        "v > L \<or> unat r' = v"
        using strtoul_loop_spec [OF b36(1,2) L a3, of 0 False 0] b36(3) by (auto simp: q3_def ds_def v_def)
      then have "v > L \<or>
          r' = of_nat (v)"
        by (metis of_nat_unat ucast_id)
      with loop show ?thesis
        using False \<open>strtoul_common m p want base isUnsigned = _\<close>
          limit_split [of b "conv_limit isUnsigned neg", folded L_def] nil lim
        unfolding convert_def Let_def ds_def [symmetric] v_def [symmetric] L_def [symmetric]
        by (cases "ds = []"; cases "v > L") simp_all
    qed simp
    then show ?thesis by (simp add: conv_spec_def subj convert_def q3_def Let_def)
  qed
qed

lemma strtoll_common_spec:
  assumes a: "cstr m p a"
  shows "strtoll_common m p want base isUnsigned = Some (conv_spec p want base isUnsigned a)"
proof -
  obtain neg b a3 where subj: "subject base a = (neg, b, a3)" by (cases "subject base a")
  show ?thesis
  proof (rule subject_split [OF a subj])
    fix q1 a1 q2 a2 hex
    assume skip: "skip_space m p = Some q1" and a1: "cstr m q1 a1" and neg: "neg = (hd0 a1 = 45)"
      and q2: "q2 = (if hd0 a1 = 45 \<or> hd0 a1 = 43 then q1 + 1 else q1)" and a2: "cstr m q2 a2"
      and hex: "hex = ((base = 16 \<or> base = 0) \<and> hd0 a2 = 48 \<and>
       (hd0 (tl a2) = 0x78 \<or> hd0 (tl a2) = 0x58) \<and> isxdigit (uint (hd0 (tl (tl a2)))) \<noteq> 0)"
      and pos: "p + (length a - length a3) = (if hex then q2 + 2 else q2)"
      and a3: "cstr m (p + (length a - length a3)) a3" and le: "length a3 \<le> length a"
      and b: "b = (if hex then 16 else if base = 0 then if hd0 a2 = 48 then 8 else 10 else base)"
      and tl: "hd0 a2 = 48 \<Longrightarrow> cstr m (q2 + 1) (tl a2)" and nhex: "\<not> hex \<Longrightarrow> a3 = a2"
    define q3 where "q3 = p + (length a - length a3)"
    have hext: "(if (base = 16 \<or> base = 0) \<and> hd0 a2 = 48 then do {
           c1 \<leftarrow> m (q2 + 1);
           if c1 = 0x78 \<or> c1 = 0x58 then do { c2 \<leftarrow> m (q2 + 2); Some (isxdigit (uint c2) \<noteq> 0) }
           else Some False }
         else Some False) = Some hex"
      unfolding hex by (rule hex_test [OF a2]) (rule tl)
    have sp: "strtoll_space m p = Some (hd0 a1, q1 + 1)"
      using strtoll_space_eq [OF a] skip cstr_hd0 [OF a1] by simp
    have sign: "(if hd0 a1 = 45 \<or> hd0 a1 = 43 then do { c' \<leftarrow> m (q1 + 1); Some (c', q1 + 1 + 1) }
        else Some (hd0 a1, q1 + 1)) = Some (hd0 a2, q2 + 1)"
      using cstr_hd0 [OF a1] cstr_hd0 [OF a2] by (auto simp: q2)
    have hext': "(if (base = 0 \<or> base = 16) \<and> hd0 a2 = 48 then do {
               c1 \<leftarrow> m (q2 + 1);
               if c1 = 0x78 \<or> c1 = 0x58 then do {
                 c2 \<leftarrow> m (q2 + 1 + 1); Some (isxdigit (byte_int c2) \<noteq> 0) }
               else Some False }
             else Some False) = Some hex"
      using hext by (simp only: disj_commute add.assoc one_add_one)
    have pre: "(if hex then do { c' \<leftarrow> m (q2 + 1 + 1); Some (c', q2 + 1 + 2, 16) }
        else Some (hd0 a2, q2 + 1, base)) = Some (hd0 a3, Suc q3, if hex then 16 else base)"
      using cstr_hd0 [OF a3] nhex pos by (auto simp: q3_def)
    have beq: "(if (if hex then 16 else base) = 0 then if hd0 a3 = 48 then 8 else 10
        else if hex then 16 else base) = b"
      using nhex by (cases hex) (auto simp: b)
    have "strtoll_common m p want base isUnsigned =
     (if b < 2 \<or> b > 36 then Some \<lparr>val = 0, err = Some EINVAL, endp = None\<rparr>
     else do {
       let cutoff = conv_limit isUnsigned neg;
       let cutlim = uint (cutoff mod word_of_int b);
       let cutoff = cutoff div word_of_int b;
       (s, acc, any) \<leftarrow> strtoll_loop m b cutoff cutlim (hd0 a3) (Suc q3) 0 0;
       Some \<lparr>val = (if any = 0 then acc
                    else if any < 0 then
                      if isUnsigned then ULONG_MAX
                      else if neg then - (word_of_int LONG_MIN) else word_of_int LONG_MAX
                    else if neg then - acc else acc),
             err = (if any = 0 then Some EINVAL else if any < 0 then Some ERANGE else None),
             endp = (if want then Some (if any \<noteq> 0 then s - 1 else p) else None)\<rparr> })"
      unfolding strtoll_common_def sp bind.bind_lunit Let_def prod.case
      unfolding sign bind.bind_lunit prod.case
      unfolding hext' bind.bind_lunit
      unfolding pre bind.bind_lunit prod.case beq neg [symmetric]
      by (rule refl)
    then have "strtoll_common m p want base isUnsigned =
      Some (if b < 2 \<or> b > 36 then \<lparr>val = 0, err = Some EINVAL, endp = None\<rparr>
        else convert p want isUnsigned neg b a3 q3)"
    proof (cases "b < 2 \<or> b > 36")
      case False
      then have b36: "2 \<le> nat b" "nat b \<le> 36" "b = int (nat b)" by auto
      define ds where "ds = digits (nat b) a3"
      define v where "v = horner (nat b) 0 ds"
      have nil: "ds = [] \<Longrightarrow> v = 0" by (simp add: v_def horner_def)
      have lim: "conv_limit isUnsigned neg = (if isUnsigned then ULONG_MAX
          else if neg then word_of_int LONG_MIN else word_of_int LONG_MAX)"
        by (simp add: conv_limit_def)
      define L where "L = unat (conv_limit isUnsigned neg)"
      have L: "L < 2 ^ 64" unfolding L_def using unsigned_less [of "conv_limit isUnsigned neg"] by simp
      obtain r' any where loop: "strtoll_loop m b (of_nat (L div nat b)) (int (L mod nat b)) (hd0 a3) (Suc q3) 0 0 =
          Some (Suc q3 + length (ds), r', any)"
        "any = (if v > L then - 1
          else if ds = [] then 0 else 1)"
        "any < 0 \<or> unat r' = v"
        using strtoll_loop_spec [OF b36(1,2) L a3 cstr_hd0 [OF a3], of 0 0] b36(3) by (auto simp: q3_def ds_def v_def)
      from loop(3) have "v > L \<or>
          r' = of_nat (v)"
        using loop(2) by (metis of_nat_unat ucast_id zero_less_one not_less_iff_gr_or_eq)
      with loop show ?thesis
        using False \<open>strtoll_common m p want base isUnsigned = _\<close>
          limit_split [of b "conv_limit isUnsigned neg", folded L_def] nil lim
        unfolding convert_def Let_def ds_def [symmetric] v_def [symmetric] L_def [symmetric]
        by (cases "ds = []"; cases "v > L") simp_all
    qed simp
    then show ?thesis by (simp add: conv_spec_def subj convert_def q3_def Let_def)
  qed
qed

text \<open>
  C36. \<open>strtoul\<close> and \<open>strtol\<close> return what ISO C asks on every string and in every base: white space, a
  sign and a prefix are skipped, the longest run of digits is converted exactly, an unsigned result
  is negated modulo $2^{64}$, an out-of-range value saturates with \<open>ERANGE\<close> and still consumes all
  its digits, and a string without digits or an invalid base gives 0 and \<open>EINVAL\<close>.
\<close>

theorem strtoul_strtol_correct:
  assumes "cstr m p a" and "length a < 2 ^ 31"
  shows "strtoul m p want base = Some (conv_spec p want base True a) \<and>
    strtol m p want base = Some (conv_spec p want base False a)"
  using assms by (simp add: strtoul_def strtol_def strtoul_common_spec)

theorem strtoul_strtol_correct_witness:
  "strtoul (image_at 1 [45, 49, 0]) 1 True 10 = Some (conv_spec 1 True 10 True [45, 49]) \<and>
   strtol (image_at 1 [45, 49, 0]) 1 True 10 = Some (conv_spec 1 True 10 False [45, 49])"
  by (rule strtoul_strtol_correct) (simp_all add: image_at_def)

text \<open>
  The two implementations agree: on every string the \<open>long long\<close> and \<open>intmax_t\<close> functions return
  the value, the error and the end pointer of the \<open>long\<close> ones.
\<close>

theorem strtoull_agrees_with_strtoul:
  assumes "cstr m p a" and "length a < 2 ^ 31"
  shows "strtoull m p want base = strtoul m p want base \<and>
    strtoll m p want base = strtol m p want base \<and>
    strtoumax m p want base = strtoul m p want base \<and>
    strtoimax m p want base = strtol m p want base \<and> atoll m p = atol m p"
  using assms
  by (simp add: strtoul_def strtol_def strtoull_def strtoll_def strtoumax_def strtoimax_def
      atoll_def atol_def strtoul_common_spec strtoll_common_spec)

theorem strtoull_agrees_with_strtoul_witness:
  "strtoull (image_at 1 [45, 49, 0]) 1 True 16 = strtoul (image_at 1 [45, 49, 0]) 1 True 16 \<and>
   strtoll (image_at 1 [45, 49, 0]) 1 True 16 = strtol (image_at 1 [45, 49, 0]) 1 True 16 \<and>
   strtoumax (image_at 1 [45, 49, 0]) 1 True 16 = strtoul (image_at 1 [45, 49, 0]) 1 True 16 \<and>
   strtoimax (image_at 1 [45, 49, 0]) 1 True 16 = strtol (image_at 1 [45, 49, 0]) 1 True 16 \<and>
   atoll (image_at 1 [45, 49, 0]) 1 = atol (image_at 1 [45, 49, 0]) 1"
  by (rule strtoull_agrees_with_strtoul [of _ _ "[45, 49]"]) (simp_all add: image_at_def)

subsection \<open>Decimal numerals\<close>

text \<open>The decimal numeral of a number, as \<open>printf\<close> with \<open>%d\<close> writes it.\<close>

definition dchar :: "nat \<Rightarrow> byte" where
  "dchar d = of_nat (48 + d)"

fun dec :: "nat \<Rightarrow> byte list" where
  "dec n = (if n < 10 then [dchar n] else dec (n div 10) @ [dchar (n mod 10)])"

declare dec.simps [simp del]

definition sdec :: "int \<Rightarrow> byte list" where
  "sdec n = (if n < 0 then 45 # dec (nat (- n)) else dec (nat n))"

lemma unat_dchar [simp]: "d < 10 \<Longrightarrow> unat (dchar d) = 48 + d"
  unfolding dchar_def by (intro unat_of_nat_small) simp

lemma digit_of_dchar [simp]: "d < 10 \<Longrightarrow> digit_of (dchar d) = d"
  by (simp add: digit_of_def Let_def)

lemma dec_bytes: "c \<in> set (dec n) \<Longrightarrow> 48 \<le> unat c \<and> unat c \<le> 57"
proof (induction n rule: dec.induct)
  case (1 n)
  then show ?case by (cases "n < 10") (auto simp: dec.simps [of n])
qed

lemma dec_nonempty: "dec n \<noteq> []"
  by (subst dec.simps) simp

lemma dec_horner: "horner 10 0 (map digit_of (dec n)) = n"
proof (induction n rule: dec.induct)
  case (1 n)
  then show ?case by (cases "n < 10") (simp_all add: dec.simps [of n] horner_def)
qed

lemma dec_length: "n < 10 ^ Suc k \<Longrightarrow> length (dec n) \<le> Suc k"
proof (induction k arbitrary: n)
  case 0
  then show ?case by (subst dec.simps) simp
next
  case (Suc k)
  then have "n div 10 < 10 ^ Suc k" by simp
  with Suc.IH show ?case by (subst dec.simps) auto
qed

lemma dec_digits: "digits 10 (dec n) = map digit_of (dec n)"
proof -
  have "digit_of c < 10" if "c \<in> set (dec n)" for c
    using dec_bytes [OF that] by (auto simp: digit_of_def Let_def)
  then have "takeWhile (\<lambda>c. digit_of c < 10) (dec n) = dec n"
    by (simp add: takeWhile_eq_all_conv)
  then show ?thesis unfolding digits_def by (rule arg_cong)
qed

lemma hd0_dec: "48 \<le> unat (hd0 (dec n))" "unat (hd0 (dec n)) \<le> 57"
  using dec_nonempty [of n] dec_bytes [of "hd (dec n)" n] by (auto simp: hd0_def split: list.splits)

lemma dec_uint: "c \<in> set (dec n) \<Longrightarrow> 48 \<le> uint c \<and> uint c \<le> 57"
proof -
  assume "c \<in> set (dec n)"
  moreover have "uint c = int (unat c)" by simp
  ultimately show ?thesis using dec_bytes [of c n] by presburger
qed

lemma dec_no_space: "dropWhile (\<lambda>c. isspace (uint c) \<noteq> 0) (dec n) = dec n"
proof -
  have "isspace (uint (hd (dec n))) = 0"
    using dec_uint [of "hd (dec n)" n] dec_nonempty [of n] by (simp add: ctype_defs)
  then show ?thesis using dec_nonempty by (cases "dec n") auto
qed

lemma subject_sdec: "subject 10 (sdec n) = (n < 0, 10, dec (nat \<bar>n\<bar>))"
proof (cases "n < 0")
  case True
  then show ?thesis by (simp add: subject_def sdec_def hd0_def ctype_defs)
next
  case False
  have "hd0 (dec (nat n)) \<noteq> 45" "hd0 (dec (nat n)) \<noteq> 43"
    using hd0_dec(1) [of "nat n"] by auto
  with False show ?thesis by (simp add: subject_def sdec_def dec_no_space)
qed

text \<open>
  A decimal numeral is read back exactly: \<open>atol\<close> and \<open>atoll\<close> return the number for every
  \<open>long\<close>, \<open>atoi\<close> the number converted to \<open>int\<close>, which is the number itself where it is an \<open>int\<close>.
\<close>

theorem ato_roundtrip:
  assumes "cstr m p (sdec n)" and "LONG_MIN \<le> n" and "n \<le> LONG_MAX"
  shows "atol m p = Some n \<and> atoll m p = Some n \<and> atoi m p = Some (cast_int n)"
proof -
  let ?v = "nat \<bar>n\<bar>"
  have "?v < 10 ^ Suc 18" using assms(2,3) by (simp add: LONG_MIN_def LONG_MAX_def)
  then have "length (sdec n) < 2 ^ 31"
    using dec_length [of ?v 18] by (auto simp: sdec_def)
  moreover have "sint (val (conv_spec p False 10 False (sdec n))) = n"
  proof -
    have "\<not> unat (conv_limit False (n < 0)) < ?v"
      using assms(2,3) by (auto simp: conv_limit_def LONG_MIN_def LONG_MAX_def)
    then have "val (conv_spec p False 10 False (sdec n)) = word_of_int n"
      by (simp add: conv_spec_def subject_sdec dec_digits dec_horner Let_def)
    moreover have "sint (word_of_int n :: u64) = n"
      using assms(2,3)
      by (simp add: signed_of_int signed_take_bit_int_eq_self LONG_MIN_def LONG_MAX_def)
    ultimately show ?thesis by simp
  qed
  ultimately show ?thesis
    using assms(1)
    by (simp add: atol_def atoll_def atoi_def strtol_def strtoll_def strtoul_common_spec
        strtoll_common_spec)
qed

theorem ato_roundtrip_witness:
  "atol (image_at 1 [45, 55, 0]) 1 = Some (- 7) \<and> atoll (image_at 1 [45, 55, 0]) 1 = Some (- 7) \<and>
   atoi (image_at 1 [45, 55, 0]) 1 = Some (cast_int (- 7))"
  by (rule ato_roundtrip)
    (simp_all add: image_at_def sdec_def dec.simps dchar_def LONG_MIN_def LONG_MAX_def)

end
