(* ===== verification/WChar.thy ===== *)
theory WChar
  imports StrCopy StrNum
begin

section \<open>Wide characters: wchar/wchar.c, wchar/uchar.c and wctype/wctype.c\<close>

text \<open>
  A wide string is an array of 32-bit words, indexed by the character: \<open>w (p + i)\<close> is \<open>p[i]\<close>. The
  multibyte functions go between such an array and byte memory, which never overlap. \<open>wint_t\<close> is an
  \<open>int\<close>, \<open>wchar_t\<close> unsigned.
\<close>

type_synonym warray = "u32 array"

subsection \<open>Conversion between bytes and wide characters\<close>

text \<open>\<open>store_opt\<close> is the store through a pointer that may be NULL.\<close>

definition store_opt :: "'c array \<Rightarrow> addr \<Rightarrow> 'c \<Rightarrow> 'c array option" where
  "store_opt w p v = (if p \<noteq> NULL then store w p v else Some w)"

definition mbtowc :: "warray \<Rightarrow> addr \<Rightarrow> mem \<Rightarrow> addr \<Rightarrow> nat \<Rightarrow> (warray \<times> int) option" where
  "mbtowc w pwc m s n =
     (if s = NULL then Some (w, 0)
      else if n = 0 then Some (w, - 1)
      else do {
        c \<leftarrow> m s;
        if c = 0 then do { w' \<leftarrow> store_opt w pwc 0; Some (w', 0) }
        else do { w' \<leftarrow> store_opt w pwc (ucast c); Some (w', 1) } })"

definition mblen :: "mem \<Rightarrow> addr \<Rightarrow> nat \<Rightarrow> int option" where
  "mblen m s n =
     (if s = NULL then Some 0 else if n = 0 then Some (- 1)
      else do { c \<leftarrow> m s; Some (if c = 0 then 0 else 1) })"

partial_function (option) mbstowcs_loop ::
  "warray \<Rightarrow> addr \<Rightarrow> mem \<Rightarrow> addr \<Rightarrow> nat \<Rightarrow> nat \<Rightarrow> (warray \<times> nat \<times> bool) option" where
  "mbstowcs_loop w dst m s n i =
     (if \<not> i < n then Some (w, i, False)
      else do {
        c \<leftarrow> m (s + i);
        w' \<leftarrow> store w (dst + i) (ucast c);
        if c = 0 then Some (w', i, True) else mbstowcs_loop w' dst m s n (i + 1) })"

definition mbstowcs :: "warray \<Rightarrow> addr \<Rightarrow> mem \<Rightarrow> addr \<Rightarrow> nat \<Rightarrow> (warray \<times> nat) option" where
  "mbstowcs w pwcs m s n =
     (if pwcs = NULL then do { k \<leftarrow> strlen m s; Some (w, k) }
      else do { (w', i, _) \<leftarrow> mbstowcs_loop w pwcs m s n 0; Some (w', i) })"

text \<open>The length pass of \<open>wcstombs\<close> and \<open>wcsrtombs\<close>, with \<open>errno\<close> where it fails.\<close>

partial_function (option) wcs_measure :: "warray \<Rightarrow> addr \<Rightarrow> nat \<Rightarrow> (errno + nat) option" where
  "wcs_measure w p i = do {
     c \<leftarrow> w (p + i);
     if c = 0 then Some (Inr i)
     else if c > 0xff then Some (Inl EILSEQ)
     else wcs_measure w p (i + 1) }"

partial_function (option) wcstombs_loop ::
  "mem \<Rightarrow> addr \<Rightarrow> warray \<Rightarrow> addr \<Rightarrow> nat \<Rightarrow> nat \<Rightarrow> (mem \<times> (errno + nat)) option" where
  "wcstombs_loop m s w pwcs n i =
     (if \<not> i < n then Some (m, Inr i)
      else do {
        c \<leftarrow> w (pwcs + i);
        if c = 0 then do { m' \<leftarrow> store m (s + i) 0; Some (m', Inr i) }
        else if c > 0xff then Some (m, Inl EILSEQ)
        else do { m' \<leftarrow> store m (s + i) (ucast c); wcstombs_loop m' s w pwcs n (i + 1) } })"

definition wcstombs :: "mem \<Rightarrow> addr \<Rightarrow> warray \<Rightarrow> addr \<Rightarrow> nat \<Rightarrow> (mem \<times> (errno + nat)) option" where
  "wcstombs m s w pwcs n =
     (if s = NULL then do { r \<leftarrow> wcs_measure w pwcs 0; Some (m, r) }
      else wcstombs_loop m s w pwcs n 0)"

text \<open>\<open>ps\<close> is \<open>None\<close> for NULL and the \<open>count\<close> of the state otherwise.\<close>

definition mbsinit :: "int option \<Rightarrow> int" where
  "mbsinit ps = (case ps of None \<Rightarrow> 1 | Some count \<Rightarrow> if count = 0 then 1 else 0)"

definition mbrtowc :: "warray \<Rightarrow> addr \<Rightarrow> mem \<Rightarrow> addr \<Rightarrow> nat \<Rightarrow> (warray \<times> u64) option" where
  "mbrtowc w pwc m s n =
     (if s = NULL then Some (w, 0)
      else if n = 0 then Some (w, - 2)
      else do {
        c \<leftarrow> m s;
        if c = 0 then do { w' \<leftarrow> store_opt w pwc 0; Some (w', 0) }
        else do { w' \<leftarrow> store_opt w pwc (ucast c); Some (w', 1) } })"

definition wcrtomb :: "mem \<Rightarrow> addr \<Rightarrow> u32 \<Rightarrow> (mem \<times> u64 \<times> errno option) option" where
  "wcrtomb m s wc =
     (if s = NULL then Some (m, 1, None)
      else if wc > 0xff then Some (m, - 1, Some EILSEQ)
      else do { m' \<leftarrow> store m s (ucast wc); Some (m', 1, None) })"

text \<open>\<open>mbsrtowcs\<close> and \<open>wcsrtombs\<close> take the value of \<open>*src\<close> and return its new value too.\<close>

definition mbsrtowcs ::
  "warray \<Rightarrow> addr \<Rightarrow> mem \<Rightarrow> addr \<Rightarrow> nat \<Rightarrow> (warray \<times> nat \<times> addr) option" where
  "mbsrtowcs w dst m s len =
     (if dst = NULL then do { k \<leftarrow> strlen m s; Some (w, k, s) }
      else do {
        (w', i, ended) \<leftarrow> mbstowcs_loop w dst m s len 0;
        Some (w', i, if ended then NULL else s + i) })"

partial_function (option) wcsrtombs_loop ::
  "mem \<Rightarrow> addr \<Rightarrow> warray \<Rightarrow> addr \<Rightarrow> nat \<Rightarrow> nat \<Rightarrow> (mem \<times> (errno + nat) \<times> addr) option" where
  "wcsrtombs_loop m dst w s len i =
     (if \<not> i < len then Some (m, Inr i, s + i)
      else do {
        c \<leftarrow> w (s + i);
        if c > 0xff then Some (m, Inl EILSEQ, s)
        else if c = 0 then do { m' \<leftarrow> store m (dst + i) 0; Some (m', Inr i, NULL) }
        else do { m' \<leftarrow> store m (dst + i) (ucast c); wcsrtombs_loop m' dst w s len (i + 1) } })"

definition wcsrtombs ::
  "mem \<Rightarrow> addr \<Rightarrow> warray \<Rightarrow> addr \<Rightarrow> nat \<Rightarrow> (mem \<times> (errno + nat) \<times> addr) option" where
  "wcsrtombs m dst w s len =
     (if dst = NULL then do { r \<leftarrow> wcs_measure w s 0; Some (m, r, s) }
      else wcsrtombs_loop m dst w s len 0)"

definition mbrlen :: "mem \<Rightarrow> addr \<Rightarrow> nat \<Rightarrow> u64 option" where
  "mbrlen m s n =
     (if s = NULL then Some 0 else if n = 0 then Some (- 2)
      else do { c \<leftarrow> m s; Some (if c = 0 then 0 else 1) })"

definition wctob :: "int \<Rightarrow> int" where
  "wctob c = (if (word_of_int c :: u32) \<noteq> - 1 \<and> (word_of_int c :: u32) < 0x100 then c else - 1)"

text \<open>wchar/uchar.c.\<close>

definition uchar_toCode :: "u64 \<Rightarrow> mem \<Rightarrow> addr \<Rightarrow> nat \<Rightarrow> (u64 \<times> u64) option" where
  "uchar_toCode code m s n =
     (if s = NULL then Some (code, 0)
      else if n = 0 then Some (code, - 2)
      else do { c \<leftarrow> m s; let code = (ucast c :: u64) in Some (code, if code = 0 then 0 else 1) })"

definition uchar_fromCode :: "mem \<Rightarrow> addr \<Rightarrow> u64 \<Rightarrow> (mem \<times> u64 \<times> errno option) option" where
  "uchar_fromCode m s code =
     (if s = NULL then Some (m, 1, None)
      else if code > 0xff then Some (m, - 1, Some EILSEQ)
      else do { m' \<leftarrow> store m s (ucast code); Some (m', 1, None) })"

definition mbrtoc16 ::
  "16 word array \<Rightarrow> addr \<Rightarrow> mem \<Rightarrow> addr \<Rightarrow> nat \<Rightarrow> (16 word array \<times> u64) option" where
  "mbrtoc16 h pc16 m s n = do {
     (code, ret) \<leftarrow> uchar_toCode 0 m s n;
     h' \<leftarrow> (if pc16 \<noteq> NULL \<and> s \<noteq> NULL \<and> n \<noteq> 0 then store h pc16 (ucast code) else Some h);
     Some (h', ret) }"

definition c16rtomb :: "mem \<Rightarrow> addr \<Rightarrow> 16 word \<Rightarrow> (mem \<times> u64 \<times> errno option) option" where
  "c16rtomb m s c16 = uchar_fromCode m s (ucast c16)"

definition mbrtoc32 :: "warray \<Rightarrow> addr \<Rightarrow> mem \<Rightarrow> addr \<Rightarrow> nat \<Rightarrow> (warray \<times> u64) option" where
  "mbrtoc32 w pc32 m s n = do {
     (code, ret) \<leftarrow> uchar_toCode 0 m s n;
     w' \<leftarrow> (if pc32 \<noteq> NULL \<and> s \<noteq> NULL \<and> n \<noteq> 0 then store w pc32 (ucast code) else Some w);
     Some (w', ret) }"

definition c32rtomb :: "mem \<Rightarrow> addr \<Rightarrow> u32 \<Rightarrow> (mem \<times> u64 \<times> errno option) option" where
  "c32rtomb m s c32 = uchar_fromCode m s (ucast c32)"

subsection \<open>Wide strings\<close>

partial_function (option) wcsncpy_copy ::
  "warray \<Rightarrow> addr \<Rightarrow> addr \<Rightarrow> nat \<Rightarrow> nat \<Rightarrow> (warray \<times> nat) option" where
  "wcsncpy_copy w dest src n i =
     (if \<not> i < n then Some (w, i)
      else do {
        c \<leftarrow> w (src + i);
        if c \<noteq> 0 then do { w' \<leftarrow> store w (dest + i) c; wcsncpy_copy w' dest src n (i + 1) }
        else Some (w, i) })"

text \<open>The loop that stores one value from \<open>i\<close> up to \<open>n\<close>: the padding of \<open>wcsncpy\<close> and \<open>wmemset\<close>.\<close>

partial_function (option) wmem_fill :: "warray \<Rightarrow> addr \<Rightarrow> u32 \<Rightarrow> nat \<Rightarrow> nat \<Rightarrow> warray option" where
  "wmem_fill w ws wc n i =
     (if \<not> i < n then Some w
      else do { w' \<leftarrow> store w (ws + i) wc; wmem_fill w' ws wc n (i + 1) })"

definition wcsncpy :: "warray \<Rightarrow> addr \<Rightarrow> addr \<Rightarrow> nat \<Rightarrow> (warray \<times> addr) option" where
  "wcsncpy w dest src n = do {
     (w', i) \<leftarrow> wcsncpy_copy w dest src n 0;
     w'' \<leftarrow> wmem_fill w' dest 0 n i;
     Some (w'', dest) }"

definition wmemset :: "warray \<Rightarrow> addr \<Rightarrow> u32 \<Rightarrow> nat \<Rightarrow> (warray \<times> addr) option" where
  "wmemset w ws wc n = do { w' \<leftarrow> wmem_fill w ws wc n 0; Some (w', ws) }"

partial_function (option) wcscpy_loop :: "warray \<Rightarrow> addr \<Rightarrow> addr \<Rightarrow> warray option" where
  "wcscpy_loop w d src = do {
     c \<leftarrow> w src;
     w' \<leftarrow> store w d c;
     if c \<noteq> 0 then wcscpy_loop w' (d + 1) (src + 1) else Some w' }"

definition wcscpy :: "warray \<Rightarrow> addr \<Rightarrow> addr \<Rightarrow> (warray \<times> addr) option" where
  "wcscpy w dest src = do { w' \<leftarrow> wcscpy_loop w dest src; Some (w', dest) }"

text \<open>The scan for the terminator that \<open>wcscat\<close> and \<open>wcslen\<close> share.\<close>

partial_function (option) wcs_end :: "warray \<Rightarrow> addr \<Rightarrow> addr option" where
  "wcs_end w s = do { c \<leftarrow> w s; if c \<noteq> 0 then wcs_end w (s + 1) else Some s }"

definition wcscat :: "warray \<Rightarrow> addr \<Rightarrow> addr \<Rightarrow> (warray \<times> addr) option" where
  "wcscat w dest src = do {
     d \<leftarrow> wcs_end w dest; w' \<leftarrow> wcscpy_loop w d src; Some (w', dest) }"

definition wcslen :: "warray \<Rightarrow> addr \<Rightarrow> nat option" where
  "wcslen w ws = do { s \<leftarrow> wcs_end w ws; Some (s - ws) }"

partial_function (option) wcschr :: "warray \<Rightarrow> addr \<Rightarrow> u32 \<Rightarrow> addr option" where
  "wcschr w ws wc = do {
     c \<leftarrow> w ws;
     if c = 0 then Some (if wc = 0 then ws else NULL)
     else if c = wc then Some ws else wcschr w (ws + 1) wc }"

partial_function (option) wcsrchr_loop :: "warray \<Rightarrow> u32 \<Rightarrow> addr \<Rightarrow> addr \<Rightarrow> addr option" where
  "wcsrchr_loop w wc ws lastp = do {
     c \<leftarrow> w ws;
     let lastp = (if c = wc then ws else lastp) in
     if c = 0 then Some lastp else wcsrchr_loop w wc (ws + 1) lastp }"

definition wcsrchr :: "warray \<Rightarrow> addr \<Rightarrow> u32 \<Rightarrow> addr option" where
  "wcsrchr w ws wc = wcsrchr_loop w wc ws NULL"

partial_function (option) wcsncmp_loop :: "warray \<Rightarrow> addr \<Rightarrow> addr \<Rightarrow> nat \<Rightarrow> nat \<Rightarrow> int option" where
  "wcsncmp_loop w ws1 ws2 n i =
     (if \<not> i < n then Some 0
      else do {
        a \<leftarrow> w (ws1 + i); b \<leftarrow> w (ws2 + i);
        if a \<noteq> b then Some (if a < b then - 1 else 1)
        else if a = 0 then Some 0 else wcsncmp_loop w ws1 ws2 n (i + 1) })"

definition wcsncmp :: "warray \<Rightarrow> addr \<Rightarrow> addr \<Rightarrow> nat \<Rightarrow> int option" where
  "wcsncmp w ws1 ws2 n = wcsncmp_loop w ws1 ws2 n 0"

partial_function (option) wmemcpy_up :: "warray \<Rightarrow> addr \<Rightarrow> addr \<Rightarrow> nat \<Rightarrow> nat \<Rightarrow> warray option" where
  "wmemcpy_up w dest src n i =
     (if \<not> i < n then Some w
      else do { c \<leftarrow> w (src + i); w' \<leftarrow> store w (dest + i) c; wmemcpy_up w' dest src n (i + 1) })"

definition wmemcpy :: "warray \<Rightarrow> addr \<Rightarrow> addr \<Rightarrow> nat \<Rightarrow> (warray \<times> addr) option" where
  "wmemcpy w dest src n = do { w' \<leftarrow> wmemcpy_up w dest src n 0; Some (w', dest) }"

fun wmemcpy_down :: "warray \<Rightarrow> addr \<Rightarrow> addr \<Rightarrow> nat \<Rightarrow> warray option" where
  "wmemcpy_down w dest src 0 = Some w"
| "wmemcpy_down w dest src (Suc i) = do {
     c \<leftarrow> w (src + i); w' \<leftarrow> store w (dest + i) c; wmemcpy_down w' dest src i }"

definition wmemmove :: "warray \<Rightarrow> addr \<Rightarrow> addr \<Rightarrow> nat \<Rightarrow> (warray \<times> addr) option" where
  "wmemmove w dest src n = do {
     w' \<leftarrow> (if dest \<le> src then wmemcpy_up w dest src n 0 else wmemcpy_down w dest src n);
     Some (w', dest) }"

partial_function (option) wmemcmp_loop :: "warray \<Rightarrow> addr \<Rightarrow> addr \<Rightarrow> nat \<Rightarrow> nat \<Rightarrow> int option" where
  "wmemcmp_loop w ws1 ws2 n i =
     (if \<not> i < n then Some 0
      else do {
        a \<leftarrow> w (ws1 + i); b \<leftarrow> w (ws2 + i);
        if a \<noteq> b then Some (if a < b then - 1 else 1) else wmemcmp_loop w ws1 ws2 n (i + 1) })"

definition wmemcmp :: "warray \<Rightarrow> addr \<Rightarrow> addr \<Rightarrow> nat \<Rightarrow> int option" where
  "wmemcmp w ws1 ws2 n = wmemcmp_loop w ws1 ws2 n 0"

text \<open>\<open>wcscmp\<close> runs on an \<open>int\<close>.\<close>

partial_function (option) wcscmp_loop :: "warray \<Rightarrow> addr \<Rightarrow> addr \<Rightarrow> int \<Rightarrow> int option" where
  "wcscmp_loop w ws1 ws2 i = do {
     a \<leftarrow> w (ws1 + nat i); b \<leftarrow> w (ws2 + nat i);
     if a = b then
       if a = 0 then Some 0
       else do { i' \<leftarrow> to_int (i + 1); wcscmp_loop w ws1 ws2 i' }
     else Some (if a > b then 1 else - 1) }"

definition wcscmp :: "warray \<Rightarrow> addr \<Rightarrow> addr \<Rightarrow> int option" where
  "wcscmp w ws1 ws2 = wcscmp_loop w ws1 ws2 0"

definition wcscoll :: "warray \<Rightarrow> addr \<Rightarrow> addr \<Rightarrow> int option" where
  "wcscoll w ws1 ws2 = wcscmp w ws1 ws2"

definition wcwidth :: "u32 \<Rightarrow> int" where
  "wcwidth wc =
     (if wc = 0 then 0
      else if (wc \<ge> 0 \<and> wc < 0x20) \<or> (wc \<ge> 0x7f \<and> wc < 0xa0) then - 1 else 1)"

fun wcswidth_loop :: "warray \<Rightarrow> addr \<Rightarrow> nat \<Rightarrow> int \<Rightarrow> int option" where
  "wcswidth_loop w p 0 acc = Some acc"
| "wcswidth_loop w p (Suc n) acc = do {
     c \<leftarrow> w p;
     if c = 0 then Some acc
     else let cw = wcwidth c in
       if cw < 0 then Some (- 1)
       else do { acc' \<leftarrow> to_int (acc + cw); wcswidth_loop w (p + 1) n acc' } }"

definition wcswidth :: "warray \<Rightarrow> addr \<Rightarrow> nat \<Rightarrow> int option" where
  "wcswidth w pwcs n = wcswidth_loop w pwcs n 0"

fun wmemchr :: "warray \<Rightarrow> addr \<Rightarrow> u32 \<Rightarrow> nat \<Rightarrow> addr option" where
  "wmemchr w s c 0 = Some NULL"
| "wmemchr w s c (Suc n) = do { x \<leftarrow> w s; if x = c then Some s else wmemchr w (s + 1) c n }"

text \<open>\<open>wcsdup\<close>: the address \<open>malloc\<close> returns is an argument (NULL where it fails).\<close>

definition wcsdup :: "(nat \<Rightarrow> addr) \<Rightarrow> warray \<Rightarrow> addr \<Rightarrow> (warray \<times> addr) option" where
  "wcsdup malloc w s = do {
     l \<leftarrow> wcslen w s;
     let n = l + 1;
     let p = malloc (n * 4);
     w' \<leftarrow> (if p \<noteq> NULL then do { (w1, _) \<leftarrow> wmemcpy w p s n; Some w1 } else Some w);
     Some (w', p) }"

partial_function (option) wcspbrk :: "warray \<Rightarrow> addr \<Rightarrow> addr \<Rightarrow> addr option" where
  "wcspbrk w s charset = do {
     c \<leftarrow> w s;
     if c = 0 then Some NULL
     else do { f \<leftarrow> wcschr w charset c; if f \<noteq> NULL then Some s else wcspbrk w (s + 1) charset } }"

text \<open>The two scans over members and non-members of a set, shared with \<open>wcstok\<close>.\<close>

partial_function (option) wcs_skip_in :: "warray \<Rightarrow> addr \<Rightarrow> addr \<Rightarrow> addr option" where
  "wcs_skip_in w charset p = do {
     c \<leftarrow> w p;
     if c = 0 then Some p
     else do { f \<leftarrow> wcschr w charset c; if f \<noteq> NULL then wcs_skip_in w charset (p + 1) else Some p } }"

partial_function (option) wcs_skip_out :: "warray \<Rightarrow> addr \<Rightarrow> addr \<Rightarrow> addr option" where
  "wcs_skip_out w charset p = do {
     c \<leftarrow> w p;
     if c = 0 then Some p
     else do { f \<leftarrow> wcschr w charset c; if f = NULL then wcs_skip_out w charset (p + 1) else Some p } }"

definition wcsspn :: "warray \<Rightarrow> addr \<Rightarrow> addr \<Rightarrow> nat option" where
  "wcsspn w s charset = do { p \<leftarrow> wcs_skip_in w charset s; Some (p - s) }"

definition wcscspn :: "warray \<Rightarrow> addr \<Rightarrow> addr \<Rightarrow> nat option" where
  "wcscspn w s charset = do { p \<leftarrow> wcs_skip_out w charset s; Some (p - s) }"

partial_function (option) wcsstr_loop :: "warray \<Rightarrow> addr \<Rightarrow> nat \<Rightarrow> addr \<Rightarrow> addr option" where
  "wcsstr_loop w needle n haystack = do {
     c \<leftarrow> w haystack;
     if c = 0 then Some NULL
     else do {
       d \<leftarrow> w needle;
       r \<leftarrow> (if c = d then wcsncmp w haystack needle n else Some 1);
       if r = 0 then Some haystack else wcsstr_loop w needle n (haystack + 1) } }"

definition wcsstr :: "warray \<Rightarrow> addr \<Rightarrow> addr \<Rightarrow> addr option" where
  "wcsstr w haystack needle = do {
     d \<leftarrow> w needle;
     if d = 0 then Some haystack
     else do { n \<leftarrow> wcslen w needle; wcsstr_loop w needle n haystack } }"

text \<open>\<open>wcstok\<close> takes the value of \<open>*save\<close> and returns the array, the token and the new \<open>*save\<close>.\<close>

definition wcstok :: "warray \<Rightarrow> addr \<Rightarrow> addr \<Rightarrow> addr \<Rightarrow> (warray \<times> addr \<times> addr) option" where
  "wcstok w s0 delim save = do {
     let s = (if s0 = NULL then save else s0);
     if s = NULL then Some (w, NULL, save)
     else do {
       tok \<leftarrow> wcs_skip_in w delim s;
       c \<leftarrow> w tok;
       if c = 0 then Some (w, NULL, NULL)
       else do {
         e \<leftarrow> wcs_skip_out w delim tok;
         d \<leftarrow> w e;
         if d \<noteq> 0 then do { w' \<leftarrow> store w e 0; Some (w', tok, e + 1) }
         else Some (w, tok, NULL) } } }"

subsection \<open>Wide strings to numbers\<close>

text \<open>
  The macro \<open>WCSTONUM_DEF\<close> with the conversion as an argument. \<open>buf\<close> is the address of the 512-byte
  stack buffer in \<open>m\<close>, whose bytes are indeterminate. \<open>cend\<close> is uninitialised unless the conversion
  stores it: using it then has no defined outcome.
\<close>

partial_function (option) wcstonum_narrow ::
  "warray \<Rightarrow> addr \<Rightarrow> mem \<Rightarrow> addr \<Rightarrow> nat \<Rightarrow> nat \<Rightarrow> (mem \<times> nat) option" where
  "wcstonum_narrow w ws m buf cap i = do {
     c \<leftarrow> w (ws + i);
     if c \<noteq> 0 \<and> i < cap - 1 \<and> c < 128 then do {
       m' \<leftarrow> store m (buf + i) (ucast c);
       wcstonum_narrow w ws m' buf cap (i + 1) }
     else do { m' \<leftarrow> store m (buf + i) 0; Some (m', i) } }"

definition WCSTONUM_BUFSZ :: nat where "WCSTONUM_BUFSZ = 512"

definition wcstonum ::
  "(mem \<Rightarrow> addr \<Rightarrow> bool \<Rightarrow> int \<Rightarrow> conv option) \<Rightarrow> mem \<Rightarrow> addr \<Rightarrow> warray \<Rightarrow> addr \<Rightarrow> bool \<Rightarrow> int \<Rightarrow> conv option" where
  "wcstonum strto m buf w nptr want base = do {
     (m', _) \<leftarrow> wcstonum_narrow w nptr m buf WCSTONUM_BUFSZ 0;
     r \<leftarrow> strto m' buf True base;
     if want then do { cend \<leftarrow> endp r; Some (r\<lparr>endp := Some (nptr + (cend - buf))\<rparr>) }
     else Some (r\<lparr>endp := None\<rparr>) }"

definition wcstol where "wcstol = wcstonum strtol"
definition wcstoul where "wcstoul = wcstonum strtoul"
definition wcstoll where "wcstoll = wcstonum strtoll"
definition wcstoull where "wcstoull = wcstonum strtoull"
definition wcstoimax where "wcstoimax = wcstonum strtoimax"
definition wcstoumax where "wcstoumax = wcstonum strtoumax"

subsection \<open>Wide character classes\<close>

definition iswdigit :: "int \<Rightarrow> int" where
  "iswdigit wc = (if wc \<ge> 48 \<and> wc \<le> 57 then 1 else 0)"

definition iswupper :: "int \<Rightarrow> int" where
  "iswupper wc = (if wc \<ge> 65 \<and> wc \<le> 90 then 1 else 0)"

definition iswlower :: "int \<Rightarrow> int" where
  "iswlower wc = (if wc \<ge> 97 \<and> wc \<le> 122 then 1 else 0)"

definition iswalpha :: "int \<Rightarrow> int" where
  "iswalpha wc = (if iswupper wc \<noteq> 0 \<or> iswlower wc \<noteq> 0 then 1 else 0)"

definition iswalnum :: "int \<Rightarrow> int" where
  "iswalnum wc = (if iswalpha wc \<noteq> 0 \<or> iswdigit wc \<noteq> 0 then 1 else 0)"

definition iswspace :: "int \<Rightarrow> int" where
  "iswspace wc = (if wc = 32 \<or> wc = 9 \<or> wc = 10 \<or> wc = 11 \<or> wc = 12 \<or> wc = 13 then 1 else 0)"

definition iswblank :: "int \<Rightarrow> int" where
  "iswblank wc = (if wc = 32 \<or> wc = 9 then 1 else 0)"

definition iswcntrl :: "int \<Rightarrow> int" where
  "iswcntrl wc = (if (wc \<ge> 0 \<and> wc < 0x20) \<or> wc = 0x7f then 1 else 0)"

definition iswprint :: "int \<Rightarrow> int" where
  "iswprint wc = (if wc \<ge> 0x20 \<and> wc < 0x7f then 1 else 0)"

definition iswgraph :: "int \<Rightarrow> int" where
  "iswgraph wc = (if wc > 0x20 \<and> wc < 0x7f then 1 else 0)"

definition iswpunct :: "int \<Rightarrow> int" where
  "iswpunct wc = (if iswgraph wc \<noteq> 0 \<and> iswalnum wc = 0 then 1 else 0)"

definition iswxdigit :: "int \<Rightarrow> int" where
  "iswxdigit wc =
     (if iswdigit wc \<noteq> 0 \<or> (wc \<ge> 97 \<and> wc \<le> 102) \<or> (wc \<ge> 65 \<and> wc \<le> 70) then 1 else 0)"

datatype wctype_t = WCT_NONE | WCT_ALNUM | WCT_ALPHA | WCT_BLANK | WCT_CNTRL | WCT_DIGIT
  | WCT_GRAPH | WCT_LOWER | WCT_PRINT | WCT_PUNCT | WCT_SPACE | WCT_UPPER | WCT_XDIGIT

text \<open>A chain of comparisons of a string with literals; \<open>lit\<close> says where a literal lies in memory.\<close>

fun strcmp_chain :: "mem \<Rightarrow> (string \<Rightarrow> addr) \<Rightarrow> addr \<Rightarrow> (string \<times> 'a) list \<Rightarrow> 'a \<Rightarrow> 'a option" where
  "strcmp_chain m lit p [] d = Some d"
| "strcmp_chain m lit p ((l, v) # r) d = do {
     c \<leftarrow> strcmp m p (lit l); if c = 0 then Some v else strcmp_chain m lit p r d }"

definition wctype_table :: "(string \<times> wctype_t) list" where
  "wctype_table =
     [(''alnum'', WCT_ALNUM), (''alpha'', WCT_ALPHA), (''blank'', WCT_BLANK),
      (''cntrl'', WCT_CNTRL), (''digit'', WCT_DIGIT), (''graph'', WCT_GRAPH),
      (''lower'', WCT_LOWER), (''print'', WCT_PRINT), (''punct'', WCT_PUNCT),
      (''space'', WCT_SPACE), (''upper'', WCT_UPPER), (''xdigit'', WCT_XDIGIT)]"

definition wctype :: "mem \<Rightarrow> (string \<Rightarrow> addr) \<Rightarrow> addr \<Rightarrow> wctype_t option" where
  "wctype m lit property =
     (if property = NULL then Some WCT_NONE else strcmp_chain m lit property wctype_table WCT_NONE)"

definition iswctype :: "int \<Rightarrow> wctype_t \<Rightarrow> int" where
  "iswctype wc desc =
     (case desc of
        WCT_ALNUM \<Rightarrow> iswalnum wc | WCT_ALPHA \<Rightarrow> iswalpha wc | WCT_BLANK \<Rightarrow> iswblank wc
      | WCT_CNTRL \<Rightarrow> iswcntrl wc | WCT_DIGIT \<Rightarrow> iswdigit wc | WCT_GRAPH \<Rightarrow> iswgraph wc
      | WCT_LOWER \<Rightarrow> iswlower wc | WCT_PRINT \<Rightarrow> iswprint wc | WCT_PUNCT \<Rightarrow> iswpunct wc
      | WCT_SPACE \<Rightarrow> iswspace wc | WCT_UPPER \<Rightarrow> iswupper wc | WCT_XDIGIT \<Rightarrow> iswxdigit wc
      | WCT_NONE \<Rightarrow> 0)"

definition towlower :: "int \<Rightarrow> int" where
  "towlower wc = (if iswupper wc \<noteq> 0 then wc + (97 - 65) else wc)"

definition towupper :: "int \<Rightarrow> int" where
  "towupper wc = (if iswlower wc \<noteq> 0 then wc - (97 - 65) else wc)"

datatype wctrans_t = WCTR_NONE | WCTR_TOLOWER | WCTR_TOUPPER

definition wctrans_table :: "(string \<times> wctrans_t) list" where
  "wctrans_table = [(''tolower'', WCTR_TOLOWER), (''toupper'', WCTR_TOUPPER)]"

definition wctrans :: "mem \<Rightarrow> (string \<Rightarrow> addr) \<Rightarrow> addr \<Rightarrow> wctrans_t option" where
  "wctrans m lit property =
     (if property = NULL then Some WCTR_NONE
      else strcmp_chain m lit property wctrans_table WCTR_NONE)"

definition towctrans :: "int \<Rightarrow> wctrans_t \<Rightarrow> int" where
  "towctrans wc desc =
     (case desc of WCTR_TOLOWER \<Rightarrow> towlower wc | WCTR_TOUPPER \<Rightarrow> towupper wc | WCTR_NONE \<Rightarrow> wc)"

subsection \<open>What the conversions do\<close>

lemma ucast_byte_u32:
  fixes c :: byte
  shows "ucast (ucast c :: u32) = c" and "(ucast c :: u32) = 0 \<longleftrightarrow> c = 0" and "\<not> (ucast c :: u32) > 0xff"
proof -
  have lt: "unat c < 256" using unsigned_less [of c, where ?'a = nat] by simp
  then have u: "unat (ucast c :: u32) = unat c"
    by (simp add: unsigned_ucast_eq take_bit_nat_eq_self)
  have "unat (ucast (ucast c :: u32) :: byte) = unat (ucast c :: u32) mod 256"
    using lt by (simp add: unsigned_ucast_eq take_bit_eq_mod unat_mod)
  then show "ucast (ucast c :: u32) = c" using lt u by (simp add: word_unat_eq_iff)
  show "(ucast c :: u32) = 0 \<longleftrightarrow> c = 0" by (simp add: word_unat_eq_iff u)
  show "\<not> (ucast c :: u32) > 0xff" using lt u by (simp add: word_less_nat_alt)
qed

lemma mbstowcs_loop_spec:
  "cstr m (s + i) a \<Longrightarrow> i + length a < n \<Longrightarrow> mapped w (dst + i) (Suc (length a)) \<Longrightarrow>
   mbstowcs_loop w dst m s n i = Some (put w (dst + i) (map ucast a @ [0]), i + length a, True)"
proof (induction a arbitrary: w i)
  case Nil
  then show ?case by (subst mbstowcs_loop.simps) (simp add: mapped_Suc)
next
  case (Cons c a)
  then have "mbstowcs_loop (w(dst + i \<mapsto> ucast c)) dst m s n (Suc i) =
      Some (put (w(dst + i \<mapsto> ucast c)) (dst + Suc i) (map ucast a @ [0]), Suc i + length a, True)"
    by (intro Cons.IH) (auto simp: mapped_Suc [of w "dst + i"])
  with Cons.prems show ?case by (subst mbstowcs_loop.simps) (auto simp: mapped_Suc)
qed

lemma wcstombs_loop_spec:
  "cstr w (p + i) (map ucast a) \<Longrightarrow> i + length a < n \<Longrightarrow> mapped m (s + i) (Suc (length a)) \<Longrightarrow>
   wcstombs_loop m s w p n i = Some (put m (s + i) (a @ [0]), Inr (i + length a))"
proof (induction a arbitrary: m i)
  case Nil
  then show ?case by (subst wcstombs_loop.simps) (simp add: mapped_Suc)
next
  case (Cons c a)
  then have "wcstombs_loop (m(s + i \<mapsto> c)) s w p n (Suc i) =
      Some (put (m(s + i \<mapsto> c)) (s + Suc i) (a @ [0]), Inr (Suc i + length a))"
    by (intro Cons.IH) (auto simp: mapped_Suc [of m "s + i"])
  with Cons.prems show ?case
    by (subst wcstombs_loop.simps) (auto simp: mapped_Suc ucast_byte_u32)
qed

lemma wcs_measure_spec:
  "cstr w (p + i) x \<Longrightarrow>
   wcs_measure w p i = Some (if \<exists>c\<in>set x. c > 0xff then Inl EILSEQ else Inr (i + length x))"
proof (induction x arbitrary: i)
  case Nil
  then show ?case by (subst wcs_measure.simps) simp
next
  case (Cons c x)
  then show ?case by (subst wcs_measure.simps) auto
qed

text \<open>
  The multibyte conversions are inverse to each other: a string widened by \<open>mbstowcs\<close> comes back
  from \<open>wcstombs\<close> byte for byte, both report its length, and the measuring calls with NULL report
  the same length in advance.
\<close>

theorem multibyte_roundtrip:
  assumes "cstr m s a" and "length a < n" and "length a < 2 ^ 32"
    and "mapped w d (Suc (length a))" and "mapped m t (Suc (length a))" and "d \<noteq> NULL" and "t \<noteq> NULL"
  shows "\<exists>w' m'. mbstowcs w d m s n = Some (w', length a) \<and>
    wcstombs m t w' d n = Some (m', Inr (length a)) \<and> cstr m' t a \<and>
    mbstowcs w NULL m s n = Some (w, length a) \<and> wcstombs m NULL w' d n = Some (m, Inr (length a))"
proof -
  let ?w = "put w d (map ucast a @ [0])"
  have nz: "0 \<notin> set a" using cstr_nonzero [OF assms(1)] .
  then have w: "cstr ?w d (map ucast a)" using ucast_byte_u32(2) by (intro cstr_put) force
  have "wcs_measure ?w d 0 = Some (Inr (length a))"
    using wcs_measure_spec [of ?w d 0 "map ucast a"] w ucast_byte_u32(3) by auto
  moreover have "wcstombs_loop m t ?w d n 0 = Some (put m t (a @ [0]), Inr (length a))"
    using wcstombs_loop_spec [of ?w d 0 a n m t] w assms by simp
  moreover have "mbstowcs_loop w d m s n 0 = Some (?w, length a, True)"
    using mbstowcs_loop_spec [of m s 0 a n w d] assms by simp
  ultimately show ?thesis
    using assms cstr_put [OF nz, of m t] by (simp add: mbstowcs_def wcstombs_def strlen_small)
qed

theorem multibyte_roundtrip_witness:
  "\<exists>w' m'. mbstowcs (image_at 1 [0, 0]) 1 (image_at 1 [233, 0, 0, 0]) 1 5 = Some (w', length [233::byte]) \<and>
    wcstombs (image_at 1 [233, 0, 0, 0]) 3 w' 1 5 = Some (m', Inr (length [233::byte])) \<and>
    cstr m' 3 [233] \<and>
    mbstowcs (image_at 1 [0, 0]) NULL (image_at 1 [233, 0, 0, 0]) 1 5 =
      Some (image_at 1 [0, 0], length [233::byte]) \<and>
    wcstombs (image_at 1 [233, 0, 0, 0]) NULL w' 1 5 =
      Some (image_at 1 [233, 0, 0, 0], Inr (length [233::byte]))"
  by (rule multibyte_roundtrip) (simp_all add: image_at_def mapped_def)

subsection \<open>What the wide string functions do\<close>

lemma wcs_end_spec: "cstr w s a \<Longrightarrow> wcs_end w s = Some (s + length a)"
proof (induction a arbitrary: s)
  case Nil
  then show ?case by (subst wcs_end.simps) simp
next
  case (Cons c a)
  then show ?case by (subst wcs_end.simps) simp
qed

lemma wcslen_spec: "cstr w s a \<Longrightarrow> wcslen w s = Some (length a)"
  by (simp add: wcslen_def wcs_end_spec)

lemma wcschr_spec: "cstr w s a \<Longrightarrow> c \<noteq> 0 \<Longrightarrow> s \<noteq> NULL \<Longrightarrow>
    \<exists>r. wcschr w s c = Some r \<and> (r \<noteq> NULL \<longleftrightarrow> c \<in> set a)"
proof (induction a arbitrary: s)
  case Nil
  then show ?case by (subst wcschr.simps) simp
next
  case (Cons d a)
  then obtain r where "wcschr w (Suc s) c = Some r" "r \<noteq> NULL \<longleftrightarrow> c \<in> set a" by auto
  with Cons.prems show ?case by (subst wcschr.simps) auto
qed

lemma wcsncmp_loop_spec:
  "ncstr w (p + i) k a \<Longrightarrow> ncstr w (q + i) k b \<Longrightarrow> n = i + k \<Longrightarrow>
   wcsncmp_loop w p q n i = Some (cmp3 a b)"
proof (induction k arbitrary: i a b)
  case 0
  then show ?case by (subst wcsncmp_loop.simps) simp
next
  case (Suc k)
  show ?case
  proof (cases "a = [] \<or> b = []")
    case True
    with Suc.prems show ?thesis
      by (subst wcsncmp_loop.simps) (cases a; cases b; auto simp: word_gt_0)
  next
    case False
    then obtain c a' d b' where ab: "a = c # a'" "b = d # b'" by (cases a; cases b; auto)
    with Suc.prems Suc.IH [of "Suc i" a' b'] show ?thesis
      by (subst wcsncmp_loop.simps) auto
  qed
qed

lemma wcsncmp_spec: "ncstr w p n a \<Longrightarrow> ncstr w q n b \<Longrightarrow> wcsncmp w p q n = Some (cmp3 a b)"
  by (simp add: wcsncmp_def wcsncmp_loop_spec)

lemma wcscmp_loop_spec:
  "cstr w (p + nat i) a \<Longrightarrow> cstr w (q + nat i) b \<Longrightarrow> 0 \<le> i \<Longrightarrow> nat i + length a < 2 ^ 31 \<Longrightarrow>
   wcscmp_loop w p q i = Some (cmp3 a b)"
proof (induction a arbitrary: i b)
  case Nil
  then show ?case by (subst wcscmp_loop.simps) (cases b; auto simp: word_gt_0)
next
  case (Cons c a)
  then have i: "to_int (i + 1) = Some (i + 1)" "nat (i + 1) = Suc (nat i)"
    by (auto intro: to_int_count)
  show ?case
  proof (cases b)
    case Nil
    with Cons.prems show ?thesis by (subst wcscmp_loop.simps) (auto simp: word_gt_0)
  next
    case b: (Cons d b')
    with Cons.prems i Cons.IH [of "i + 1" b'] show ?thesis by (subst wcscmp_loop.simps) auto
  qed
qed

lemma wcscmp_spec:
  "cstr w p a \<Longrightarrow> cstr w q b \<Longrightarrow> length a < 2 ^ 31 \<Longrightarrow> wcscmp w p q = Some (cmp3 a b)"
  by (simp add: wcscmp_def wcscmp_loop_spec)

lemma take_prefix_iff: "take (length b) a = b \<longleftrightarrow> prefix b a"
  by (metis append_eq_conv_conj prefixE take_is_prefix)

lemma wcsstr_loop_spec:
  "cstr w q b \<Longrightarrow> b \<noteq> [] \<Longrightarrow> cstr w p a \<Longrightarrow>
   wcsstr_loop w q (length b) p = Some (ptr_of p (find_sub a b))"
proof (induction a arbitrary: p)
  case Nil
  then show ?case by (subst wcsstr_loop.simps) (simp add: ptr_of_def)
next
  case (Cons c a)
  then obtain d b' where b: "b = d # b'" by (cases b) auto
  have IH: "wcsstr_loop w q (length b) (Suc p) = Some (ptr_of (Suc p) (find_sub a b))"
    using Cons by simp
  have cmp: "wcsncmp w p q (length b) = Some (cmp3 (take (length b) (c # a)) b)"
    using Cons.prems cstr_ncstr [of w p "c # a" "length b"] cstr_ncstr [of w q b "length b"]
    by (intro wcsncmp_spec) simp_all
  have heads: "w q = Some d" "w p = Some c" "c \<noteq> 0" using Cons.prems b by simp_all
  have zero: "cmp3 (take (length b) (c # a)) b = 0 \<longleftrightarrow> prefix b (c # a)"
    by (simp only: cmp3_zero_iff take_prefix_iff)
  show ?case
  proof (cases "prefix b (c # a)")
    case True
    then have "c = d" using b by simp
    with True cmp heads zero show ?thesis
      by (subst wcsstr_loop.simps) (simp add: ptr_of_def del: cmp3_simps)
  next
    case False
    with cmp heads zero have "(if c = d then wcsncmp w p q (length b) else Some 1) \<noteq> Some 0"
        "(if c = d then wcsncmp w p q (length b) else Some 1) \<noteq> None"
      by (auto simp del: cmp3_simps)
    then obtain r where "(if c = d then wcsncmp w p q (length b) else Some 1) = Some r" "r \<noteq> 0"
      by fastforce
    with False heads IH show ?thesis
      by (subst wcsstr_loop.simps) (simp add: ptr_of_def split: option.splits)
  qed
qed

lemma wcsstr_spec:
  assumes "cstr w p a" and "cstr w q b"
  shows "wcsstr w p q = Some (ptr_of p (find_sub a b))"
proof (cases b)
  case Nil
  then show ?thesis using assms by (cases a) (auto simp: wcsstr_def ptr_of_def)
next
  case (Cons d b')
  then show ?thesis
    using assms wcsstr_loop_spec [OF assms(2) _ assms(1)] wcslen_spec [OF assms(2)]
    by (simp add: wcsstr_def)
qed

text \<open>
  The wide search and comparison functions do what their narrow counterparts do: \<open>wcsstr\<close>
  returns the first occurrence and NULL where there is none, \<open>wcscmp\<close> and \<open>wcsncmp\<close> the three-way
  comparison by code point, the latter without reading past its bound.
\<close>

theorem wide_search_compare:
  assumes "cstr w p a" and "cstr w q b" and "length a < 2 ^ 31"
  shows "wcsstr w p q = Some (ptr_of p (find_sub a b)) \<and>
    wcscmp w p q = Some (cmp3 a b) \<and>
    wcsncmp w p q n = Some (cmp3 (take n a) (take n b)) \<and> wcslen w p = Some (length a)"
  using assms by (simp add: wcsstr_spec wcscmp_spec wcsncmp_spec cstr_ncstr wcslen_spec)

theorem wide_search_compare_witness:
  "wcsstr (image_at 1 [65, 300, 0, 300, 0]) 1 4 = Some (ptr_of 1 (find_sub [65, 300::u32] [300])) \<and>
    wcscmp (image_at 1 [65, 300, 0, 300, 0]) 1 4 = Some (cmp3 [65, 300::u32] [300]) \<and>
    wcsncmp (image_at 1 [65, 300, 0, 300, 0]) 1 4 1 =
      Some (cmp3 (take 1 [65, 300::u32]) (take 1 [300])) \<and>
    wcslen (image_at 1 [65, 300, 0, 300, 0]) 1 = Some (length [65, 300::u32])"
  by (rule wide_search_compare) (simp_all add: image_at_def)

lemma wmemcpy_up_spec:
  "dest \<le> src \<Longrightarrow> bytes_at w (src + i) cs \<Longrightarrow> mapped w (dest + i) (length cs) \<Longrightarrow>
   wmemcpy_up w dest src (i + length cs) i = Some (put w (dest + i) cs)"
proof (induction cs arbitrary: w i)
  case Nil
  then show ?case by (subst wmemcpy_up.simps) simp
next
  case (Cons c cs)
  show ?case
  proof (cases "dest = src")
    case True
    then have "w(dest + i \<mapsto> c) = w" using Cons.prems by auto
    then have "wmemcpy_up w dest src (Suc i + length cs) (Suc i) = Some (put (w(dest + i \<mapsto> c)) (dest + Suc i) cs)"
      using Cons.prems Cons.IH [of w "Suc i"] by (simp add: mapped_Suc [of w "dest + i"])
    with Cons.prems \<open>w(dest + i \<mapsto> c) = w\<close> show ?thesis
      by (subst wmemcpy_up.simps) (simp add: mapped_Suc [of w "dest + i"])
  next
    case False
    with Cons.prems have "wmemcpy_up (w(dest + i \<mapsto> c)) dest src (Suc i + length cs) (Suc i) =
        Some (put (w(dest + i \<mapsto> c)) (dest + Suc i) cs)"
      by (intro Cons.IH) (auto simp: bytes_at_upd mapped_Suc [of w "dest + i"])
    with Cons.prems show ?thesis
      by (subst wmemcpy_up.simps) (simp add: mapped_Suc [of w "dest + i"])
  qed
qed

lemma wmemcpy_down_spec:
  "src < dest \<Longrightarrow> bytes_at w src cs \<Longrightarrow> mapped w dest (length cs) \<Longrightarrow>
   wmemcpy_down w dest src (length cs) = Some (put w dest cs)"
proof (induction cs arbitrary: w rule: rev_induct)
  case (snoc c cs)
  have "wmemcpy_down (w(dest + length cs \<mapsto> c)) dest src (length cs) =
      Some (put (w(dest + length cs \<mapsto> c)) dest cs)"
    using snoc.prems mapped_le [of w dest "Suc (length cs)" "length cs"]
    by (intro snoc.IH) (auto simp: bytes_at_append bytes_at_upd)
  moreover have "w (dest + length cs) \<noteq> None"
    using snoc.prems(3) mappedD [of w dest "length (cs @ [c])" "length cs"] by simp
  ultimately show ?case using snoc.prems by (simp add: bytes_at_append put_snoc)
qed simp

text \<open>
  \<open>wmemmove\<close> copies correctly whatever the overlap and for every length: the destination holds
  the characters the source held before the call, and nothing else changes.
\<close>

theorem wmemmove_correct:
  assumes "bytes_at w src cs" and "mapped w dest (length cs)"
  shows "wmemmove w dest src (length cs) = Some (put w dest cs, dest)"
  using assms wmemcpy_up_spec [of dest src w 0 cs] wmemcpy_down_spec [of src dest w cs]
  by (auto simp: wmemmove_def)

theorem wmemmove_correct_witness:
  "wmemmove (image_at 1 [7, 8, 9]) 2 1 (length [7::u32, 8]) = Some (put (image_at 1 [7, 8, 9]) 2 [7, 8], 2)"
  by (rule wmemmove_correct) (auto simp: image_at_def mapped_def)

lemma wcstonum_narrow_spec:
  "cstr w (p + i) (map ucast a) \<Longrightarrow> \<forall>c\<in>set a. c < 128 \<Longrightarrow> i + length a < cap \<Longrightarrow>
   mapped m (buf + i) (Suc (length a)) \<Longrightarrow>
   wcstonum_narrow w p m buf cap i = Some (put m (buf + i) (a @ [0]), i + length a)"
proof (induction a arbitrary: m i)
  case Nil
  then show ?case by (subst wcstonum_narrow.simps) (simp add: mapped_Suc)
next
  case (Cons c a)
  then have IH: "wcstonum_narrow w p (m(buf + i \<mapsto> c)) buf cap (Suc i) =
      Some (put (m(buf + i \<mapsto> c)) (buf + Suc i) (a @ [0]), Suc i + length a)"
    by (intro Cons.IH) (auto simp: mapped_Suc [of m "buf + i"])
  have "unat (ucast c :: u32) = unat c"
    using unsigned_less [of c, where ?'a = nat] by (simp add: unsigned_ucast_eq take_bit_nat_eq_self)
  then have "(ucast c :: u32) < 128" using Cons.prems(2) by (simp add: word_less_nat_alt)
  with Cons.prems IH show ?case
    by (subst wcstonum_narrow.simps) (auto simp: mapped_Suc ucast_byte_u32)
qed

lemma subject_base: "subject base a = (neg, b, a3) \<Longrightarrow> b < 2 \<or> b > 36 \<longleftrightarrow> base \<noteq> 0 \<and> (base < 2 \<or> base > 36)"
  by (auto simp: subject_def Let_def split: if_splits)

lemma wcstonum_spec:
  assumes "cstr w p (map ucast a)" and "\<forall>c\<in>set a. c < 128" and "length a < WCSTONUM_BUFSZ"
    and "mapped m buf (Suc (length a))" and "base = 0 \<or> 2 \<le> base \<and> base \<le> 36"
    and strto: "\<And>m. cstr m buf a \<Longrightarrow> strto m buf True base = Some (conv_spec buf True base isU a)"
  shows "wcstonum strto m buf w p want base = Some (conv_spec p want base isU a)"
proof -
  obtain neg b a3 where subj: "subject base a = (neg, b, a3)" by (cases "subject base a")
  have "0 \<notin> set a" using cstr_nonzero [OF assms(1)] by (force simp: ucast_byte_u32)
  then have "strto (put m buf (a @ [0])) buf True base = Some (conv_spec buf True base isU a)"
    by (intro strto cstr_put)
  moreover have "wcstonum_narrow w p m buf WCSTONUM_BUFSZ 0 = Some (put m buf (a @ [0]), length a)"
    using wcstonum_narrow_spec [of w p 0 a WCSTONUM_BUFSZ m buf] assms by simp
  ultimately show ?thesis
    using subject_base [OF subj] assms(5)
    by (auto simp: wcstonum_def conv_spec_def subj Let_def)
qed

text \<open>
  On an ASCII string of at most 511 characters the wide conversions are the narrow ones: same
  value, same error, and the end pointer maps back to the same character.
\<close>

theorem wide_conversions_agree:
  fixes a :: "byte list"
  assumes "cstr w p (map ucast a)" and "\<forall>c\<in>set a. c < 128" and "length a < WCSTONUM_BUFSZ"
    and "mapped m buf (Suc (length a))" and "base = 0 \<or> 2 \<le> base \<and> base \<le> 36"
  shows "wcstol m buf w p want base = Some (conv_spec p want base False a) \<and>
    wcstoul m buf w p want base = Some (conv_spec p want base True a) \<and>
    wcstoll m buf w p want base = Some (conv_spec p want base False a) \<and>
    wcstoull m buf w p want base = Some (conv_spec p want base True a) \<and>
    wcstoimax m buf w p want base = Some (conv_spec p want base False a) \<and>
    wcstoumax m buf w p want base = Some (conv_spec p want base True a)"
proof -
  have len: "length a < 2 ^ 31" using assms(3) by (simp add: WCSTONUM_BUFSZ_def)
  note defs = strtol_def strtoul_def strtoll_def strtoull_def strtoimax_def strtoumax_def
  show ?thesis
    unfolding wcstol_def wcstoul_def wcstoll_def wcstoull_def wcstoimax_def wcstoumax_def
    by (intro conjI wcstonum_spec [OF assms])
      (simp_all add: defs strtoul_common_spec [OF _ len] strtoll_common_spec)
qed

theorem wide_conversions_agree_witness:
  "wcstol (image_at 1 [0, 0, 0]) 1 (image_at 1 [45, 55, 0]) 1 True 10 =
      Some (conv_spec 1 True 10 False [45, 55]) \<and>
    wcstoul (image_at 1 [0, 0, 0]) 1 (image_at 1 [45, 55, 0]) 1 True 10 =
      Some (conv_spec 1 True 10 True [45, 55]) \<and>
    wcstoll (image_at 1 [0, 0, 0]) 1 (image_at 1 [45, 55, 0]) 1 True 10 =
      Some (conv_spec 1 True 10 False [45, 55]) \<and>
    wcstoull (image_at 1 [0, 0, 0]) 1 (image_at 1 [45, 55, 0]) 1 True 10 =
      Some (conv_spec 1 True 10 True [45, 55]) \<and>
    wcstoimax (image_at 1 [0, 0, 0]) 1 (image_at 1 [45, 55, 0]) 1 True 10 =
      Some (conv_spec 1 True 10 False [45, 55]) \<and>
    wcstoumax (image_at 1 [0, 0, 0]) 1 (image_at 1 [45, 55, 0]) 1 True 10 =
      Some (conv_spec 1 True 10 True [45, 55])"
  by (rule wide_conversions_agree)
    (simp_all add: image_at_def mapped_iff WCSTONUM_BUFSZ_def less_Suc_eq)

text \<open>
  With an invalid base \<open>strtol\<close> returns without storing its end pointer, and the wide conversions
  then use the uninitialised \<open>cend\<close>: a call that passes an \<open>endptr\<close> has no defined outcome.
\<close>

theorem wide_conversion_bad_base:
  fixes a :: "byte list"
  assumes "cstr w p (map ucast a)" and "\<forall>c\<in>set a. c < 128" and "length a < WCSTONUM_BUFSZ"
    and "mapped m buf (Suc (length a))" and "base < 0 \<or> base = 1 \<or> base > 36"
  shows "wcstol m buf w p True base = None \<and> wcstoull m buf w p True base = None"
proof -
  obtain neg b a3 where subj: "subject base a = (neg, b, a3)" by (cases "subject base a")
  have len: "length a < 2 ^ 31" using assms(3) by (simp add: WCSTONUM_BUFSZ_def)
  have "0 \<notin> set a" using cstr_nonzero [OF assms(1)] by (force simp: ucast_byte_u32)
  then have "cstr (put m buf (a @ [0])) buf a" by (rule cstr_put)
  moreover have "wcstonum_narrow w p m buf WCSTONUM_BUFSZ 0 = Some (put m buf (a @ [0]), length a)"
    using wcstonum_narrow_spec [of w p 0 a WCSTONUM_BUFSZ m buf] assms by simp
  moreover have "endp (conv_spec buf True base isU a) = None" for isU
    using subject_base [OF subj] assms(5) by (auto simp: conv_spec_def subj)
  ultimately show ?thesis
    by (simp add: wcstol_def wcstoull_def wcstonum_def strtol_def strtoull_def
        strtoul_common_spec [OF _ len] strtoll_common_spec)
qed

theorem wide_conversion_bad_base_witness:
  "wcstol (image_at 1 [0, 0]) 1 (image_at 1 [55, 0]) 1 True 1 = None \<and>
   wcstoull (image_at 1 [0, 0]) 1 (image_at 1 [55, 0]) 1 True 1 = None"
  by (rule wide_conversion_bad_base [of _ _ "[55]"])
    (simp_all add: image_at_def mapped_iff WCSTONUM_BUFSZ_def less_Suc_eq)

subsection \<open>The classes\<close>

lemma strcmp_chain_spec:
  assumes "cstr m p a" and "length a < 2 ^ 32"
  shows "\<forall>(l, v)\<in>set ls. cstr m (lit l) (str l) \<Longrightarrow>
    strcmp_chain m lit p ls d =
      Some (case map_of (map (\<lambda>(l, v). (str l, v)) ls) a of Some v \<Rightarrow> v | None \<Rightarrow> d)"
proof (induction ls)
  case (Cons lv ls)
  obtain l v where "lv = (l, v)" by (cases lv)
  moreover from this Cons.prems have "strcmp m p (lit l) = Some (cmp3 a (str l))"
    using assms strcmp_loop_spec [of m p a "lit l" 0 "str l"] by (simp add: strcmp_def)
  ultimately show ?case using Cons by (auto simp: cmp3_zero_iff)
qed simp

text \<open>
  \<open>wctype\<close> and \<open>wctrans\<close> recognise exactly the names ISO C lists and give 0 for every other
  string; the literals the code compares with are wherever the linker put them.
\<close>

theorem wctype_names:
  assumes "cstr m p a" and "length a < 2 ^ 32" and "p \<noteq> NULL"
    and "list_all (\<lambda>(l, v). cstr m (lit l) (str l)) wctype_table"
    and "list_all (\<lambda>(l, v). cstr m (lit l) (str l)) wctrans_table"
  shows "wctype m lit p = Some (case map_of (map (\<lambda>(l, v). (str l, v)) wctype_table) a
      of Some d \<Rightarrow> d | None \<Rightarrow> WCT_NONE) \<and>
    wctrans m lit p = Some (if a = str ''tolower'' then WCTR_TOLOWER
      else if a = str ''toupper'' then WCTR_TOUPPER else WCTR_NONE)"
proof
  show "wctype m lit p = Some (case map_of (map (\<lambda>(l, v). (str l, v)) wctype_table) a
      of Some d \<Rightarrow> d | None \<Rightarrow> WCT_NONE)"
    using assms strcmp_chain_spec [OF assms(1,2)] by (simp add: wctype_def list_all_iff)
  have "strcmp_chain m lit p wctrans_table WCTR_NONE =
      Some (case map_of (map (\<lambda>(l, v). (str l, v)) wctrans_table) a of Some v \<Rightarrow> v | None \<Rightarrow> WCTR_NONE)"
    using assms(5) by (intro strcmp_chain_spec [OF assms(1,2)]) (simp add: list_all_iff)
  then show "wctrans m lit p = Some (if a = str ''tolower'' then WCTR_TOLOWER
      else if a = str ''toupper'' then WCTR_TOUPPER else WCTR_NONE)"
    using assms(3) by (simp add: wctrans_def wctrans_table_def)
qed

text \<open>A memory that holds the literals, one after the other, with a place for each.\<close>

definition literals :: "string list" where
  "literals = map fst wctype_table @ map fst wctrans_table"

definition literal_image :: mem where
  "literal_image = image_at 1 (concat (map (\<lambda>l. str l @ [0]) literals))"

definition literal_addr :: "string \<Rightarrow> addr" where
  "literal_addr l = Suc (length (concat (map (\<lambda>l. str l @ [0]) (takeWhile (\<lambda>k. k \<noteq> l) literals))))"

theorem wctype_names_witness:
  "wctype literal_image literal_addr (literal_addr ''space'') =
    Some (case map_of (map (\<lambda>(l, v). (str l, v)) wctype_table) (str ''space'')
      of Some d \<Rightarrow> d | None \<Rightarrow> WCT_NONE) \<and>
   wctrans literal_image literal_addr (literal_addr ''space'') =
     Some (if str ''space'' = str ''tolower'' then WCTR_TOLOWER
      else if str ''space'' = str ''toupper'' then WCTR_TOUPPER else WCTR_NONE)"
proof (rule wctype_names)
  show "cstr literal_image (literal_addr ''space'') (str ''space'')" by code_simp
  show "length (str ''space'') < 2 ^ 32" by (simp add: str_def)
  show "literal_addr ''space'' \<noteq> NULL" by (simp add: literal_addr_def)
  show "list_all (\<lambda>(l, v). cstr literal_image (literal_addr l) (str l)) wctype_table" by code_simp
  show "list_all (\<lambda>(l, v). cstr literal_image (literal_addr l) (str l)) wctrans_table" by code_simp
qed

text \<open>
  The wide classes and mappings are the narrow ones, for every \<open>int\<close>: the two tables the library
  keeps cannot disagree.
\<close>

theorem wide_classes_agree:
  "iswctype c WCT_ALNUM = isalnum c \<and> iswctype c WCT_ALPHA = isalpha c \<and>
   iswctype c WCT_BLANK = isblank c \<and> iswctype c WCT_CNTRL = iscntrl c \<and>
   iswctype c WCT_DIGIT = isdigit c \<and> iswctype c WCT_GRAPH = isgraph c \<and>
   iswctype c WCT_LOWER = islower c \<and> iswctype c WCT_PRINT = isprint c \<and>
   iswctype c WCT_PUNCT = ispunct c \<and> iswctype c WCT_SPACE = isspace c \<and>
   iswctype c WCT_UPPER = isupper c \<and> iswctype c WCT_XDIGIT = isxdigit c \<and>
   iswctype c WCT_NONE = 0 \<and>
   towctrans c WCTR_TOLOWER = tolower c \<and> towctrans c WCTR_TOUPPER = toupper c"
  by (simp add: iswctype_def towctrans_def iswalnum_def iswalpha_def iswblank_def iswcntrl_def
      iswdigit_def iswgraph_def iswlower_def iswprint_def iswpunct_def iswspace_def iswupper_def
      iswxdigit_def towlower_def towupper_def ctype_defs)

end
