(* ===== verification/Atexit.thy ===== *)
theory Atexit
  imports CMem
begin

section \<open>Exit handlers: stdlib/atexit.c\<close>

text \<open>
  The registration of exit handlers and their calls. The state holds the nodes by address, the two
  lists and an environment \<open>env\<close> that only the handlers see. A handler is an address; what calling it
  does is the argument \<open>run\<close>: a function of the whole state, because a handler may register further
  handlers or finalize recursively while the lock is released. The address \<open>calloc\<close> returns is an
  argument, NULL where it fails.
\<close>

definition ATEXIT_MAX :: nat where "ATEXIT_MAX = 32"

record atexit_node =
  destructors :: "addr list"
  args :: "addr list"
  handles :: "addr list"
  fntype :: u32
  prev :: addr

record atexit_list =
  topNode :: addr
  staticNode :: addr
  usedCnt :: u32
  modCnt :: u32

record 'w atexit_state =
  nodes :: "addr \<Rightarrow> atexit_node option"
  exitList :: atexit_list
  quickExitList :: atexit_list
  env :: 'w

text \<open>The address of the static node, and what \<open>calloc\<close> leaves in a new node.\<close>

definition atexit_staticNode :: addr where "atexit_staticNode = 4096"

definition zero_node :: atexit_node where
  "zero_node = \<lparr>destructors = replicate ATEXIT_MAX NULL, args = replicate ATEXIT_MAX NULL,
     handles = replicate ATEXIT_MAX NULL, fntype = 0, prev = NULL\<rparr>"

text \<open>The argument \<open>struct atexit_list *list\<close> names one of the two lists.\<close>

datatype which = Exit | Quick

fun get_list :: "which \<Rightarrow> 'w atexit_state \<Rightarrow> atexit_list" where
  "get_list Exit s = exitList s"
| "get_list Quick s = quickExitList s"

fun set_list :: "which \<Rightarrow> atexit_list \<Rightarrow> 'w atexit_state \<Rightarrow> 'w atexit_state" where
  "set_list Exit l s = s\<lparr>exitList := l\<rparr>"
| "set_list Quick l s = s\<lparr>quickExitList := l\<rparr>"

definition set_node :: "addr \<Rightarrow> atexit_node \<Rightarrow> 'w atexit_state \<Rightarrow> 'w atexit_state" where
  "set_node p nd s = s\<lparr>nodes := (nodes s)(p \<mapsto> nd)\<rparr>"

subsection \<open>Registration\<close>

definition atexit_check :: "'w atexit_state \<Rightarrow> int" where
  "atexit_check s =
     (let l = exitList s;
          bad = (if unat (usedCnt l) > ATEXIT_MAX then 1 else 0);
          bad = (if topNode l = NULL then bad OR 2
                 else if topNode l AND 7 \<noteq> 0 then bad OR 4 else bad)
      in if staticNode l \<noteq> atexit_staticNode then bad OR 8 else bad)"

definition atexit_init :: "'w atexit_state \<Rightarrow> 'w atexit_state" where
  "atexit_init s =
     (if topNode (exitList s) = NULL \<or> staticNode (exitList s) = NULL
      then s\<lparr>exitList := (exitList s)\<lparr>topNode := atexit_staticNode,
        staticNode := atexit_staticNode, usedCnt := 0\<rparr>\<rparr>
      else s)"

text \<open>A store into one of the arrays of a node: out of range is out of the object.\<close>

definition upd_slot :: "addr list \<Rightarrow> nat \<Rightarrow> addr \<Rightarrow> addr list option" where
  "upd_slot xs i v = (if i < length xs then Some (xs[i := v]) else None)"

definition atexit_register ::
  "which \<Rightarrow> addr \<Rightarrow> int \<Rightarrow> addr \<Rightarrow> addr \<Rightarrow> addr \<Rightarrow> 'w atexit_state \<Rightarrow> ('w atexit_state \<times> int) option" where
  "atexit_register w calloc isarg fn arg handle s = do {
     let list = get_list w s;
     let full = (topNode list = NULL \<or> unat (usedCnt list) \<ge> ATEXIT_MAX);
     if full \<and> calloc = NULL then Some (s, - 1)
     else do {
       let s = (if full then set_node calloc (zero_node\<lparr>prev := topNode list\<rparr>) s else s);
       let list = (if full then list\<lparr>topNode := calloc, usedCnt := 0\<rparr> else list);
       node \<leftarrow> nodes s (topNode list);
       let i = unat (usedCnt list);
       args' \<leftarrow> upd_slot (args node) i (if isarg \<noteq> 0 then arg else NULL);
       destructors' \<leftarrow> upd_slot (destructors node) i fn;
       handles' \<leftarrow> upd_slot (handles node) i handle;
       let fntype' = (if isarg \<noteq> 0 then fntype node OR push_bit i 1
                      else fntype node AND NOT (push_bit i 1));
       let node = node\<lparr>destructors := destructors', args := args', handles := handles',
                       fntype := fntype'\<rparr>;
       let list = list\<lparr>usedCnt := usedCnt list + 1, modCnt := modCnt list + 1\<rparr>;
       Some (set_list w list (set_node (topNode list) node s), 0) } }"

definition atexit :: "addr \<Rightarrow> addr \<Rightarrow> 'w atexit_state \<Rightarrow> ('w atexit_state \<times> int) option" where
  "atexit calloc func s = atexit_register Exit calloc 0 func NULL NULL s"

definition cxa_atexit ::
  "addr \<Rightarrow> addr \<Rightarrow> addr \<Rightarrow> addr \<Rightarrow> 'w atexit_state \<Rightarrow> ('w atexit_state \<times> int) option" where
  "cxa_atexit calloc func arg handle s = atexit_register Exit calloc 1 func arg handle s"

definition cxa_at_quick_exit ::
  "addr \<Rightarrow> addr \<Rightarrow> addr \<Rightarrow> addr \<Rightarrow> 'w atexit_state \<Rightarrow> ('w atexit_state \<times> int) option" where
  "cxa_at_quick_exit calloc func arg handle s = atexit_register Quick calloc 1 func arg handle s"

definition at_quick_exit :: "addr \<Rightarrow> addr \<Rightarrow> 'w atexit_state \<Rightarrow> ('w atexit_state \<times> int) option" where
  "at_quick_exit calloc func s = atexit_register Quick calloc 0 func NULL NULL s"

subsection \<open>The walk\<close>

type_synonym 'w runner = "addr \<Rightarrow> addr option \<Rightarrow> 'w atexit_state \<Rightarrow> 'w atexit_state option"

definition nth_slot :: "'a list \<Rightarrow> nat \<Rightarrow> 'a option" where
  "nth_slot xs i = (if i < length xs then Some (xs ! i) else None)"

text \<open>A slot is pending when it holds a destructor of the handle that is being finalized.\<close>

definition pending :: "addr \<Rightarrow> atexit_node \<Rightarrow> nat \<Rightarrow> bool option" where
  "pending handle node i = do {
     d \<leftarrow> nth_slot (destructors node) i;
     if d = NULL then Some False
     else if handle \<noteq> NULL then do { h \<leftarrow> nth_slot (handles node) i; Some (handle = h) }
     else Some True }"

text \<open>Mark the destructor of slot \<open>i\<close> as called and call it.\<close>

definition call_slot :: "'w runner \<Rightarrow> addr \<Rightarrow> nat \<Rightarrow> 'w atexit_state \<Rightarrow> 'w atexit_state option" where
  "call_slot run p i s = do {
     node \<leftarrow> nodes s p;
     d \<leftarrow> nth_slot (destructors node) i;
     ds \<leftarrow> upd_slot (destructors node) i NULL;
     let s' = set_node p (node\<lparr>destructors := ds\<rparr>) s;
     if drop_bit i (fntype node) AND 1 = 1
     then do { a \<leftarrow> nth_slot (args node) i; run d (Some a) s' }
     else run d None s' }"

text \<open>
  One pass of the \<open>do ... while (restart)\<close> loop from the cursor \<open>(node, i)\<close>; the result says whether
  the walk has to restart.
\<close>

partial_function (option) atexit_walk ::
  "'w runner \<Rightarrow> which \<Rightarrow> addr \<Rightarrow> u32 \<Rightarrow> 'w atexit_state \<Rightarrow> addr \<Rightarrow> nat \<Rightarrow> ('w atexit_state \<times> bool) option" where
  "atexit_walk run w handle mc s p i =
     (if p = NULL then Some (s, False)
      else do {
        node \<leftarrow> nodes s p;
        if i = 0 then atexit_walk run w handle mc s (prev node) ATEXIT_MAX
        else do {
          q \<leftarrow> pending handle node (i - 1);
          if \<not> q then atexit_walk run w handle mc s p (i - 1)
          else do {
            s' \<leftarrow> call_slot run p (i - 1) s;
            if modCnt (get_list w s') \<noteq> mc then Some (s', True)
            else atexit_walk run w handle mc s' p (i - 1) } } })"

partial_function (option) atexit_walks ::
  "'w runner \<Rightarrow> which \<Rightarrow> addr \<Rightarrow> 'w atexit_state \<Rightarrow> 'w atexit_state option" where
  "atexit_walks run w handle s = do {
     (s', restart) \<leftarrow> atexit_walk run w handle (modCnt (get_list w s)) s
        (topNode (get_list w s)) (unat (usedCnt (get_list w s)));
     if restart then atexit_walks run w handle s' else Some s' }"

text \<open>The release of emptied nodes: it returns the heap of nodes, the new top and \<open>modCnt\<close>.\<close>

partial_function (option) atexit_release ::
  "addr \<Rightarrow> (addr \<Rightarrow> atexit_node option) \<Rightarrow> addr \<Rightarrow> u32 \<Rightarrow> ((addr \<Rightarrow> atexit_node option) \<times> addr \<times> u32) option" where
  "atexit_release static h p mc =
     (if p = static then Some (h, p, mc)
      else do {
        node \<leftarrow> h p;
        if list_ex (\<lambda>d. d \<noteq> NULL) (destructors node) then Some (h, p, mc)
        else atexit_release static (h(p := None)) (prev node) (mc + 1) })"

text \<open>The number of slots up to the highest one in use, searched down from \<open>i\<close>.\<close>

fun trim :: "addr list \<Rightarrow> nat \<Rightarrow> nat" where
  "trim ds 0 = 0"
| "trim ds (Suc i) = (if ds ! i = NULL then trim ds i else Suc i)"

definition atexit_finalize ::
  "'w runner \<Rightarrow> which \<Rightarrow> addr \<Rightarrow> 'w atexit_state \<Rightarrow> 'w atexit_state option" where
  "atexit_finalize run w handle s =
     (if topNode (get_list w s) = NULL then Some s
      else do {
        s \<leftarrow> atexit_walks run w handle s;
        let list = get_list w s;
        (h, p, mc) \<leftarrow> atexit_release (staticNode list) (nodes s) (topNode list) (modCnt list);
        i \<leftarrow> (if p = NULL then Some 0
             else do { node \<leftarrow> h p; Some (trim (destructors node) ATEXIT_MAX) });
        Some (set_list w (list\<lparr>topNode := p, modCnt := mc, usedCnt := of_nat i\<rparr>)
               (s\<lparr>nodes := h\<rparr>)) })"

definition cxa_finalize :: "'w runner \<Rightarrow> addr \<Rightarrow> 'w atexit_state \<Rightarrow> 'w atexit_state option" where
  "cxa_finalize run handle s =
     (if atexit_check s \<noteq> 0 then Some s else atexit_finalize run Exit handle s)"

definition quick_exit_finalize :: "'w runner \<Rightarrow> 'w atexit_state \<Rightarrow> 'w atexit_state option" where
  "quick_exit_finalize run s = atexit_finalize run Quick NULL s"

subsection \<open>The walk calls the newest pending handler, always\<close>

text \<open>
  The specification restarts from the top after every call: look for the newest pending slot, call
  it, and start again, until there is none.
\<close>

partial_function (option) newest ::
  "addr \<Rightarrow> (addr \<Rightarrow> atexit_node option) \<Rightarrow> addr \<Rightarrow> nat \<Rightarrow> (addr \<times> nat) option option" where
  "newest handle h p i =
     (if p = NULL then Some None
      else do {
        node \<leftarrow> h p;
        if i = 0 then newest handle h (prev node) ATEXIT_MAX
        else do {
          q \<leftarrow> pending handle node (i - 1);
          if q then Some (Some (p, i - 1)) else newest handle h p (i - 1) } })"

partial_function (option) call_newest ::
  "'w runner \<Rightarrow> which \<Rightarrow> addr \<Rightarrow> 'w atexit_state \<Rightarrow> 'w atexit_state option" where
  "call_newest run w handle s = do {
     r \<leftarrow> newest handle (nodes s) (topNode (get_list w s)) (unat (usedCnt (get_list w s)));
     case r of
       None \<Rightarrow> Some s
     | Some (p, i) \<Rightarrow> do { s' \<leftarrow> call_slot run p i s; call_newest run w handle s' } }"

text \<open>
  What the code relies on: a handler that leaves \<open>modCnt\<close> as it was has left the nodes and the list as
  they were.
\<close>

definition counts_changes :: "which \<Rightarrow> 'w runner \<Rightarrow> bool" where
  "counts_changes w run \<longleftrightarrow> (\<forall>f a s s'. run f a s = Some s' \<longrightarrow>
     modCnt (get_list w s') = modCnt (get_list w s) \<longrightarrow>
     nodes s' = nodes s \<and> get_list w s' = get_list w s)"

lemma get_set_node [simp]: "get_list w (set_node p nd s) = get_list w s"
  by (cases w) (simp_all add: set_node_def)

lemma get_set_list [simp]: "get_list w (set_list w l s) = l"
  by (cases w) simp_all

text \<open>The nodes after a slot is marked as called.\<close>

definition mark :: "(addr \<Rightarrow> atexit_node option) \<Rightarrow> addr \<Rightarrow> nat \<Rightarrow> addr \<Rightarrow> atexit_node option" where
  "mark h p i = (case h p of None \<Rightarrow> h
     | Some node \<Rightarrow> h(p \<mapsto> node\<lparr>destructors := (destructors node)[i := NULL]\<rparr>))"

lemma call_slot_quiet:
  assumes "counts_changes w run" and "call_slot run p i s = Some s'"
    and "modCnt (get_list w s') = modCnt (get_list w s)"
  shows "nodes s' = mark (nodes s) p i \<and> get_list w s' = get_list w s"
proof -
  obtain node d where n: "nodes s p = Some node" "i < length (destructors node)"
    using assms(2) by (auto simp: call_slot_def bind_eq_Some_conv nth_slot_def split: if_splits)
  define s1 where "s1 = set_node p (node\<lparr>destructors := (destructors node)[i := NULL]\<rparr>) s"
  obtain f a where "run f a s1 = Some s'"
    using assms(2) n unfolding call_slot_def s1_def
    by (auto simp: bind_eq_Some_conv nth_slot_def upd_slot_def Let_def split: if_splits)
  with assms(1,3) have "nodes s' = nodes s1 \<and> get_list w s' = get_list w s1"
    unfolding counts_changes_def by (metis get_set_node s1_def)
  then show ?thesis by (simp add: s1_def mark_def n(1)) (simp add: set_node_def)
qed

lemma pending_mark:
  "pending handle node k = Some False \<Longrightarrow>
   pending handle (node\<lparr>destructors := (destructors node)[j := NULL]\<rparr>) k = Some False"
  by (cases "j = k"; cases "handle = NULL"; cases "destructors node ! k = NULL")
    (auto simp: pending_def nth_slot_def bind_eq_Some_conv split: if_splits)

lemma newest_pending_aux:
  "newest handle h p i = Some r \<Longrightarrow>
   (\<forall>q j. r = Some (q, j) \<longrightarrow> newest handle (mark h q j) p i = newest handle (mark h q j) q j)"
proof (induction handle h p i r rule: newest.raw_induct [rotated, consumes 1])
  case (1 newest' handle h p i r)
  show ?case
  proof (intro allI impI)
    fix q j assume r: "r = Some (q, j)"
    with 1(2) obtain node where p: "p \<noteq> NULL" "h p = Some node"
      by (auto simp: bind_eq_Some_conv split: if_splits)
    have pm: "mark h q j p = Some (if p = q then node\<lparr>destructors := (destructors node)[j := NULL]\<rparr> else node)"
      using p by (auto simp: mark_def split: option.splits)
    show "newest handle (mark h q j) p i = newest handle (mark h q j) q j"
    proof (cases i)
      case 0
      with 1(2) p have "newest' handle h (prev node) ATEXIT_MAX = Some r" by simp
      from 1(1) [OF this] r have "newest handle (mark h q j) (prev node) ATEXIT_MAX = newest handle (mark h q j) q j"
        by blast
      with p 0 pm show ?thesis by (subst newest.simps) simp
    next
      case (Suc k)
      with 1(2) p obtain b where b: "pending handle node k = Some b"
        by (auto simp: bind_eq_Some_conv)
      show ?thesis
      proof (cases b)
        case True
        with 1(2) p Suc b r have q: "q = p" "j = k" by auto
        have "pending handle (node\<lparr>destructors := (destructors node)[k := NULL]\<rparr>) k = Some False"
          using b by (auto simp: pending_def nth_slot_def bind_eq_Some_conv split: if_splits)
        then show ?thesis using p pm Suc unfolding q by (subst newest.simps) simp
      next
        case False
        with 1(2) p Suc b have "newest' handle h p k = Some r" by simp
        from 1(1) [OF this] r have IH: "newest handle (mark h q j) p k = newest handle (mark h q j) q j"
          by blast
        have "pending handle (if p = q then node\<lparr>destructors := (destructors node)[j := NULL]\<rparr> else node) k = Some False"
          using b False pending_mark by simp
        with p pm Suc IH show ?thesis by (subst newest.simps) simp
      qed
    qed
  qed
qed

lemma newest_pending:
  "newest handle h p i = Some (Some (q, j)) \<Longrightarrow>
   newest handle (mark h q j) p i = newest handle (mark h q j) q j"
  using newest_pending_aux by blast

text \<open>From a cursor with nothing pending above it, one pass of the walk goes to the newest slot.\<close>

lemma walk_to_newest:
  "newest handle (nodes s) p i = Some r \<Longrightarrow>
   atexit_walk run w handle mc s p i = (case r of
      None \<Rightarrow> Some (s, False)
    | Some (q, j) \<Rightarrow> do {
        s' \<leftarrow> call_slot run q j s;
        if modCnt (get_list w s') \<noteq> mc then Some (s', True) else atexit_walk run w handle mc s' q j })"
proof (induction handle "nodes s" p i r rule: newest.raw_induct [rotated, consumes 1])
  case (1 newest' handle p i r)
  show ?case
  proof (cases "p = NULL")
    case True
    with 1(2) show ?thesis by (subst atexit_walk.simps) simp
  next
    case False
    with 1(2) obtain node where n: "nodes s p = Some node" by (auto simp: bind_eq_Some_conv)
    show ?thesis
    proof (cases i)
      case 0
      with 1(2) n False have "newest' handle (nodes s) (prev node) ATEXIT_MAX = Some r" by simp
      with 1(1) [OF this] n False 0 show ?thesis by (subst atexit_walk.simps) simp
    next
      case (Suc k)
      with 1(2) n False obtain b where b: "pending handle node k = Some b" by (auto simp: bind_eq_Some_conv)
      show ?thesis
      proof (cases b)
        case True
        with 1(2) n False Suc b have "r = Some (p, k)" by simp
        with True n False b show ?thesis
          unfolding Suc by (subst atexit_walk.simps) (simp cong: if_cong)
      next
        case bF: False
        with 1(2) n False Suc b have "newest' handle (nodes s) p k = Some r" by simp
        with 1(1) [OF this] n False Suc b bF show ?thesis by (subst atexit_walk.simps) simp
      qed
    qed
  qed
qed

lemma newest_after_call:
  assumes "counts_changes w run" and "newest handle (nodes s) p i = Some (Some (q, j))"
    and "call_slot run q j s = Some s'" and "modCnt (get_list w s') = modCnt (get_list w s)"
  shows "newest handle (nodes s') p i = newest handle (nodes s') q j"
    and "get_list w s' = get_list w s"
  using call_slot_quiet [OF assms(1,3,4)] newest_pending [OF assms(2)] by simp_all

text \<open>The walk, started at a cursor above which nothing is pending, does what the specification does.\<close>

lemma newest_Suc:
  "p \<noteq> NULL \<Longrightarrow> h p = Some node \<Longrightarrow> pending handle node k = Some b \<Longrightarrow>
   newest handle h p (Suc k) = (if b then Some (Some (p, k)) else newest handle h p k)"
  by (subst newest.simps) simp

lemma walk_sound:
  "atexit_walk run w handle mc s p i = Some (s', rs) \<Longrightarrow> counts_changes w run \<Longrightarrow>
    modCnt (get_list w s) = mc \<Longrightarrow>
    newest handle (nodes s) (topNode (get_list w s)) (unat (usedCnt (get_list w s))) =
      newest handle (nodes s) p i \<Longrightarrow>
    call_newest run w handle s = (if rs then call_newest run w handle s' else Some s')"
proof (induction run w handle mc s p i "(s', rs)" arbitrary: s' rs
    rule: atexit_walk.raw_induct [rotated, consumes 1])
  case (1 walk run w handle mc s p i)
  note IH = 1(1) and eq = 1(2) and cc = 1(3) and mc = 1(4) and same = 1(5)
  show ?case
  proof (cases "p = NULL")
    case True
    with eq same show ?thesis by (subst call_newest.simps) (simp add: newest.simps [of _ _ NULL])
  next
    case False
    with eq obtain node where n: "nodes s p = Some node" by (auto simp: bind_eq_Some_conv)
    show ?thesis
    proof (cases i)
      case 0
      with same n False have "newest handle (nodes s) (topNode (get_list w s)) (unat (usedCnt (get_list w s))) =
          newest handle (nodes s) (prev node) ATEXIT_MAX" by (simp add: newest.simps [of _ _ p])
      with 0 eq n False show ?thesis by (intro IH [OF _ cc mc]) simp_all
    next
      case (Suc k)
      with eq n False obtain b where b: "pending handle node k = Some b" by (auto simp: bind_eq_Some_conv)
      show ?thesis
      proof (cases b)
        case bF: False
        with same n False Suc b have "newest handle (nodes s) (topNode (get_list w s)) (unat (usedCnt (get_list w s))) =
            newest handle (nodes s) p k" by (simp add: newest_Suc)
        with Suc eq n False b bF show ?thesis by (intro IH [OF _ cc mc]) simp_all
      next
        case True
        with n False Suc b have new: "newest handle (nodes s) p i = Some (Some (p, k))"
          by (simp add: newest_Suc)
        with eq n False Suc b True obtain s1 where s1: "call_slot run p k s = Some s1"
          by (auto simp: bind_eq_Some_conv)
        have step: "call_newest run w handle s = call_newest run w handle s1"
          using new same s1 by (subst call_newest.simps) simp
        show ?thesis
        proof (cases "modCnt (get_list w s1) = mc")
          case diff: False
          with eq n False Suc b True s1 show ?thesis using step by simp
        next
          case quiet: True
          with mc newest_after_call [OF cc new s1]
          have "newest handle (nodes s1) (topNode (get_list w s1)) (unat (usedCnt (get_list w s1))) =
              newest handle (nodes s1) p k"
            using same new newest_pending [OF new] newest_pending [of handle "nodes s"] call_slot_quiet [OF cc s1]
            by simp
          with eq n False Suc b True s1 quiet show ?thesis
            unfolding step by (intro IH [OF _ cc quiet]) simp_all
        qed
      qed
    qed
  qed
qed

lemma call_newest_walk:
  "call_newest run w handle s = Some s' \<Longrightarrow> counts_changes w run \<Longrightarrow>
    newest handle (nodes s) (topNode (get_list w s)) (unat (usedCnt (get_list w s))) =
      newest handle (nodes s) p i \<Longrightarrow>
    do { (s1, restart) \<leftarrow> atexit_walk run w handle (modCnt (get_list w s)) s p i;
         if restart then atexit_walks run w handle s1 else Some s1 } = Some s'"
proof (induction run w handle s s' arbitrary: p i rule: call_newest.raw_induct [rotated, consumes 1])
  case (1 call run w handle s s')
  note IH = 1(1) and eq = 1(2) and cc = 1(3) and same = 1(4)
  let ?new = "newest handle (nodes s) p i"
  from eq same obtain r where r: "?new = Some r" by (auto simp: bind_eq_Some_conv)
  show ?case
  proof (cases r)
    case None
    with eq same r walk_to_newest [OF r] show ?thesis by simp
  next
    case (Some qj)
    obtain q j where qj: "r = Some (q, j)" using Some by (cases qj) simp
    with eq same r obtain s1 where s1: "call_slot run q j s = Some s1" "call run w handle s1 = Some s'"
      by (auto simp: bind_eq_Some_conv)
    note new = r [unfolded qj]
    show ?thesis
    proof (cases "modCnt (get_list w s1) = modCnt (get_list w s)")
      case True
      note after = call_slot_quiet [OF cc s1(1) True]
      have "newest handle (nodes s1) (topNode (get_list w s1)) (unat (usedCnt (get_list w s1))) =
          newest handle (nodes s1) q j"
        using after same new newest_pending [of handle "nodes s" _ _ q j] by simp
      from IH [OF s1(2) cc this] True show ?thesis
        by (simp add: walk_to_newest [OF r] qj s1(1))
    next
      case False
      from IH [OF s1(2) cc refl] have "atexit_walks run w handle s1 = Some s'"
        by (subst atexit_walks.simps) simp
      with False show ?thesis by (simp add: walk_to_newest [OF r] qj s1(1))
    qed
  qed
qed

lemma walks_sound:
  "atexit_walks run w handle s = Some s' \<Longrightarrow> counts_changes w run \<Longrightarrow> call_newest run w handle s = Some s'"
proof (induction run w handle s s' rule: atexit_walks.raw_induct [rotated, consumes 1])
  case (1 walks run w handle s s')
  from 1(2) obtain s1 rs where *: "atexit_walk run w handle (modCnt (get_list w s)) s
      (topNode (get_list w s)) (unat (usedCnt (get_list w s))) = Some (s1, rs)"
    "if rs then walks run w handle s1 = Some s' else s1 = s'"
    by (auto simp: bind_eq_Some_conv split: if_splits)
  from walk_sound [OF *(1) 1(3) refl refl] *(2) 1(1) [OF _ 1(3)] show ?case
    by (auto split: if_splits)
qed



subsection \<open>The registered handlers as a stack\<close>

text \<open>
  The abstract view of a list: its live handlers, newest first, as triples of function, argument (if
  it takes one) and handle. \<open>chain h p ps\<close> says that the nodes from \<open>p\<close> down are those of \<open>ps\<close>.
\<close>

type_synonym handler = "addr \<times> addr option \<times> addr"

definition node_ok :: "atexit_node \<Rightarrow> bool" where
  "node_ok nd \<longleftrightarrow> length (destructors nd) = ATEXIT_MAX \<and> length (args nd) = ATEXIT_MAX \<and>
     length (handles nd) = ATEXIT_MAX"

primrec chain :: "(addr \<Rightarrow> atexit_node option) \<Rightarrow> addr \<Rightarrow> addr list \<Rightarrow> bool" where
  "chain h p [] = (p = NULL)"
| "chain h p (q # ps) = (p = q \<and> p \<noteq> NULL \<and>
     (case h p of None \<Rightarrow> False | Some nd \<Rightarrow> node_ok nd \<and> chain h (prev nd) ps))"

primrec entries :: "atexit_node \<Rightarrow> nat \<Rightarrow> handler list" where
  "entries nd 0 = []"
| "entries nd (Suc i) =
     (if destructors nd ! i = NULL then [] else
        [(destructors nd ! i, if bit (fntype nd) i then Some (args nd ! i) else None, handles nd ! i)])
     @ entries nd i"

primrec live :: "(addr \<Rightarrow> atexit_node option) \<Rightarrow> addr list \<Rightarrow> nat \<Rightarrow> handler list" where
  "live h [] i = []"
| "live h (p # ps) i = (case h p of None \<Rightarrow> [] | Some nd \<Rightarrow> entries nd i) @ live h ps ATEXIT_MAX"

definition wf_list :: "which \<Rightarrow> 'w atexit_state \<Rightarrow> addr list \<Rightarrow> bool" where
  "wf_list w s ps \<longleftrightarrow> chain (nodes s) (topNode (get_list w s)) ps \<and> distinct ps \<and>
     unat (usedCnt (get_list w s)) \<le> ATEXIT_MAX \<and>
     (staticNode (get_list w s) = NULL \<or> staticNode (get_list w s) \<in> set ps) \<and>
     (case ps of [] \<Rightarrow> usedCnt (get_list w s) = 0
      | p # _ \<Rightarrow> (case nodes s p of None \<Rightarrow> False
          | Some nd \<Rightarrow> list_all (\<lambda>d. d = NULL) (drop (unat (usedCnt (get_list w s))) (destructors nd))))"

definition stack :: "which \<Rightarrow> 'w atexit_state \<Rightarrow> addr list \<Rightarrow> handler list" where
  "stack w s ps = live (nodes s) ps (unat (usedCnt (get_list w s)))"

lemma chain_other: "q \<notin> set ps \<Longrightarrow> chain (h(q := x)) p ps = chain h p ps"
  by (induction ps arbitrary: p) (auto split: option.splits)

lemma live_other: "q \<notin> set ps \<Longrightarrow> live (h(q := x)) ps i = live h ps i"
  by (induction ps arbitrary: i) auto

lemma chain_nonnull: "chain h p ps \<Longrightarrow> NULL \<notin> set ps"
  by (induction ps arbitrary: p) (auto split: option.splits)

lemma chain_alive: "chain h p ps \<Longrightarrow> q \<in> set ps \<Longrightarrow> h q \<noteq> None"
  by (induction ps arbitrary: p) (auto split: option.splits)

lemma entries_cong:
  "(\<And>k. k < i \<Longrightarrow> destructors nd' ! k = destructors nd ! k \<and> (destructors nd ! k \<noteq> NULL \<longrightarrow>
      args nd' ! k = args nd ! k \<and> handles nd' ! k = handles nd ! k \<and>
      bit (fntype nd') k = bit (fntype nd) k)) \<Longrightarrow>
   entries nd' i = entries nd i"
  by (induction i) (auto simp: less_Suc_eq)

lemma entries_above:
  "(\<And>k. i \<le> k \<Longrightarrow> k < j \<Longrightarrow> destructors nd ! k = NULL) \<Longrightarrow> i \<le> j \<Longrightarrow> entries nd j = entries nd i"
proof (induction j)
  case (Suc j)
  then show ?case by (cases "i = Suc j") auto
qed simp

lemma bit_flag:
  "i < 32 \<Longrightarrow> bit (w OR 2 ^ i :: u32) k \<longleftrightarrow> bit w k \<or> k = i"
  "bit (w AND NOT (2 ^ i) :: u32) k \<longleftrightarrow> bit w k \<and> k \<noteq> i"
  by (auto simp: bit_or_iff bit_and_iff bit_not_iff bit_exp_iff dest: bit_imp_le_length)

lemma drop_bit_flag: "drop_bit i (w :: u32) AND 1 = 1 \<longleftrightarrow> bit w i"
  by (simp add: and_one_eq bit_iff_odd_drop_bit flip: odd_iff_mod_2_eq_one)

lemma nodes_set [simp]:
  "nodes (set_list w l s) = nodes s" "nodes (set_node p nd s) = (nodes s)(p \<mapsto> nd)"
  "set_list w l (set_node p nd (set_list w l' s)) = set_list w l (set_node p nd s)"
  by (cases w; simp add: set_node_def)+

lemma chain_hd: "chain h p ps \<Longrightarrow> p \<noteq> NULL \<longleftrightarrow> ps \<noteq> []"
  by (cases ps) auto

text \<open>The store into a free slot of the top node.\<close>

definition fill_slot :: "int \<Rightarrow> addr \<Rightarrow> addr \<Rightarrow> addr \<Rightarrow> nat \<Rightarrow> atexit_node \<Rightarrow> atexit_node" where
  "fill_slot isarg fn arg handle i nd =
     nd\<lparr>destructors := (destructors nd)[i := fn],
        args := (args nd)[i := if isarg \<noteq> 0 then arg else NULL],
        handles := (handles nd)[i := handle],
        fntype := (if isarg \<noteq> 0 then fntype nd OR push_bit i 1 else fntype nd AND NOT (push_bit i 1))\<rparr>"

lemma fill_slot_entries:
  assumes "node_ok nd" and "i < ATEXIT_MAX" and "fn \<noteq> NULL"
  shows "entries (fill_slot isarg fn arg handle i nd) (Suc i) =
    (fn, if isarg \<noteq> 0 then Some arg else None, handle) # entries nd i"
proof -
  have "entries (fill_slot isarg fn arg handle i nd) i = entries nd i"
    using assms by (intro entries_cong) (auto simp: fill_slot_def node_ok_def bit_flag ATEXIT_MAX_def)
  with assms show ?thesis by (simp add: fill_slot_def node_ok_def bit_flag ATEXIT_MAX_def)
qed

lemma store_top:
  assumes wf: "wf_list w s ps" and room: "unat (usedCnt (get_list w s)) < ATEXIT_MAX"
    and top: "topNode (get_list w s) \<noteq> NULL" and fn: "fn \<noteq> NULL"
  defines "l \<equiv> get_list w s" and "i \<equiv> unat (usedCnt (get_list w s))"
  shows "\<exists>nd. nodes s (topNode l) = Some nd \<and> node_ok nd \<and>
    (let s' = set_list w (l\<lparr>usedCnt := usedCnt l + 1, modCnt := modCnt l + 1\<rparr>)
              (set_node (topNode l) (fill_slot isarg fn arg handle i nd) s)
     in wf_list w s' ps \<and>
        stack w s' ps = (fn, if isarg \<noteq> 0 then Some arg else None, handle) # stack w s ps)"
proof -
  obtain qs where ps: "ps = topNode l # qs"
    using wf top unfolding wf_list_def l_def by (cases ps) auto
  then obtain nd where nd: "nodes s (topNode l) = Some nd" "node_ok nd" "chain (nodes s) (prev nd) qs"
    using wf unfolding wf_list_def l_def by (auto split: option.splits)
  have q: "topNode l \<notin> set qs" using wf ps by (simp add: wf_list_def)
  have u: "unat (usedCnt l + 1) = Suc i"
    using room unfolding l_def i_def by (simp add: unat_word_ariths ATEXIT_MAX_def)
  let ?nd = "fill_slot isarg fn arg handle i nd"
  let ?s = "set_list w (l\<lparr>usedCnt := usedCnt l + 1, modCnt := modCnt l + 1\<rparr>) (set_node (topNode l) ?nd s)"
  have "node_ok ?nd" "prev ?nd = prev nd" using nd(2) by (auto simp: fill_slot_def node_ok_def)
  moreover have "list_all (\<lambda>d. d = NULL) (drop (Suc i) (destructors ?nd))"
  proof -
    have "list_all (\<lambda>d. d = NULL) (drop i (destructors nd))"
      using wf nd(1) unfolding wf_list_def l_def i_def ps [unfolded l_def] by simp
    then have "list_all (\<lambda>d. d = NULL) (drop (Suc i) (destructors nd))"
      by (metis drop_drop list.pred_set in_set_dropD plus_1_eq_Suc list_all_iff)
    then show ?thesis by (simp add: fill_slot_def)
  qed
  ultimately have "wf_list w ?s ps"
    using wf room [folded i_def] nd ps q top u unfolding wf_list_def l_def [symmetric] i_def [symmetric]
    by (auto simp: chain_other)
  moreover have "stack w ?s ps = (fn, if isarg \<noteq> 0 then Some arg else None, handle) # stack w s ps"
    using fill_slot_entries [OF nd(2) room [folded i_def] fn] nd q u
    unfolding stack_def ps l_def [symmetric]
    by (simp add: live_other i_def [folded l_def] l_def [symmetric] del: entries.simps)
  ultimately show ?thesis using nd by (auto simp: Let_def)
qed

lemma register_spec:
  assumes wf: "wf_list w s ps" and fresh: "nodes s p = None" and fn: "fn \<noteq> NULL"
  shows "\<exists>s' r ps'. atexit_register w p isarg fn arg handle s = Some (s', r) \<and> wf_list w s' ps' \<and>
    (if r = 0
     then stack w s' ps' = (fn, if isarg \<noteq> 0 then Some arg else None, handle) # stack w s ps
     else r = - 1 \<and> p = NULL \<and> s' = s)"
proof -
  let ?l = "get_list w s"
  let ?full = "topNode ?l = NULL \<or> unat (usedCnt ?l) \<ge> ATEXIT_MAX"
  show ?thesis
  proof (cases ?full)
    case False
    with store_top [OF wf _ _ fn, of isarg arg handle] obtain nd where nd: "nodes s (topNode ?l) = Some nd"
      "node_ok nd"
      "wf_list w (set_list w (?l\<lparr>usedCnt := usedCnt ?l + 1, modCnt := modCnt ?l + 1\<rparr>)
         (set_node (topNode ?l) (fill_slot isarg fn arg handle (unat (usedCnt ?l)) nd) s)) ps"
      "stack w (set_list w (?l\<lparr>usedCnt := usedCnt ?l + 1, modCnt := modCnt ?l + 1\<rparr>)
         (set_node (topNode ?l) (fill_slot isarg fn arg handle (unat (usedCnt ?l)) nd) s)) ps =
       (fn, if isarg \<noteq> 0 then Some arg else None, handle) # stack w s ps"
      by (auto simp: Let_def not_le)
    from False nd(1,2) have "atexit_register w p isarg fn arg handle s =
      Some (set_list w (?l\<lparr>usedCnt := usedCnt ?l + 1, modCnt := modCnt ?l + 1\<rparr>)
         (set_node (topNode ?l) (fill_slot isarg fn arg handle (unat (usedCnt ?l)) nd) s), 0)"
      by (simp add: atexit_register_def Let_def upd_slot_def node_ok_def fill_slot_def not_le)
    with nd(3,4) show ?thesis by auto
  next
    case True
    show ?thesis
    proof (cases "p = NULL")
      case pN: True
      with True wf show ?thesis by (auto simp: atexit_register_def)
    next
      case pF: False
      define z where "z = zero_node\<lparr>prev := topNode ?l\<rparr>"
      define l1 where "l1 = ?l\<lparr>topNode := p, usedCnt := 0\<rparr>"
      define s1 where "s1 = set_list w l1 (set_node p z s)"
      have zne: "destructors z \<noteq> []" "args z \<noteq> []" "handles z \<noteq> []"
        by (simp_all add: z_def zero_node_def ATEXIT_MAX_def)
      have z: "node_ok z" "prev z = topNode ?l" "list_all (\<lambda>d. d = NULL) (destructors z)"
        by (simp_all add: z_def node_ok_def zero_node_def list_all_iff)
      have new: "p \<notin> set ps" using wf fresh chain_alive unfolding wf_list_def by blast
      have l1: "get_list w s1 = l1" "topNode l1 = p" "usedCnt l1 = 0" "staticNode l1 = staticNode ?l"
        by (simp_all add: s1_def l1_def)
      have wf1: "wf_list w s1 (p # ps)"
        using wf pF z new unfolding wf_list_def l1 by (auto simp: s1_def chain_other)
      have "live (nodes s) ps ATEXIT_MAX = live (nodes s) ps (unat (usedCnt ?l))"
        using True wf chain_hd [of "nodes s" "topNode ?l" ps] unfolding wf_list_def
        by (cases "ps = []") auto
      then have st1: "stack w s1 (p # ps) = stack w s ps"
        using new by (simp add: stack_def l1 s1_def live_other)
      from store_top [OF wf1 _ _ fn, of isarg arg handle] pF
      obtain nd where nd: "nodes s1 p = Some nd"
        "wf_list w (set_list w (l1\<lparr>usedCnt := usedCnt l1 + 1, modCnt := modCnt l1 + 1\<rparr>)
           (set_node p (fill_slot isarg fn arg handle 0 nd) s1)) (p # ps)"
        "stack w (set_list w (l1\<lparr>usedCnt := usedCnt l1 + 1, modCnt := modCnt l1 + 1\<rparr>)
           (set_node p (fill_slot isarg fn arg handle 0 nd) s1)) (p # ps) =
         (fn, if isarg \<noteq> 0 then Some arg else None, handle) # stack w s ps"
        by (auto simp: Let_def l1 st1 ATEXIT_MAX_def)
      have ndz: "nd = z" using nd(1) by (simp add: s1_def)
      have "atexit_register w p isarg fn arg handle s =
        Some (set_list w (l1\<lparr>usedCnt := usedCnt l1 + 1, modCnt := modCnt l1 + 1\<rparr>)
           (set_node p (fill_slot isarg fn arg handle 0 nd) s1), 0)"
        using True pF z(1) zne unfolding s1_def ndz
        by (simp add: atexit_register_def Let_def upd_slot_def node_ok_def fill_slot_def z_def [symmetric]
            ATEXIT_MAX_def l1_def)
      with nd(2,3) show ?thesis by auto
    qed
  qed
qed

text \<open>
  C5. Registration pushes: whatever the fill of the top node, a successful call puts the handler on
  top of the stack and leaves everything registered before below it in order; the list stays well
  formed, and where no memory is left the call returns -1 and changes nothing.
\<close>

theorem register_pushes:
  assumes "wf_list w s ps" and "nodes s p = None" and "fn \<noteq> NULL"
  shows "\<exists>s' r ps'. atexit_register w p isarg fn arg handle s = Some (s', r) \<and> wf_list w s' ps' \<and>
    (if r = 0
     then stack w s' ps' = (fn, if isarg \<noteq> 0 then Some arg else None, handle) # stack w s ps
     else r = - 1 \<and> p = NULL \<and> s' = s)"
  using assms by (rule register_spec)

subsection \<open>What finalization does when the handlers leave the lists alone\<close>

text \<open>A handler that only acts on its environment, as almost all do.\<close>

definition quiet_run :: "(addr \<Rightarrow> addr option \<Rightarrow> 'w \<Rightarrow> 'w) \<Rightarrow> 'w runner" where
  "quiet_run g f a s = Some (s\<lparr>env := g f a (env s)\<rparr>)"

definition matches :: "addr \<Rightarrow> handler \<Rightarrow> bool" where
  "matches handle e \<longleftrightarrow> handle = NULL \<or> handle = snd (snd e)"

definition call_all :: "(addr \<Rightarrow> addr option \<Rightarrow> 'w \<Rightarrow> 'w) \<Rightarrow> handler list \<Rightarrow> 'w \<Rightarrow> 'w" where
  "call_all g es e = fold (\<lambda>(f, a, _). g f a) es e"

text \<open>The nodes once all matching handlers below a cursor are marked as called.\<close>

definition clr :: "addr \<Rightarrow> atexit_node \<Rightarrow> nat \<Rightarrow> atexit_node" where
  "clr handle nd i = nd\<lparr>destructors :=
     map (\<lambda>k. if k < i \<and> (handle = NULL \<or> handle = handles nd ! k) then NULL else destructors nd ! k)
       [0..<length (destructors nd)]\<rparr>"

primrec clear :: "addr \<Rightarrow> (addr \<Rightarrow> atexit_node option) \<Rightarrow> addr list \<Rightarrow> nat \<Rightarrow> addr \<Rightarrow> atexit_node option" where
  "clear handle h [] i = h"
| "clear handle h (p # ps) i =
     (clear handle h ps ATEXIT_MAX)(p := map_option (\<lambda>nd. clr handle nd i) (h p))"

lemma clr_0 [simp]: "clr handle nd 0 = nd"
  by (simp add: clr_def map_nth)

lemma clr_simps [simp]:
  "prev (clr handle nd i) = prev nd" "handles (clr handle nd i) = handles nd"
  "args (clr handle nd i) = args nd" "fntype (clr handle nd i) = fntype nd"
  "node_ok (clr handle nd i) = node_ok nd" "length (destructors (clr handle nd i)) = length (destructors nd)"
  by (simp_all add: clr_def node_ok_def)

lemma clear_other: "q \<notin> set ps \<Longrightarrow> clear handle h ps i q = h q"
  by (induction ps arbitrary: i) auto

lemma dom_clear: "dom (clear handle h ps i) = dom h"
  by (induction ps arbitrary: i) (auto simp: domIff split: if_splits)

lemma clear_upd_other: "q \<notin> set ps \<Longrightarrow> clear handle (h(q := x)) ps i = (clear handle h ps i)(q := x)"
proof (induction ps arbitrary: i)
  case (Cons p ps)
  then show ?case by (auto simp: fun_eq_iff)
qed simp

lemma pending_ok:
  "node_ok nd \<Longrightarrow> k < ATEXIT_MAX \<Longrightarrow>
   pending handle nd k = Some (destructors nd ! k \<noteq> NULL \<and> (handle = NULL \<or> handle = handles nd ! k))"
  by (simp add: pending_def nth_slot_def node_ok_def)

lemma clr_Suc:
  assumes "node_ok nd" and "k < ATEXIT_MAX"
  shows "clr handle nd (Suc k) =
    (if pending handle nd k = Some True then clr handle (nd\<lparr>destructors := (destructors nd)[k := NULL]\<rparr>) k
     else clr handle nd k)"
  unfolding clr_def using assms
  by (auto simp: pending_ok node_ok_def less_Suc_eq nth_list_update intro!: map_cong
      atexit_node.equality nth_equalityI)

lemma entries_Suc_calls:
  "filter (matches handle) (entries nd (Suc k)) =
   (if destructors nd ! k \<noteq> NULL \<and> (handle = NULL \<or> handle = handles nd ! k)
    then (destructors nd ! k, if bit (fntype nd) k then Some (args nd ! k) else None, handles nd ! k)
      # filter (matches handle) (entries nd k)
    else filter (matches handle) (entries nd k))"
  by (auto simp: matches_def)

lemma walk_quiet:
  assumes "modCnt (get_list w s) = mc"
  shows "chain (nodes s) p ps \<Longrightarrow> distinct ps \<Longrightarrow> i \<le> ATEXIT_MAX \<Longrightarrow>
   atexit_walk (quiet_run g) w handle mc s p i =
     Some (s\<lparr>nodes := clear handle (nodes s) ps i,
             env := call_all g (filter (matches handle) (live (nodes s) ps i)) (env s)\<rparr>, False)"
  using assms
proof (induction ps arbitrary: s p i)
  case Nil
  then show ?case by (subst atexit_walk.simps) (simp add: call_all_def)
next
  case (Cons q ps)
  from Cons.prems(3,1,2,4) show ?case
  proof (induction i arbitrary: s)
    case 0
    then obtain nd where nd: "q = p" "p \<noteq> NULL" "nodes s p = Some nd" "chain (nodes s) (prev nd) ps" "p \<notin> set ps"
      by (auto split: option.splits)
    have "clear handle (nodes s) (p # ps) 0 = clear handle (nodes s) ps ATEXIT_MAX"
      using nd by (auto simp: clear_other)
    with nd Cons.IH [OF nd(4), of ATEXIT_MAX] 0 show ?case
      by (subst atexit_walk.simps) simp
  next
    case (Suc k)
    then obtain nd where nd: "q = p" "p \<noteq> NULL" "nodes s p = Some nd" "node_ok nd"
      "chain (nodes s) (prev nd) ps" "p \<notin> set ps" "k < ATEXIT_MAX"
      by (auto split: option.splits)
    show ?case
    proof (cases "pending handle nd k = Some True")
      case False
      then have pF: "pending handle nd k = Some False" using nd by (simp add: pending_ok)
      then have "\<not> (destructors nd ! k \<noteq> NULL \<and> (handle = NULL \<or> handle = handles nd ! k))"
        using nd by (simp add: pending_ok)
      then have "filter (matches handle) (entries nd (Suc k)) = filter (matches handle) (entries nd k)"
        unfolding entries_Suc_calls by (rule if_not_P)
      with Suc.IH [of s] Suc.prems pF nd clr_Suc [OF nd(4,7), of handle]
      show ?thesis by (subst atexit_walk.simps) (simp del: entries.simps)
    next
      case True
      let ?nd = "nd\<lparr>destructors := (destructors nd)[k := NULL]\<rparr>"
      let ?a = "if bit (fntype nd) k then Some (args nd ! k) else None"
      let ?s = "s\<lparr>nodes := (nodes s)(p \<mapsto> ?nd), env := g (destructors nd ! k) ?a (env s)\<rparr>"
      have call: "call_slot (quiet_run g) p k s = Some ?s"
        using nd by (simp add: call_slot_def nth_slot_def upd_slot_def node_ok_def quiet_run_def
            set_node_def drop_bit_flag)
      have l: "get_list w ?s = get_list w s" by (cases w) simp_all
      have ok: "node_ok ?nd" using nd(4) by (simp add: node_ok_def)
      have ent: "entries ?nd k = entries nd k" by (rule entries_cong) simp
      have IH: "atexit_walk (quiet_run g) w handle mc ?s p k =
        Some (?s\<lparr>nodes := clear handle (nodes ?s) (q # ps) k,
           env := call_all g (filter (matches handle) (live (nodes ?s) (q # ps) k)) (env ?s)\<rparr>, False)"
        using Suc.prems nd ok l by (intro Suc.IH) (simp_all add: chain_other)
      have m: "destructors nd ! k \<noteq> NULL \<and> (handle = NULL \<or> handle = handles nd ! k)"
        using True nd by (simp add: pending_ok)
      then have e: "filter (matches handle) (entries nd (Suc k)) =
          (destructors nd ! k, ?a, handles nd ! k) # filter (matches handle) (entries nd k)"
        unfolding entries_Suc_calls by (rule if_P)
      have "atexit_walk (quiet_run g) w handle mc s p (Suc k) = atexit_walk (quiet_run g) w handle mc ?s p k"
        using nd True call l Suc.prems(4) by (subst atexit_walk.simps) simp
      also have "\<dots> = Some (s\<lparr>nodes := clear handle (nodes s) (q # ps) (Suc k),
           env := call_all g (filter (matches handle) (live (nodes s) (q # ps) (Suc k))) (env s)\<rparr>, False)"
        unfolding IH using nd True e clr_Suc [OF nd(4,7), of handle] ent
        by (simp add: clear_upd_other live_other call_all_def del: entries.simps)
      finally show ?thesis .
    qed
  qed
qed

lemma entries_clr:
  "node_ok nd \<Longrightarrow> i \<le> ATEXIT_MAX \<Longrightarrow>
   entries (clr handle nd i) i = filter (\<lambda>e. \<not> matches handle e) (entries nd i)"
proof (induction i)
  case (Suc k)
  have "entries (clr handle nd (Suc k)) k = entries (clr handle nd k) k"
    using Suc.prems by (intro entries_cong) (auto simp: clr_def node_ok_def)
  with Suc show ?case by (auto simp: clr_def node_ok_def matches_def)
qed simp

lemma chain_clear: "chain h p ps \<Longrightarrow> distinct ps \<Longrightarrow> chain (clear handle h ps i) p ps"
  by (induction ps arbitrary: p i) (auto simp: chain_other split: option.splits)

lemma live_clear:
  "chain h p ps \<Longrightarrow> distinct ps \<Longrightarrow> i \<le> ATEXIT_MAX \<Longrightarrow>
   live (clear handle h ps i) ps i = filter (\<lambda>e. \<not> matches handle e) (live h ps i)"
proof (induction ps arbitrary: p i)
  case (Cons q ps)
  then obtain nd where "h q = Some nd" "node_ok nd" "chain h (prev nd) ps" by (auto split: option.splits)
  with Cons show ?case by (simp add: live_other entries_clr)
qed simp

lemma entries_all_null:
  "node_ok nd \<Longrightarrow> \<not> list_ex (\<lambda>d. d \<noteq> NULL) (destructors nd) \<Longrightarrow> entries nd ATEXIT_MAX = []"
  using entries_above [of 0 ATEXIT_MAX nd] by (simp add: node_ok_def list_ex_iff)

lemma release_spec:
  "chain h p ps \<Longrightarrow> distinct ps \<Longrightarrow> static = NULL \<or> static \<in> set ps \<Longrightarrow>
   \<exists>h' p' mc' ps'. atexit_release static h p mc = Some (h', p', mc') \<and> chain h' p' ps' \<and>
     distinct ps' \<and> (static = NULL \<or> static \<in> set ps') \<and> live h' ps' ATEXIT_MAX = live h ps ATEXIT_MAX \<and>
     dom h' \<subseteq> dom h"
proof (induction ps arbitrary: h p mc)
  case Nil
  then show ?case by (subst atexit_release.simps) (auto intro: exI [of _ "[]"])
next
  case (Cons q ps)
  then obtain nd where nd: "q = p" "p \<noteq> NULL" "h p = Some nd" "node_ok nd" "chain h (prev nd) ps" "p \<notin> set ps"
    by (auto split: option.splits)
  show ?case
  proof (cases "p = static \<or> list_ex (\<lambda>d. d \<noteq> NULL) (destructors nd)")
    case True
    then have "atexit_release static h p mc = Some (h, p, mc)"
      using nd by (subst atexit_release.simps) auto
    with Cons.prems show ?thesis by blast
  next
    case False
    then have rel: "atexit_release static h p mc = atexit_release static (h(p := None)) (prev nd) (mc + 1)"
      using nd by (subst atexit_release.simps) simp
    have same: "live h (q # ps) ATEXIT_MAX = live (h(p := None)) ps ATEXIT_MAX"
      using False nd entries_all_null [of nd] by (simp add: live_other)
    have "chain (h(p := None)) (prev nd) ps" using nd by (simp add: chain_other)
    moreover have "static = NULL \<or> static \<in> set ps" using Cons.prems(3) False nd by auto
    ultimately obtain h' p' mc' ps' where
      "atexit_release static (h(p := None)) (prev nd) (mc + 1) = Some (h', p', mc')" "chain h' p' ps'"
      "distinct ps'" "static = NULL \<or> static \<in> set ps'"
      "live h' ps' ATEXIT_MAX = live (h(p := None)) ps ATEXIT_MAX" "dom h' \<subseteq> dom (h(p := None))"
      using Cons.IH [of "h(p := None)" "prev nd" "mc + 1"] Cons.prems(2) by auto
    moreover have "dom (h(p := None)) \<subseteq> dom h" by auto
    ultimately show ?thesis unfolding rel same by blast
  qed
qed

lemma trim_le: "trim ds i \<le> i"
  by (induction i) auto

lemma trim_null: "trim ds i \<le> k \<Longrightarrow> k < i \<Longrightarrow> ds ! k = NULL"
  by (induction i) (auto simp: less_Suc_eq split: if_splits)

lemma live_top:
  assumes "chain h p ps" and "u \<le> ATEXIT_MAX"
    and "\<And>nd k. ps \<noteq> [] \<Longrightarrow> h p = Some nd \<Longrightarrow> u \<le> k \<Longrightarrow> k < ATEXIT_MAX \<Longrightarrow> destructors nd ! k = NULL"
  shows "live h ps ATEXIT_MAX = live h ps u"
proof (cases ps)
  case (Cons q qs)
  with assms obtain nd where "q = p" "h p = Some nd" by (auto split: option.splits)
  with Cons assms entries_above [of u ATEXIT_MAX nd] show ?thesis by simp
qed simp

lemma finalize_spec:
  assumes wf: "wf_list w s ps"
  shows "\<exists>s' ps'. atexit_finalize (quiet_run g) w handle s = Some s' \<and>
    env s' = call_all g (filter (matches handle) (stack w s ps)) (env s) \<and>
    wf_list w s' ps' \<and> stack w s' ps' = filter (\<lambda>e. \<not> matches handle e) (stack w s ps) \<and>
    dom (nodes s') \<subseteq> dom (nodes s) \<and> staticNode (get_list w s') = staticNode (get_list w s)"
proof (cases "topNode (get_list w s) = NULL")
  case True
  then have "ps = []" using wf by (cases ps) (auto simp: wf_list_def)
  with True wf show ?thesis
    by (intro exI [of _ s] exI [of _ "[]"]) (simp add: atexit_finalize_def stack_def call_all_def)
next
  case False
  let ?l = "get_list w s" and ?u = "unat (usedCnt (get_list w s))"
  define h where "h = clear handle (nodes s) ps ?u"
  define s1 where "s1 = s\<lparr>nodes := h, env := call_all g (filter (matches handle) (stack w s ps)) (env s)\<rparr>"
  have ch: "chain (nodes s) (topNode ?l) ps" and d: "distinct ps" and u: "?u \<le> ATEXIT_MAX"
    and st: "staticNode ?l = NULL \<or> staticNode ?l \<in> set ps"
    using wf by (simp_all add: wf_list_def)
  have walks: "atexit_walks (quiet_run g) w handle s = Some s1"
    by (subst atexit_walks.simps) (simp add: walk_quiet [OF refl ch d u] s1_def h_def stack_def)
  have l1: "get_list w s1 = ?l" "nodes s1 = h" by (cases w; simp add: s1_def)+
  have chh: "chain h (topNode ?l) ps" unfolding h_def by (rule chain_clear [OF ch d])
  obtain h' p' mc' ps' where rel: "atexit_release (staticNode ?l) h (topNode ?l) (modCnt ?l) = Some (h', p', mc')"
    "chain h' p' ps'" "distinct ps'" "staticNode ?l = NULL \<or> staticNode ?l \<in> set ps'"
    "live h' ps' ATEXIT_MAX = live h ps ATEXIT_MAX" "dom h' \<subseteq> dom h"
    using release_spec [OF chh d st, of "modCnt ?l"] by blast
  obtain i where i: "(if p' = NULL then Some 0
       else do { node \<leftarrow> h' p'; Some (trim (destructors node) ATEXIT_MAX) }) = Some i"
    "i \<le> ATEXIT_MAX" "ps' = [] \<Longrightarrow> i = 0"
    "\<And>nd k. h' p' = Some nd \<Longrightarrow> p' \<noteq> NULL \<Longrightarrow> i \<le> k \<Longrightarrow> k < ATEXIT_MAX \<Longrightarrow> destructors nd ! k = NULL"
    using rel(2) trim_le trim_null by (cases ps') (auto split: option.splits)
  define s' where "s' = set_list w (?l\<lparr>topNode := p', modCnt := mc', usedCnt := of_nat i\<rparr>) (s1\<lparr>nodes := h'\<rparr>)"
  have run: "atexit_finalize (quiet_run g) w handle s = Some s'"
    unfolding atexit_finalize_def using False by (simp add: walks l1 rel(1) i(1) s'_def Let_def)
  have l': "get_list w s' = ?l\<lparr>topNode := p', modCnt := mc', usedCnt := of_nat i\<rparr>" "nodes s' = h'" "env s' = env s1"
    by (cases w; simp add: s'_def)+
  have ui: "unat (of_nat i :: u32) = i"
    using i(2) by (intro unat_of_nat_small) (simp add: ATEXIT_MAX_def)
  have top: "destructors nd ! k = NULL" if "ps' \<noteq> []" "h' p' = Some nd" "i \<le> k" "k < ATEXIT_MAX" for nd k
    using that i(4) [of nd k] chain_hd [OF rel(2)] by simp
  have wf': "wf_list w s' ps'"
    using rel(2-4) i(2,3) ui top
    by (cases ps') (auto simp: wf_list_def l' node_ok_def list_all_length split: option.splits)
  have hi: "destructors nd ! k = NULL"
    if ne: "ps \<noteq> []" and "h (topNode ?l) = Some nd" "?u \<le> k" "k < ATEXIT_MAX" for nd k
  proof -
    obtain qs where ps: "ps = topNode ?l # qs" using ne ch by (cases ps) auto
    then obtain nd0 where nd0: "nodes s (topNode ?l) = Some nd0" "node_ok nd0"
      "list_all (\<lambda>d. d = NULL) (drop ?u (destructors nd0))"
      using wf unfolding wf_list_def by (auto split: option.splits)
    then have "destructors nd0 ! k = NULL"
      using that(3,4) by (auto simp: list_all_length node_ok_def dest: spec [of _ "k - ?u"])
    with nd0 that show ?thesis by (auto simp: h_def ps clr_def node_ok_def)
  qed
  have "live h' ps' i = live h ps ?u"
    using live_top [OF rel(2) i(2) top] live_top [OF chh u hi] rel(5) by simp
  then have "stack w s' ps' = filter (\<lambda>e. \<not> matches handle e) (stack w s ps)"
    unfolding stack_def l' by (simp add: ui h_def live_clear [OF ch d u])
  moreover have "dom (nodes s') \<subseteq> dom (nodes s)" "staticNode (get_list w s') = staticNode ?l"
    using rel(6) dom_clear [of handle "nodes s" ps ?u] by (simp_all add: l' h_def)
  ultimately show ?thesis using run wf' l' by (auto simp: s1_def)
qed

text \<open>
  C3. Finalization calls every handler of the given handle, or every handler for NULL, exactly once
  in reverse order of registration, keeps the others in order, and leaves the list well formed with
  all emptied nodes but the static one released.
\<close>

theorem finalize_calls_newest_first:
  assumes "wf_list w s ps"
  shows "\<exists>s' ps'. atexit_finalize (quiet_run g) w handle s = Some s' \<and>
    env s' = call_all g (filter (matches handle) (stack w s ps)) (env s) \<and>
    wf_list w s' ps' \<and> stack w s' ps' = filter (\<lambda>e. \<not> matches handle e) (stack w s ps)"
  using finalize_spec [OF assms] by blast

definition initial_state :: "'w \<Rightarrow> 'w atexit_state" where
  "initial_state e = \<lparr>nodes = [atexit_staticNode \<mapsto> zero_node],
     exitList = \<lparr>topNode = atexit_staticNode, staticNode = atexit_staticNode, usedCnt = 0, modCnt = 0\<rparr>,
     quickExitList = \<lparr>topNode = NULL, staticNode = NULL, usedCnt = 0, modCnt = 0\<rparr>, env = e\<rparr>"

lemma initial_wf:
  "wf_list Exit (initial_state e) [atexit_staticNode]" "wf_list Quick (initial_state e) []"
  by (simp_all add: wf_list_def initial_state_def node_ok_def zero_node_def atexit_staticNode_def
      list_all_iff)

theorem register_pushes_witness:
  "\<exists>s' r ps'. atexit_register Exit 8192 1 5 6 7 (initial_state ()) = Some (s', r) \<and> wf_list Exit s' ps' \<and>
    (if r = 0
     then stack Exit s' ps' = (5, if (1::int) \<noteq> 0 then Some 6 else None, 7) #
       stack Exit (initial_state ()) [atexit_staticNode]
     else r = - 1 \<and> (8192::addr) = NULL \<and> s' = initial_state ())"
  by (rule register_pushes [OF initial_wf(1)]) (simp_all add: initial_state_def atexit_staticNode_def)

theorem finalize_calls_newest_first_witness:
  "\<exists>s' ps'. atexit_finalize (quiet_run (\<lambda>f a log. log @ [f])) Exit NULL (initial_state []) = Some s' \<and>
    env s' = call_all (\<lambda>f a log. log @ [f])
      (filter (matches NULL) (stack Exit (initial_state ([] :: addr list)) [atexit_staticNode])) (env (initial_state [])) \<and>
    wf_list Exit s' ps' \<and> stack Exit s' ps' =
      filter (\<lambda>e. \<not> matches NULL e) (stack Exit (initial_state ([] :: addr list)) [atexit_staticNode])"
  using finalize_calls_newest_first
    [OF initial_wf(1) [of "[] :: addr list"], of "\<lambda>f a log. log @ [f]" NULL] .

subsection \<open>The contract of an exit list\<close>

text \<open>
  What a caller of \<open>atexit\<close> and \<open>exit\<close> relies on: \<open>push\<close> registers, \<open>drain\<close> calls everything. The
  lemmas of the contract are about any sequence of registrations.
\<close>

primrec push_all :: "('e \<Rightarrow> 's \<Rightarrow> 's option) \<Rightarrow> 'e list \<Rightarrow> 's \<Rightarrow> 's option" where
  "push_all push [] s = Some s"
| "push_all push (e # es) s = do { s' \<leftarrow> push e s; push_all push es s' }"

locale exit_list =
  fixes inv :: "'s \<Rightarrow> bool" and view :: "'s \<Rightarrow> 'e list" and valid :: "'e \<Rightarrow> bool"
    and call :: "'e \<Rightarrow> 'c" and push :: "'e \<Rightarrow> 's \<Rightarrow> 's option" and drain :: "'s \<Rightarrow> ('s \<times> 'c list) option"
  assumes push_law: "inv s \<Longrightarrow> valid e \<Longrightarrow> \<exists>s'. push e s = Some s' \<and> inv s' \<and> view s' = e # view s"
    and drain_law: "inv s \<Longrightarrow> \<exists>s'. drain s = Some (s', map call (view s)) \<and> inv s' \<and> view s' = []"
begin

lemma push_all_view:
  "inv s \<Longrightarrow> \<forall>e\<in>set es. valid e \<Longrightarrow>
   \<exists>s'. push_all push es s = Some s' \<and> inv s' \<and> view s' = rev es @ view s"
proof (induction es arbitrary: s)
  case (Cons e es)
  then obtain s1 where "push e s = Some s1" "inv s1" "view s1 = e # view s" using push_law by fastforce
  with Cons.IH [of s1] Cons.prems show ?case by auto
qed simp

lemma calls_in_reverse:
  assumes "inv s" and "view s = []" and "\<forall>e\<in>set es. valid e"
  shows "\<exists>s1 s2 s3. push_all push es s = Some s1 \<and>
    drain s1 = Some (s2, map call (rev es)) \<and> drain s2 = Some (s3, [])"
proof -
  obtain s1 where s1: "push_all push es s = Some s1" "inv s1" "view s1 = rev es"
    using push_all_view [OF assms(1,3)] assms(2) by auto
  obtain s2 where s2: "drain s1 = Some (s2, map call (rev es))" "inv s2" "view s2 = []"
    using drain_law [OF s1(2)] s1(3) by auto
  obtain s3 where "drain s2 = Some (s3, [])"
    using drain_law [OF s2(2)] s2(3) by auto
  with s1 s2 show ?thesis by blast
qed

end

text \<open>
  The exit list of the library keeps the contract. The state is paired with the next free address, so
  that \<open>calloc\<close> is a bump allocator that never runs out; addresses are multiples of 8, as
  \<open>_atexit_check\<close> demands.
\<close>

partial_function (option) nodes_from :: "(addr \<Rightarrow> atexit_node option) \<Rightarrow> addr \<Rightarrow> addr list option" where
  "nodes_from h p =
     (if p = NULL then Some []
      else do { nd \<leftarrow> h p; ps \<leftarrow> nodes_from h (prev nd); Some (p # ps) })"

lemma nodes_from_chain: "chain h p ps \<Longrightarrow> nodes_from h p = Some ps"
proof (induction ps arbitrary: p)
  case Nil
  then show ?case by (subst nodes_from.simps) simp
next
  case (Cons q ps)
  then show ?case by (subst nodes_from.simps) (auto split: option.splits)
qed

type_synonym call_log = "(addr \<times> addr option) list"

definition exit_view :: "call_log atexit_state \<times> addr \<Rightarrow> handler list" where
  "exit_view = (\<lambda>(s, next). case nodes_from (nodes s) (topNode (exitList s)) of
     None \<Rightarrow> [] | Some ps \<Rightarrow> stack Exit s ps)"

definition exit_inv :: "call_log atexit_state \<times> addr \<Rightarrow> bool" where
  "exit_inv = (\<lambda>(s, next). (\<exists>ps. wf_list Exit s ps) \<and> staticNode (exitList s) = atexit_staticNode \<and>
     next \<noteq> NULL \<and> next mod 8 = 0 \<and> (\<forall>p\<in>dom (nodes s). p < next \<and> p mod 8 = 0))"

definition exit_valid :: "handler \<Rightarrow> bool" where
  "exit_valid = (\<lambda>(f, a, h). f \<noteq> NULL \<and> (a = None \<longrightarrow> h = NULL))"

definition exit_push :: "handler \<Rightarrow> call_log atexit_state \<times> addr \<Rightarrow> (call_log atexit_state \<times> addr) option" where
  "exit_push = (\<lambda>(f, a, h) (s, next). do {
     (s', r) \<leftarrow> (case a of None \<Rightarrow> atexit next f s | Some x \<Rightarrow> cxa_atexit next f x h s);
     if r = 0 then Some (s', next + 1024) else None })"

definition exit_drain :: "call_log atexit_state \<times> addr \<Rightarrow> ((call_log atexit_state \<times> addr) \<times> call_log) option" where
  "exit_drain = (\<lambda>(s, next). do {
     s' \<leftarrow> cxa_finalize (quiet_run (\<lambda>f a log. log @ [(f, a)])) NULL (s\<lparr>env := []\<rparr>);
     Some ((s', next), env s') })"

lemma view_wf: "wf_list Exit s ps \<Longrightarrow> exit_view (s, next) = stack Exit s ps"
  using nodes_from_chain [of "nodes s" "topNode (exitList s)" ps]
  by (simp add: exit_view_def) (simp add: wf_list_def)

lemma register_frame:
  "atexit_register w p isarg fn arg handle s = Some (s', r) \<Longrightarrow>
   dom (nodes s') \<subseteq> insert p (dom (nodes s)) \<and> staticNode (get_list w s') = staticNode (get_list w s)"
  by (auto simp: atexit_register_def Let_def bind_eq_Some_conv split: if_splits)

lemma exit_push_law:
  assumes "exit_inv s" and "exit_valid e"
  shows "\<exists>s'. exit_push e s = Some s' \<and> exit_inv s' \<and> exit_view s' = e # exit_view s"
proof -
  obtain t nx ps where s: "s = (t, nx)" "wf_list Exit t ps" using assms(1) by (auto simp: exit_inv_def)
  obtain f a h where e: "e = (f, a, h)" "f \<noteq> NULL" "a = None \<longrightarrow> h = NULL"
    using assms(2) by (cases e) (auto simp: exit_valid_def)
  have fresh: "nodes t nx = None" "nx \<noteq> NULL" using assms(1) s by (auto simp: exit_inv_def domIff)
  have "\<exists>t' ps'. (case a of None \<Rightarrow> atexit nx f t | Some x \<Rightarrow> cxa_atexit nx f x h t) = Some (t', 0) \<and>
      wf_list Exit t' ps' \<and> stack Exit t' ps' = (f, a, h) # stack Exit t ps"
  proof (cases a)
    case None
    obtain t' r ps' where *: "atexit_register Exit nx 0 f NULL NULL t = Some (t', r)" "wf_list Exit t' ps'"
      "if r = 0 then stack Exit t' ps' = (f, if (0::int) \<noteq> 0 then Some NULL else None, NULL) # stack Exit t ps
       else r = - 1 \<and> nx = NULL \<and> t' = t"
      using register_spec [OF s(2) fresh(1) e(2)] by blast
    then have "r = 0" using fresh(2) by presburger
    with * None e(3) show ?thesis by (auto simp: atexit_def)
  next
    case (Some x)
    obtain t' r ps' where *: "atexit_register Exit nx 1 f x h t = Some (t', r)" "wf_list Exit t' ps'"
      "if r = 0 then stack Exit t' ps' = (f, if (1::int) \<noteq> 0 then Some x else None, h) # stack Exit t ps
       else r = - 1 \<and> nx = NULL \<and> t' = t"
      using register_spec [OF s(2) fresh(1) e(2)] by blast
    then have "r = 0" using fresh(2) by presburger
    with * Some show ?thesis by (auto simp: cxa_atexit_def)
  qed
  then obtain t' ps' where
    t': "(case a of None \<Rightarrow> atexit nx f t | Some x \<Rightarrow> cxa_atexit nx f x h t) = Some (t', 0)"
    "wf_list Exit t' ps'" "stack Exit t' ps' = (f, a, h) # stack Exit t ps" by blast
  have frame: "dom (nodes t') \<subseteq> insert nx (dom (nodes t))" "staticNode (exitList t') = staticNode (exitList t)"
  proof -
    obtain isarg arg handle where "atexit_register Exit nx isarg f arg handle t = Some (t', 0)"
      using t'(1) by (cases a) (auto simp: atexit_def cxa_atexit_def)
    from register_frame [OF this] show "dom (nodes t') \<subseteq> insert nx (dom (nodes t))"
      "staticNode (exitList t') = staticNode (exitList t)" by simp_all
  qed
  have next8: "(nx + 1024) mod 8 = 0" if "nx mod 8 = 0" using that by presburger
  have old: "nx mod 8 = 0" "staticNode (exitList t) = atexit_staticNode"
    "\<forall>p\<in>dom (nodes t). p < nx \<and> p mod 8 = 0"
    using assms(1) by (simp_all add: exit_inv_def s(1))
  have "p < nx + 1024 \<and> p mod 8 = 0" if "p \<in> dom (nodes t')" for p
  proof (cases "p = nx")
    case False
    then have "p \<in> dom (nodes t)" using that frame(1) by blast
    with old(3) have "p < nx \<and> p mod 8 = 0" by blast
    then show ?thesis by simp
  qed (simp add: old(1))
  then have "\<forall>p\<in>dom (nodes t'). p < nx + 1024 \<and> p mod 8 = 0" by blast
  moreover note old(1,2)
  ultimately have "exit_inv (t', nx + 1024)"
    unfolding exit_inv_def prod.case using frame(2) next8
    by (intro conjI exI [of _ ps'] t'(2)) simp_all
  moreover have "exit_push e s = Some (t', nx + 1024)"
    using t'(1) by (simp add: exit_push_def e(1) s(1))
  ultimately show ?thesis using t'(2,3) s e(1) by (auto simp: view_wf)
qed

lemma exit_drain_law:
  assumes "exit_inv s"
  shows "\<exists>s'. exit_drain s = Some (s', map (\<lambda>(f, a, h). (f, a)) (exit_view s)) \<and> exit_inv s' \<and>
    exit_view s' = []"
proof -
  obtain t nx ps where s: "s = (t, nx)" "wf_list Exit t ps" using assms by (auto simp: exit_inv_def)
  let ?t = "t\<lparr>env := []\<rparr>" and ?g = "\<lambda>f a log. log @ [(f, a)]"
  have wf: "wf_list Exit ?t ps"
    using s(2) unfolding wf_list_def by (simp cong: list.case_cong option.case_cong)
  obtain t' ps' where t': "atexit_finalize (quiet_run ?g) Exit NULL ?t = Some t'"
    "env t' = call_all ?g (filter (matches NULL) (stack Exit ?t ps)) (env ?t)"
    "wf_list Exit t' ps'" "stack Exit t' ps' = filter (\<lambda>e. \<not> matches NULL e) (stack Exit ?t ps)"
    "dom (nodes t') \<subseteq> dom (nodes ?t)" "staticNode (exitList t') = staticNode (exitList ?t)"
    using finalize_spec [OF wf, of ?g NULL] by auto
  have "atexit_check ?t = 0"
  proof -
    have st: "staticNode (exitList t) = atexit_staticNode" using assms by (simp add: exit_inv_def s(1))
    have ch: "chain (nodes t) (topNode (exitList t)) ps" and u: "unat (usedCnt (exitList t)) \<le> ATEXIT_MAX"
      and "staticNode (exitList t) = NULL \<or> staticNode (exitList t) \<in> set ps"
      using s(2) by (simp_all add: wf_list_def)
    with st have "ps \<noteq> []" by (auto simp: atexit_staticNode_def)
    then have top: "topNode (exitList t) \<noteq> NULL" "topNode (exitList t) \<in> set ps"
      using ch by (cases ps; auto)+
    then have "topNode (exitList t) \<in> dom (nodes t)" using chain_alive [OF ch] by auto
    then have "topNode (exitList t) mod 8 = 0" using assms by (simp add: exit_inv_def s(1))
    then have "topNode (exitList t) AND 7 = 0"
      using take_bit_eq_mask [of 3 "topNode (exitList t)"]
      by (simp add: take_bit_eq_mod mask_numeral mask_eq_exp_minus_1)
    with st u top(1) show ?thesis by (simp add: atexit_check_def Let_def)
  qed
  then have drain: "exit_drain s = Some ((t', nx), env t')"
    using t'(1) by (simp add: exit_drain_def s(1) cxa_finalize_def)
  have log: "call_all ?g es log = log @ map (\<lambda>(f, a, h). (f, a)) es" for es log
    by (induction es arbitrary: log) (auto simp: call_all_def)
  have st: "stack Exit ?t ps = stack Exit t ps" by (simp add: stack_def)
  have "env t' = map (\<lambda>(f, a, h). (f, a)) (stack Exit t ps)" "stack Exit t' ps' = []"
    using t'(2,4) by (simp_all add: st log matches_def)
  moreover have "exit_inv (t', nx)"
  proof -
    have "nx \<noteq> NULL" "nx mod 8 = 0" "staticNode (exitList t) = atexit_staticNode"
      "\<forall>p\<in>dom (nodes t). p < nx \<and> p mod 8 = 0"
      using assms by (simp_all add: exit_inv_def s(1))
    moreover have "dom (nodes t') \<subseteq> dom (nodes t)" "staticNode (exitList t') = staticNode (exitList t)"
      using t'(5,6) by simp_all
    ultimately show ?thesis
      unfolding exit_inv_def prod.case
      by (intro conjI exI [of _ ps'] t'(3)) (simp_all add: subset_iff)
  qed
  ultimately show ?thesis using drain s(2) t'(3) by (auto simp: s(1) view_wf)
qed

interpretation exits: exit_list exit_inv exit_view exit_valid "\<lambda>(f, a, h). (f, a)" exit_push exit_drain
  by (unfold_locales; (rule exit_push_law | rule exit_drain_law); assumption)

text \<open>
  C2. Handlers registered with \<open>atexit\<close> and \<open>__cxa_atexit\<close>, however many and across however many nodes,
  are called at exit exactly once, with their arguments, in reverse order of registration; a second
  finalization calls nothing.
\<close>

theorem exit_handlers_lifo:
  assumes "\<forall>e\<in>set es. exit_valid e"
  shows "\<exists>s1 s2 s3. push_all exit_push es (initial_state [], 8192) = Some s1 \<and>
    exit_drain s1 = Some (s2, map (\<lambda>(f, a, h). (f, a)) (rev es)) \<and> exit_drain s2 = Some (s3, [])"
proof (rule exits.calls_in_reverse [OF _ _ assms])
  show "exit_inv (initial_state [], 8192)"
    using initial_wf(1) [of "[] :: call_log"]
    by (auto simp: exit_inv_def initial_state_def atexit_staticNode_def)
  show "exit_view (initial_state [], 8192) = []"
    by (simp add: view_wf [OF initial_wf(1)] stack_def) (simp add: initial_state_def)
qed

theorem exit_handlers_lifo_witness:
  "\<exists>s1 s2 s3. push_all exit_push [(5, None, 0), (6, Some 1, 2 :: addr)] (initial_state [], 8192) = Some s1 \<and>
    exit_drain s1 = Some (s2, map (\<lambda>(f, a, h). (f, a)) (rev [(5, None, 0), (6, Some 1, 2 :: addr)])) \<and>
    exit_drain s2 = Some (s3, [])"
  by (rule exit_handlers_lifo) (simp add: exit_valid_def)

end
