(* ===== verification/Bignum.thy ===== *)
theory Bignum
  imports CMem
begin

section \<open>Arbitrary precision numbers: stdio/bignum.c\<close>

text \<open>
  The numbers \<open>printf\<close> formats floating point values with. \<open>data\<close> points to the four digits inside
  the structure or to a heap block; the block is the argument of \<open>OnHeap\<close>. Allocation is an argument:
  \<open>ok n\<close> says whether a block of \<open>n\<close> digits can be had, \<open>junk\<close> is what the uninitialised part of a
  block contains. A digit outside the array, a shift by the width of a digit and a division by zero
  have no outcome.
\<close>

datatype bn_data = OnStack | OnHeap "u32 list" | Freed

record bignum =
  len :: nat
  bsize :: nat
  data :: bn_data
  stackBuffer :: "u32 list"

definition STACK_BUFFER_SIZE :: nat where "STACK_BUFFER_SIZE = 4"

definition cells :: "bignum \<Rightarrow> u32 list" where
  "cells bn = (case data bn of OnStack \<Rightarrow> stackBuffer bn | OnHeap h \<Rightarrow> h | Freed \<Rightarrow> [])"

definition set_cells :: "u32 list \<Rightarrow> bignum \<Rightarrow> bignum" where
  "set_cells ds bn = (case data bn of
     OnStack \<Rightarrow> bn\<lparr>stackBuffer := ds\<rparr> | OnHeap _ \<Rightarrow> bn\<lparr>data := OnHeap ds\<rparr> | Freed \<Rightarrow> bn)"

text \<open>The digits in use; a loop over \<open>len\<close> digits of a shorter array leaves it.\<close>

definition digits_of :: "bignum \<Rightarrow> u32 list option" where
  "digits_of bn = (if len bn \<le> length (cells bn) then Some (take (len bn) (cells bn)) else None)"

definition set_digits :: "u32 list \<Rightarrow> bignum \<Rightarrow> bignum" where
  "set_digits ds bn = set_cells (ds @ drop (length ds) (cells bn)) bn"

subsection \<open>Operations\<close>

text \<open>
  The result pairs the number with the return value, 0 or \<open>-ENOMEM\<close>. \<open>memcpy\<close> and \<open>realloc\<close> copy the
  leading digits; \<open>realloc\<close> leaves the rest of the block uninitialised, \<open>calloc\<close> zeroes it.
\<close>

definition ENOMEM_ret :: int where "ENOMEM_ret = - 12"

definition bignum_resize :: "(nat \<Rightarrow> bool) \<Rightarrow> u32 \<Rightarrow> bignum \<Rightarrow> nat \<Rightarrow> bignum \<times> int" where
  "bignum_resize ok junk bn newSize =
     (if bsize bn = newSize then (bn, 0)
      else if bsize bn > newSize then
        (case data bn of
           OnStack \<Rightarrow> (bn\<lparr>bsize := newSize, len := min (len bn) newSize\<rparr>, 0)
         | _ \<Rightarrow>
           if newSize \<le> STACK_BUFFER_SIZE then
             let l = min (len bn) newSize in
             (bn\<lparr>len := l, stackBuffer := take l (cells bn) @ drop l (stackBuffer bn),
                data := OnStack, bsize := newSize\<rparr>, 0)
           else if ok newSize then
             (bn\<lparr>data := OnHeap (take newSize (cells bn)), bsize := newSize,
                len := min (len bn) newSize\<rparr>, 0)
           else (bn, ENOMEM_ret))
      else if newSize \<le> STACK_BUFFER_SIZE then (bn\<lparr>bsize := newSize\<rparr>, 0)
      else if ok newSize then
        (case data bn of
           OnStack \<Rightarrow>
             (bn\<lparr>bsize := newSize,
                data := OnHeap (take (bsize bn) (stackBuffer bn) @ replicate (newSize - bsize bn) 0)\<rparr>, 0)
         | _ \<Rightarrow>
             (bn\<lparr>bsize := newSize, data := OnHeap (cells bn @ replicate (newSize - length (cells bn)) junk)\<rparr>, 0))
      else (bn, ENOMEM_ret))"

definition bignum_push :: "(nat \<Rightarrow> bool) \<Rightarrow> u32 \<Rightarrow> bignum \<Rightarrow> u32 \<Rightarrow> (bignum \<times> int) option" where
  "bignum_push ok junk bn v =
     (let (bn, res) = (if len bn \<ge> bsize bn then bignum_resize ok junk bn (2 * bsize bn) else (bn, 0)) in
      if res \<noteq> 0 then Some (bn, res)
      else if len bn < length (cells bn)
      then Some ((set_cells ((cells bn)[len bn := v]) bn)\<lparr>len := len bn + 1\<rparr>, 0)
      else None)"

definition shl32 :: "u32 \<Rightarrow> nat \<Rightarrow> u32 option" where
  "shl32 x n = (if n < 32 then Some (push_bit n x) else None)"

definition shr32 :: "u32 \<Rightarrow> nat \<Rightarrow> u32 option" where
  "shr32 x n = (if n < 32 then Some (drop_bit n x) else None)"

text \<open>The digits from the lowest up, with the carry, and the mask of the bits that leave a digit.\<close>

fun shiftl_loop :: "nat \<Rightarrow> u32 \<Rightarrow> u32 list \<Rightarrow> u32 \<Rightarrow> (u32 list \<times> u32) option" where
  "shiftl_loop shift msk [] carry = Some ([], carry)"
| "shiftl_loop shift msk (temp # ds) carry = do {
     d \<leftarrow> (if shift = 32 then Some 0 else shl32 temp shift);
     carry' \<leftarrow> shr32 (temp AND msk) (32 - shift);
     (ds', c) \<leftarrow> shiftl_loop shift msk ds carry';
     Some ((d OR carry) # ds', c) }"

definition bignum_shiftlInternal :: "(nat \<Rightarrow> bool) \<Rightarrow> u32 \<Rightarrow> bignum \<Rightarrow> nat \<Rightarrow> (bignum \<times> int) option" where
  "bignum_shiftlInternal ok junk bn shift = do {
     let msk = ucast (NOT (push_bit (32 - shift) 1 - 1 :: u64));
     ds \<leftarrow> digits_of bn;
     (ds', carry) \<leftarrow> shiftl_loop shift msk ds 0;
     if carry \<noteq> 0 then bignum_push ok junk (set_digits ds' bn) carry
     else Some (set_digits ds' bn, 0) }"

function bignum_shiftl :: "(nat \<Rightarrow> bool) \<Rightarrow> u32 \<Rightarrow> bignum \<Rightarrow> nat \<Rightarrow> (bignum \<times> int) option" where
  "bignum_shiftl ok junk bn shift =
     (if shift > 32 then do {
        (bn', ret) \<leftarrow> bignum_shiftlInternal ok junk bn 32;
        if ret \<noteq> 0 then Some (bn', ret) else bignum_shiftl ok junk bn' (shift - 32) }
      else bignum_shiftlInternal ok junk bn shift)"
  by pat_completeness auto
termination by (relation "measure (\<lambda>(_, _, _, shift). shift)") auto

declare bignum_shiftl.simps [simp del]

text \<open>\<open>shiftr_loop\<close> takes the digits from the highest down.\<close>

fun shiftr_loop :: "nat \<Rightarrow> u32 \<Rightarrow> u32 list \<Rightarrow> u32 \<Rightarrow> u32 list option" where
  "shiftr_loop shift msk [] carry = Some []"
| "shiftr_loop shift msk (temp # ds) carry = do {
     d \<leftarrow> (if shift = 32 then Some 0 else shr32 temp shift);
     carry' \<leftarrow> shl32 (temp AND msk) (32 - shift);
     ds' \<leftarrow> shiftr_loop shift msk ds carry';
     Some ((d OR carry) # ds') }"

definition bignum_shiftrInternal :: "bignum \<Rightarrow> nat \<Rightarrow> bignum option" where
  "bignum_shiftrInternal bn shift = do {
     msk \<leftarrow> shr32 0xffffffff (32 - shift);
     ds \<leftarrow> digits_of bn;
     ds' \<leftarrow> shiftr_loop shift msk (rev ds) 0;
     Some (set_digits (rev ds') bn) }"

function bignum_shiftr :: "bignum \<Rightarrow> nat \<Rightarrow> bignum option" where
  "bignum_shiftr bn shift =
     (if shift > 32 then do { bn' \<leftarrow> bignum_shiftrInternal bn 32; bignum_shiftr bn' (shift - 32) }
      else if shift \<noteq> 0 then bignum_shiftrInternal bn shift else Some bn)"
  by pat_completeness auto
termination by (relation "measure (\<lambda>(_, shift). shift)") auto

declare bignum_shiftr.simps [simp del]

text \<open>
  Comparison of two digit arrays, the first not shorter. \<open>cmp_down\<close> compares from the highest digit
  of the second down; the scan of the longer part runs on an unsigned index and stops only at the
  length of the second, so a second number without digits has no outcome.
\<close>

fun cmp_down :: "u32 list \<Rightarrow> u32 list \<Rightarrow> int" where
  "cmp_down (a # as) (b # bs) = (if a > b then 1 else if a < b then - 1 else cmp_down as bs)"
| "cmp_down _ _ = 0"

definition cmp_longer :: "u32 list \<Rightarrow> u32 list \<Rightarrow> int option" where
  "cmp_longer x y =
     (if y = [] then None
      else if list_ex (\<lambda>d. d \<noteq> 0) (drop (length y) x) then Some 1
      else Some (cmp_down (rev (take (length y) x)) (rev y)))"

definition bignum_cmpInternal :: "bignum \<Rightarrow> bignum \<Rightarrow> int option" where
  "bignum_cmpInternal first second = do {
     x \<leftarrow> digits_of first;
     y \<leftarrow> digits_of second;
     if len first < len second then do { r \<leftarrow> cmp_longer y x; Some (- r) } else cmp_longer x y }"

definition bignum_cmp :: "bignum \<Rightarrow> u32 \<Rightarrow> int option" where
  "bignum_cmp first v =
     bignum_cmpInternal first \<lparr>len = 1, bsize = 1, data = OnHeap [v], stackBuffer = [0, 0, 0, 0]\<rparr>"

definition bignum_init :: "(nat \<Rightarrow> bool) \<Rightarrow> u32 \<Rightarrow> nat \<Rightarrow> u32 \<Rightarrow> bignum \<times> int" where
  "bignum_init ok junk sz v =
     bignum_resize ok junk \<lparr>len = 1, bsize = 1, data = OnStack, stackBuffer = [v, 0, 0, 0]\<rparr> sz"

definition bignum_destroy :: "bignum \<Rightarrow> bignum" where
  "bignum_destroy bn = bn\<lparr>data := Freed, len := 0, bsize := 0\<rparr>"

definition bignum_zero :: "bignum \<Rightarrow> bignum option" where
  "bignum_zero bn =
     (if bsize bn \<le> length (cells bn)
      then Some ((set_cells (replicate (bsize bn) 0 @ drop (bsize bn) (cells bn)) bn)\<lparr>len := 1\<rparr>)
      else None)"

definition bignum_copy :: "(nat \<Rightarrow> bool) \<Rightarrow> u32 \<Rightarrow> bignum \<Rightarrow> bignum \<Rightarrow> (bignum \<times> int) option" where
  "bignum_copy ok junk target source =
     (let (target, res) = (if bsize target < bsize source then bignum_resize ok junk target (bsize source)
                           else (target, 0)) in
      if res \<noteq> 0 then Some (target, res)
      else if bsize source \<le> length (cells source) \<and> bsize source \<le> length (cells target)
      then Some ((set_digits (take (bsize source) (cells source)) target)\<lparr>len := len source\<rparr>, res)
      else None)"

fun mul_loop :: "u32 list \<Rightarrow> u32 \<Rightarrow> u32 \<Rightarrow> u32 list \<times> u32" where
  "mul_loop [] v carry = ([], carry)"
| "mul_loop (d # ds) v carry =
     (let temp = ucast d * ucast v + ucast carry :: u64;
          (ds', c) = mul_loop ds v (ucast (drop_bit 32 temp))
      in (ucast (temp AND 0xffffffff) # ds', c))"

definition bignum_mul :: "(nat \<Rightarrow> bool) \<Rightarrow> u32 \<Rightarrow> bignum \<Rightarrow> u32 \<Rightarrow> (bignum \<times> int) option" where
  "bignum_mul ok junk first v = do {
     ds \<leftarrow> digits_of first;
     let (ds', carry) = mul_loop ds v 0;
     if carry > 0 then bignum_push ok junk (set_digits ds' first) carry
     else Some (set_digits ds' first, 0) }"

text \<open>\<open>div_loop\<close> takes the digits from the highest down and returns the quotient and the remainder.\<close>

fun div_loop :: "u32 list \<Rightarrow> u64 \<Rightarrow> u32 \<Rightarrow> u32 list \<times> u64" where
  "div_loop [] temp divisor = ([], temp)"
| "div_loop (d # ds) temp divisor =
     (let t = push_bit 32 temp OR ucast d;
          (ds', r) = div_loop ds (t mod ucast divisor) divisor
      in (ucast (t div ucast divisor) # ds', r))"

definition bignum_div :: "bignum \<Rightarrow> u32 \<Rightarrow> (bignum \<times> u32) option" where
  "bignum_div dividend divisor = do {
     ds \<leftarrow> digits_of dividend;
     if divisor = 0 \<and> ds \<noteq> [] then None
     else let (ds', temp) = div_loop (rev ds) 0 divisor
          in Some (set_digits (rev ds') dividend, ucast temp) }"

subsection \<open>The number the digits stand for\<close>

primrec bval :: "u32 list \<Rightarrow> nat" where
  "bval [] = 0"
| "bval (d # ds) = unat d + 2 ^ 32 * bval ds"

definition bn_val :: "bignum \<Rightarrow> nat" where
  "bn_val bn = bval (take (len bn) (cells bn))"

text \<open>
  The invariant: the array has room for \<open>size\<close> digits, \<open>len\<close> of them in use and at least one; a number
  on the heap is larger than the buffer.
\<close>

definition bn_inv :: "bignum \<Rightarrow> bool" where
  "bn_inv bn \<longleftrightarrow> 1 \<le> len bn \<and> len bn \<le> bsize bn \<and> length (stackBuffer bn) = STACK_BUFFER_SIZE \<and>
     (case data bn of
        OnStack \<Rightarrow> bsize bn \<le> STACK_BUFFER_SIZE
      | OnHeap h \<Rightarrow> length h = bsize bn \<and> STACK_BUFFER_SIZE < bsize bn
      | Freed \<Rightarrow> False)"

lemma inv_room: "bn_inv bn \<Longrightarrow> len bn \<le> bsize bn \<and> bsize bn \<le> length (cells bn)"
  by (auto simp: bn_inv_def cells_def split: bn_data.splits)

lemma inv_digits: "bn_inv bn \<Longrightarrow> digits_of bn = Some (take (len bn) (cells bn))"
  using inv_room [of bn] by (simp add: digits_of_def)

lemma cells_set_cells [simp]: "data bn \<noteq> Freed \<Longrightarrow> cells (set_cells ds bn) = ds"
  by (cases "data bn") (simp_all add: cells_def set_cells_def)

lemma set_cells_len [simp]: "len (set_cells ds bn) = len bn" "bsize (set_cells ds bn) = bsize bn"
  by (cases "data bn"; simp add: set_cells_def)+

lemma inv_set_cells: "bn_inv bn \<Longrightarrow> length ds = length (cells bn) \<Longrightarrow> bn_inv (set_cells ds bn)"
  by (auto simp: bn_inv_def cells_def set_cells_def split: bn_data.splits)

lemma inv_not_freed: "bn_inv bn \<Longrightarrow> data bn \<noteq> Freed"
  by (auto simp: bn_inv_def)

lemma set_digits_spec:
  assumes "bn_inv bn" and "length ds = len bn"
  shows "bn_inv (set_digits ds bn)" and "bn_val (set_digits ds bn) = bval ds"
    and "len (set_digits ds bn) = len bn" and "bsize (set_digits ds bn) = bsize bn"
  using assms inv_room [OF assms(1)] inv_not_freed [OF assms(1)]
  by (auto simp: set_digits_def bn_val_def intro!: inv_set_cells)

lemma bval_append: "bval (xs @ ys) = bval xs + 2 ^ (32 * length xs) * bval ys"
  by (induction xs) (simp_all add: algebra_simps power_add)

lemma bval_less: "bval ds < 2 ^ (32 * length ds)"
proof (induction ds)
  case (Cons d ds)
  have "unat d < 2 ^ 32" using unsigned_less [of d, where ?'a = nat] by simp
  moreover have "Suc (bval ds) * 2 ^ 32 \<le> 2 ^ (32 * length ds) * 2 ^ 32"
    using Cons by (intro mult_le_mono1) simp
  ultimately show ?case by (simp add: power_add algebra_simps)
qed simp

lemma resize_grow:
  assumes "bn_inv bn" and "bsize bn < n"
  shows "(let (bn', r) = bignum_resize ok junk bn n in
    r = 0 \<and> bn_inv bn' \<and> bsize bn' = n \<and> len bn' = len bn \<and> bn_val bn' = bn_val bn \<or>
    r = ENOMEM_ret \<and> bn' = bn \<and> \<not> ok n)"
proof -
  have *: "len bn \<le> bsize bn" "bsize bn \<le> length (cells bn)" using inv_room [OF assms(1)] by auto
  show ?thesis
  proof (cases "data bn")
    case OnStack
    with assms * show ?thesis
      by (auto simp: bignum_resize_def bn_inv_def bn_val_def cells_def STACK_BUFFER_SIZE_def
          ENOMEM_ret_def min_def)
  next
    case (OnHeap h)
    with assms * show ?thesis
      by (auto simp: bignum_resize_def bn_inv_def bn_val_def cells_def STACK_BUFFER_SIZE_def
          ENOMEM_ret_def min_def)
  next
    case Freed
    with assms show ?thesis by (simp add: bn_inv_def)
  qed
qed

text \<open>\<open>__bignum_push\<close> appends the most significant digit, or fails and leaves the number as it was.\<close>

lemma push_spec:
  assumes "bn_inv bn"
  shows "\<exists>bn' r. bignum_push ok junk bn v = Some (bn', r) \<and> bn_inv bn' \<and>
    (r = 0 \<and> bn_val bn' = bn_val bn + 2 ^ (32 * len bn) * unat v \<and> len bn' = Suc (len bn) \<or>
     r = ENOMEM_ret \<and> bn' = bn \<and> \<not> ok (2 * bsize bn))"
proof -
  have room: "\<exists>bn' r. bignum_push ok junk bn v = Some (bn', r) \<and> bn_inv bn' \<and>
     r = 0 \<and> bn_val bn' = bn_val bn + 2 ^ (32 * len bn) * unat v \<and> len bn' = Suc (len bn)"
    if lt: "len bn < bsize bn" and inv: "bn_inv bn" for bn
  proof -
    have l: "len bn < length (cells bn)" using inv_room [OF inv] lt by simp
    let ?c = "(cells bn)[len bn := v]"
    let ?b = "(set_cells ?c bn)\<lparr>len := len bn + 1\<rparr>"
    have c: "cells ?b = ?c" using inv_not_freed [OF inv] by (simp add: cells_def set_cells_def split: bn_data.splits)
    have "take (Suc (len bn)) ?c = take (len bn) (cells bn) @ [v]"
      using l by (simp add: take_Suc_conv_app_nth)
    then have "bn_val ?b = bn_val bn + 2 ^ (32 * len bn) * unat v"
      using l c by (simp add: bn_val_def bval_append min_def)
    moreover have "bn_inv ?b"
      using inv_set_cells [OF inv, of ?c] lt by (simp add: bn_inv_def cong: bn_data.case_cong)
    moreover have "bignum_push ok junk bn v = Some (?b, 0)"
      using lt l by (simp add: bignum_push_def)
    ultimately show ?thesis by simp
  qed
  show ?thesis
  proof (cases "len bn < bsize bn")
    case True
    with room [OF True assms] show ?thesis by blast
  next
    case False
    obtain bn1 r1 where r: "bignum_resize ok junk bn (2 * bsize bn) = (bn1, r1)" by (cases "bignum_resize ok junk bn (2 * bsize bn)")
    have gt: "bsize bn < 2 * bsize bn" using assms by (auto simp: bn_inv_def)
    from resize_grow [OF assms gt, of ok junk] r
    consider "r1 = 0" "bn_inv bn1" "bsize bn1 = 2 * bsize bn" "len bn1 = len bn" "bn_val bn1 = bn_val bn"
      | "r1 = ENOMEM_ret" "bn1 = bn" "\<not> ok (2 * bsize bn)"
      by auto
    then show ?thesis
    proof cases
      case 1
      have lt: "len bn1 < bsize bn1" using 1 gt assms by (auto simp: bn_inv_def)
      have "bignum_push ok junk bn v = bignum_push ok junk bn1 v"
        using r False lt 1(1) by (simp add: bignum_push_def)
      with room [OF lt 1(2)] 1 show ?thesis by auto
    next
      case 2
      with r False assms show ?thesis by (simp add: bignum_push_def ENOMEM_ret_def)
    qed
  qed
qed

subsection \<open>Arithmetic\<close>

text \<open>
  The end of every operation that may carry out of the top digit: store the digits, push the carry.
\<close>

lemma finish_spec:
  assumes "bn_inv bn" and "length ds = len bn" and "bval ds + 2 ^ (32 * len bn) * unat carry = v"
  shows "\<exists>bn' r. (if carry \<noteq> 0 then bignum_push ok junk (set_digits ds bn) carry
      else Some (set_digits ds bn, 0)) = Some (bn', r) \<and> bn_inv bn' \<and>
    (r = 0 \<and> bn_val bn' = v \<or> r = ENOMEM_ret \<and> \<not> ok (2 * bsize bn))"
proof (cases "carry = 0")
  case True
  with assms set_digits_spec [OF assms(1,2)] show ?thesis by auto
next
  case False
  with push_spec [OF set_digits_spec(1) [OF assms(1,2)], of ok junk carry]
    set_digits_spec [OF assms(1,2)] assms(3)
  show ?thesis by auto
qed

lemma mul_loop_spec:
  "mul_loop ds v carry = (ds', c) \<Longrightarrow>
   length ds' = length ds \<and> bval ds' + 2 ^ (32 * length ds) * unat c = bval ds * unat v + unat carry"
proof (induction ds arbitrary: carry ds' c)
  case (Cons d ds)
  define temp :: u64 where "temp = ucast d * ucast v + ucast carry"
  obtain ds1 where ds1: "mul_loop ds v (ucast (drop_bit 32 temp)) = (ds1, c)"
    "ds' = ucast (temp AND 0xffffffff) # ds1"
    using Cons.prems by (auto simp: temp_def Let_def split: prod.splits)
  have b: "unat d < 2 ^ 32" "unat v < 2 ^ 32" "unat carry < 2 ^ 32"
    using unsigned_less [of d, where ?'a = nat] unsigned_less [of v, where ?'a = nat]
      unsigned_less [of carry, where ?'a = nat] by simp_all
  have "unat d * unat v \<le> (2 ^ 32 - 1) * (2 ^ 32 - 1)" using b by (intro mult_le_mono) simp_all
  then have t: "unat temp = unat d * unat v + unat carry"
    using b unfolding temp_def by (simp add: unat_word_ariths unat_ucast_up)
  have lo: "unat (ucast (temp AND 0xffffffff) :: u32) = unat temp mod 2 ^ 32"
  proof -
    have "temp AND 0xffffffff = take_bit 32 temp"
      by (simp add: take_bit_eq_mask mask_eq_exp_minus_1)
    then show ?thesis by (simp add: unat_ucast_mod unat_take_bit)
  qed
  have hi: "unat (ucast (drop_bit 32 temp) :: u32) = unat temp div 2 ^ 32"
    using unsigned_less [of temp, where ?'a = nat] by (simp add: unat_ucast_mod unat_drop_bit)
  define l h where "l = unat temp mod 2 ^ 32" and "h = unat temp div 2 ^ 32"
  have lh: "unat d * unat v + unat carry = l + 2 ^ 32 * h" by (simp add: l_def h_def flip: t)
  have "length ds1 = length ds" "bval ds1 + 2 ^ (32 * length ds) * unat c = bval ds * unat v + h"
    using Cons.IH [OF ds1(1)] hi by (simp_all add: h_def)
  moreover from this(2) have "2 ^ 32 * (bval ds1 + 2 ^ (32 * length ds) * unat c) =
      2 ^ 32 * (bval ds * unat v + h)" by simp
  ultimately show ?case
    using ds1(2) lo [folded l_def] lh by (simp add: algebra_simps power_add)
qed simp

lemma div_loop_spec:
  assumes "divisor \<noteq> 0"
  shows "div_loop hs temp divisor = (qs, r) \<Longrightarrow> unat temp < unat divisor \<Longrightarrow>
   length qs = length hs \<and> unat r < unat divisor \<and>
   unat temp * 2 ^ (32 * length hs) + bval (rev hs) = bval (rev qs) * unat divisor + unat r"
proof (induction hs arbitrary: temp qs)
  case (Cons d hs)
  define t :: u64 where "t = push_bit 32 temp OR ucast d"
  obtain qs1 where qs1: "div_loop hs (t mod ucast divisor) divisor = (qs1, r)"
    "qs = ucast (t div ucast divisor) # qs1"
    using Cons.prems by (auto simp: t_def Let_def split: prod.splits)
  have b: "unat d < 2 ^ 32" "unat divisor < 2 ^ 32"
    using unsigned_less [of d, where ?'a = nat] unsigned_less [of divisor, where ?'a = nat] by simp_all
  have ud: "unat (ucast d :: u64) = unat d" "unat (ucast divisor :: u64) = unat divisor"
    by (simp_all add: unat_ucast_up)
  have "unat t = unat temp * 2 ^ 32 mod 2 ^ 64 + unat d"
    unfolding t_def using unat_shift_or [of "ucast d :: u64" 32 temp] b ud by simp
  then have t: "unat t = unat temp * 2 ^ 32 + unat d"
    using Cons.prems(2) b by simp
  have "unat temp * 2 ^ 32 + unat d < unat divisor * 2 ^ 32"
  proof -
    have "Suc (unat temp) * 2 ^ 32 \<le> unat divisor * 2 ^ 32" using Cons.prems(2) by (intro mult_le_mono1) simp
    then show ?thesis using b by simp
  qed
  then have "unat t div unat divisor < 2 ^ 32" unfolding t
    by (simp add: div_less_iff_less_mult less_mult_imp_div_less mult.commute)
  then have q: "unat (ucast (t div ucast divisor) :: u32) = unat t div unat divisor"
    by (subst unat_ucast_mod) (simp add: unat_div ud)
  have pos: "0 < unat divisor" using assms by (simp add: unat_gt_0)
  have m: "unat (t mod ucast divisor) = unat t mod unat divisor" by (simp add: unat_mod ud)
  with pos have IH: "length qs1 = length hs" "unat r < unat divisor"
    "(unat t mod unat divisor) * 2 ^ (32 * length hs) + bval (rev hs) = bval (rev qs1) * unat divisor + unat r"
    using Cons.IH [OF qs1(1)] by simp_all
  define Q R P where "Q = unat t div unat divisor" and "R = unat t mod unat divisor"
    and "P = (2::nat) ^ (32 * length hs)"
  have "unat t = Q * unat divisor + R" by (simp add: Q_def R_def)
  then have tQR: "unat temp * 2 ^ 32 + unat d = Q * unat divisor + R" using t by simp
  have "unat temp * (2 ^ 32 * P) + (bval (rev hs) + P * unat d) =
      (unat temp * 2 ^ 32 + unat d) * P + bval (rev hs)" by (simp add: algebra_simps)
  also have "\<dots> = Q * unat divisor * P + (R * P + bval (rev hs))" unfolding tQR by (simp add: algebra_simps)
  also have "\<dots> = Q * unat divisor * P + (bval (rev qs1) * unat divisor + unat r)"
    using IH(3) by (simp add: R_def P_def)
  finally show ?case
    using IH(1,2) q qs1(2) by (simp add: bval_append P_def Q_def power_add algebra_simps)
qed simp

lemma leaving_bits:
  assumes "j < 32" and "msk = ucast (NOT (push_bit j 1 - 1 :: u64))"
  shows "drop_bit j (x AND msk) = drop_bit j (x :: u32)"
proof -
  have "msk = ucast (NOT (mask j :: u64))" using assms(2) by (simp add: mask_eq_exp_minus_1)
  then show ?thesis by (intro bit_eqI) (auto simp: bit_simps dest: bit_imp_le_length)
qed

lemma shiftl_loop_spec:
  assumes "1 \<le> k" and "k \<le> 32" and m: "msk = ucast (NOT (push_bit (32 - k) 1 - 1 :: u64))"
  shows "unat carry < 2 ^ k \<Longrightarrow> \<exists>ds' c. shiftl_loop k msk ds carry = Some (ds', c) \<and> length ds' = length ds \<and>
     bval ds' + 2 ^ (32 * length ds) * unat c = bval ds * 2 ^ k + unat carry"
proof (induction ds arbitrary: carry)
  case (Cons temp ds)
  define d where "d = (if k = 32 then 0 else push_bit k temp)"
  define c1 where "c1 = drop_bit (32 - k) (temp AND msk)"
  have bt: "unat temp < 2 ^ 32" using unsigned_less [of temp, where ?'a = nat] by simp
  have "c1 = drop_bit (32 - k) temp" unfolding c1_def using assms by (intro leaving_bits) auto
  then have c1: "unat c1 = unat temp div 2 ^ (32 - k)" by (simp only: unat_drop_bit)
  have p: "(2::nat) ^ 32 = 2 ^ (32 - k) * 2 ^ k" using assms(2) by (simp flip: power_add)
  have "unat temp < 2 ^ (32 - k) * 2 ^ k" using bt p by simp
  then have lt: "unat c1 < 2 ^ k" unfolding c1 by (simp add: less_mult_imp_div_less mult.commute)
  obtain ds1 c where IH: "shiftl_loop k msk ds c1 = Some (ds1, c)" "length ds1 = length ds"
    "bval ds1 + 2 ^ (32 * length ds) * unat c = bval ds * 2 ^ k + unat c1"
    using Cons.IH [OF lt] by blast
  have dig: "unat (d OR carry) = unat temp * 2 ^ k mod 2 ^ 32 + unat carry"
  proof (cases "k = 32")
    case False
    with unat_shift_or [of carry k temp] Cons.prems assms(2) show ?thesis by (simp only: d_def if_False) simp
  qed (simp add: d_def)
  have step: "shiftl_loop k msk (temp # ds) carry = Some ((d OR carry) # ds1, c)"
    using IH(1) assms(1,2) by (auto simp: d_def c1_def shl32_def shr32_def)
  define l h where "l = unat temp * 2 ^ k mod 2 ^ 32" and "h = unat temp div 2 ^ (32 - k)"
  have "unat temp * 2 ^ k div 2 ^ 32 = h" unfolding p h_def by (rule div_mult_mult2) simp
  then have "unat temp * 2 ^ k = l + 2 ^ 32 * h" by (simp add: l_def flip: \<open>_ = h\<close>)
  moreover have "2 ^ 32 * (bval ds1 + 2 ^ (32 * length ds) * unat c) = 2 ^ 32 * (bval ds * 2 ^ k + h)"
    using IH(3) c1 by (simp add: h_def)
  ultimately show ?case
    using step IH(2) dig [folded l_def] by (simp add: algebra_simps power_add)
qed simp

lemma shiftr_loop_spec:
  assumes "1 \<le> k" and "k \<le> 32" and m: "shr32 0xffffffff (32 - k) = Some msk"
  shows "unat carry = (c mod 2 ^ k) * 2 ^ (32 - k) \<Longrightarrow> \<exists>hs'. shiftr_loop k msk hs carry = Some hs' \<and> length hs' = length hs \<and>
     bval (rev hs') = (bval (rev hs) + 2 ^ (32 * length hs) * (c mod 2 ^ k)) div 2 ^ k"
proof (induction hs arbitrary: carry c)
  case Nil
  then show ?case by simp
next
  case (Cons temp hs)
  define d where "d = (if k = 32 then 0 else drop_bit k temp)"
  define c1 where "c1 = push_bit (32 - k) (temp AND msk)"
  have bt: "unat temp < 2 ^ 32" using unsigned_less [of temp, where ?'a = nat] by simp
  have p: "(2::nat) ^ 32 = 2 ^ (32 - k) * 2 ^ k" using assms(2) by (simp flip: power_add)
  have "msk = drop_bit (32 - k) (mask 32)" using m assms by (simp add: shr32_def mask_eq_exp_minus_1 split: if_splits)
  then have "temp AND msk = take_bit k temp"
    using assms by (intro bit_eqI) (auto simp: bit_simps)
  then have "unat (temp AND msk) = unat temp mod 2 ^ k" by (simp only: unat_take_bit)
  moreover have "unat temp mod 2 ^ k * 2 ^ (32 - k) < 2 ^ 32"
    unfolding p by (simp add: mult.commute)
  ultimately have c1: "unat c1 = unat temp mod 2 ^ k * 2 ^ (32 - k)"
    unfolding c1_def unat_push_bit by simp
  obtain hs1 where IH: "shiftr_loop k msk hs c1 = Some hs1" "length hs1 = length hs"
    "bval (rev hs1) = (bval (rev hs) + 2 ^ (32 * length hs) * (unat temp mod 2 ^ k)) div 2 ^ k"
    using Cons.IH [OF c1] by blast
  have ud: "unat d = unat temp div 2 ^ k" using bt by (simp add: d_def unat_drop_bit)
  have dig: "unat (d OR carry) = unat temp div 2 ^ k + (c mod 2 ^ k) * 2 ^ (32 - k)"
  proof -
    define x :: u32 where "x = of_nat (c mod 2 ^ k)"
    have ck: "c mod 2 ^ k < 2 ^ k" by simp
    also have "(2::nat) ^ k \<le> 2 ^ 32" using assms(2) by (intro power_increasing) simp_all
    finally have x: "unat x = c mod 2 ^ k" unfolding x_def by (intro unat_of_nat_small) simp
    have "c mod 2 ^ k * 2 ^ (32 - k) < 2 ^ k * 2 ^ (32 - k)" by simp
    then have lt: "c mod 2 ^ k * 2 ^ (32 - k) < 2 ^ 32" unfolding p by (simp add: mult.commute)
    then have "carry = push_bit (32 - k) x"
      unfolding word_unat_eq_iff unat_push_bit x Cons.prems by simp
    moreover have "unat d < 2 ^ (32 - k)"
      unfolding ud using bt p by (intro less_mult_imp_div_less) simp
    ultimately show ?thesis
      using unat_shift_or [of d "32 - k" x] lt ud x by (simp add: or.commute)
  qed
  have step: "shiftr_loop k msk (temp # hs) carry = Some ((d OR carry) # hs1)"
    using IH(1) assms(1,2) by (auto simp: d_def c1_def shl32_def shr32_def)
  define Q R P C where "Q = unat temp div 2 ^ k" and "R = unat temp mod 2 ^ k"
    and "P = (2::nat) ^ (32 * length hs)" and "C = c mod 2 ^ k"
  have t: "unat temp = 2 ^ k * Q + R" by (simp add: Q_def R_def)
  have "(bval (rev hs) + P * unat temp + P * 2 ^ 32 * C) div 2 ^ k =
      ((bval (rev hs) + P * R) + 2 ^ k * (P * (Q + C * 2 ^ (32 - k)))) div 2 ^ k"
    unfolding t p by (simp add: algebra_simps)
  also have "\<dots> = (bval (rev hs) + P * R) div 2 ^ k + P * (Q + C * 2 ^ (32 - k))"
    by (subst div_mult_self2) simp_all
  finally show ?case
    using step IH(2,3) dig by (simp add: bval_append Q_def R_def P_def C_def power_add algebra_simps)
qed

text \<open>
  C39. Multiplication by a digit and long division are exact: the digits stand for the product, or the
  call fails with \<open>-ENOMEM\<close> because the extra digit could not be allocated; division returns quotient
  and remainder. Both keep the invariant.
\<close>

theorem bignum_mul_div:
  assumes "bn_inv bn"
  shows "(\<exists>bn' r. bignum_mul ok junk bn v = Some (bn', r) \<and> bn_inv bn' \<and>
      (r = 0 \<and> bn_val bn' = bn_val bn * unat v \<or> r = ENOMEM_ret \<and> \<not> ok (2 * bsize bn))) \<and>
    (v \<noteq> 0 \<longrightarrow> (\<exists>bn' r. bignum_div bn v = Some (bn', r) \<and> bn_inv bn' \<and>
      bn_val bn' = bn_val bn div unat v \<and> unat r = bn_val bn mod unat v))"
proof
  let ?ds = "take (len bn) (cells bn)"
  have l: "length ?ds = len bn" using inv_room [OF assms] by simp
  obtain ds' c where loop: "mul_loop ?ds v 0 = (ds', c)" by (cases "mul_loop ?ds v 0")
  then have "length ds' = len bn" "bval ds' + 2 ^ (32 * len bn) * unat c = bn_val bn * unat v"
    using mul_loop_spec [OF loop] l by (simp_all add: bn_val_def)
  from finish_spec [OF assms this, of ok junk]
  show "\<exists>bn' r. bignum_mul ok junk bn v = Some (bn', r) \<and> bn_inv bn' \<and>
      (r = 0 \<and> bn_val bn' = bn_val bn * unat v \<or> r = ENOMEM_ret \<and> \<not> ok (2 * bsize bn))"
    by (simp add: bignum_mul_def inv_digits [OF assms] loop word_neq_0_conv)
  show "v \<noteq> 0 \<longrightarrow> (\<exists>bn' r. bignum_div bn v = Some (bn', r) \<and> bn_inv bn' \<and>
      bn_val bn' = bn_val bn div unat v \<and> unat r = bn_val bn mod unat v)"
  proof
    assume v: "v \<noteq> 0"
    then have pos: "0 < unat v" by (simp add: unat_gt_0)
    obtain qs t where loop: "div_loop (rev ?ds) 0 v = (qs, t)" by (cases "div_loop (rev ?ds) 0 v")
    from div_loop_spec [OF v loop] pos l
    have qs: "length qs = len bn" "unat t < unat v" "bn_val bn = bval (rev qs) * unat v + unat t"
      by (simp_all add: bn_val_def)
    have "unat v < 2 ^ 32" using unsigned_less [of v, where ?'a = nat] by simp
    with qs(2) have "unat (ucast t :: u32) = unat t" by (simp add: unat_ucast_mod)
    with qs v show "\<exists>bn' r. bignum_div bn v = Some (bn', r) \<and> bn_inv bn' \<and>
        bn_val bn' = bn_val bn div unat v \<and> unat r = bn_val bn mod unat v"
      using set_digits_spec [OF assms, of "rev qs"]
      by (simp add: bignum_div_def inv_digits [OF assms] loop)
  qed
qed

lemma shiftlInternal_spec:
  assumes "bn_inv bn" and "1 \<le> k" and "k \<le> 32"
  shows "\<exists>bn' r. bignum_shiftlInternal ok junk bn k = Some (bn', r) \<and> bn_inv bn' \<and>
    (r = 0 \<and> bn_val bn' = bn_val bn * 2 ^ k \<or> r = ENOMEM_ret \<and> \<not> ok (2 * bsize bn))"
proof -
  let ?ds = "take (len bn) (cells bn)"
  have l: "length ?ds = len bn" using inv_room [OF assms(1)] by simp
  obtain ds' c where loop: "shiftl_loop k (ucast (NOT (push_bit (32 - k) 1 - 1 :: u64))) ?ds 0 = Some (ds', c)"
    "length ds' = len bn" "bval ds' + 2 ^ (32 * len bn) * unat c = bn_val bn * 2 ^ k"
    using shiftl_loop_spec [OF assms(2,3) refl, of 0 ?ds] l by (auto simp: bn_val_def)
  from finish_spec [OF assms(1) loop(2,3), of ok junk] loop(1)
  show ?thesis unfolding bignum_shiftlInternal_def inv_digits [OF assms(1)] Let_def by simp
qed

lemma shiftrInternal_spec:
  assumes "bn_inv bn" and "1 \<le> k" and "k \<le> 32"
  shows "\<exists>bn'. bignum_shiftrInternal bn k = Some bn' \<and> bn_inv bn' \<and> bn_val bn' = bn_val bn div 2 ^ k"
proof -
  let ?ds = "take (len bn) (cells bn)"
  have l: "length ?ds = len bn" using inv_room [OF assms(1)] by simp
  obtain msk where m: "shr32 0xffffffff (32 - k) = Some msk" using assms(2) by (simp add: shr32_def)
  obtain hs where hs: "shiftr_loop k msk (rev ?ds) 0 = Some hs" "length hs = len bn"
    "bval (rev hs) = bn_val bn div 2 ^ k"
    using shiftr_loop_spec [OF assms(2,3) m, of 0 0 "rev ?ds"] l by (auto simp: bn_val_def)
  with m set_digits_spec [OF assms(1), of "rev hs"] show ?thesis
    by (simp add: bignum_shiftrInternal_def inv_digits [OF assms(1)])
qed

lemma bignum_shiftl_spec:
  "bn_inv bn \<Longrightarrow> 1 \<le> k \<Longrightarrow> \<exists>bn' r. bignum_shiftl ok junk bn k = Some (bn', r) \<and> bn_inv bn' \<and>
    (r = 0 \<and> bn_val bn' = bn_val bn * 2 ^ k \<or> r = ENOMEM_ret)"
proof (induction k arbitrary: bn rule: less_induct)
  case (less k)
  have pow: "(2::nat) ^ 32 * 2 ^ (k - 32) = 2 ^ k" if "k > 32"
    using that by (metis le_add_diff_inverse less_imp_le power_add)
  show ?case
  proof (cases "k > 32")
    case False
    then show ?thesis using shiftlInternal_spec [OF less.prems(1), of k ok junk] less.prems
      by (subst bignum_shiftl.simps) auto
  next
    case True
    obtain bn1 r1 where 1: "bignum_shiftlInternal ok junk bn 32 = Some (bn1, r1)" "bn_inv bn1"
      "r1 = 0 \<and> bn_val bn1 = bn_val bn * 2 ^ 32 \<or> r1 = ENOMEM_ret"
      using shiftlInternal_spec [OF less.prems(1), of 32 ok junk] by auto
    show ?thesis
    proof (cases "r1 = 0")
      case False
      with 1 True show ?thesis by (subst bignum_shiftl.simps) auto
    next
      case r: True
      with 1 have v: "bn_val bn1 = bn_val bn * 2 ^ 32" by (auto simp: ENOMEM_ret_def)
      have v': "bn_val bn1 * 2 ^ (k - 32) = bn_val bn * 2 ^ k"
        unfolding v by (simp only: mult.assoc pow [OF True])
      have less_k: "k - 32 < k" and one_k: "1 \<le> k - 32" using True by simp_all
      obtain bn2 r2 where "bignum_shiftl ok junk bn1 (k - 32) = Some (bn2, r2)" "bn_inv bn2"
        "r2 = 0 \<and> bn_val bn2 = bn_val bn1 * 2 ^ (k - 32) \<or> r2 = ENOMEM_ret"
        using less.IH [OF less_k 1(2) one_k] by blast
      with 1(1) r True v' show ?thesis
        by (subst bignum_shiftl.simps) simp
    qed
  qed
qed

lemma bignum_shiftr_spec:
  "bn_inv bn \<Longrightarrow> \<exists>bn'. bignum_shiftr bn k = Some bn' \<and> bn_inv bn' \<and> bn_val bn' = bn_val bn div 2 ^ k"
proof (induction k arbitrary: bn rule: less_induct)
  case (less k)
  have pow: "(2::nat) ^ 32 * 2 ^ (k - 32) = 2 ^ k" if "k > 32"
    using that by (metis le_add_diff_inverse less_imp_le power_add)
  show ?case
  proof (cases "k > 32")
    case False
    then show ?thesis using shiftrInternal_spec [OF less.prems, of k] less.prems
      by (subst bignum_shiftr.simps) (cases "k = 0"; auto)
  next
    case True
    obtain bn1 where 1: "bignum_shiftrInternal bn 32 = Some bn1" "bn_inv bn1" "bn_val bn1 = bn_val bn div 2 ^ 32"
      using shiftrInternal_spec [OF less.prems, of 32] by auto
    have "bn_val bn div 2 ^ 32 div 2 ^ (k - 32) = bn_val bn div 2 ^ k"
      by (simp only: div_mult2_eq [symmetric] pow [OF True])
    with less.IH [of "k - 32" bn1] 1 True show ?thesis by (subst bignum_shiftr.simps) auto
  qed
qed

text \<open>
  C40. The shifts multiply and divide by the power of two, for every shift distance and across digit
  boundaries; a left shift can only fail with \<open>-ENOMEM\<close>. A left shift by 0 is the exception: the code
  then shifts a 32-bit word by 32, which C leaves undefined.
\<close>

theorem bignum_shifts:
  assumes "bn_inv bn"
  shows "(1 \<le> k \<longrightarrow> (\<exists>bn' r. bignum_shiftl ok junk bn k = Some (bn', r) \<and> bn_inv bn' \<and>
      (r = 0 \<and> bn_val bn' = bn_val bn * 2 ^ k \<or> r = ENOMEM_ret))) \<and>
    (\<exists>bn'. bignum_shiftr bn k = Some bn' \<and> bn_inv bn' \<and> bn_val bn' = bn_val bn div 2 ^ k) \<and>
    bignum_shiftl ok junk bn 0 = None"
proof (intro conjI impI)
  have "take (len bn) (cells bn) \<noteq> []"
    using inv_room [OF assms] assms by (auto simp: bn_inv_def)
  then obtain d ds where "take (len bn) (cells bn) = d # ds" by (cases "take (len bn) (cells bn)") auto
  then show "bignum_shiftl ok junk bn 0 = None"
    by (subst bignum_shiftl.simps)
      (simp add: bignum_shiftlInternal_def inv_digits [OF assms] shl32_def shr32_def Let_def)
qed (use assms bignum_shiftl_spec bignum_shiftr_spec in blast)+

definition cmp_nat :: "nat \<Rightarrow> nat \<Rightarrow> int" where
  "cmp_nat a b = (if a < b then - 1 else if b < a then 1 else 0)"

lemma cmp_nat_minus [simp]: "- cmp_nat a b = cmp_nat b a"
  by (simp add: cmp_nat_def)

lemma cmp_down_spec:
  "length hs = length ks \<Longrightarrow> cmp_down hs ks = cmp_nat (bval (rev hs)) (bval (rev ks))"
proof (induction hs ks rule: list_induct2)
  case (Cons a hs b ks)
  define P where "P = (2::nat) ^ (32 * length ks)"
  have b: "bval (rev hs) < P" "bval (rev ks) < P"
    using bval_less [of "rev hs"] bval_less [of "rev ks"] Cons.hyps by (simp_all add: P_def)
  have lt: "bval (rev us) + P * unat x < bval (rev vs) + P * unat y"
    if "unat x < unat y" "bval (rev us) < P" for x y :: u32 and us vs
  proof -
    have "P * Suc (unat x) \<le> P * unat y" using that(1) by (intro mult_le_mono2) simp
    with that(2) show ?thesis by simp
  qed
  consider "a < b" | "b < a" | "a = b" by fastforce
  then show ?case
  proof cases
    case 1
    with lt [of a b hs ks] b Cons.hyps show ?thesis
      by (simp add: bval_append cmp_nat_def P_def word_less_nat_alt)
  next
    case 2
    with lt [of b a ks hs] b Cons.hyps show ?thesis
      by (simp add: bval_append cmp_nat_def P_def word_less_nat_alt)
  next
    case 3
    with Cons show ?thesis by (simp add: bval_append cmp_nat_def)
  qed
qed (simp add: cmp_nat_def)

lemma bval_zero: "bval ds = 0 \<longleftrightarrow> \<not> list_ex (\<lambda>d. d \<noteq> 0) ds"
  by (induction ds) (auto simp: unat_eq_0)

lemma cmp_longer_spec:
  assumes "y \<noteq> []" and "length y \<le> length x"
  shows "cmp_longer x y = Some (cmp_nat (bval x) (bval y))"
proof -
  let ?n = "length y"
  define P where "P = (2::nat) ^ (32 * ?n)"
  have split: "bval x = bval (take ?n x) + P * bval (drop ?n x)"
    using bval_append [of "take ?n x" "drop ?n x"] assms(2) by (simp add: P_def min_def)
  have y: "bval y < P" using bval_less [of y] by (simp add: P_def)
  show ?thesis
  proof (cases "list_ex (\<lambda>d. d \<noteq> 0) (drop ?n x)")
    case True
    then have "1 \<le> bval (drop ?n x)" using bval_zero [of "drop ?n x"] by simp
    then have "P * 1 \<le> P * bval (drop ?n x)" by (rule mult_le_mono2)
    then have "bval y < bval x" using y split by linarith
    with True assms(1) show ?thesis by (simp add: cmp_longer_def cmp_nat_def)
  next
    case False
    then have "bval x = bval (take ?n x)" using bval_zero [of "drop ?n x"] split by simp
    with False assms cmp_down_spec [of "rev (take ?n x)" "rev y"] show ?thesis
      by (simp add: cmp_longer_def min_def)
  qed
qed

text \<open>
  \<open>__bignum_cmp\<close> and the comparison it calls order the numbers the digits stand for, leading zero
  digits notwithstanding.
\<close>

theorem bignum_compares:
  assumes "bn_inv x" and "bn_inv y"
  shows "bignum_cmpInternal x y = Some (cmp_nat (bn_val x) (bn_val y)) \<and>
    bignum_cmp x v = Some (cmp_nat (bn_val x) (unat v))"
proof
  have l: "length (take (len b) (cells b)) = len b" "take (len b) (cells b) \<noteq> []" if "bn_inv b" for b
    using inv_room [OF that] that by (auto simp: bn_inv_def)
  show "bignum_cmpInternal x y = Some (cmp_nat (bn_val x) (bn_val y))"
    using assms l [OF assms(1)] l [OF assms(2)]
    by (auto simp: bignum_cmpInternal_def inv_digits cmp_longer_spec bn_val_def)
  have "1 \<le> len x" using assms(1) by (simp add: bn_inv_def)
  then show "bignum_cmp x v = Some (cmp_nat (bn_val x) (unat v))"
    using assms l [OF assms(1)]
    by (auto simp: bignum_cmp_def bignum_cmpInternal_def inv_digits cmp_longer_spec bn_val_def
        digits_of_def cells_def)
qed

lemma resize_inv:
  assumes "bn_inv bn" and "1 \<le> n"
  shows "bn_inv (fst (bignum_resize ok junk bn n))"
proof (cases "bsize bn < n")
  case True
  with resize_grow [OF assms(1), of n ok junk] assms(1) show ?thesis by (auto simp: Let_def split: prod.splits)
next
  case False
  with assms inv_room [OF assms(1)] show ?thesis
    by (cases "data bn") (auto simp: bignum_resize_def bn_inv_def cells_def STACK_BUFFER_SIZE_def Let_def
        min_def)
qed

lemma init_spec:
  assumes "1 \<le> sz"
  shows "(let (bn, r) = bignum_init ok junk sz v in bn_inv bn \<and> (r = 0 \<longrightarrow> bn_val bn = unat v \<and> bsize bn = sz))"
proof -
  let ?b = "\<lparr>len = 1, bsize = 1, data = OnStack, stackBuffer = [v, 0, 0, 0]\<rparr>"
  have inv: "bn_inv ?b" by (simp add: bn_inv_def STACK_BUFFER_SIZE_def)
  have val: "bn_val ?b = unat v" by (simp add: bn_val_def cells_def)
  show ?thesis
  proof (cases "sz = 1")
    case True
    with inv val show ?thesis by (simp add: bignum_init_def bignum_resize_def)
  next
    case False
    with assms have "bsize ?b < sz" by simp
    from resize_grow [OF inv this, of ok junk] inv val show ?thesis
      by (auto simp: bignum_init_def Let_def ENOMEM_ret_def split: prod.splits)
  qed
qed

text \<open>A concrete number for the witnesses: three digits on the stack, the value $5 + 2^{64}$.\<close>

definition sample :: bignum where
  "sample = \<lparr>len = 3, bsize = 3, data = OnStack, stackBuffer = [5, 0, 1, 9]\<rparr>"

lemma sample_inv: "bn_inv sample"
  by (simp add: sample_def bn_inv_def STACK_BUFFER_SIZE_def)

theorem bignum_mul_div_witness:
  "(\<exists>bn' r. bignum_mul (\<lambda>_. False) 0 sample 7 = Some (bn', r) \<and> bn_inv bn' \<and>
      (r = 0 \<and> bn_val bn' = bn_val sample * unat (7::u32) \<or> r = ENOMEM_ret)) \<and>
    (\<exists>bn' r. bignum_div sample 7 = Some (bn', r) \<and> bn_inv bn' \<and>
      bn_val bn' = bn_val sample div unat (7::u32) \<and> unat r = bn_val sample mod unat (7::u32))"
proof -
  have "(7::u32) \<noteq> 0" by simp
  with bignum_mul_div [OF sample_inv, of "\<lambda>_. False" 0 7] show ?thesis by blast
qed

theorem bignum_shifts_witness:
  "(\<exists>bn' r. bignum_shiftl (\<lambda>_. True) 0 sample 40 = Some (bn', r) \<and> bn_inv bn' \<and>
      (r = 0 \<and> bn_val bn' = bn_val sample * 2 ^ 40 \<or> r = ENOMEM_ret)) \<and>
    (\<exists>bn'. bignum_shiftr sample 40 = Some bn' \<and> bn_inv bn' \<and> bn_val bn' = bn_val sample div 2 ^ 40) \<and>
    bignum_shiftl (\<lambda>_. True) 0 sample 0 = None"
proof -
  have "1 \<le> (40::nat)" by simp
  with bignum_shifts [OF sample_inv, of 40 "\<lambda>_. True" 0] show ?thesis by blast
qed

theorem bignum_compares_witness:
  "bignum_cmpInternal sample sample = Some (cmp_nat (bn_val sample) (bn_val sample)) \<and>
    bignum_cmp sample 9 = Some (cmp_nat (bn_val sample) (unat (9::u32)))"
  by (rule bignum_compares [OF sample_inv sample_inv])

end
