(* ===== verification/Calendar.thy ===== *)
theory Calendar
  imports CMem "HOL-Library.Signed_Division"
begin

section \<open>Calendar time: the broken-down time of time/time.c\<close>

text \<open>
  Conversion between seconds since the Epoch and dates. \<open>int\<close> variables are integers whose
  operations have no value where they leave the range of \<open>int\<close> (\<open>to_int\<close>, \<open>to_long\<close> for
  \<open>time_t\<close>); a conversion of \<open>time_t\<close> to \<open>int\<close> is \<open>cast_int\<close>. Division is the truncating one of C
  (\<open>sdiv\<close> and \<open>smod\<close>). An operation is written without a check only where its operands are bounded
  by constants of the code.
\<close>

subsection \<open>The code\<close>

definition to_long :: "int \<Rightarrow> int option" where
  "to_long i = (if LONG_MIN \<le> i \<and> i \<le> LONG_MAX then Some i else None)"

text \<open>What \<open>tm_zone\<close> points to: nothing, a string literal or a slot of the zone name table.\<close>

datatype zone = Zone_null | Zone_lit "byte list" | Zone_slot nat

record tm =
  tm_sec :: int
  tm_min :: int
  tm_hour :: int
  tm_mday :: int
  tm_mon :: int
  tm_year :: int
  tm_wday :: int
  tm_yday :: int
  tm_isdst :: int
  tm_gmtoff :: int
  tm_zone :: zone

definition month_lut :: "int list" where
  "month_lut = [31, 28, 31, 30, 31, 30, 31, 31, 30, 31, 30, 31]"

definition daysofmonth :: "nat \<Rightarrow> bool \<Rightarrow> int option" where
  "daysofmonth month leap =
     (if month = 1 \<and> leap then Some 29
      else if month < length month_lut then Some (month_lut ! month) else None)"

definition isleap :: "int \<Rightarrow> bool" where
  "isleap year \<longleftrightarrow> year smod 400 = 0 \<or> year smod 4 = 0 \<and> year smod 100 \<noteq> 0"

definition leapcount :: "int \<Rightarrow> int option" where
  "leapcount year = do {
     year \<leftarrow> to_int (year - 2001);
     (year, leap_days) \<leftarrow>
       (if year < 0 then do {
          periods \<leftarrow> to_int (year - 399);
          let periods = periods sdiv 400;
          Some (year - periods * 400, 8 + periods * 97) }
        else Some (year, 8));
     Some (leap_days + year sdiv 400 - year sdiv 100 + year sdiv 4) }"

text \<open>The table of \<open>epochDaysToYears\<close>: days and years of a period, and whether its day 0 is a leap day.\<close>

definition periods :: "(int \<times> int \<times> int) list" where
  "periods = [(146097, 400, 1), (36524, 100, 0), (1461, 4, 1), (365, 1, 0)]"

fun period_loop :: "(int \<times> int \<times> int) list \<Rightarrow> int \<Rightarrow> int \<Rightarrow> int \<Rightarrow> int \<times> int \<times> int" where
  "period_loop [] days year leapDay = (days, year, leapDay)"
| "period_loop ((nDays, nYears, isZeroDayLeap) # ps) days year leapDay =
     (let fullPeriods = days sdiv nDays;
          days = days smod nDays;
          (days, fullPeriods) = (if days < 0 then (days + nDays, fullPeriods - 1) else (days, fullPeriods));
          year = year + fullPeriods * nYears
      in if days = 0 then (days, year, isZeroDayLeap) else period_loop ps days year isZeroDayLeap)"

text \<open>Returns the year and what is stored through \<open>yearDay\<close>.\<close>

definition epochDaysToYears :: "int \<Rightarrow> (int \<times> int) option" where
  "epochDaysToYears days = do {
     days \<leftarrow> to_int (days - 11016);
     let (days, year, leapDay) = period_loop periods days 2000 0;
     if days \<ge> 307 then Some (year + 1, days - 307)
     else if days = 0 then Some (year, 58 + leapDay)
     else Some (year, days + (if isleap year then 59 else 58)) }"

text \<open>\<open>for (month = 0; month < 12; month++)\<close> with its break: the month and the days left.\<close>

function month_loop :: "nat \<Rightarrow> int \<Rightarrow> bool \<Rightarrow> (nat \<times> int) option" where
  "month_loop month days leap =
     (if month < 12 then do {
        monthLength \<leftarrow> daysofmonth month leap;
        if days \<ge> monthLength then month_loop (Suc month) (days - monthLength) leap
        else Some (month, days) }
      else Some (month, days))"
  by pat_completeness auto
termination
  by (relation "measure (\<lambda>(month, days, leap). 12 - month)") auto

declare month_loop.simps [simp del]

text \<open>\<open>Inl\<close> is the failure with NULL and \<open>errno\<close>.\<close>

definition gmtime_r :: "int \<Rightarrow> (errno + tm) option" where
  "gmtime_r timep =
     (if timep > INT_MAX * (24 * 60 * 60) then Some (Inl EOVERFLOW)
      else do {
        let days = cast_int (timep sdiv (24 * 60 * 60));
        seconds \<leftarrow> to_long (timep - days * (24 * 60 * 60));
        let seconds = cast_int seconds;
        (days, seconds) \<leftarrow>
          (if seconds < 0 then do { days \<leftarrow> to_int (days - 1); Some (days, seconds + 24 * 60 * 60) }
           else Some (days, seconds));
        let hour = seconds sdiv (60 * 60);
        let seconds = seconds smod (60 * 60);
        wday \<leftarrow> to_int (days + 4);
        let wday = wday smod 7;
        let wday = (if wday < 0 then wday + 7 else wday);
        (year, days) \<leftarrow> epochDaysToYears days;
        let isYearLeap = isleap year;
        (month, mdays) \<leftarrow> month_loop 0 days isYearLeap;
        Some (Inr \<lparr>tm_sec = seconds smod 60, tm_min = seconds sdiv 60, tm_hour = hour,
          tm_mday = mdays + 1, tm_mon = int month, tm_year = year - 1900, tm_wday = wday,
          tm_yday = days, tm_isdst = 0, tm_gmtoff = 0, tm_zone = Zone_lit (str ''GMT'')\<rparr>) })"

text \<open>\<open>for (i = 0; i < month; ++i) days += daysofmonth(i, leap)\<close>\<close>

function add_months :: "nat \<Rightarrow> nat \<Rightarrow> bool \<Rightarrow> int \<Rightarrow> int option" where
  "add_months i month leap days =
     (if i < month then do { n \<leftarrow> daysofmonth i leap; add_months (Suc i) month leap (days + n) }
      else Some days)"
  by pat_completeness auto
termination
  by (relation "measure (\<lambda>(i, month, leap, days). month - i)") auto

declare add_months.simps [simp del]

definition mktimeSkel :: "tm \<Rightarrow> int option" where
  "mktimeSkel tp = do {
     year \<leftarrow> to_int (tm_year tp - 70);
     year \<leftarrow> to_int (year + tm_mon tp sdiv 12);
     let month = tm_mon tp smod 12;
     (year, month) \<leftarrow> (if month < 0 then do { year \<leftarrow> to_int (year - 1); Some (year, month + 12) }
                       else Some (year, month));
     year1970 \<leftarrow> to_int (year + 1970);
     lc \<leftarrow> leapcount year1970;
     days \<leftarrow> add_months 0 (nat month) (isleap year1970) (year * 365 + lc);
     md \<leftarrow> to_int (tm_mday tp - 1);
     let res = (days + md) * 24 * 60 * 60;
     h \<leftarrow> to_int (tm_hour tp * 60);
     hm \<leftarrow> to_int (h + tm_min tp);
     s \<leftarrow> to_int (hm * 60);
     Some (res + s + tm_sec tp) }"

text \<open>Returns the result and the contents of \<open>*tm\<close> after the call.\<close>

definition timegm :: "tm \<Rightarrow> (int \<times> (errno + tm)) option" where
  "timegm tp = do {
     res \<leftarrow> mktimeSkel tp;
     r \<leftarrow> gmtime_r res;
     case r of Inl e \<Rightarrow> Some (- 1, Inl e) | Inr tp' \<Rightarrow> Some (res, Inr tp') }"

subsection \<open>The calendar\<close>

text \<open>
  What a date is, independently of the code: year lengths, the day number of January 1st as a sum of
  year lengths, and validity of the fields.
\<close>

definition leap :: "int \<Rightarrow> bool" where
  "leap y \<longleftrightarrow> 4 dvd y \<and> (100 dvd y \<longrightarrow> 400 dvd y)"

definition year_len :: "int \<Rightarrow> int" where
  "year_len y = (if leap y then 366 else 365)"

definition month_len :: "nat \<Rightarrow> bool \<Rightarrow> int" where
  "month_len m lp = (if m = 1 \<and> lp then 29 else month_lut ! m)"

definition month_start :: "nat \<Rightarrow> bool \<Rightarrow> int" where
  "month_start m lp = (\<Sum>i<m. month_len i lp)"

text \<open>Day number (0 = 1970-01-01) of January 1st.\<close>

definition year_start :: "int \<Rightarrow> int" where
  "year_start y = (if 1970 \<le> y then (\<Sum>k\<in>{1970..<y}. year_len k) else - (\<Sum>k\<in>{y..<1970}. year_len k))"

definition day_number :: "int \<Rightarrow> nat \<Rightarrow> int \<Rightarrow> int" where
  "day_number y mon mday = year_start y + month_start mon (leap y) + (mday - 1)"

definition is_date :: "tm \<Rightarrow> bool" where
  "is_date t \<longleftrightarrow> 0 \<le> tm_sec t \<and> tm_sec t < 60 \<and> 0 \<le> tm_min t \<and> tm_min t < 60 \<and>
     0 \<le> tm_hour t \<and> tm_hour t < 24 \<and> 0 \<le> tm_mon t \<and> tm_mon t < 12 \<and>
     1 \<le> tm_mday t \<and> tm_mday t \<le> month_len (nat (tm_mon t)) (leap (tm_year t + 1900))"

definition tm_days :: "tm \<Rightarrow> int" where
  "tm_days t = day_number (tm_year t + 1900) (nat (tm_mon t)) (tm_mday t)"

definition tm_secs :: "tm \<Rightarrow> int" where
  "tm_secs t = tm_days t * 86400 + tm_hour t * 3600 + tm_min t * 60 + tm_sec t"

subsection \<open>Division\<close>

lemma sdiv_pos: "0 \<le> a \<Longrightarrow> a sdiv b = a div b" if "0 < b" for a b :: int
  using that by (simp add: signed_divide_int_def sgn_if)

lemma smod_pos: "0 \<le> a \<Longrightarrow> a smod b = a mod b" if "0 < b" for a b :: int
  using that by (simp add: signed_modulo_int_def sgn_if)

lemma sdiv_smod_sum: "a sdiv b * b + a smod b = a" for a b :: int
  by (simp add: signed_division_class.sdiv_mult_smod_eq)

lemma smod_bounds:
  fixes a b :: int
  assumes b: "0 < b"
  shows "- b < a smod b" and "a smod b < b" and "0 \<le> a \<Longrightarrow> 0 \<le> a smod b" and "a \<le> 0 \<Longrightarrow> a smod b \<le> 0"
proof -
  have m: "0 \<le> \<bar>a\<bar> mod b" "\<bar>a\<bar> mod b < b" using b by simp_all
  have "a smod b = (if 0 \<le> a then \<bar>a\<bar> mod b else - (\<bar>a\<bar> mod b))"
    using b by (simp add: signed_modulo_int_def sgn_if)
  with m show "- b < a smod b" and "a smod b < b" and "0 \<le> a \<Longrightarrow> 0 \<le> a smod b"
    and "a \<le> 0 \<Longrightarrow> a smod b \<le> 0" by auto
qed

lemma floor_unique:
  fixes a b :: int
  assumes "a = q * b + r" and "0 \<le> r" and "r < b"
  shows "a div b = q" and "a mod b = r"
  using assms by simp_all

text \<open>Truncating division corrected the way the code corrects it is division rounding down.\<close>

lemma floor_fix:
  fixes a b :: int
  assumes "0 < b"
  shows "(if a smod b < 0 then (a smod b + b, a sdiv b - 1) else (a smod b, a sdiv b)) = (a mod b, a div b)"
proof (cases "a smod b < 0")
  case True
  have "a = (a sdiv b - 1) * b + (a smod b + b)" using sdiv_smod_sum [of a b] by (simp add: algebra_simps)
  from floor_unique [OF this] True smod_bounds(1) [OF assms, of a] show ?thesis by simp
next
  case False
  from floor_unique [OF sdiv_smod_sum [of a b, symmetric]] False smod_bounds(2) [OF assms, of a]
  show ?thesis by simp
qed

lemma smod_eq_0: "a smod b = 0 \<longleftrightarrow> b dvd a" for a b :: int
  by (cases "a = 0") (simp_all add: signed_modulo_int_def sgn_eq_0_iff flip: dvd_eq_mod_eq_0)

lemma isleap_leap: "isleap = leap"
proof
  fix y
  have "400 dvd y \<Longrightarrow> 4 dvd y" "400 dvd y \<Longrightarrow> 100 dvd y" for y :: int
    by (rule dvd_trans [rotated], assumption, simp)+
  then show "isleap y = leap y" by (auto simp: isleap_def leap_def smod_eq_0)
qed

subsection \<open>Years\<close>

lemma year_start_Suc: "year_start (y + 1) = year_start y + year_len y"
proof (cases "1970 \<le> y")
  case True
  then have "{1970..<y + 1} = insert y {1970..<y}" by auto
  with True show ?thesis by (simp add: year_start_def)
next
  case False
  then have "{y..<1970} = insert y {y + 1..<1970}" by auto
  with False show ?thesis by (simp add: year_start_def)
qed

definition leaps :: "int \<Rightarrow> int" where
  "leaps y = (y - 1) div 4 - (y - 1) div 100 + (y - 1) div 400 - 477"

lemma leaps_Suc: "leaps (y + 1) = leaps y + (if leap y then 1 else 0)"
proof -
  have step: "y div k = (y - 1) div k + (if k dvd y then 1 else 0)" if "0 < k" for k :: int
  proof (cases "k dvd y")
    case True
    then obtain q where "y = k * q" ..
    then have "y - 1 = (q - 1) * k + (k - 1)" by (simp add: algebra_simps)
    from floor_unique(1) [OF this] that \<open>y = k * q\<close> show ?thesis by simp
  next
    case False
    then have "0 < y mod k" using that by (simp add: dvd_eq_mod_eq_0 order_neq_le_trans)
    moreover have "y - 1 = y div k * k + (y mod k - 1)" by simp
    moreover have "y mod k < k" using that by simp
    ultimately show ?thesis using floor_unique(1) [of "y - 1" "y div k" k "y mod k - 1"] False by simp
  qed
  have "400 dvd y \<Longrightarrow> 100 dvd y" "100 dvd y \<Longrightarrow> 4 dvd y"
    by (rule dvd_trans [rotated], assumption, simp)+
  moreover have arith: "b4 - b100 + b400 = a4 - a100 + a400 + (if P4 \<and> (P100 \<longrightarrow> P400) then 1 else 0)"
    if "b4 = a4 + (if P4 then 1 else 0)" "b100 = a100 + (if P100 then 1 else 0)"
      "b400 = a400 + (if P400 then 1 else 0)" "P400 \<Longrightarrow> P100" "P100 \<Longrightarrow> P4"
    for a4 a100 a400 b4 b100 b400 :: int and P4 P100 P400
    unfolding that(1-3) using that(4,5) by (cases P4; cases P100; cases P400) simp_all
  ultimately have "y div 4 - y div 100 + y div 400 = (y - 1) div 4 - (y - 1) div 100 + (y - 1) div 400 +
      (if 4 dvd y \<and> (100 dvd y \<longrightarrow> 400 dvd y) then 1 else 0)"
    by (intro arith step) simp_all
  then show ?thesis by (simp add: leaps_def leap_def)
qed

lemma year_start_eq: "year_start y = 365 * (y - 1970) + leaps y"
proof (cases "1970 \<le> y")
  case True
  then show ?thesis
  proof (induction y rule: int_ge_induct)
    case base
    then show ?case by (simp add: year_start_def leaps_def)
  next
    case (step i)
    then show ?case by (simp add: year_start_Suc leaps_Suc year_len_def)
  qed
next
  case False
  then have "y \<le> 1970" by simp
  then show ?thesis
  proof (induction y rule: int_le_induct)
    case base
    then show ?case by (simp add: year_start_def leaps_def)
  next
    case (step i)
    then show ?case using year_start_Suc [of "i - 1"] leaps_Suc [of "i - 1"] by (simp add: year_len_def split: if_splits)
  qed
qed

lemma year_len_bounds: "365 \<le> year_len y" "year_len y \<le> 366"
  by (simp_all add: year_len_def)

lemma year_start_mono: "y < z \<Longrightarrow> year_start y + year_len y \<le> year_start z"
proof (induction z rule: int_gr_induct)
  case base
  then show ?case by (simp add: year_start_Suc)
next
  case (step i)
  then show ?case using year_len_bounds(1) [of i] by (simp add: year_start_Suc)
qed

text \<open>A day number is a year and a day of that year in one way.\<close>

lemma year_day_unique:
  assumes "year_start y + d = year_start y' + d'"
    and "0 \<le> d" "d < year_len y" "0 \<le> d'" "d' < year_len y'"
  shows "y = y'" and "d = d'"
proof -
  show "y = y'"
    using assms year_start_mono [of y y'] year_start_mono [of y' y] by (cases y y' rule: linorder_cases) auto
  with assms show "d = d'" by simp
qed

lemma leapcount_leaps:
  assumes "INT_MIN + 2400 \<le> y" and "y \<le> INT_MAX"
  shows "leapcount y = Some (leaps y)"
proof (cases "y < 2001")
  case True
  define p where "p = (y - 2400) sdiv 400"
  have p: "p = - ((2400 - y) div 400)"
    using True by (simp add: p_def signed_divide_int_def sgn_if)
  define z where "z = y - 2001 - p * 400"
  have z: "0 \<le> z" using div_mult_mod_eq [of "2400 - y" 400] pos_mod_bound [of 400 "2400 - y"] by (simp add: z_def p)
  have d: "(y - 1) div 400 = z div 400 + p + 5" "(y - 1) div 100 = z div 100 + 4 * p + 20"
    "(y - 1) div 4 = z div 4 + 100 * p + 500"
  proof -
    have "y - 1 = z + (p + 5) * 400" "y - 1 = z + (4 * p + 20) * 100" "y - 1 = z + (100 * p + 500) * 4"
      by (simp_all add: z_def)
    then show "(y - 1) div 400 = z div 400 + p + 5" "(y - 1) div 100 = z div 100 + 4 * p + 20"
      "(y - 1) div 4 = z div 4 + 100 * p + 500"
      by (metis div_mult_self1 zero_neq_numeral add.assoc add.commute)+
  qed
  have "leapcount y = Some (8 + p * 97 + z sdiv 400 - z sdiv 100 + z sdiv 4)"
    using True assms by (simp add: leapcount_def p_def z_def INT_MIN_def INT_MAX_def to_int_def Let_def)
  then show ?thesis using z by (simp add: sdiv_pos leaps_def d)
next
  case False
  have d: "(y - 1) div 400 = (y - 2001) div 400 + 5" "(y - 1) div 100 = (y - 2001) div 100 + 20"
    "(y - 1) div 4 = (y - 2001) div 4 + 500"
    using div_mult_self1 [of 400 "y - 2001" 5] div_mult_self1 [of 100 "y - 2001" 20]
      div_mult_self1 [of 4 "y - 2001" 500] by simp_all
  have lc: "leapcount y = Some (8 + (y - 2001) sdiv 400 - (y - 2001) sdiv 100 + (y - 2001) sdiv 4)"
    using False assms by (simp add: leapcount_def to_int_def INT_MIN_def INT_MAX_def)
  have "0 \<le> y - 2001" using False by simp
  then have "(y - 2001) sdiv 400 = (y - 2001) div 400" "(y - 2001) sdiv 100 = (y - 2001) div 100"
    "(y - 2001) sdiv 4 = (y - 2001) div 4" by (intro sdiv_pos; simp)+
  then show ?thesis unfolding lc leaps_def d by (simp only: option.inject)
qed


subsection \<open>Years of a day number\<close>

text \<open>
  \<open>march k\<close> counts the days from 2000-02-29 to the last day of February of year \<open>2000 + k\<close>. In the
  digits the code computes, \<open>k = 400 a + 100 b + 4 c + e\<close>, it is linear.
\<close>

definition march :: "int \<Rightarrow> int" where
  "march k = 365 * k + k div 4 - k div 100 + k div 400"

lemma digits_of_year:
  fixes a b c e :: int
  assumes "0 \<le> b" "b \<le> 3" "0 \<le> c" "c \<le> 24" "0 \<le> e" "e \<le> 3"
  defines "k \<equiv> 400 * a + 100 * b + 4 * c + e"
  shows "march k = 146097 * a + 36524 * b + 1461 * c + 365 * e"
    and "leap (2000 + k) \<longleftrightarrow> e = 0 \<and> (c \<noteq> 0 \<or> b = 0)"
proof -
  have "k div 4 = 100 * a + 25 * b + c" "(2000 + k) mod 4 = e"
    using floor_unique(1) [of k "100 * a + 25 * b + c" 4 e]
      floor_unique(2) [of "2000 + k" "500 + 100 * a + 25 * b + c" 4 e] assms by simp_all
  moreover have "k div 100 = 4 * a + b" "(2000 + k) mod 100 = 4 * c + e"
    using floor_unique(1) [of k "4 * a + b" 100 "4 * c + e"]
      floor_unique(2) [of "2000 + k" "20 + 4 * a + b" 100 "4 * c + e"] assms by simp_all
  moreover have "k div 400 = a" "(2000 + k) mod 400 = 100 * b + 4 * c + e"
    using floor_unique(1) [of k a 400 "100 * b + 4 * c + e"]
      floor_unique(2) [of "2000 + k" "5 + a" 400 "100 * b + 4 * c + e"] assms by simp_all
  moreover have "365 * k = 146000 * a + 36500 * b + 1460 * c + 365 * e" by (simp add: k_def)
  ultimately have "march k = 146097 * a + 36524 * b + 1461 * c + 365 * e \<and>
      (leap (2000 + k) \<longleftrightarrow> e = 0 \<and> (4 * c + e = 0 \<longrightarrow> 100 * b + 4 * c + e = 0))"
    unfolding march_def leap_def dvd_eq_mod_eq_0 by simp
  then show "march k = 146097 * a + 36524 * b + 1461 * c + 365 * e"
    and "leap (2000 + k) \<longleftrightarrow> e = 0 \<and> (c \<noteq> 0 \<or> b = 0)"
    using assms(1-6) by auto
qed

lemma year_start_march: "year_start (2001 + k) = march k + 11323"
proof -
  have "(2000 + k) div 4 = k div 4 + 500" "(2000 + k) div 100 = k div 100 + 20"
    "(2000 + k) div 400 = k div 400 + 5"
    using div_mult_self1 [of 4 k 500] div_mult_self1 [of 100 k 20] div_mult_self1 [of 400 k 5]
    by (simp_all add: add.commute)
  then show ?thesis by (simp add: year_start_eq leaps_def march_def)
qed

lemma year_start_march_before: "year_start (2000 + k) = march k + 10958 - (if leap (2000 + k) then 1 else 0)"
  using year_start_march [of k] year_start_Suc [of "2000 + k"] by (simp add: year_len_def split: if_splits)

lemma period_loop_step:
  assumes "0 < n"
  shows "period_loop ((n, ny, z) # ps) d y l =
    (if d mod n = 0 then (0, y + d div n * ny, z) else period_loop ps (d mod n) (y + d div n * ny) z)"
  using floor_fix [OF assms, of d] by (auto simp: Let_def split: if_splits)

lemma epochDaysToYears_spec:
  assumes "INT_MIN + 11016 \<le> days" and "days \<le> INT_MAX"
  obtains y yd where "epochDaysToYears days = Some (y, yd)" "0 \<le> yd" "yd < year_len y"
    "days = year_start y + yd"
proof -
  define d where "d = days - 11016"
  define a r1 where "a = d div 146097" and "r1 = d mod 146097"
  define b r2 where "b = r1 div 36524" and "r2 = r1 mod 36524"
  define c r3 where "c = r2 div 1461" and "r3 = r2 mod 1461"
  define e r4 where "e = r3 div 365" and "r4 = r3 mod 365"
  have eqs: "d = 146097 * a + r1" "r1 = 36524 * b + r2" "r2 = 1461 * c + r3" "r3 = 365 * e + r4"
    by (simp_all add: a_def r1_def b_def r2_def c_def r3_def e_def r4_def)
  have le: "0 \<le> r1" "r1 < 146097" "0 \<le> r2" "r2 < 36524" "0 \<le> r3" "r3 < 1461" "0 \<le> r4" "r4 < 365"
    by (simp_all add: r1_def r2_def r3_def r4_def)
  have ge: "0 \<le> b" "0 \<le> c" "0 \<le> e" using le by (simp_all add: b_def c_def e_def pos_imp_zdiv_nonneg_iff)
  have loop: "period_loop periods d 2000 0 =
     (if r1 = 0 then (0, 2000 + a * 400, 1)
      else if r2 = 0 then (0, 2000 + a * 400 + b * 100, 0)
      else if r3 = 0 then (0, 2000 + a * 400 + b * 100 + c * 4, 1)
      else (r4, 2000 + a * 400 + b * 100 + c * 4 + e, 0))"
    by (simp add: periods_def period_loop_step a_def [symmetric] r1_def [symmetric]
      b_def [symmetric] r2_def [symmetric] c_def [symmetric] r3_def [symmetric]
      e_def [symmetric] r4_def [symmetric] del: period_loop.simps(2))
  have res: "epochDaysToYears days = (case period_loop periods d 2000 0 of (days, year, leapDay) \<Rightarrow>
     if days \<ge> 307 then Some (year + 1, days - 307)
     else if days = 0 then Some (year, 58 + leapDay)
     else Some (year, days + (if leap year then 59 else 58)))"
    using assms unfolding epochDaysToYears_def d_def isleap_leap by (simp add: to_int_def INT_MAX_def)
  have no: "leap y \<Longrightarrow> year_len y = 366" "\<not> leap y \<Longrightarrow> year_len y = 365" for y
    by (simp_all add: year_len_def)
  consider "r1 = 0" | "r1 \<noteq> 0" "r2 = 0" | "r2 \<noteq> 0" "r3 = 0" | "r3 \<noteq> 0" "r4 = 0" | "r4 \<noteq> 0" by blast
  then show thesis
  proof cases
    case 1
    note dg = digits_of_year [of 0 0 0 a]
    have "epochDaysToYears days = Some (2000 + 400 * a, 59)" using 1 by (simp add: res loop)
    moreover have "days = year_start (2000 + 400 * a) + 59"
      using dg 1 eqs(1) year_start_march_before [of "400 * a"] by (simp add: d_def)
    ultimately show thesis using that dg no(1) [of "2000 + 400 * a"] by simp
  next
    case 2
    have b: "1 \<le> b" "b \<le> 4" using 2 eqs(2) le ge by linarith+
    have r: "epochDaysToYears days = Some (2000 + 400 * a + 100 * b, 58)"
      using 2 by (simp add: res loop algebra_simps)
    have "days = year_start (2000 + (400 * a + 100 * b)) + 58"
    proof (cases "b = 4")
      case True
      then show ?thesis
        using digits_of_year [of 0 0 0 "a + 1"] 2 eqs year_start_march_before [of "400 * (a + 1)"]
        by (simp add: d_def algebra_simps)
    next
      case False
      then show ?thesis
        using digits_of_year [of b 0 0 a] b 2 eqs year_start_march_before [of "400 * a + 100 * b"]
        by (simp add: d_def algebra_simps)
    qed
    then show thesis using that [OF r] year_len_bounds(1) [of "2000 + 400 * a + 100 * b"]
      by (simp add: add.assoc)
  next
    case 3
    have c: "1 \<le> c" "c \<le> 24" "b \<le> 3" "r1 \<noteq> 0" using 3 eqs le ge by linarith+
    note dg = digits_of_year [of b c 0 a]
    have r: "epochDaysToYears days = Some (2000 + 400 * a + 100 * b + 4 * c, 59)"
      using 3 c by (simp add: res loop algebra_simps)
    have "days = year_start (2000 + (400 * a + 100 * b + 4 * c)) + 59"
      using dg c ge 3 eqs year_start_march_before [of "400 * a + 100 * b + 4 * c"]
      by (simp add: d_def algebra_simps)
    then show thesis using that [OF r] year_len_bounds(1) [of "2000 + 400 * a + 100 * b + 4 * c"]
      by (simp add: add.assoc)
  next
    case 4
    have c: "c \<le> 24" "b \<le> 3" "r1 \<noteq> 0" "r2 \<noteq> 0" "1 \<le> e" "e \<le> 4" "e = 4 \<Longrightarrow> c \<le> 23"
      using 4 eqs le ge by linarith+
    have r: "epochDaysToYears days = Some (2000 + 400 * a + 100 * b + 4 * c + e, 58)"
      using 4 c by (simp add: res loop algebra_simps)
    have "days = year_start (2000 + (400 * a + 100 * b + 4 * c + e)) + 58"
    proof (cases "e = 4")
      case True
      then show ?thesis
        using digits_of_year [of b "c + 1" 0 a] c ge 4 eqs
          year_start_march_before [of "400 * a + 100 * b + 4 * (c + 1)"]
        by (simp add: d_def algebra_simps)
    next
      case False
      then show ?thesis
        using digits_of_year [of b c e a] c ge 4 eqs
          year_start_march_before [of "400 * a + 100 * b + 4 * c + e"]
        by (simp add: d_def algebra_simps)
    qed
    then show thesis using that [OF r] year_len_bounds(1) [of "2000 + 400 * a + 100 * b + 4 * c + e"]
      by (simp add: add.assoc)
  next
    case 5
    have c: "c \<le> 24" "b \<le> 3" "r1 \<noteq> 0" "r2 \<noteq> 0" "r3 \<noteq> 0" "e \<le> 3"
      using 5 eqs le ge by linarith+
    define k where "k = 400 * a + 100 * b + 4 * c + e"
    have m: "d = march k + r4" using digits_of_year [of b c e a] c ge eqs by (simp add: k_def)
    have r: "epochDaysToYears days = (if 307 \<le> r4 then Some (2001 + k, r4 - 307)
        else Some (2000 + k, r4 + (if leap (2000 + k) then 59 else 58)))"
      using 5 c by (simp add: res loop k_def algebra_simps)
    show thesis
    proof (cases "307 \<le> r4")
      case True
      then have r': "epochDaysToYears days = Some (2001 + k, r4 - 307)" using r by simp
      show thesis
        by (rule that [OF r'])
          (use True m le year_start_march [of k] year_len_bounds(1) [of "2001 + k"] in \<open>simp_all add: d_def\<close>)
    next
      case False
      then have r': "epochDaysToYears days = Some (2000 + k, r4 + (if leap (2000 + k) then 59 else 58))"
        using r by simp
      show thesis
        by (rule that [OF r'])
          (use False m le 5 year_start_march_before [of k] no [of "2000 + k"] in \<open>simp_all add: d_def split: if_splits\<close>)
    qed
  qed
qed


subsection \<open>Months\<close>

lemma month_len_simps:
  "month_len 0 lp = 31" "month_len 1 lp = (if lp then 29 else 28)" "month_len 2 lp = 31"
  "month_len 3 lp = 30" "month_len 4 lp = 31" "month_len 5 lp = 30" "month_len 6 lp = 31"
  "month_len 7 lp = 31" "month_len 8 lp = 30" "month_len 9 lp = 31" "month_len 10 lp = 30"
  "month_len 11 lp = 31"
  by (simp_all add: month_len_def month_lut_def nth_Cons')

lemma daysofmonth_len: "m < 12 \<Longrightarrow> daysofmonth m lp = Some (month_len m lp)"
  by (auto simp: daysofmonth_def month_len_def month_lut_def)

lemma month_len_pos: "m < 12 \<Longrightarrow> 28 \<le> month_len m lp \<and> month_len m lp \<le> 31"
proof -
  assume "m < 12"
  then have "m \<in> set [0..<12]" by simp
  moreover have "list_all (\<lambda>m. \<forall>lp. 28 \<le> month_len m lp \<and> month_len m lp \<le> 31) [0..<12]"
    by (simp add: upt_rec month_len_simps month_len_simps(2) [unfolded One_nat_def] eval_nat_numeral
        month_len_def month_lut_def)
  ultimately show ?thesis by (simp add: list_all_iff)
qed

lemma month_start_Suc: "month_start (Suc m) lp = month_start m lp + month_len m lp"
  by (simp add: month_start_def)

lemma month_start_0 [simp]: "month_start 0 lp = 0"
  by (simp add: month_start_def)

lemma month_start_12: "month_start 12 lp = (if lp then 366 else 365)"
  by (simp add: month_start_def eval_nat_numeral month_len_def month_lut_def)

lemma month_start_mono: "m < n \<Longrightarrow> n \<le> 12 \<Longrightarrow> month_start m lp + month_len m lp \<le> month_start n lp"
proof (induction n)
  case (Suc n)
  then show ?case using month_len_pos [of n lp] by (cases "m = n") (auto simp: month_start_Suc)
qed simp

lemma month_day_unique:
  assumes "month_start m lp + d = month_start n lp + e" and "m < 12" "n < 12"
    and "0 \<le> d" "d < month_len m lp" "0 \<le> e" "e < month_len n lp"
  shows "m = n" and "d = e"
proof -
  show "m = n"
    using assms month_start_mono [of m n lp] month_start_mono [of n m lp] by (cases m n rule: linorder_cases) auto
  with assms show "d = e" by simp
qed

lemma month_loop_spec:
  "m \<le> 12 \<Longrightarrow> 0 \<le> d \<Longrightarrow> month_start m lp + d < month_start 12 lp \<Longrightarrow>
   \<exists>m' d'. month_loop m d lp = Some (m', d') \<and> m' < 12 \<and> 0 \<le> d' \<and> d' < month_len m' lp \<and>
     month_start m' lp + d' = month_start m lp + d"
proof (induction m d lp rule: month_loop.induct)
  case (1 m d lp)
  then have "m < 12" by (cases "m = 12") auto
  show ?case
  proof (cases "month_len m lp \<le> d")
    case True
    have "month_start (Suc m) lp + (d - month_len m lp) = month_start m lp + d"
      by (simp add: month_start_Suc)
    with True 1 \<open>m < 12\<close> show ?thesis
      by (subst month_loop.simps) (simp add: daysofmonth_len)
  next
    case False
    with 1 \<open>m < 12\<close> show ?thesis by (subst month_loop.simps) (simp add: daysofmonth_len)
  qed
qed

lemma add_months_spec:
  "i \<le> month \<Longrightarrow> month \<le> 12 \<Longrightarrow>
   add_months i month lp days = Some (days + month_start month lp - month_start i lp)"
proof (induction i month lp days rule: add_months.induct)
  case (1 i month lp days)
  then show ?case
    by (subst add_months.simps) (auto simp: daysofmonth_len month_start_Suc)
qed

subsection \<open>From seconds to a date\<close>

lemma year_start_bounds:
  "1970 \<le> y \<Longrightarrow> 365 * (y - 1970) \<le> year_start y" "y \<le> 1970 \<Longrightarrow> year_start y \<le> 365 * (y - 1970)"
proof -
  assume "1970 \<le> y"
  then show "365 * (y - 1970) \<le> year_start y"
  proof (induction y rule: int_ge_induct)
    case (step i)
    then show ?case using year_len_bounds(1) [of i] by (simp add: year_start_Suc)
  qed (simp add: year_start_def)
next
  assume "y \<le> 1970"
  then show "year_start y \<le> 365 * (y - 1970)"
  proof (induction y rule: int_le_induct)
    case (step i)
    then show ?case using year_len_bounds(1) [of "i - 1"] year_start_Suc [of "i - 1"] by simp
  qed (simp add: year_start_def)
qed

lemma date_exists:
  assumes "year_start y + yd = d" and "0 \<le> yd" and "yd < year_len y" and "- 2147483648 \<le> d" and "d \<le> 2147483647"
  shows "- 6000000 \<le> y" and "y \<le> 6000000"
proof -
  have "- 6000000 \<le> y \<and> y \<le> 6000000"
    using assms year_start_bounds [of y] year_len_bounds(2) [of y] by (cases "1970 \<le> y") auto
  then show "- 6000000 \<le> y" and "y \<le> 6000000" by simp_all
qed


definition gm_range :: "int \<Rightarrow> bool" where
  "gm_range t \<longleftrightarrow> INT_MIN + 11016 \<le> t div 86400 \<and> t div 86400 \<le> INT_MAX - 4"

text \<open>What \<open>gmtime_r\<close> has to return for \<open>t\<close>.\<close>

definition gm_date :: "int \<Rightarrow> tm \<Rightarrow> bool" where
  "gm_date t tp \<longleftrightarrow> is_date tp \<and> tm_secs tp = t \<and> tm_wday tp = (t div 86400 + 4) mod 7 \<and>
     tm_yday tp = tm_days tp - year_start (tm_year tp + 1900) \<and>
     tm_isdst tp = 0 \<and> tm_gmtoff tp = 0 \<and> tm_zone tp = Zone_lit (str ''GMT'')"

lemma gmtime_r_split:
  assumes "gm_range t"
  shows "gmtime_r t = do {
     (year, yday) \<leftarrow> epochDaysToYears (t div 86400);
     (month, mdays) \<leftarrow> month_loop 0 yday (leap year);
     let s = t mod 86400;
     Some (Inr \<lparr>tm_sec = s mod 3600 mod 60, tm_min = s mod 3600 div 60, tm_hour = s div 3600,
       tm_mday = mdays + 1, tm_mon = int month, tm_year = year - 1900,
       tm_wday = (t div 86400 + 4) mod 7, tm_yday = yday, tm_isdst = 0, tm_gmtoff = 0,
       tm_zone = Zone_lit (str ''GMT'')\<rparr>) }"
proof -
  define days where "days = t div 86400"
  define s where "s = t mod 86400"
  define d0 where "d0 = t sdiv 86400"
  have b: "0 \<le> s" "s < 86400" "- 2147472632 \<le> days" "days \<le> 2147483643"
    using assms by (simp_all add: s_def gm_range_def days_def INT_MIN_def INT_MAX_def)
  have t: "t = days * 86400 + s" by (simp add: days_def s_def)
  have c: "t - d0 * 86400 = t smod 86400" using sdiv_smod_sum [of t 86400] by (simp add: d0_def)
  have fx: "(if t smod 86400 < 0 then (t smod 86400 + 86400, d0 - 1) else (t smod 86400, d0)) = (s, days)"
    unfolding days_def s_def d0_def by (rule floor_fix) simp
  have d0: "d0 = days \<or> d0 = days + 1" using fx by (auto split: if_splits)
  have sm: "- 86400 < t smod 86400" "t smod 86400 < 86400" using smod_bounds [of 86400 t] by simp_all
  have days: "cast_int d0 = d0" using d0 b by (intro cast_int_id) (auto simp: INT_MIN_def INT_MAX_def)
  have secs: "to_long (t smod 86400) = Some (t smod 86400)" "cast_int (t smod 86400) = t smod 86400"
    using sm by (auto simp: to_long_def LONG_MIN_def LONG_MAX_def INT_MIN_def INT_MAX_def intro!: cast_int_id)
  have lt: "(t > INT_MAX * 86400) = False" using t b by (simp add: INT_MAX_def)
  have step: "(if t smod 86400 < 0 then do { days \<leftarrow> to_int (d0 - 1); Some (days, t smod 86400 + 86400) }
     else Some (d0, t smod 86400)) = Some (days, s)"
    using fx b by (auto simp: to_int_def INT_MIN_def INT_MAX_def split: if_splits)
  have wday: "(if (days + 4) smod 7 < 0 then (days + 4) smod 7 + 7 else (days + 4) smod 7) = (days + 4) mod 7"
    using floor_fix [of 7 "days + 4"] by (auto split: if_splits)
  have wday': "to_int (days + 4) = Some (days + 4)" using b by (intro to_int_in) (simp_all add: INT_MIN_def INT_MAX_def)
  have pos: "s smod 3600 = s mod 3600" "s sdiv 3600 = s div 3600"
    "s mod 3600 smod 60 = s mod 3600 mod 60" "s mod 3600 sdiv 60 = s mod 3600 div 60"
    using b by (simp_all add: sdiv_pos smod_pos)
  have k: "(24 * 60 * 60 :: int) = 86400" "(60 * 60 :: int) = 3600" by simp_all
  have "gmtime_r t = do {
        (year, yday) \<leftarrow> epochDaysToYears days;
        (month, mdays) \<leftarrow> month_loop 0 yday (leap year);
        Some (Inr \<lparr>tm_sec = s mod 3600 mod 60, tm_min = s mod 3600 div 60, tm_hour = s div 3600,
          tm_mday = mdays + 1, tm_mon = int month, tm_year = year - 1900, tm_wday = (days + 4) mod 7,
          tm_yday = yday, tm_isdst = 0, tm_gmtoff = 0, tm_zone = Zone_lit (str ''GMT'')\<rparr>) }"
    unfolding gmtime_r_def isleap_leap k d0_def [symmetric]
    by (simp only: lt if_False Let_def days c secs bind.bind_lunit step prod.case wday' wday pos)
  then show ?thesis by (simp add: days_def s_def Let_def)
qed

lemma gmtime_r_spec:
  assumes "gm_range t"
  obtains tp where "gmtime_r t = Some (Inr tp)" "gm_date t tp"
    "- 6001900 \<le> tm_year tp" "tm_year tp \<le> 6000000"
proof -
  define days where "days = t div 86400"
  define s where "s = t mod 86400"
  have b: "- 2147472632 \<le> days" "days \<le> 2147483643"
    using assms by (simp_all add: gm_range_def days_def INT_MIN_def INT_MAX_def)
  then have e: "INT_MIN + 11016 \<le> days" "days \<le> INT_MAX" by (simp_all add: INT_MIN_def INT_MAX_def)
  obtain y yd where y: "epochDaysToYears days = Some (y, yd)" "0 \<le> yd" "yd < year_len y"
      "days = year_start y + yd"
    by (rule epochDaysToYears_spec [OF e])
  have "month_start 0 (leap y) + yd < month_start 12 (leap y)"
    using y by (simp add: month_start_12 year_len_def)
  from month_loop_spec [OF _ y(2) this] obtain m md where m: "month_loop 0 yd (leap y) = Some (m, md)"
      "m < 12" "0 \<le> md" "md < month_len m (leap y)" "month_start m (leap y) + md = yd"
    by auto
  define tp where "tp = \<lparr>tm_sec = s mod 3600 mod 60, tm_min = s mod 3600 div 60, tm_hour = s div 3600,
       tm_mday = md + 1, tm_mon = int m, tm_year = y - 1900,
       tm_wday = (t div 86400 + 4) mod 7, tm_yday = yd, tm_isdst = 0, tm_gmtoff = 0,
       tm_zone = Zone_lit (str ''GMT'')\<rparr>"
  have s: "0 \<le> s" "s < 86400" "s div 3600 * 3600 + s mod 3600 div 60 * 60 + s mod 3600 mod 60 = s"
    by (simp_all add: s_def)
  have h: "0 \<le> s div 3600" "s div 3600 < 24" using s(1,2) by simp_all
  have mi: "0 \<le> s mod 3600 div 60" "s mod 3600 div 60 < 60" by simp_all
  have sum: "tm_days tp = days" using m y by (simp add: tp_def tm_days_def day_number_def)
  have "t = days * 86400 + s" by (simp add: days_def s_def)
  then have "tm_secs tp = t" using s(3) by (simp add: tm_secs_def sum) (simp add: tp_def)
  moreover have "is_date tp" using m h mi by (simp add: is_date_def tp_def)
  moreover have "tm_yday tp = tm_days tp - year_start (tm_year tp + 1900)" using y(4) by (simp add: sum) (simp add: tp_def)
  moreover have "tm_wday tp = (t div 86400 + 4) mod 7" "tm_isdst tp = 0" "tm_gmtoff tp = 0"
    "tm_zone tp = Zone_lit (str ''GMT'')"
    by (simp_all add: tp_def)
  ultimately have "gm_date t tp" unfolding gm_date_def by blast
  moreover have "gmtime_r t = Some (Inr tp)"
    using y(1) m(1) by (simp add: gmtime_r_split [OF assms] tp_def days_def s_def Let_def)
  moreover have "- 6000000 \<le> y" "y \<le> 6000000" using date_exists [OF y(4) [symmetric] y(2,3)] b by simp_all
  then have "- 6001900 \<le> tm_year tp" "tm_year tp \<le> 6000000" by (simp_all add: tp_def)
  ultimately show thesis by (intro that)
qed


subsection \<open>From a date to seconds\<close>

text \<open>
  Fields that are far from the ends of \<open>int\<close>, and the time they name: the months are carried into
  the year, the other fields are added up whatever their range.
\<close>

definition moderate :: "tm \<Rightarrow> bool" where
  "moderate tp \<longleftrightarrow> \<bar>tm_year tp\<bar> \<le> 1000000000 \<and> \<bar>tm_mon tp\<bar> \<le> 1000000000 \<and> \<bar>tm_mday tp\<bar> \<le> 1000000000 \<and>
     \<bar>tm_hour tp\<bar> \<le> 500000 \<and> \<bar>tm_min tp\<bar> \<le> 1000000"

definition fields_secs :: "tm \<Rightarrow> int" where
  "fields_secs tp =
     day_number (tm_year tp + 1900 + tm_mon tp div 12) (nat (tm_mon tp mod 12)) (tm_mday tp) * 86400 +
     tm_hour tp * 3600 + tm_min tp * 60 + tm_sec tp"

lemma fields_secs_date: "is_date tp \<Longrightarrow> fields_secs tp = tm_secs tp"
  by (simp add: fields_secs_def tm_secs_def tm_days_def is_date_def div_pos_pos_trivial mod_pos_pos_trivial)

lemma to_int_abs: "\<bar>i\<bar> \<le> 2147483647 \<Longrightarrow> to_int i = Some i"
  by (auto simp: to_int_def INT_MIN_def INT_MAX_def)

lemma mktimeSkel_spec:
  assumes "moderate tp"
  shows "mktimeSkel tp = Some (fields_secs tp)"
proof -
  define q where "q = tm_mon tp sdiv 12"
  define r where "r = tm_mon tp smod 12"
  define y where "y = tm_year tp + 1900 + tm_mon tp div 12"
  define m where "m = nat (tm_mon tp mod 12)"
  have fx: "(if r < 0 then (r + 12, q - 1) else (r, q)) = (tm_mon tp mod 12, tm_mon tp div 12)"
    unfolding q_def r_def by (rule floor_fix) simp
  have q: "\<bar>tm_mon tp div 12\<bar> \<le> 83333334" "q = tm_mon tp div 12 \<or> q = tm_mon tp div 12 + 1"
    using assms fx by (auto simp: moderate_def split: if_splits)
  have b: "\<bar>tm_year tp\<bar> \<le> 1000000000" "\<bar>tm_mday tp\<bar> \<le> 1000000000" "\<bar>tm_hour tp\<bar> \<le> 500000" "\<bar>tm_min tp\<bar> \<le> 1000000"
    using assms by (simp_all add: moderate_def)
  have qb: "\<bar>q\<bar> \<le> 83333335" using q by linarith
  have ints: "to_int (tm_year tp - 70) = Some (tm_year tp - 70)"
    "to_int (tm_year tp - 70 + q) = Some (tm_year tp - 70 + q)"
    "to_int (tm_mday tp - 1) = Some (tm_mday tp - 1)" "to_int (tm_hour tp * 60) = Some (tm_hour tp * 60)"
    "to_int (tm_hour tp * 60 + tm_min tp) = Some (tm_hour tp * 60 + tm_min tp)"
    "to_int ((tm_hour tp * 60 + tm_min tp) * 60) = Some ((tm_hour tp * 60 + tm_min tp) * 60)"
    by (rule to_int_abs, use b qb in \<open>simp add: algebra_simps\<close>)+
  have step: "(if r < 0 then do { year \<leftarrow> to_int (tm_year tp - 70 + q - 1); Some (year, r + 12) }
     else Some (tm_year tp - 70 + q, r)) = Some (y - 1970, tm_mon tp mod 12)"
  proof (cases "r < 0")
    case True
    then have e: "r + 12 = tm_mon tp mod 12" "q - 1 = tm_mon tp div 12" using fx by simp_all
    have "to_int (tm_year tp - 70 + q - 1) = Some (tm_year tp - 70 + q - 1)"
      by (rule to_int_abs) (use b(1) qb in linarith)
    moreover have "tm_year tp - 70 + q - 1 = y - 1970" using e(2) by (simp add: y_def)
    ultimately show ?thesis using True e(1) by (simp only: if_True bind.bind_lunit)
  next
    case False
    then have "r = tm_mon tp mod 12" "q = tm_mon tp div 12" using fx by simp_all
    with False show ?thesis by (simp add: y_def)
  qed
  have ys: "- 1083330000 - 10000 \<le> y" "y \<le> 1083340000" using b(1) q(1) by (simp_all add: y_def)
  then have lc: "to_int (y - 1970 + 1970) = Some y" "leapcount y = Some (leaps y)"
    by (auto simp: to_int_def leapcount_leaps INT_MIN_def INT_MAX_def)
  have m: "m < 12" by (simp add: m_def)
  have am: "add_months 0 m (leap y) ((y - 1970) * 365 + leaps y) =
      Some ((y - 1970) * 365 + leaps y + month_start m (leap y))"
    using m by (simp add: add_months_spec)
  have "mktimeSkel tp = Some (((y - 1970) * 365 + leaps y + month_start m (leap y) + (tm_mday tp - 1)) *
      24 * 60 * 60 + (tm_hour tp * 60 + tm_min tp) * 60 + tm_sec tp)"
    unfolding mktimeSkel_def isleap_leap q_def [symmetric] r_def [symmetric]
    by (simp only: ints bind.bind_lunit Let_def step prod.case lc am m_def [symmetric])
  then show ?thesis
    by (simp add: fields_secs_def day_number_def year_start_eq y_def [symmetric] m_def [symmetric])
qed

lemma date_unique:
  assumes "is_date u" and "is_date v" and "tm_secs u = tm_secs v"
  shows "tm_sec u = tm_sec v \<and> tm_min u = tm_min v \<and> tm_hour u = tm_hour v \<and> tm_mday u = tm_mday v \<and>
    tm_mon u = tm_mon v \<and> tm_year u = tm_year v"
proof -
  let ?s = "\<lambda>t. tm_hour t * 3600 + tm_min t * 60 + tm_sec t"
  have s: "0 \<le> ?s t" "?s t < 86400" if "is_date t" for t using that by (auto simp: is_date_def)
  have "tm_days u * 86400 + ?s u = tm_days v * 86400 + ?s v" using assms(3) by (simp add: tm_secs_def)
  then have eq1: "tm_days u = tm_days v"
    using s [OF assms(1)] s [OF assms(2)] by linarith
  with assms(3) have eq: "tm_days u = tm_days v" "?s u = ?s v" by (simp_all add: tm_secs_def)
  have h: "tm_hour u = tm_hour v" using eq(2) assms(1,2) unfolding is_date_def by linarith
  then have "tm_min u = tm_min v" using eq(2) assms(1,2) unfolding is_date_def by linarith
  with h eq(2) have hms: "tm_hour u = tm_hour v" "tm_min u = tm_min v" "tm_sec u = tm_sec v" by simp_all
  let ?m = "\<lambda>t. nat (tm_mon t)" and ?y = "\<lambda>t. tm_year t + 1900"
  have d: "?m t < 12" "0 \<le> tm_mday t - 1" "tm_mday t - 1 < month_len (?m t) (leap (?y t))"
    "0 \<le> month_start (?m t) (leap (?y t)) + (tm_mday t - 1)"
    "month_start (?m t) (leap (?y t)) + (tm_mday t - 1) < year_len (?y t)" if "is_date t" for t
  proof -
    show 1: "?m t < 12" and 2: "0 \<le> tm_mday t - 1"
      and 3: "tm_mday t - 1 < month_len (?m t) (leap (?y t))" using that by (auto simp: is_date_def)
    have "0 \<le> month_start (?m t) (leap (?y t))"
      unfolding month_start_def
    proof (rule sum_nonneg)
      fix i assume "i \<in> {..<?m t}"
      with 1 month_len_pos [of i "leap (?y t)"] show "0 \<le> month_len i (leap (?y t))" by simp
    qed
    then show "0 \<le> month_start (?m t) (leap (?y t)) + (tm_mday t - 1)" using 2 by simp
    show "month_start (?m t) (leap (?y t)) + (tm_mday t - 1) < year_len (?y t)"
      using month_start_mono [of "?m t" 12 "leap (?y t)"] 1 3 by (simp add: month_start_12 year_len_def)
  qed
  have "year_start (?y u) + (month_start (?m u) (leap (?y u)) + (tm_mday u - 1)) =
      year_start (?y v) + (month_start (?m v) (leap (?y v)) + (tm_mday v - 1))"
    using eq(1) by (simp add: tm_days_def day_number_def)
  from year_day_unique [OF this d(4,5) [OF assms(1)] d(4,5) [OF assms(2)]]
  have y: "?y u = ?y v" and "month_start (?m u) (leap (?y u)) + (tm_mday u - 1) =
      month_start (?m v) (leap (?y u)) + (tm_mday v - 1)" by simp_all
  from month_day_unique [OF this(2) d(1) [OF assms(1)] d(1) [OF assms(2)]] d(2,3) [OF assms(1)]
    d(2,3) [OF assms(2)] y
  have "?m u = ?m v" "tm_mday u = tm_mday v" by auto
  with y hms assms(1,2) show ?thesis by (auto simp: is_date_def)
qed

text \<open>
  C6. \<open>gmtime_r\<close> and \<open>timegm\<close> are inverse. For every time whose day number fits an \<open>int\<close> (with the
  margin the code needs) \<open>gmtime_r\<close> returns a valid date that is the given number of seconds after
  the Epoch, with the right day of the week and day of the year, and \<open>timegm\<close> takes that date back
  to the same time and leaves it unchanged.
\<close>

theorem gmtime_timegm_roundtrip:
  assumes "gm_range t"
  shows "\<exists>tp. gmtime_r t = Some (Inr tp) \<and> gm_date t tp \<and> timegm tp = Some (t, Inr tp)"
proof -
  obtain tp where tp: "gmtime_r t = Some (Inr tp)" "gm_date t tp" "- 6001900 \<le> tm_year tp" "tm_year tp \<le> 6000000"
    using assms by (rule gmtime_r_spec)
  then have date: "is_date tp" "tm_secs tp = t" by (simp_all add: gm_date_def)
  then have "nat (tm_mon tp) < 12" "tm_mday tp \<le> month_len (nat (tm_mon tp)) (leap (tm_year tp + 1900))"
    by (auto simp: is_date_def)
  with month_len_pos [of "nat (tm_mon tp)" "leap (tm_year tp + 1900)"] have "tm_mday tp \<le> 31" by linarith
  with date(1) have "moderate tp" using tp(3,4) by (simp add: moderate_def is_date_def)
  then have "timegm tp = Some (t, Inr tp)"
    using tp(1) date by (simp add: timegm_def mktimeSkel_spec fields_secs_date)
  with tp(1,2) show ?thesis by blast
qed

theorem gmtime_timegm_roundtrip_witness:
  "\<exists>tp. gmtime_r (- 1) = Some (Inr tp) \<and> gm_date (- 1) tp \<and> timegm tp = Some (- 1, Inr tp)"
  by (rule gmtime_timegm_roundtrip) (simp add: gm_range_def INT_MIN_def INT_MAX_def)


definition sample_tm :: tm where
  "sample_tm = \<lparr>tm_sec = - 1, tm_min = 0, tm_hour = 25, tm_mday = 29, tm_mon = 13, tm_year = 100, tm_wday = 0,
     tm_yday = 0, tm_isdst = 0, tm_gmtoff = 0, tm_zone = Zone_lit []\<rparr>"


text \<open>
  There is no lower bound to match the upper one: a time $2^{32}$ days before the Epoch is accepted,
  its day number is truncated to \<open>int\<close>, and the call returns 1970-01-01 without an error; and the day
  of the week of the last days below the upper bound is computed with an \<open>int\<close> addition that overflows.
\<close>

theorem gmtime_r_limits:
  "gmtime_r (- (2 ^ 32 * 86400)) = gmtime_r 0 \<and> gmtime_r (INT_MAX * 86400) = None"
proof
  have "cast_int (- (2 ^ 32)) = 0" by (simp add: cast_int_def)
  moreover have "cast_int (- (2 ^ 32 * 86400)) = 0" by (simp add: cast_int_def)
  ultimately show "gmtime_r (- (2 ^ 32 * 86400)) = gmtime_r 0"
    by (simp add: gmtime_r_def INT_MAX_def to_long_def LONG_MIN_def LONG_MAX_def cast_int_def)
  show "gmtime_r (INT_MAX * 86400) = None"
    by (simp add: gmtime_r_def INT_MAX_def to_long_def LONG_MIN_def LONG_MAX_def cast_int_def to_int_def)
qed

end
