(* ===== verification/TimeZone.thy ===== *)
theory TimeZone
  imports Calendar
begin

section \<open>Local time: the time zone rules of time/time.c\<close>

text \<open>
  The rules of a zone as the parser of \<open>TZ\<close> leaves them, the instants at which a zone changes to
  daylight saving time and back, \<open>localtime_r\<close> and \<open>mktime\<close> over one snapshot of the rules. The
  fields of a rule are bounded by the parser, so sums of them are not checked against \<open>int\<close>.
\<close>

subsection \<open>The code\<close>

datatype tzrule_type = tzrule_jday | tzrule_yday | tzrule_mweek

record tzrule =
  r_type :: tzrule_type
  r_day :: int
  r_week :: int
  r_month :: int
  r_time :: int

text \<open>The arrays of two elements are lists: standard time first, then daylight saving time.\<close>

record tzinfo =
  tz_offset :: "int list"
  tz_hasdst :: bool
  tz_rule :: "tzrule list"
  tz_name :: "byte list list"
  tz_zone :: "zone list"

definition tz_yearDays :: "int \<Rightarrow> int option" where
  "tz_yearDays year = do {
     y \<leftarrow> to_int (year - 1970);
     lc \<leftarrow> leapcount year;
     Some (y * 365 + lc) }"

text \<open>\<open>while (mday >= daysofmonth(rule->month - 1, leap)) mday -= 7\<close>\<close>

function week_back :: "int \<Rightarrow> int \<Rightarrow> int" where
  "week_back mday n = (if mday \<ge> n then week_back (mday - 7) n else mday)"
  by pat_completeness auto
termination
  by (relation "measure (\<lambda>(mday, n). nat (mday - n + 7))") auto

declare week_back.simps [simp del]

definition tz_ruleYday :: "tzrule \<Rightarrow> int \<Rightarrow> int option" where
  "tz_ruleYday rule year =
     (let leap = isleap year in
      case r_type rule of
        tzrule_jday \<Rightarrow> Some (r_day rule - 1 + (if leap \<and> r_day rule \<ge> 60 then 1 else 0))
      | tzrule_yday \<Rightarrow> Some (r_day rule)
      | tzrule_mweek \<Rightarrow>
          if r_month rule < 1 then None
          else do {
            yday \<leftarrow> add_months 0 (nat (r_month rule - 1)) leap 0;
            yd \<leftarrow> tz_yearDays year;
            let wday = (yd + yday + 4) smod 7;
            let wday = (if wday < 0 then wday + 7 else wday);
            let mday = (r_day rule - wday + 7) smod 7 + (r_week rule - 1) * 7;
            n \<leftarrow> daysofmonth (nat (r_month rule - 1)) leap;
            Some (yday + week_back mday n) })"

definition tz_change :: "tzrule \<Rightarrow> int \<Rightarrow> int \<Rightarrow> int option" where
  "tz_change rule year offset = do {
     d \<leftarrow> tz_yearDays year;
     yd \<leftarrow> tz_ruleYday rule year;
     to_long ((d + yd) * (24 * 60 * 60) + r_time rule - offset) }"

text \<open>The result indexes the arrays of \<open>tzinfo\<close>: 0 or 1.\<close>

definition tz_isdst :: "tzinfo \<Rightarrow> int \<Rightarrow> nat option" where
  "tz_isdst info t =
     (if \<not> tz_hasdst info then Some 0
      else
        let days = t sdiv (24 * 60 * 60);
            days = (if t smod (24 * 60 * 60) < 0 then days - 1 else days)
        in
        if days > INT_MAX \<or> days < INT_MIN then Some 0
        else do {
          (year, yday) \<leftarrow> epochDaysToYears days;
          start \<leftarrow> tz_change (tz_rule info ! 0) year (tz_offset info ! 0);
          end \<leftarrow> tz_change (tz_rule info ! 1) year (tz_offset info ! 1);
          Some (if start > end then (if t < end \<or> t \<ge> start then 1 else 0)
                else (if t \<ge> start \<and> t < end then 1 else 0)) })"

definition tz_localtime :: "tzinfo \<Rightarrow> int \<Rightarrow> (errno + tm) option" where
  "tz_localtime info t = do {
     isdst \<leftarrow> tz_isdst info t;
     let offset = tz_offset info ! isdst;
     if offset > 0 \<and> t > LONG_MAX - offset \<or> offset < 0 \<and> t < LONG_MIN - offset
     then Some (Inl EOVERFLOW)
     else do {
       r \<leftarrow> gmtime_r (t + offset);
       case r of Inl e \<Rightarrow> Some (Inl e)
       | Inr tp \<Rightarrow> Some (Inr (tp\<lparr>tm_isdst := int isdst, tm_gmtoff := offset,
           tm_zone := tz_zone info ! isdst\<rparr>)) } }"

text \<open>The time \<open>mktime\<close> decides on, before it normalises the fields.\<close>

definition mktime_choose :: "tzinfo \<Rightarrow> tm \<Rightarrow> int \<Rightarrow> int \<Rightarrow> int option" where
  "mktime_choose info tp tstd tdst =
     (if \<not> tz_hasdst info then (if tm_isdst tp > 0 then to_long (tstd - 3600) else Some tstd)
      else if tm_isdst tp > 0 then Some tdst
      else if tm_isdst tp = 0 then Some tstd
      else do {
        s \<leftarrow> tz_isdst info tstd;
        if s = 0 then do {
          d \<leftarrow> tz_isdst info tdst; Some (if d \<noteq> 0 \<and> tdst < tstd then tdst else tstd) }
        else do { d \<leftarrow> tz_isdst info tdst; Some (if d \<noteq> 0 then tdst else tstd) } })"

definition tz_mktime :: "tzinfo \<Rightarrow> tm \<Rightarrow> (int \<times> (errno + tm)) option" where
  "tz_mktime info tp = do {
     local \<leftarrow> mktimeSkel tp;
     tstd \<leftarrow> to_long (local - tz_offset info ! 0);
     tdst \<leftarrow> to_long (local - tz_offset info ! 1);
     t \<leftarrow> mktime_choose info tp tstd tdst;
     r \<leftarrow> tz_localtime info t;
     case r of Inl e \<Rightarrow> Some (- 1, Inl e) | Inr tp' \<Rightarrow> Some (t, Inr tp') }"


subsection \<open>The day a rule falls on\<close>

text \<open>What the parser guarantees of a rule.\<close>

definition rule_ok :: "tzrule \<Rightarrow> bool" where
  "rule_ok r \<longleftrightarrow> \<bar>r_time r\<bar> < 700000 \<and>
     (case r_type r of
        tzrule_jday \<Rightarrow> 1 \<le> r_day r \<and> r_day r \<le> 365
      | tzrule_yday \<Rightarrow> 0 \<le> r_day r \<and> r_day r \<le> 365
      | tzrule_mweek \<Rightarrow> 0 \<le> r_day r \<and> r_day r \<le> 6 \<and> 1 \<le> r_week r \<and> r_week r \<le> 5 \<and>
          1 \<le> r_month r \<and> r_month r \<le> 12)"

definition tz_ok :: "tzinfo \<Rightarrow> bool" where
  "tz_ok info \<longleftrightarrow> length (tz_offset info) = 2 \<and> length (tz_rule info) = 2 \<and> length (tz_zone info) = 2 \<and>
     (\<forall>i<2. \<bar>tz_offset info ! i\<bar> < 100000 \<and> (tz_hasdst info \<longrightarrow> rule_ok (tz_rule info ! i)))"

lemma week_back_once:
  "28 \<le> n \<Longrightarrow> mday < n + 7 \<Longrightarrow> week_back mday n = (if mday < n then mday else mday - 7)"
  by (subst week_back.simps, subst week_back.simps) auto

text \<open>1970-01-01 was a Thursday, day 4 of a week that starts on Sunday.\<close>

definition weekday :: "int \<Rightarrow> int" where
  "weekday d = (d + 4) mod 7"

lemma tz_yearDays_spec:
  "INT_MIN + 2400 \<le> y \<Longrightarrow> y \<le> INT_MAX \<Longrightarrow> tz_yearDays y = Some (year_start y)"
  by (simp add: tz_yearDays_def leapcount_leaps year_start_eq to_int_def INT_MIN_def INT_MAX_def
      algebra_simps)

lemma tz_ruleYday_mweek:
  assumes "rule_ok r" and "r_type r = tzrule_mweek" and "- 10000000 \<le> y" and "y \<le> 10000000"
  defines "m \<equiv> nat (r_month r - 1)"
  obtains mday where "tz_ruleYday r y = Some (month_start m (leap y) + mday)"
    "0 \<le> mday" "mday < month_len m (leap y)" "m < 12"
    "weekday (year_start y + (month_start m (leap y) + mday)) = r_day r"
    "if r_week r \<le> 4 then mday div 7 = r_week r - 1 else month_len m (leap y) \<le> mday + 7"
proof -
  have r: "0 \<le> r_day r" "r_day r \<le> 6" "1 \<le> r_week r" "r_week r \<le> 5" "1 \<le> r_month r" "r_month r \<le> 12"
    using assms(1,2) by (simp_all add: rule_ok_def)
  have m: "m < 12" using r by (simp add: m_def)
  define n where "n = month_len m (leap y)"
  have n: "28 \<le> n" "n \<le> 31" using month_len_pos [OF m] by (simp_all add: n_def)
  define first where "first = year_start y + month_start m (leap y)"
  define w where "w = weekday first"
  have w: "0 \<le> w" "w < 7" by (simp_all add: w_def weekday_def)
  define b where "b = (r_day r - w + 7) mod 7"
  have b: "0 \<le> b" "b < 7" by (simp_all add: b_def)
  define mday where "mday = (if b + (r_week r - 1) * 7 < n then b + (r_week r - 1) * 7 else b + (r_week r - 1) * 7 - 7)"
  have wd: "(if (first + 4) smod 7 < 0 then (first + 4) smod 7 + 7 else (first + 4) smod 7) = w"
    using floor_fix [of 7 "first + 4"] by (auto simp: w_def weekday_def split: if_splits)
  have am: "add_months 0 m (leap y) 0 = Some (month_start m (leap y))" using m by (simp add: add_months_spec)
  have yd: "tz_yearDays y = Some (year_start y)"
    using assms(3,4) by (intro tz_yearDays_spec) (simp_all add: INT_MIN_def INT_MAX_def)
  have sm: "(r_day r - w + 7) smod 7 = b" using r w by (simp add: smod_pos b_def)
  have wk: "week_back (b + (r_week r - 1) * 7) n = mday"
    using n b r by (subst week_back_once) (simp_all add: mday_def)
  have fs: "year_start y + month_start m (leap y) = first" by (simp add: first_def)
  have nz: "(r_month r < 1) = False" using r by simp
  have "tz_ruleYday r y = Some (month_start m (leap y) + mday)"
    unfolding tz_ruleYday_def isleap_leap m_def [symmetric]
    by (simp only: assms(2) tzrule_type.case nz if_False Let_def am yd bind.bind_lunit fs wd sm
        daysofmonth_len [OF m] n_def [symmetric] wk)
  moreover have "0 \<le> mday" "mday < n" using n b r by (auto simp: mday_def)
  moreover have "weekday (year_start y + (month_start m (leap y) + mday)) = r_day r"
  proof -
    have "first + mday + 4 = (first + 4 + b) + 7 * (if b + (r_week r - 1) * 7 < n then r_week r - 1 else r_week r - 2)"
      by (simp add: mday_def)
    then have "(first + mday + 4) mod 7 = (first + 4 + b) mod 7" by (metis mod_mult_self2)
    also have "\<dots> = (w + b) mod 7" by (simp add: w_def weekday_def mod_add_left_eq)
    also have "\<dots> = (w + (r_day r - w + 7)) mod 7" by (simp add: b_def mod_add_right_eq)
    also have "\<dots> = r_day r" using r by simp
    finally show ?thesis by (simp add: weekday_def first_def add.assoc)
  qed
  moreover have "if r_week r \<le> 4 then mday div 7 = r_week r - 1 else n \<le> mday + 7"
    using n b r by (auto simp: mday_def)
  ultimately show thesis using that m unfolding n_def [symmetric] by blast
qed


lemma tz_ruleYday_bounds:
  assumes "rule_ok r" and "- 10000000 \<le> y" and "y \<le> 10000000"
  obtains yd where "tz_ruleYday r y = Some yd" "0 \<le> yd" "yd \<le> 366"
proof (cases "r_type r")
  case tzrule_mweek
  show thesis
  proof (rule tz_ruleYday_mweek [OF assms(1) tzrule_mweek assms(2,3)])
    fix mday
    let ?m = "nat (r_month r - 1)" and ?l = "leap y"
    assume yd: "tz_ruleYday r y = Some (month_start ?m ?l + mday)"
      and b: "0 \<le> mday" "mday < month_len ?m ?l" and m: "?m < 12"
    have "month_start ?m ?l + month_len ?m ?l \<le> 366"
      using month_start_mono [OF m, of ?l] by (simp add: month_start_12 split: if_splits)
    moreover have "0 \<le> month_start ?m ?l"
      unfolding month_start_def
    proof (rule sum_nonneg)
      fix i assume "i \<in> {..<?m}"
      with m month_len_pos [of i ?l] show "0 \<le> month_len i ?l" by simp
    qed
    ultimately show thesis using that yd b by simp
  qed
qed (use assms that in \<open>auto simp: rule_ok_def tz_ruleYday_def Let_def\<close>)

lemma tz_change_defined:
  assumes "rule_ok r" and "- 10000000 \<le> y" and "y \<le> 10000000" and "\<bar>offset\<bar> < 100000"
  shows "\<exists>c. tz_change r y offset = Some c"
proof -
  obtain yd where yd: "tz_ruleYday r y = Some yd" "0 \<le> yd" "yd \<le> 366"
    using assms(1-3) by (rule tz_ruleYday_bounds)
  have ys: "\<bar>year_start y\<bar> \<le> 10000000000"
  proof -
    have "\<bar>leaps y\<bar> \<le> 100000000" using assms(2,3) unfolding leaps_def by linarith
    then show ?thesis using assms(2,3) by (simp add: year_start_eq)
  qed
  have "tz_yearDays y = Some (year_start y)"
    using assms(2,3) by (intro tz_yearDays_spec) (simp_all add: INT_MIN_def INT_MAX_def)
  moreover have rt: "\<bar>r_time r\<bar> < 700000" using assms(1) by (simp add: rule_ok_def)
  moreover have "to_long ((year_start y + yd) * 86400 + r_time r - offset) \<noteq> None"
    using ys yd(2,3) rt assms(4) unfolding to_long_def LONG_MIN_def LONG_MAX_def by auto
  ultimately show ?thesis using yd(1) by (simp add: tz_change_def)
qed

text \<open>Times far enough from the ends of the range for the shifts by an offset.\<close>

definition tz_range :: "int \<Rightarrow> bool" where
  "tz_range t \<longleftrightarrow> (INT_MIN + 11025) * 86400 \<le> t \<and> t < (INT_MAX - 12) * 86400"

lemma tz_range_day:
  assumes "tz_range t" and "\<bar>u - t\<bar> \<le> 300000"
  shows "INT_MIN + 11016 \<le> u div 86400" and "u div 86400 \<le> INT_MAX - 8"
    and "gm_range u" and "\<bar>u\<bar> < 1000000000000000"
proof -
  have "(INT_MIN + 11016) * 86400 \<le> u" "u < (INT_MAX - 8) * 86400" "\<bar>u\<bar> < 1000000000000000"
    using assms by (auto simp: tz_range_def INT_MIN_def INT_MAX_def)
  then show "INT_MIN + 11016 \<le> u div 86400" "u div 86400 \<le> INT_MAX - 8" "\<bar>u\<bar> < 1000000000000000"
    using zdiv_mono1 [of "(INT_MIN + 11016) * 86400" u 86400] zdiv_mono1 [of u "(INT_MAX - 8) * 86400" 86400]
    by simp_all
  then show "gm_range u" by (simp add: gm_range_def)
qed

lemma tz_isdst_defined:
  assumes "tz_ok info" and "tz_range t" and "\<bar>u - t\<bar> \<le> 300000"
  obtains d where "tz_isdst info u = Some d" "d < 2" "\<not> tz_hasdst info \<Longrightarrow> d = 0"
proof (cases "tz_hasdst info")
  case False
  then show thesis using that [of 0] by (simp add: tz_isdst_def)
next
  case True
  note r = tz_range_day [OF assms(2,3)]
  have k: "(24 * 60 * 60 :: int) = 86400" by simp
  have days: "(if u smod 86400 < 0 then u sdiv 86400 - 1 else u sdiv 86400) = u div 86400"
    using floor_fix [of 86400 u] by (auto split: if_splits)
  have "u div 86400 \<le> INT_MAX" "INT_MIN + 11016 \<le> u div 86400"
    using r by (simp_all add: INT_MIN_def INT_MAX_def)
  from epochDaysToYears_spec [OF this(2,1)] obtain y yd where y: "epochDaysToYears (u div 86400) = Some (y, yd)"
    "0 \<le> yd" "yd < year_len y" "u div 86400 = year_start y + yd" by metis
  have "- 10000000 \<le> y" "y \<le> 10000000"
    using date_exists [OF y(4) [symmetric] y(2,3)] r(1,2) by (simp_all add: INT_MIN_def INT_MAX_def)
  moreover have "rule_ok (tz_rule info ! 0)" "rule_ok (tz_rule info ! 1)" "\<bar>tz_offset info ! 0\<bar> < 100000"
    "\<bar>tz_offset info ! 1\<bar> < 100000" using assms(1) True by (simp_all add: tz_ok_def)
  ultimately obtain a b where ab: "tz_change (tz_rule info ! 0) y (tz_offset info ! 0) = Some a"
    "tz_change (tz_rule info ! 1) y (tz_offset info ! 1) = Some b"
    using tz_change_defined by metis
  have lim: "(u div 86400 > INT_MAX \<or> u div 86400 < INT_MIN) = False"
    using r(1,2) by (simp add: INT_MIN_def INT_MAX_def)
  have "tz_isdst info u = Some (if a > b then (if u < b \<or> u \<ge> a then 1 else 0)
      else (if u \<ge> a \<and> u < b then 1 else 0))"
    unfolding tz_isdst_def k using True
    by (simp only: not_True_eq_False if_False Let_def days lim y(1) bind.bind_lunit prod.case ab)
  then show thesis by (rule that) (use True in simp_all)
qed


subsection \<open>Local time and back\<close>

lemma mktimeSkel_update [simp]:
  "mktimeSkel (tp\<lparr>tm_isdst := a, tm_gmtoff := b, tm_zone := c\<rparr>) = mktimeSkel tp"
  by (simp add: mktimeSkel_def)

lemma gm_date_moderate:
  assumes "gm_date t tp" and "- 6001900 \<le> tm_year tp" and "tm_year tp \<le> 6000000"
  shows "mktimeSkel tp = Some t"
proof -
  have date: "is_date tp" "tm_secs tp = t" using assms(1) by (simp_all add: gm_date_def)
  then have "nat (tm_mon tp) < 12" "tm_mday tp \<le> month_len (nat (tm_mon tp)) (leap (tm_year tp + 1900))"
    by (auto simp: is_date_def)
  with month_len_pos [of "nat (tm_mon tp)" "leap (tm_year tp + 1900)"] have "tm_mday tp \<le> 31" by linarith
  with date(1) have "moderate tp" using assms(2,3) by (simp add: moderate_def is_date_def)
  with date show ?thesis by (simp add: mktimeSkel_spec fields_secs_date)
qed

lemma tz_localtime_spec:
  assumes "tz_ok info" and "tz_range t" and "\<bar>u - t\<bar> \<le> 200000" and "tz_isdst info u = Some d" and "d < 2"
  obtains tp where "tz_localtime info u = Some (Inr (tp\<lparr>tm_isdst := int d, tm_gmtoff := tz_offset info ! d,
      tm_zone := tz_zone info ! d\<rparr>))" "gm_date (u + tz_offset info ! d) tp"
    "mktimeSkel tp = Some (u + tz_offset info ! d)"
proof -
  let ?o = "tz_offset info ! d"
  have o: "\<bar>?o\<bar> < 100000" using assms(1,5) by (simp add: tz_ok_def)
  then have "\<bar>(u + ?o) - t\<bar> \<le> 300000" using assms(3) by linarith
  note r = tz_range_day [OF assms(2) this]
  from r(3) obtain tp where tp: "gmtime_r (u + ?o) = Some (Inr tp)" "gm_date (u + ?o) tp"
      "- 6001900 \<le> tm_year tp" "tm_year tp \<le> 6000000"
    by (rule gmtime_r_spec)
  have "\<bar>u\<bar> < 1000000000000000" using tz_range_day(4) [OF assms(2), of u] assms(3) by simp
  then have no: "(?o > 0 \<and> u > LONG_MAX - ?o \<or> ?o < 0 \<and> u < LONG_MIN - ?o) = False"
    using o by (auto simp: LONG_MAX_def LONG_MIN_def)
  have "tz_localtime info u = Some (Inr (tp\<lparr>tm_isdst := int d, tm_gmtoff := ?o, tm_zone := tz_zone info ! d\<rparr>))"
    unfolding tz_localtime_def by (simp only: assms(4) bind.bind_lunit Let_def no if_False tp(1) sum.case)
  with tp(2) gm_date_moderate [OF tp(2-4)] that show thesis by blast
qed

text \<open>
  \<open>localtime_r\<close> and \<open>mktime\<close> are inverse under the same rules, with or without daylight saving time.
\<close>

lemma local_roundtrip:
  assumes "tz_ok info" and "tz_range t"
  shows "\<exists>tp d. tz_isdst info t = Some d \<and> tz_localtime info t = Some (Inr tp) \<and> is_date tp \<and>
    tm_secs tp = t + tz_offset info ! d \<and> tm_isdst tp = int d \<and> tm_gmtoff tp = tz_offset info ! d \<and>
    tz_mktime info tp = Some (t, Inr tp)"
proof -
  obtain d where d: "tz_isdst info t = Some d" "d < 2" "\<not> tz_hasdst info \<Longrightarrow> d = 0"
    using tz_isdst_defined [OF assms, of t] by (metis abs_zero diff_self zero_le_numeral)
  obtain tp where tp: "tz_localtime info t = Some (Inr (tp\<lparr>tm_isdst := int d, tm_gmtoff := tz_offset info ! d,
      tm_zone := tz_zone info ! d\<rparr>))" "gm_date (t + tz_offset info ! d) tp"
    "mktimeSkel tp = Some (t + tz_offset info ! d)"
    by (rule tz_localtime_spec [OF assms _ d(1,2)]) simp
  let ?tp = "tp\<lparr>tm_isdst := int d, tm_gmtoff := tz_offset info ! d, tm_zone := tz_zone info ! d\<rparr>"
  have date: "is_date ?tp" "tm_secs ?tp = t + tz_offset info ! d"
    using tp(2) by (simp_all add: gm_date_def is_date_def tm_secs_def tm_days_def)
  have o: "\<bar>tz_offset info ! 0\<bar> < 100000" "\<bar>tz_offset info ! 1\<bar> < 100000" "\<bar>tz_offset info ! d\<bar> < 100000"
    using assms(1) d(2) by (simp_all add: tz_ok_def)
  have t: "\<bar>t\<bar> < 1000000000000000" using tz_range_day(4) [OF assms(2), of t] by simp
  have l: "to_long (t + tz_offset info ! d - tz_offset info ! 0) = Some (t + tz_offset info ! d - tz_offset info ! 0)"
    "to_long (t + tz_offset info ! d - tz_offset info ! 1) = Some (t + tz_offset info ! d - tz_offset info ! 1)"
    using o t unfolding to_long_def LONG_MIN_def LONG_MAX_def by auto
  have "d = 0 \<or> d = 1" using d(2) by auto
  then have "mktime_choose info ?tp (t + tz_offset info ! d - tz_offset info ! 0)
      (t + tz_offset info ! d - tz_offset info ! 1) = Some t"
    using d(3) by (auto simp: mktime_choose_def)
  then have "tz_mktime info ?tp = Some (t, Inr ?tp)"
    unfolding tz_mktime_def mktimeSkel_update tp(3) by (simp only: l bind.bind_lunit tp(1) sum.case)
  with d(1) tp(1) date show ?thesis by force
qed


definition cet_rules :: tzinfo where
  "cet_rules = \<lparr>tz_offset = [3600, 7200], tz_hasdst = True,
     tz_rule = [\<lparr>r_type = tzrule_mweek, r_day = 0, r_week = 5, r_month = 3, r_time = 7200\<rparr>,
       \<lparr>r_type = tzrule_mweek, r_day = 0, r_week = 5, r_month = 10, r_time = 10800\<rparr>],
     tz_name = [str ''CET'', str ''CEST''], tz_zone = [Zone_slot 0, Zone_slot 1]\<rparr>"

lemma cet_rules_ok: "tz_ok cet_rules"
  by (simp add: tz_ok_def cet_rules_def rule_ok_def less_2_cases_iff)

text \<open>
  C11. With \<open>tm_isdst\<close> negative \<open>mktime\<close> finds out which offset applies: if any time at all has the
  given local time, the call returns a time that has it, and in the hour a change back repeats it is
  the earliest one.
\<close>

theorem mktime_resolves:
  assumes "tz_ok info" and "tz_range t'" and "moderate tp" and "tm_isdst tp < 0"
    and "tz_localtime info t' = Some (Inr tp')" and "tm_secs tp' = fields_secs tp"
  shows "\<exists>t tp''. tz_mktime info tp = Some (t, Inr tp'') \<and> t \<le> t' \<and> is_date tp'' \<and>
    tm_secs tp'' = fields_secs tp"
proof -
  define L where "L = fields_secs tp"
  obtain d' where d': "tz_isdst info t' = Some d'" "d' < 2" "\<not> tz_hasdst info \<Longrightarrow> d' = 0"
    using tz_isdst_defined [OF assms(1,2), of t'] by (metis abs_zero diff_self zero_le_numeral)
  obtain tq where tq: "tz_localtime info t' = Some (Inr (tq\<lparr>tm_isdst := int d', tm_gmtoff := tz_offset info ! d',
      tm_zone := tz_zone info ! d'\<rparr>))" "gm_date (t' + tz_offset info ! d') tq"
    by (rule tz_localtime_spec [OF assms(1,2) _ d'(1,2)]) simp
  have L: "L = t' + tz_offset info ! d'"
    using tq assms(5,6) by (auto simp: L_def gm_date_def tm_secs_def tm_days_def)
  define tstd where "tstd = L - tz_offset info ! 0"
  define tdst where "tdst = L - tz_offset info ! 1"
  have o: "\<bar>tz_offset info ! 0\<bar> < 100000" "\<bar>tz_offset info ! 1\<bar> < 100000" "\<bar>tz_offset info ! d'\<bar> < 100000"
    using assms(1) d'(2) by (simp_all add: tz_ok_def)
  have near: "\<bar>tstd - t'\<bar> \<le> 200000" "\<bar>tdst - t'\<bar> \<le> 200000"
    using o by (simp_all add: tstd_def tdst_def L)
  then have near3: "\<bar>tstd - t'\<bar> \<le> 300000" "\<bar>tdst - t'\<bar> \<le> 300000" by simp_all
  obtain s where s: "tz_isdst info tstd = Some s" "s < 2" "\<not> tz_hasdst info \<Longrightarrow> s = 0"
    using tz_isdst_defined [OF assms(1,2) near3(1)] by blast
  obtain d where d: "tz_isdst info tdst = Some d" "d < 2"
    using tz_isdst_defined [OF assms(1,2) near3(2)] by blast
  have t': "t' = (if d' = 0 then tstd else tdst)"
    using d'(2) by (cases "d' = 0") (auto simp: tstd_def tdst_def L less_2_cases_iff)
  define c where "c = (if \<not> tz_hasdst info then tstd else if s = 0 then if d \<noteq> 0 \<and> tdst < tstd then tdst else tstd
      else if d \<noteq> 0 then tdst else tstd)"
  have choose: "mktime_choose info tp tstd tdst = Some c"
    using assms(4) s(1) d(1) by (simp add: mktime_choose_def c_def)
  have c: "c \<le> t' \<and> (\<exists>dc < 2. tz_isdst info c = Some dc \<and> c + tz_offset info ! dc = L) \<and> \<bar>c - t'\<bar> \<le> 200000"
    using t' d' s d near
    by (cases "d' = 0") (auto simp: c_def tstd_def tdst_def less_2_cases_iff)
  then obtain dc where dc: "tz_isdst info c = Some dc" "dc < 2" "c + tz_offset info ! dc = L" by blast
  obtain tr where tr: "tz_localtime info c = Some (Inr (tr\<lparr>tm_isdst := int dc, tm_gmtoff := tz_offset info ! dc,
      tm_zone := tz_zone info ! dc\<rparr>))" "gm_date (c + tz_offset info ! dc) tr"
    using c by (rule_tac tz_localtime_spec [OF assms(1,2) _ dc(1,2)]) auto
  have "\<bar>tstd\<bar> < 1000000000000000" "\<bar>tdst\<bar> < 1000000000000000"
    using tz_range_day(4) [OF assms(2) near3(1)] tz_range_day(4) [OF assms(2) near3(2)] by simp_all
  then have l: "to_long (L - tz_offset info ! 0) = Some tstd" "to_long (L - tz_offset info ! 1) = Some tdst"
    unfolding tstd_def [symmetric] tdst_def [symmetric] to_long_def LONG_MIN_def LONG_MAX_def by auto
  have "tz_mktime info tp = Some (c, Inr (tr\<lparr>tm_isdst := int dc, tm_gmtoff := tz_offset info ! dc,
      tm_zone := tz_zone info ! dc\<rparr>))"
    unfolding tz_mktime_def mktimeSkel_spec [OF assms(3)] L_def [symmetric]
    by (simp only: l bind.bind_lunit choose tr(1) sum.case)
  moreover have "is_date (tr\<lparr>tm_isdst := int dc, tm_gmtoff := tz_offset info ! dc, tm_zone := tz_zone info ! dc\<rparr>)"
    "tm_secs (tr\<lparr>tm_isdst := int dc, tm_gmtoff := tz_offset info ! dc, tm_zone := tz_zone info ! dc\<rparr>) = L"
    using tr(2) dc(3) by (simp_all add: gm_date_def is_date_def tm_secs_def tm_days_def)
  ultimately show ?thesis using c L_def by blast
qed


definition sample_local :: tm where
  "sample_local = \<lparr>tm_sec = 40, tm_min = 46, tm_hour = 3, tm_mday = 9, tm_mon = 8, tm_year = 101, tm_wday = 0,
     tm_yday = 251, tm_isdst = 1, tm_gmtoff = 7200, tm_zone = Zone_slot 1\<rparr>"

lemma sample_local: "tz_localtime cet_rules 1000000000 = Some (Inr sample_local)"
  by code_simp

theorem mktime_resolves_witness:
  "\<exists>t tp''. tz_mktime cet_rules (sample_local\<lparr>tm_isdst := - 1\<rparr>) = Some (t, Inr tp'') \<and> t \<le> 1000000000 \<and>
    is_date tp'' \<and> tm_secs tp'' = fields_secs (sample_local\<lparr>tm_isdst := - 1\<rparr>)"
proof (rule mktime_resolves [OF cet_rules_ok _ _ _ sample_local])
  show "tz_range 1000000000" by (simp add: tz_range_def INT_MIN_def INT_MAX_def)
  show "moderate (sample_local\<lparr>tm_isdst := - 1\<rparr>)" by (simp add: moderate_def sample_local_def)
  show "tm_isdst (sample_local\<lparr>tm_isdst := - 1\<rparr>) < 0" by simp
  show "tm_secs sample_local = fields_secs (sample_local\<lparr>tm_isdst := - 1\<rparr>)"
    by (simp add: fields_secs_def tm_secs_def tm_days_def sample_local_def)
qed

text \<open>
  C12. A rule falls on the day POSIX says: \<open>Mm.w.d\<close> on the \<open>w\<close>-th day of the week \<open>d\<close> of month \<open>m\<close>, the
  last one for week 5; \<open>Jn\<close> on the same month and day every year, leap or not; \<open>n\<close> on the day of that
  number.
\<close>

theorem rule_falls_on:
  assumes "rule_ok r" and "- 10000000 \<le> y" and "y \<le> 10000000"
  shows "\<exists>yd. tz_ruleYday r y = Some yd \<and>
    (case r_type r of
       tzrule_mweek \<Rightarrow> \<exists>mday. yd = month_start (nat (r_month r - 1)) (leap y) + mday \<and>
         0 \<le> mday \<and> mday < month_len (nat (r_month r - 1)) (leap y) \<and>
         weekday (year_start y + yd) = r_day r \<and>
         (if r_week r \<le> 4 then mday div 7 = r_week r - 1
          else month_len (nat (r_month r - 1)) (leap y) \<le> mday + 7)
     | tzrule_jday \<Rightarrow> \<exists>m mday. m < 12 \<and> r_day r - 1 = month_start m False + mday \<and> 0 \<le> mday \<and>
         mday < month_len m False \<and> yd = month_start m (leap y) + mday
     | tzrule_yday \<Rightarrow> yd = r_day r)"
proof (cases "r_type r")
  case tzrule_mweek
  show ?thesis
    by (rule tz_ruleYday_mweek [OF assms(1) tzrule_mweek assms(2,3)]) (auto simp: tzrule_mweek)
next
  case tzrule_yday
  then show ?thesis by (simp add: tz_ruleYday_def)
next
  case tzrule_jday
  define d where "d = r_day r - 1"
  have d: "0 \<le> d" "d < 365" using assms(1) tzrule_jday by (simp_all add: d_def rule_ok_def)
  from month_loop_spec [of 0 d False] d obtain m mday where m: "m < 12" "0 \<le> mday" "mday < month_len m False"
    "month_start m False + mday = d" by (auto simp: month_start_12)
  have early: "month_start m True = month_start m False + (if 2 \<le> m then 1 else 0)"
  proof -
    have "m \<in> set [0..<12]" using m(1) by simp
    moreover have "list_all (\<lambda>m. month_start m True = month_start m False + (if 2 \<le> m then 1 else 0)) [0..<12]"
      by (simp add: month_start_def eval_nat_numeral month_len_def month_lut_def)
    ultimately show ?thesis by (simp add: list_all_iff)
  qed
  have feb: "2 \<le> m \<longleftrightarrow> 59 \<le> d"
  proof
    assume "2 \<le> m"
    then have "month_start 1 False + month_len 1 False \<le> month_start m False"
      using month_start_mono [of 1 m False] m(1) by simp
    then show "59 \<le> d" using m(2,4) by (simp add: month_start_def month_len_def month_lut_def)
  next
    assume "59 \<le> d"
    show "2 \<le> m"
    proof (rule ccontr)
      assume "\<not> 2 \<le> m"
      then have "m = 0 \<or> m = 1" by auto
      then show False using m(3,4) \<open>59 \<le> d\<close> by (auto simp: month_start_def month_len_def month_lut_def)
    qed
  qed
  have "tz_ruleYday r y = Some (d + (if leap y \<and> 59 \<le> d then 1 else 0))"
    by (simp add: tz_ruleYday_def tzrule_jday isleap_leap d_def Let_def)
  moreover have "d + (if leap y \<and> 59 \<le> d then 1 else 0) = month_start m (leap y) + mday"
    using m(4) early feb by (cases "leap y") auto
  ultimately show ?thesis using m(1-3) by (auto simp: tzrule_jday d_def [symmetric] m(4) [symmetric])
qed

theorem rule_falls_on_witness:
  "\<exists>yd. tz_ruleYday (tz_rule cet_rules ! 0) 2001 = Some yd \<and> (\<exists>mday. yd = month_start 2 (leap 2001) + mday \<and>
     0 \<le> mday \<and> mday < month_len 2 (leap 2001) \<and> weekday (year_start 2001 + yd) = 0 \<and>
     month_len 2 (leap 2001) \<le> mday + 7)"
  using rule_falls_on [of "tz_rule cet_rules ! 0" 2001] by (simp add: cet_rules_def rule_ok_def)

end
