(* ===== verification/TzParse.thy ===== *)
theory TzParse
  imports TimeZone StrNum
begin

section \<open>The TZ variable: parsing and the shared state of time/time.c\<close>

text \<open>
  A \<open>const char *\<close> into the value of \<open>TZ\<close> is the list of the bytes from it to the end of the object,
  the terminating NUL included: reading through it is \<open>peek\<close>, which fails past the NUL, and advancing
  it is \<open>tl\<close>. A parser returns \<open>None\<close> for an access out of bounds, \<open>Some None\<close> for the NULL of the
  code, and otherwise the advanced pointer and the value it stores. Zone names and the cached value
  of \<open>TZ\<close> are the byte lists before the NUL, and \<open>strcmp\<close> and \<open>strcpy\<close> on them are equality and
  assignment.
\<close>

subsection \<open>The code\<close>

type_synonym cursor = "byte list"
type_synonym 'a parse = "(cursor \<times> 'a) option option"

definition TZ_NAME_MAX :: nat where "TZ_NAME_MAX = 15"
definition TZ_CACHE_LEN :: nat where "TZ_CACHE_LEN = 128"
definition TZ_ZONES :: nat where "TZ_ZONES = 32"

definition peek :: "cursor \<Rightarrow> byte option" where
  "peek s = (case s of [] \<Rightarrow> None | c # _ \<Rightarrow> Some c)"

text \<open>\<open>s != NULL\<close>: go on with the pointer and the value; otherwise return NULL.\<close>

definition on_parse :: "'a parse \<Rightarrow> (cursor \<Rightarrow> 'a \<Rightarrow> 'b option option) \<Rightarrow> 'b option option" where
  "on_parse r k = do { x \<leftarrow> r; case x of None \<Rightarrow> Some None | Some (s, v) \<Rightarrow> k s v }"

fun num_loop :: "cursor \<Rightarrow> int \<Rightarrow> int \<Rightarrow> int parse" where
  "num_loop [] limit v = None"
| "num_loop (c # s) limit v =
     (let v = v * 10 + (byte_int c - 48) in
      if v > limit then Some None
      else do {
        d \<leftarrow> peek s;
        if isdigit (byte_int d) \<noteq> 0 then num_loop s limit v else Some (Some (s, v)) })"

definition tz_parseNum :: "cursor \<Rightarrow> int \<Rightarrow> int parse" where
  "tz_parseNum s limit = do {
     c \<leftarrow> peek s;
     if isdigit (byte_int c) = 0 then Some None else num_loop s limit 0 }"

text \<open>One \<open>:mm\<close> or \<open>:ss\<close>, if there is one.\<close>

definition tz_sexagesimal :: "cursor \<Rightarrow> int parse" where
  "tz_sexagesimal s = tz_parseNum (tl s) 59"

definition tz_parseTime :: "cursor \<Rightarrow> int \<Rightarrow> int parse" where
  "tz_parseTime s maxHours = do {
     c \<leftarrow> peek s;
     let sign = (if c = 45 then - 1 else 1);
     let s = (if c = 43 \<or> c = 45 then tl s else s);
     on_parse (tz_parseNum s maxHours) (\<lambda>s hh. do {
       c \<leftarrow> peek s;
       if c \<noteq> 58 then Some (Some (s, sign * (hh * 3600)))
       else on_parse (tz_sexagesimal s) (\<lambda>s mm. do {
         c \<leftarrow> peek s;
         if c \<noteq> 58 then Some (Some (s, sign * (hh * 3600 + mm * 60)))
         else on_parse (tz_sexagesimal s) (\<lambda>s ss.
           Some (Some (s, sign * (hh * 3600 + mm * 60 + ss)))) }) }) }"

fun skip_quoted :: "cursor \<Rightarrow> cursor option" where
  "skip_quoted [] = None"
| "skip_quoted (c # s) = (if isalnum (byte_int c) \<noteq> 0 \<or> c = 43 \<or> c = 45 then skip_quoted s else Some (c # s))"

fun skip_alpha :: "cursor \<Rightarrow> cursor option" where
  "skip_alpha [] = None"
| "skip_alpha (c # s) = (if isalpha (byte_int c) \<noteq> 0 then skip_alpha s else Some (c # s))"

definition tz_parseName :: "cursor \<Rightarrow> byte list parse" where
  "tz_parseName s = do {
     c \<leftarrow> peek s;
     r \<leftarrow> (if c = 60 then do {
            let start = tl s;
            s \<leftarrow> skip_quoted start;
            let n = length start - length s;
            d \<leftarrow> peek s;
            Some (if d \<noteq> 62 then None else Some (start, n, tl s)) }
          else do {
            t \<leftarrow> skip_alpha s;
            Some (Some (s, length s - length t, t)) });
     Some (case r of None \<Rightarrow> None
       | Some (start, n, s) \<Rightarrow> if n < 3 \<or> n > TZ_NAME_MAX then None else Some (s, take n start)) }"

definition tz_ruleTime :: "cursor \<Rightarrow> tzrule \<Rightarrow> tzrule parse" where
  "tz_ruleTime s rule = do {
     let rule = rule\<lparr>r_time := 2 * 3600\<rparr>;
     c \<leftarrow> peek s;
     if c = 47 then on_parse (tz_parseTime (tl s) 167) (\<lambda>s t. Some (Some (s, rule\<lparr>r_time := t\<rparr>)))
     else Some (Some (s, rule)) }"

text \<open>The rule is filled where it stands; the parser gets its old contents and returns the new ones.\<close>

definition tz_parseRule :: "cursor \<Rightarrow> tzrule \<Rightarrow> tzrule parse" where
  "tz_parseRule s rule = do {
     c \<leftarrow> peek s;
     if c = 74 then
       on_parse (tz_parseNum (tl s) 365) (\<lambda>s v.
         if v = 0 then Some None else tz_ruleTime s (rule\<lparr>r_type := tzrule_jday, r_day := v\<rparr>))
     else if c = 77 then
       on_parse (tz_parseNum (tl s) 12) (\<lambda>s m. do {
         c \<leftarrow> peek s;
         if m = 0 \<or> c \<noteq> 46 then Some None
         else on_parse (tz_parseNum (tl s) 5) (\<lambda>s w. do {
           c \<leftarrow> peek s;
           if w = 0 \<or> c \<noteq> 46 then Some None
           else on_parse (tz_parseNum (tl s) 6) (\<lambda>s d.
             tz_ruleTime s (rule\<lparr>r_type := tzrule_mweek, r_month := m, r_week := w, r_day := d\<rparr>)) }) })
     else
       on_parse (tz_parseNum s 365) (\<lambda>s v.
         tz_ruleTime s (rule\<lparr>r_type := tzrule_yday, r_day := v\<rparr>)) }"

definition zero_rule :: tzrule where
  "zero_rule = \<lparr>r_type = tzrule_jday, r_day = 0, r_week = 0, r_month = 0, r_time = 0\<rparr>"

definition usStart :: tzrule where
  "usStart = \<lparr>r_type = tzrule_mweek, r_day = 0, r_week = 2, r_month = 3, r_time = 2 * 3600\<rparr>"

definition usEnd :: tzrule where
  "usEnd = \<lparr>r_type = tzrule_mweek, r_day = 0, r_week = 1, r_month = 11, r_time = 2 * 3600\<rparr>"

definition zero_info :: tzinfo where
  "zero_info = \<lparr>tz_offset = [0, 0], tz_hasdst = False, tz_rule = [zero_rule, zero_rule],
     tz_name = [[], []], tz_zone = [Zone_null, Zone_null]\<rparr>"

text \<open>The rules of the DST part at \<open>s\<close>: \<open>None\<close> where the part is malformed.\<close>

definition tz_parseRules :: "cursor \<Rightarrow> (tzrule \<times> tzrule) option option" where
  "tz_parseRules s = do {
     c \<leftarrow> peek s;
     if c = 0 then Some (Some (usStart, usEnd))
     else if c \<noteq> 44 then Some None
     else on_parse (tz_parseRule (tl s) zero_rule) (\<lambda>s r0. do {
       c \<leftarrow> peek s;
       if c \<noteq> 44 then Some None
       else on_parse (tz_parseRule (tl s) zero_rule) (\<lambda>s r1. do {
         c \<leftarrow> peek s;
         if c \<noteq> 0 then Some None else Some (Some (r0, r1)) }) }) }"

text \<open>The DST part: name, offset and rules, over the offset \<open>std\<close> of standard time.\<close>

definition tz_parseDst :: "cursor \<Rightarrow> int \<Rightarrow> (byte list \<times> int \<times> tzrule \<times> tzrule) option option" where
  "tz_parseDst s std = do {
     c \<leftarrow> peek s;
     if c = 0 then Some None
     else on_parse (tz_parseName s) (\<lambda>s name. do {
       c \<leftarrow> peek s;
       on_parse (if c \<noteq> 44 \<and> c \<noteq> 0
                 then on_parse (tz_parseTime s 24) (\<lambda>s offset. Some (Some (s, - offset)))
                 else Some (Some (s, std + 3600)))
         (\<lambda>s offset. do {
            r \<leftarrow> tz_parseRules s;
            Some (map_option (\<lambda>(r0, r1). (name, offset, r0, r1)) r) }) }) }"

definition tz_parse :: "cursor \<Rightarrow> tzinfo option" where
  "tz_parse tz = do {
     c \<leftarrow> peek tz;
     std \<leftarrow> (if c \<noteq> 58 then
        on_parse (tz_parseName tz) (\<lambda>s name.
          on_parse (tz_parseTime s 24) (\<lambda>s offset. Some (Some (s, name, offset))))
      else Some None);
     case std of
       None \<Rightarrow> do {
         r \<leftarrow> tz_parseName (if c = 58 then tl tz else tz);
         name \<leftarrow> (case r of None \<Rightarrow> Some (str ''UTC'')
           | Some (s, name) \<Rightarrow> do { c \<leftarrow> peek s; Some (if c \<noteq> 0 then str ''UTC'' else name) });
         Some (zero_info\<lparr>tz_name := [name, name]\<rparr>) }
     | Some (s, name, offset) \<Rightarrow> do {
         dst \<leftarrow> tz_parseDst s (- offset);
         Some (case dst of
           None \<Rightarrow> zero_info\<lparr>tz_offset := [- offset, - offset], tz_name := [name, name]\<rparr>
         | Some (dname, doffset, r0, r1) \<Rightarrow>
             zero_info\<lparr>tz_offset := [- offset, doffset], tz_hasdst := True, tz_rule := [r0, r1],
               tz_name := [name, dname]\<rparr>) } }"


subsection \<open>The parser stays inside its string and delivers valid rules\<close>

text \<open>A pointer into a C string: the bytes up to and including the NUL.\<close>

definition in_string :: "cursor \<Rightarrow> bool" where
  "in_string s \<longleftrightarrow> s \<noteq> [] \<and> last s = 0"

text \<open>A result that is defined and, unless it is NULL, has the property.\<close>

definition delivers :: "('a \<Rightarrow> bool) \<Rightarrow> 'a option option \<Rightarrow> bool" where
  "delivers Q r \<longleftrightarrow> (\<exists>x. r = Some x \<and> pred_option Q x)"

lemma delivers_simps [simp]:
  "\<not> delivers Q None" "delivers Q (Some None)" "delivers Q (Some (Some x)) \<longleftrightarrow> Q x"
  by (auto simp: delivers_def)

lemma delivers_on_parse:
  assumes "delivers (\<lambda>(s, v). in_string s \<and> P v) r"
    and "\<And>s v. in_string s \<Longrightarrow> P v \<Longrightarrow> delivers Q (k s v)"
  shows "delivers Q (on_parse r k)"
  using assms by (auto simp: delivers_def on_parse_def split: option.splits)

lemma in_string_peek: "in_string s \<Longrightarrow> \<exists>c. peek s = Some c"
  by (cases s) (auto simp: in_string_def peek_def)

lemma in_string_tl: "in_string s \<Longrightarrow> peek s = Some c \<Longrightarrow> c \<noteq> 0 \<Longrightarrow> in_string (tl s)"
  by (cases s) (auto simp: in_string_def peek_def split: if_splits)

lemma in_string_Cons: "in_string (c # s) \<Longrightarrow> c \<noteq> 0 \<Longrightarrow> in_string s"
  using in_string_tl [of "c # s" c] by (simp add: peek_def)

lemma digit_value: "isdigit (uint c) \<noteq> 0 \<Longrightarrow> 0 \<le> uint c - 48 \<and> uint c - 48 \<le> 9 \<and> c \<noteq> (0 :: byte)"
  by (auto simp: ctype_defs split: if_splits)

lemma num_loop_safe:
  "in_string s \<Longrightarrow> peek s = Some c \<Longrightarrow> isdigit (uint c) \<noteq> 0 \<Longrightarrow> 0 \<le> v \<Longrightarrow>
   delivers (\<lambda>(s, v). in_string s \<and> 0 \<le> v \<and> v \<le> limit) (num_loop s limit v)"
proof (induction s limit v arbitrary: c rule: num_loop.induct)
  case (2 x s limit v)
  then have x: "x = c" "0 \<le> uint x - 48" "in_string s"
    using digit_value [of c] in_string_Cons [of x s] by (auto simp: peek_def)
  obtain d where d: "peek s = Some d" using in_string_peek [OF x(3)] ..
  show ?case
  proof (cases "v * 10 + (uint x - 48) > limit")
    case False
    then show ?thesis using 2 x d by (cases "isdigit (uint d) \<noteq> 0") auto
  qed simp
qed (simp add: in_string_def)

lemma tz_parseNum_safe:
  "in_string s \<Longrightarrow> delivers (\<lambda>(s, v). in_string s \<and> 0 \<le> v \<and> v \<le> limit) (tz_parseNum s limit)"
  using in_string_peek [of s] num_loop_safe [of s] by (auto simp: tz_parseNum_def)

text \<open>What each construct of the parsers has to deliver, one rule per construct.\<close>

lemma delivers_peek:
  "in_string s \<Longrightarrow> (\<And>c. peek s = Some c \<Longrightarrow> delivers Q (k c)) \<Longrightarrow> delivers Q (peek s \<bind> k)"
  using in_string_peek [of s] by auto

lemma delivers_if:
  "(b \<Longrightarrow> delivers Q x) \<Longrightarrow> (\<not> b \<Longrightarrow> delivers Q y) \<Longrightarrow> delivers Q (if b then x else y)"
  by simp

lemma delivers_num:
  assumes "in_string s"
    and "\<And>s v. in_string s \<Longrightarrow> 0 \<le> v \<Longrightarrow> v \<le> limit \<Longrightarrow> delivers Q (k s v)"
  shows "delivers Q (on_parse (tz_parseNum s limit) k)"
  by (rule delivers_on_parse [OF tz_parseNum_safe [OF assms(1)]]) (use assms(2) in blast)

lemmas delivers_rules = delivers_peek delivers_if delivers_num

lemma tl_in_string: "peek s = Some c \<Longrightarrow> in_string s \<Longrightarrow> c \<noteq> 0 \<Longrightarrow> in_string (tl s)"
  by (rule in_string_tl)

lemma tz_parseTime_safe:
  assumes s: "in_string s" and "0 \<le> h"
  shows "delivers (\<lambda>(s, t). in_string s \<and> \<bar>t\<bar> < (h + 1) * 3600) (tz_parseTime s h)"
proof -
  have "\<bar>x * y\<bar> = \<bar>y\<bar>" if "x \<in> {- 1, 1}" for x y :: int using that by auto
  then have sign: "\<bar>(if b then - 1 else 1) * y\<bar> = \<bar>y\<bar>" for b and y :: int by simp
  show ?thesis
    unfolding tz_parseTime_def tz_sexagesimal_def Let_def
    by (intro delivers_rules s) (auto simp: sign intro: tl_in_string s)
qed


lemma skip_quoted_safe:
  "in_string s \<Longrightarrow> \<exists>t. skip_quoted s = Some t \<and> in_string t \<and> (\<exists>u. s = u @ t)"
proof (induction s)
  case (Cons c s)
  show ?case
  proof (cases "isalnum (uint c) \<noteq> 0 \<or> c = 43 \<or> c = 45")
    case True
    then have "c \<noteq> 0" by (auto simp: ctype_defs)
    then obtain t u where "skip_quoted s = Some t" "in_string t" "s = u @ t"
      using Cons in_string_Cons by blast
    with True have "skip_quoted (c # s) = Some t \<and> in_string t \<and> c # s = (c # u) @ t" by simp
    then show ?thesis by blast
  next
    case False
    with Cons.prems show ?thesis by simp
  qed
qed (simp add: in_string_def)

lemma skip_alpha_safe:
  "in_string s \<Longrightarrow> \<exists>t. skip_alpha s = Some t \<and> in_string t \<and> (\<exists>u. s = u @ t)"
proof (induction s)
  case (Cons c s)
  show ?case
  proof (cases "isalpha (uint c) \<noteq> 0")
    case True
    then have "c \<noteq> 0" by (auto simp: ctype_defs)
    then obtain t u where "skip_alpha s = Some t" "in_string t" "s = u @ t"
      using Cons in_string_Cons by blast
    with True have "skip_alpha (c # s) = Some t \<and> in_string t \<and> c # s = (c # u) @ t" by simp
    then show ?thesis by blast
  next
    case False
    with Cons.prems show ?thesis by simp
  qed
qed (simp add: in_string_def)

lemma tz_parseName_safe:
  assumes "in_string s"
  shows "delivers (\<lambda>(s, n). in_string s \<and> 3 \<le> length n \<and> length n \<le> TZ_NAME_MAX) (tz_parseName s)"
proof -
  obtain c where c: "peek s = Some c" using in_string_peek [OF assms] ..
  show ?thesis
  proof (cases "c = 60")
    case True
    have tl: "in_string (tl s)" using in_string_tl [OF assms c] True by simp
    then obtain t u where t: "skip_quoted (tl s) = Some t" "in_string t" "tl s = u @ t"
      using skip_quoted_safe by blast
    obtain d where d: "peek t = Some d" using in_string_peek [OF t(2)] ..
    show ?thesis
      using True c t d in_string_tl [OF t(2) d] by (auto simp: tz_parseName_def Let_def)
  next
    case False
    obtain t u where t: "skip_alpha s = Some t" "in_string t" "s = u @ t"
      using skip_alpha_safe [OF assms] by blast
    show ?thesis using False c t by (auto simp: tz_parseName_def)
  qed
qed

lemma delivers_time:
  assumes "in_string s" and "0 \<le> h"
    and "\<And>s v. in_string s \<Longrightarrow> \<bar>v\<bar> < (h + 1) * 3600 \<Longrightarrow> delivers Q (k s v)"
  shows "delivers Q (on_parse (tz_parseTime s h) k)"
  by (rule delivers_on_parse [OF tz_parseTime_safe [OF assms(1,2)]]) (use assms(3) in blast)

lemma delivers_name:
  assumes "in_string s"
    and "\<And>s n. in_string s \<Longrightarrow> 3 \<le> length n \<and> length n \<le> TZ_NAME_MAX \<Longrightarrow> delivers Q (k s n)"
  shows "delivers Q (on_parse (tz_parseName s) k)"
  by (rule delivers_on_parse [OF tz_parseName_safe [OF assms(1)]]) (use assms(2) in blast)

lemma tz_ruleTime_safe:
  assumes s: "in_string s" and r: "rule_ok (r\<lparr>r_time := 0\<rparr>)"
  shows "delivers (\<lambda>(s, r). in_string s \<and> rule_ok r) (tz_ruleTime s r)"
  unfolding tz_ruleTime_def Let_def
  by (intro delivers_peek delivers_if delivers_time s) (use s r in \<open>auto simp: rule_ok_def intro: tl_in_string split: tzrule_type.splits\<close>)

lemma tz_parseRule_safe:
  assumes s: "in_string s"
  shows "delivers (\<lambda>(s, r). in_string s \<and> rule_ok r) (tz_parseRule s r)"
  unfolding tz_parseRule_def
  by (intro delivers_rules tz_ruleTime_safe s) (auto simp: rule_ok_def intro: tl_in_string s)

lemma delivers_rule:
  assumes "in_string s"
    and "\<And>s r'. in_string s \<Longrightarrow> rule_ok r' \<Longrightarrow> delivers Q (k s r')"
  shows "delivers Q (on_parse (tz_parseRule s r) k)"
  by (rule delivers_on_parse [OF tz_parseRule_safe [OF assms(1)]]) (use assms(2) in blast)

lemma us_rules_ok: "rule_ok usStart" "rule_ok usEnd"
  by (simp_all add: rule_ok_def usStart_def usEnd_def)

lemma tz_parseRules_safe:
  assumes s: "in_string s"
  shows "delivers (\<lambda>(r0, r1). rule_ok r0 \<and> rule_ok r1) (tz_parseRules s)"
  unfolding tz_parseRules_def
  by (intro delivers_peek delivers_if delivers_rule s) (auto simp: us_rules_ok intro: tl_in_string s)

lemma tz_parseDst_safe:
  assumes s: "in_string s" and "\<bar>std\<bar> < 90000"
  shows "delivers (\<lambda>(n, off, r0, r1). 3 \<le> length n \<and> length n \<le> TZ_NAME_MAX \<and> \<bar>off\<bar> < 100000 \<and>
    rule_ok r0 \<and> rule_ok r1) (tz_parseDst s std)"
  unfolding tz_parseDst_def
proof (intro delivers_peek delivers_if delivers_name s)
  fix s n c assume s: "in_string s" and n: "3 \<le> length n \<and> length n \<le> TZ_NAME_MAX"
  have "delivers (\<lambda>(s, off). in_string s \<and> \<bar>off\<bar> < 100000)
     (if c \<noteq> 44 \<and> c \<noteq> 0 then on_parse (tz_parseTime s 24) (\<lambda>s offset. Some (Some (s, - offset)))
      else Some (Some (s, std + 3600)))"
    using s assms(2) by (intro delivers_if delivers_time) auto
  then show "delivers (\<lambda>(n, off, r0, r1). 3 \<le> length n \<and> length n \<le> TZ_NAME_MAX \<and> \<bar>off\<bar> < 100000 \<and>
      rule_ok r0 \<and> rule_ok r1)
     (on_parse
       (if c \<noteq> 44 \<and> c \<noteq> 0 then on_parse (tz_parseTime s 24) (\<lambda>s offset. Some (Some (s, - offset)))
        else Some (Some (s, std + 3600)))
       (\<lambda>s offset. do { r \<leftarrow> tz_parseRules s; Some (map_option (\<lambda>(r0, r1). (n, offset, r0, r1)) r) }))"
  proof (rule delivers_on_parse)
    fix s off assume "in_string s" and off: "\<bar>off\<bar> < (100000 :: int)"
    then obtain x where "tz_parseRules s = Some x" "pred_option (\<lambda>(r0, r1). rule_ok r0 \<and> rule_ok r1) x"
      using tz_parseRules_safe [of s] by (auto simp: delivers_def)
    with n off show "delivers (\<lambda>(n, off, r0, r1). 3 \<le> length n \<and> length n \<le> TZ_NAME_MAX \<and> \<bar>off\<bar> < 100000 \<and>
      rule_ok r0 \<and> rule_ok r1) (do { r \<leftarrow> tz_parseRules s; Some (map_option (\<lambda>(r0, r1). (n, off, r0, r1)) r) })"
      by (cases x) auto
  qed
qed (use s in \<open>auto\<close>)


lemma tz_parse_delivers:
  assumes s: "in_string tz"
  shows "\<exists>info. tz_parse tz = Some info \<and> tz_ok info \<and>
    list_all (\<lambda>n. 3 \<le> length n \<and> length n \<le> TZ_NAME_MAX) (tz_name info)"
proof -
  obtain c where c: "peek tz = Some c" using in_string_peek [OF s] ..
  define std where "std = (if c \<noteq> 58 then
        on_parse (tz_parseName tz) (\<lambda>s name.
          on_parse (tz_parseTime s 24) (\<lambda>s offset. Some (Some (s, name, offset))))
      else Some None)"
  have zero: "tz_ok zero_info" "length (str ''UTC'') = 3" "3 \<le> TZ_NAME_MAX"
    by (simp_all add: tz_ok_def zero_info_def less_2_cases_iff str_def TZ_NAME_MAX_def)
  have "delivers (\<lambda>(s, n, off). in_string s \<and> 3 \<le> length n \<and> length n \<le> TZ_NAME_MAX \<and> \<bar>off\<bar> < 90000) std"
    unfolding std_def by (intro delivers_if delivers_name delivers_time s) auto
  then obtain x where x: "std = Some x" "pred_option (\<lambda>(s, n, off). in_string s \<and> 3 \<le> length n \<and>
      length n \<le> TZ_NAME_MAX \<and> \<bar>off\<bar> < 90000) x" by (auto simp: delivers_def)
  show ?thesis
  proof (cases x)
    case None
    have "in_string (if c = 58 then tl tz else tz)" using in_string_tl [OF s c] s by auto
    from tz_parseName_safe [OF this] obtain r where r: "tz_parseName (if c = 58 then tl tz else tz) = Some r"
      "pred_option (\<lambda>(s, n). in_string s \<and> 3 \<le> length n \<and> length n \<le> TZ_NAME_MAX) r"
      by (auto simp: delivers_def)
    have "\<exists>n. (case r of None \<Rightarrow> Some (str ''UTC'')
           | Some (s, name) \<Rightarrow> do { c \<leftarrow> peek s; Some (if c \<noteq> 0 then str ''UTC'' else name) }) = Some n \<and>
        3 \<le> length n \<and> length n \<le> TZ_NAME_MAX"
    proof (cases r)
      case None
      then show ?thesis using zero by simp
    next
      case (Some x)
      obtain t n where x: "x = (t, n)" by (cases x)
      obtain c where "peek t = Some c" using in_string_peek [of t] r(2) Some x by auto
      then show ?thesis using r(2) Some x zero by (cases "c = 0") auto
    qed
    then obtain n where "tz_parse tz = Some (zero_info\<lparr>tz_name := [n, n]\<rparr>)" "3 \<le> length n" "length n \<le> TZ_NAME_MAX"
      using c x None r(1) by (auto simp: tz_parse_def std_def [symmetric])
    with zero(1) show ?thesis by (simp add: tz_ok_def)
  next
    case (Some y)
    obtain s' n off where y: "y = (s', n, off)" by (cases y)
    with Some x(2) have n: "in_string s'" "3 \<le> length n" "length n \<le> TZ_NAME_MAX" "\<bar>off\<bar> < 90000" by auto
    from tz_parseDst_safe [of s' "- off"] n obtain d where d: "tz_parseDst s' (- off) = Some d"
      "pred_option (\<lambda>(n, off, r0, r1). 3 \<le> length n \<and> length n \<le> TZ_NAME_MAX \<and> \<bar>off\<bar> < 100000 \<and>
        rule_ok r0 \<and> rule_ok r1) d" by (auto simp: delivers_def)
    have "tz_parse tz = Some (case d of
           None \<Rightarrow> zero_info\<lparr>tz_offset := [- off, - off], tz_name := [n, n]\<rparr>
         | Some (dname, doffset, r0, r1) \<Rightarrow>
             zero_info\<lparr>tz_offset := [- off, doffset], tz_hasdst := True, tz_rule := [r0, r1],
               tz_name := [n, dname]\<rparr>)"
      using c x Some y d(1) by (simp add: tz_parse_def std_def [symmetric])
    with d(2) n zero(1) show ?thesis
      by (cases d) (auto simp: tz_ok_def zero_info_def less_2_cases_iff)
  qed
qed

text \<open>
  C8. Whatever \<open>TZ\<close> holds, parsing it reads no byte behind the terminating NUL, always ends, and leaves
  rules every later computation can rely on: offsets and times of change within their bounds, days,
  weeks and months in range, names that fit their buffers. The header's theorems about local time
  apply to every zone the parser produces.
\<close>

theorem tz_parse_safe:
  "\<exists>info. tz_parse (a @ [0]) = Some info \<and> tz_ok info \<and>
    list_all (\<lambda>n. 3 \<le> length n \<and> length n \<le> TZ_NAME_MAX) (tz_name info)"
  by (rule tz_parse_delivers) (simp add: in_string_def)

subsection \<open>Writing a zone and parsing it back\<close>

definition hms :: "int \<Rightarrow> byte list" where
  "hms t = (let n = nat \<bar>t\<bar> in (if t < 0 then [45] else []) @
     dec (n div 3600) @ [58] @ dec (n mod 3600 div 60) @ [58] @ dec (n mod 60))"

definition name_text :: "byte list \<Rightarrow> byte list" where
  "name_text n = (if list_all (\<lambda>c. isalpha (uint c) \<noteq> 0) n then n else [60] @ n @ [62])"

definition rule_text :: "tzrule \<Rightarrow> byte list" where
  "rule_text r = (case r_type r of
       tzrule_jday \<Rightarrow> [74] @ dec (nat (r_day r))
     | tzrule_yday \<Rightarrow> dec (nat (r_day r))
     | tzrule_mweek \<Rightarrow> [77] @ dec (nat (r_month r)) @ [46] @ dec (nat (r_week r)) @ [46] @ dec (nat (r_day r))) @
     [47] @ hms (r_time r)"

definition tz_text :: "byte list \<Rightarrow> int \<Rightarrow> (byte list \<times> int \<times> tzrule \<times> tzrule) option \<Rightarrow> byte list" where
  "tz_text std off dst = name_text std @ hms off @ (case dst of None \<Rightarrow> []
     | Some (name, doff, r0, r1) \<Rightarrow> name_text name @ hms doff @ [44] @ rule_text r0 @ [44] @ rule_text r1)"

definition name_ok :: "byte list \<Rightarrow> bool" where
  "name_ok n \<longleftrightarrow> 3 \<le> length n \<and> length n \<le> TZ_NAME_MAX \<and>
     list_all (\<lambda>c. isalnum (uint c) \<noteq> 0 \<or> c = 43 \<or> c = 45) n"

text \<open>A rule whose unused fields are 0 and whose time the syntax can express.\<close>

definition rule_canonical :: "tzrule \<Rightarrow> bool" where
  "rule_canonical r \<longleftrightarrow> rule_ok r \<and> \<bar>r_time r\<bar> < 168 * 3600 \<and>
     (r_type r \<noteq> tzrule_mweek \<longrightarrow> r_week r = 0 \<and> r_month r = 0)"

definition stops :: "(int \<Rightarrow> int) \<Rightarrow> byte list \<Rightarrow> bool" where
  "stops P r \<longleftrightarrow> (\<exists>d. peek r = Some d \<and> P (uint d) = 0)"

lemma peek_Cons [simp]: "peek (c # s) = Some c"
  by (simp add: peek_def)

lemma digit_byte: "48 \<le> uint c \<and> uint c \<le> 57 \<Longrightarrow> isdigit (uint c) \<noteq> 0 \<and> uint c - 48 = int (digit_of c)"
  for c :: byte
proof -
  assume c: "48 \<le> uint c \<and> uint c \<le> 57"
  have "uint c = int (unat c)" by simp
  with c have "48 \<le> unat c" "unat c \<le> 57" by presburger+
  then have "uint c - 48 = int (digit_of c)" by (simp add: digit_of_def Let_def of_nat_diff)
  with c show ?thesis by (simp add: ctype_defs)
qed

lemma num_loop_digits:
  "ds \<noteq> [] \<Longrightarrow> \<forall>c\<in>set ds. 48 \<le> uint c \<and> uint c \<le> 57 \<Longrightarrow> stops isdigit r \<Longrightarrow>
   int (horner 10 v (map digit_of ds)) \<le> limit \<Longrightarrow>
   num_loop (ds @ r) limit (int v) = Some (Some (r, int (horner 10 v (map digit_of ds))))"
proof (induction ds arbitrary: v)
  case (Cons c ds)
  let ?v = "v * 10 + digit_of c"
  have c: "uint c - 48 = int (digit_of c)" using digit_byte [of c] Cons.prems by simp
  have h: "horner 10 v (map digit_of (c # ds)) = horner 10 ?v (map digit_of ds)" by (simp add: horner_def)
  then have "int ?v \<le> limit" using Cons.prems(4) horner_mono [of 10 ?v "map digit_of ds"] by simp
  then have step: "num_loop ((c # ds) @ r) limit (int v) = do {
        d \<leftarrow> peek (ds @ r);
        if isdigit (uint d) \<noteq> 0 then num_loop (ds @ r) limit (int ?v) else Some (Some (ds @ r, int ?v)) }"
  proof -
    have "int v * 10 + (uint c - 48) = int ?v" by (simp add: c)
    moreover from this \<open>int ?v \<le> limit\<close> have "\<not> int v * 10 + (uint c - 48) > limit" by linarith
    ultimately show ?thesis unfolding append_Cons num_loop.simps(2) Let_def by (simp only: if_False)
  qed
  show ?case
  proof (cases ds)
    case Nil
    then show ?thesis using step Cons.prems(3) h by (auto simp: stops_def horner_def)
  next
    case (Cons d ds')
    then have "num_loop ((c # ds) @ r) limit (int v) = num_loop (ds @ r) limit (int ?v)"
      using step digit_byte [of d] Cons.prems(2) by simp
    then show ?thesis using Cons.IH [of ?v] Cons Cons.prems h by simp
  qed
qed simp

lemma tz_parseNum_dec:
  assumes "int n \<le> limit" and "stops isdigit r"
  shows "tz_parseNum (dec n @ r) limit = Some (Some (r, int n))"
proof -
  obtain c ds where cs: "dec n = c # ds" using dec_nonempty by (cases "dec n") auto
  have dg: "\<forall>c\<in>set (dec n). 48 \<le> uint c \<and> uint c \<le> 57" using dec_uint by blast
  have "isdigit (uint c) \<noteq> 0" using digit_byte [of c] dg cs by simp
  then have "tz_parseNum (dec n @ r) limit = num_loop (dec n @ r) limit 0"
    by (simp add: tz_parseNum_def cs)
  also have "\<dots> = Some (Some (r, int n))"
    using num_loop_digits [OF dec_nonempty dg assms(2), of 0 limit] assms(1) by (simp add: dec_horner)
  finally show ?thesis .
qed


lemma stops_Cons [simp]: "stops P (c # s) \<longleftrightarrow> P (uint c) = 0"
  by (simp add: stops_def)

lemma digit_not_sign: "48 \<le> uint c \<Longrightarrow> c \<noteq> 43 \<and> c \<noteq> (45 :: byte)"
  by auto

lemma tz_parseTime_hms:
  assumes "\<bar>t\<bar> < (h + 1) * 3600" and "stops isdigit r"
  shows "tz_parseTime (hms t @ r) h = Some (Some (r, t))"
proof -
  define n where "n = nat \<bar>t\<bar>"
  define s where "s = dec (n div 3600) @ [58] @ dec (n mod 3600 div 60) @ [58] @ dec (n mod 60) @ r"
  have n: "int (n div 3600) \<le> h" "int (n mod 3600 div 60) \<le> 59" "int (n mod 60) \<le> 59"
  proof -
    have "int (n div 3600) = \<bar>t\<bar> div 3600" by (simp add: n_def zdiv_int)
    also have "\<dots> \<le> h"
    proof -
      have "x \<le> h" if "x * 3600 + y = z" "0 \<le> y" "z < (h + 1) * 3600" for x y z :: int
      proof (rule ccontr)
        assume "\<not> x \<le> h"
        then have "(h + 1) * 3600 \<le> x * 3600" by (intro mult_right_mono) simp_all
        with that show False by simp
      qed
      from this [OF _ _ assms(1), of "\<bar>t\<bar> div 3600" "\<bar>t\<bar> mod 3600"] show ?thesis by simp
    qed
    finally show "int (n div 3600) \<le> h" .
    show "int (n mod 3600 div 60) \<le> 59" "int (n mod 60) \<le> 59" by linarith+
  qed
  have sum: "int (n div 3600) * 3600 + int (n mod 3600 div 60) * 60 + int (n mod 60) = \<bar>t\<bar>"
  proof -
    have "n div 3600 * 3600 + n mod 3600 div 60 * 60 + n mod 60 = n"
    proof -
      have "n mod 60 = n mod 3600 mod 60" by (simp add: mod_mod_cancel)
      then show ?thesis by simp
    qed
    then have "int (n div 3600 * 3600 + n mod 3600 div 60 * 60 + n mod 60) = int n" by presburger
    then show ?thesis by (simp add: n_def)
  qed
  obtain c ds where cs: "dec (n div 3600) = c # ds" using dec_nonempty by (cases "dec (n div 3600)") auto
  have c: "c \<noteq> 43" "c \<noteq> 45" using digit_not_sign [of c] dec_uint [of c "n div 3600"] cs by simp_all
  have peek: "peek (hms t @ r) = Some (if t < 0 then 45 else c)"
    by (simp add: hms_def n_def [symmetric] cs Let_def)
  have s: "(if (if t < 0 then 45 else c) = 43 \<or> (if t < 0 then 45 else c) = (45 :: byte) then tl (hms t @ r)
      else hms t @ r) = s"
    using c by (simp add: hms_def n_def [symmetric] s_def Let_def)
  have sign: "(if (if t < 0 then 45 else c) = (45 :: byte) then - 1 else 1) = (if t < 0 then - 1 else 1 :: int)"
    using c by simp
  have d58: "isdigit 58 = 0" by (simp add: ctype_defs)
  have k1: "tz_parseNum s h = Some (Some ([58] @ dec (n mod 3600 div 60) @ [58] @ dec (n mod 60) @ r, int (n div 3600)))"
    unfolding s_def by (rule tz_parseNum_dec [OF n(1)]) (simp add: d58)
  have k2: "tz_parseNum (dec (n mod 3600 div 60) @ 58 # dec (n mod 60) @ r) 59 =
      Some (Some ([58] @ dec (n mod 60) @ r, int (n mod 3600 div 60)))"
    using tz_parseNum_dec [OF n(2), of "58 # dec (n mod 60) @ r"] d58 by simp
  have k3: "tz_parseNum (dec (n mod 60) @ r) 59 = Some (Some (r, int (n mod 60)))"
    by (rule tz_parseNum_dec [OF n(3) assms(2)])
  have "tz_parseTime (hms t @ r) h = Some (Some (r, (if t < 0 then - 1 else 1) *
      (int (n div 3600) * 3600 + int (n mod 3600 div 60) * 60 + int (n mod 60))))"
    unfolding tz_parseTime_def peek bind.bind_lunit Let_def s sign k1
    by (simp add: on_parse_def tz_sexagesimal_def k2 k3)
  then show ?thesis by (simp add: sum)
qed

lemma skip_alpha_text:
  "list_all (\<lambda>c. isalpha (uint c) \<noteq> 0) n \<Longrightarrow> stops isalpha r \<Longrightarrow> skip_alpha (n @ r) = Some r"
  by (induction n) (auto simp: stops_def peek_def split: list.splits)

lemma skip_quoted_text:
  "list_all (\<lambda>c. isalnum (uint c) \<noteq> 0 \<or> c = 43 \<or> c = 45) n \<Longrightarrow> skip_quoted (n @ 62 # r) = Some (62 # r)"
  by (induction n) (auto simp: ctype_defs)

lemma tz_parseName_text:
  assumes "name_ok n" and "stops isalpha r"
  shows "tz_parseName (name_text n @ r) = Some (Some (r, n))"
proof (cases "list_all (\<lambda>c. isalpha (uint c) \<noteq> 0) n")
  case True
  obtain c n' where n: "n = c # n'" using assms(1) by (cases n) (auto simp: name_ok_def)
  have "c \<noteq> 60" using True n by (auto simp: ctype_defs)
  moreover have "skip_alpha (n @ r) = Some r" by (rule skip_alpha_text [OF True assms(2)])
  ultimately show ?thesis using True assms(1) n
    by (simp add: name_text_def tz_parseName_def name_ok_def)
next
  case False
  have "skip_quoted (n @ 62 # r) = Some (62 # r)"
    by (rule skip_quoted_text) (use assms(1) in \<open>simp add: name_ok_def\<close>)
  moreover have "name_text n = 60 # n @ [62]" using False by (simp add: name_text_def)
  ultimately show ?thesis using assms(1) by (simp add: tz_parseName_def name_ok_def Let_def)
qed


lemma d_stop: "isdigit 46 = 0" "isdigit 47 = 0" "isdigit 44 = 0"
  "isdigit 60 = 0" "isdigit 0 = 0" "isdigit 74 = 0"
  "isdigit 77 = 0"
  by (simp_all add: ctype_defs)

lemma tz_ruleTime_hms:
  assumes "\<bar>t\<bar> < 168 * 3600" and "stops isdigit r"
  shows "tz_ruleTime (47 # hms t @ r) rule = Some (Some (r, rule\<lparr>r_time := t\<rparr>))"
  using tz_parseTime_hms [of t 167 r] assms by (simp add: tz_ruleTime_def on_parse_def Let_def)

lemma tz_parseRule_text:
  assumes "rule_canonical rl" and "stops isdigit r"
  shows "tz_parseRule (rule_text rl @ r) zero_rule = Some (Some (r, rl))"
proof -
  have t: "\<bar>r_time rl\<bar> < 168 * 3600" using assms(1) by (simp add: rule_canonical_def)
  note rt = tz_ruleTime_hms [OF t assms(2)]
  show ?thesis
  proof (cases "r_type rl")
    case tzrule_jday
    then have rl: "1 \<le> r_day rl" "r_day rl \<le> 365" "r_week rl = 0" "r_month rl = 0"
      using assms(1) by (simp_all add: rule_canonical_def rule_ok_def)
    then have "tz_parseNum (dec (nat (r_day rl)) @ 47 # hms (r_time rl) @ r) 365 =
        Some (Some (47 # hms (r_time rl) @ r, r_day rl))"
      using tz_parseNum_dec [of "nat (r_day rl)" 365 "47 # hms (r_time rl) @ r"] d_stop by simp
    then show ?thesis using rl tzrule_jday
      by (simp add: rule_text_def tz_parseRule_def on_parse_def rt zero_rule_def)
  next
    case tzrule_yday
    then have rl: "0 \<le> r_day rl" "r_day rl \<le> 365" "r_week rl = 0" "r_month rl = 0"
      using assms(1) by (simp_all add: rule_canonical_def rule_ok_def)
    then have num: "tz_parseNum (dec (nat (r_day rl)) @ 47 # hms (r_time rl) @ r) 365 =
        Some (Some (47 # hms (r_time rl) @ r, r_day rl))"
      using tz_parseNum_dec [of "nat (r_day rl)" 365 "47 # hms (r_time rl) @ r"] d_stop by simp
    obtain c ds where cs: "dec (nat (r_day rl)) = c # ds" using dec_nonempty by (cases "dec (nat (r_day rl))") auto
    have "uint c \<le> 57" using dec_uint [of c "nat (r_day rl)"] cs by simp
    then have "c \<noteq> 74" "c \<noteq> 77" by auto
    moreover have "rule_text rl @ r = c # ds @ 47 # hms (r_time rl) @ r"
      using tzrule_yday by (simp add: rule_text_def cs)
    ultimately show ?thesis using rl tzrule_yday num
      by (simp add: tz_parseRule_def on_parse_def rt zero_rule_def cs)
  next
    case tzrule_mweek
    then have rl: "0 \<le> r_day rl" "r_day rl \<le> 6" "1 \<le> r_week rl" "r_week rl \<le> 5" "1 \<le> r_month rl" "r_month rl \<le> 12"
      using assms(1) by (simp_all add: rule_canonical_def rule_ok_def)
    define s3 where "s3 = 47 # hms (r_time rl) @ r"
    have n: "tz_parseNum (dec (nat (r_month rl)) @ 46 # dec (nat (r_week rl)) @ 46 # dec (nat (r_day rl)) @ s3) 12 =
        Some (Some (46 # dec (nat (r_week rl)) @ 46 # dec (nat (r_day rl)) @ s3, r_month rl))"
      "tz_parseNum (dec (nat (r_week rl)) @ 46 # dec (nat (r_day rl)) @ s3) 5 =
        Some (Some (46 # dec (nat (r_day rl)) @ s3, r_week rl))"
      "tz_parseNum (dec (nat (r_day rl)) @ s3) 6 = Some (Some (s3, r_day rl))"
      using rl tz_parseNum_dec [of "nat (r_month rl)" 12 "46 # dec (nat (r_week rl)) @ 46 # dec (nat (r_day rl)) @ s3"]
        tz_parseNum_dec [of "nat (r_week rl)" 5 "46 # dec (nat (r_day rl)) @ s3"]
        tz_parseNum_dec [of "nat (r_day rl)" 6 s3] d_stop by (simp_all add: s3_def)
    have "rule_text rl @ r = 77 # dec (nat (r_month rl)) @ 46 # dec (nat (r_week rl)) @ 46 # dec (nat (r_day rl)) @ s3"
      using tzrule_mweek by (simp add: rule_text_def s3_def)
    then show ?thesis using rl tzrule_mweek
      by (simp add: tz_parseRule_def on_parse_def n s3_def [symmetric] rt [folded s3_def] zero_rule_def)
  qed
qed

lemma rule_text_no_digit: "stops isdigit (44 # s)" "stops isdigit [0]" "stops isalpha [0]"
  by (simp_all add: ctype_defs)

lemma hms_no_alpha: "stops isalpha (hms t @ r)"
proof -
  obtain c ds where cs: "dec (nat \<bar>t\<bar> div 3600) = c # ds" using dec_nonempty by (cases "dec (nat \<bar>t\<bar> div 3600)") auto
  have "48 \<le> uint c \<and> uint c \<le> 57" using dec_uint [of c "nat \<bar>t\<bar> div 3600"] cs by simp
  then show ?thesis by (auto simp: hms_def Let_def cs ctype_defs)
qed

lemma name_no_digit: "name_ok n \<Longrightarrow> stops isdigit (name_text n @ r)"
  by (cases n) (auto simp: name_text_def name_ok_def ctype_defs)


definition dst_ok :: "(byte list \<times> int \<times> tzrule \<times> tzrule) option \<Rightarrow> bool" where
  "dst_ok dst = (case dst of None \<Rightarrow> True | Some (name, off, r0, r1) \<Rightarrow>
     name_ok name \<and> \<bar>off\<bar> < 25 * 3600 \<and> rule_canonical r0 \<and> rule_canonical r1)"

lemma name_text_start:
  assumes "name_ok n"
  obtains c s where "name_text n = c # s" "c \<noteq> 0" "c \<noteq> 44" "c \<noteq> 58"
proof (cases "list_all (\<lambda>c. isalpha (uint c) \<noteq> 0) n")
  case True
  obtain c n' where n: "n = c # n'" using assms by (cases n) (auto simp: name_ok_def)
  then have "c \<noteq> 0" "c \<noteq> 44" "c \<noteq> 58" using True by (auto simp: ctype_defs)
  with that True n show thesis by (simp add: name_text_def)
next
  case False
  then have "name_text n = 60 # n @ [62]" by (simp add: name_text_def)
  with that show thesis by simp
qed

lemma tz_parseDst_text:
  assumes "name_ok n" and "\<bar>off\<bar> < 25 * 3600" and "rule_canonical r0" and "rule_canonical r1"
  shows "tz_parseDst (name_text n @ hms off @ [44] @ rule_text r0 @ [44] @ rule_text r1 @ [0]) std =
    Some (Some (n, - off, r0, r1))"
proof -
  define tail where "tail = 44 # rule_text r0 @ 44 # rule_text r1 @ [0]"
  obtain c s where cs: "name_text n = c # s" "c \<noteq> 0" using assms(1) by (rule name_text_start)
  have name: "tz_parseName (name_text n @ hms off @ tail) = Some (Some (hms off @ tail, n))"
    by (rule tz_parseName_text [OF assms(1) hms_no_alpha])
  obtain d ds where d: "hms off @ tail = d # ds" "d \<noteq> 44" "d \<noteq> 0"
  proof -
    obtain e es where es: "dec (nat \<bar>off\<bar> div 3600) = e # es" using dec_nonempty
      by (cases "dec (nat \<bar>off\<bar> div 3600)") auto
    have "48 \<le> uint e" using dec_uint [of e "nat \<bar>off\<bar> div 3600"] es by simp
    then have "e \<noteq> 44" "e \<noteq> 0" by auto
    moreover obtain ds where "hms off @ tail = (if off < 0 then 45 else e) # ds"
    proof -
      define rest where "rest = es @ 58 # dec (nat \<bar>off\<bar> mod 3600 div 60) @ 58 # dec (nat \<bar>off\<bar> mod 60) @ tail"
      have "hms off @ tail = (if off < 0 then 45 else e) # (if off < 0 then e # rest else rest)"
        by (simp add: hms_def Let_def es rest_def)
      then show thesis by (rule that)
    qed
    ultimately show thesis using that by (cases "off < 0") simp_all
  qed
  have time: "tz_parseTime (hms off @ tail) 24 = Some (Some (tail, off))"
    by (rule tz_parseTime_hms) (use assms(2) in \<open>simp_all add: tail_def ctype_defs\<close>)
  have "tz_parseRule (rule_text r0 @ 44 # rule_text r1 @ [0]) zero_rule = Some (Some (44 # rule_text r1 @ [0], r0))"
    "tz_parseRule (rule_text r1 @ [0]) zero_rule = Some (Some ([0], r1))"
    by (intro tz_parseRule_text assms rule_text_no_digit)+
  then have rules: "tz_parseRules tail = Some (Some (r0, r1))"
    by (simp add: tz_parseRules_def tail_def on_parse_def)
  have p: "peek (name_text n @ hms off @ tail) = Some c" "peek (hms off @ tail) = Some d"
    using cs d by simp_all
  have "tz_parseDst (name_text n @ hms off @ tail) std = Some (Some (n, - off, r0, r1))"
    using cs(2) d(2,3) by (simp add: tz_parseDst_def p name on_parse_def time rules)
  then show ?thesis by (simp add: tail_def)
qed

text \<open>
  C9. The parser reads back what the syntax says: for every zone written as
  \<open>std offset [dst offset,start/time,end/time]\<close>, with plain or quoted names, offsets to the second up to
  24 hours and rules of all three kinds with times of any sign, the result holds exactly its names,
  its offsets (east of UTC) and its rules.
\<close>

theorem tz_parse_text:
  assumes "name_ok std" and "\<bar>off\<bar> < 25 * 3600" and "dst_ok dst"
  shows "tz_parse (tz_text std off dst @ [0]) = Some (case dst of
      None \<Rightarrow> zero_info\<lparr>tz_offset := [- off, - off], tz_name := [std, std]\<rparr>
    | Some (name, doff, r0, r1) \<Rightarrow> zero_info\<lparr>tz_offset := [- off, - doff], tz_hasdst := True,
        tz_rule := [r0, r1], tz_name := [std, name]\<rparr>)"
proof -
  define tail where "tail = (case dst of None \<Rightarrow> []
     | Some (name, doff, r0, r1) \<Rightarrow> name_text name @ hms doff @ [44] @ rule_text r0 @ [44] @ rule_text r1) @ [0]"
  have tx: "tz_text std off dst @ [0] = name_text std @ hms off @ tail"
    by (simp add: tz_text_def tail_def)
  obtain c s where cs: "name_text std = c # s" "c \<noteq> 58" using assms(1) by (rule name_text_start)
  have name: "tz_parseName (name_text std @ hms off @ tail) = Some (Some (hms off @ tail, std))"
    by (rule tz_parseName_text [OF assms(1) hms_no_alpha])
  have "stops isdigit tail"
    using assms(3) by (auto simp: tail_def dst_ok_def d_stop name_no_digit split: option.splits)
  then have time: "tz_parseTime (hms off @ tail) 24 = Some (Some (tail, off))"
    using assms(2) by (intro tz_parseTime_hms) simp_all
  have dst: "tz_parseDst tail (- off) =
      Some (map_option (\<lambda>(name, doff, r0, r1). (name, - doff, r0, r1)) dst)"
  proof (cases dst)
    case None
    then show ?thesis by (simp add: tail_def tz_parseDst_def)
  next
    case (Some x)
    obtain n o' r0 r1 where x: "x = (n, o', r0, r1)" by (cases x)
    with Some assms(3) have "name_ok n" "\<bar>o'\<bar> < 25 * 3600" "rule_canonical r0" "rule_canonical r1"
      by (simp_all add: dst_ok_def)
    from tz_parseDst_text [OF this] show ?thesis by (simp add: tail_def Some x)
  qed
  have p: "peek (name_text std @ hms off @ tail) = Some c" using cs by simp
  show ?thesis
    unfolding tx using cs(2)
    by (simp add: tz_parse_def p name on_parse_def time dst split: option.splits)
qed

theorem tz_parse_text_witness:
  "tz_parse (tz_text (str ''CET'') (- 3600) None @ [0]) =
    Some (zero_info\<lparr>tz_offset := [- (- 3600), - (- 3600)], tz_name := [str ''CET'', str ''CET'']\<rparr>)"
proof -
  have "name_ok (str ''CET'')" by (simp add: name_ok_def str_def TZ_NAME_MAX_def ctype_defs)
  from tz_parse_text [OF this, of "- 3600" None] show ?thesis by (simp add: dst_ok_def)
qed

subsection \<open>The shared state\<close>

record tz_common =
  t_cached :: bool
  t_tz :: "byte list"
  t_info :: tzinfo
  t_nzones :: nat
  t_nextZone :: nat
  t_zones :: "byte list list"
  t_timezone :: int
  t_daylight :: bool

function find_zone :: "byte list list \<Rightarrow> byte list \<Rightarrow> nat \<Rightarrow> nat \<Rightarrow> nat option" where
  "find_zone zones name i n =
     (if i < n then if zones ! i = name then Some i else find_zone zones name (Suc i) n else None)"
  by pat_completeness auto
termination
  by (relation "measure (\<lambda>(zones, name, i, n). n - i)") auto

declare find_zone.simps [simp del]

definition tz_intern :: "byte list \<Rightarrow> tz_common \<Rightarrow> nat \<times> tz_common" where
  "tz_intern name s =
     (case find_zone (t_zones s) name 0 (t_nzones s) of
        Some i \<Rightarrow> (i, s)
      | None \<Rightarrow>
          let i = t_nextZone s in
          (i, s\<lparr>t_nextZone := (i + 1) mod TZ_ZONES,
                t_nzones := (if t_nzones s < TZ_ZONES then t_nzones s + 1 else t_nzones s),
                t_zones := (t_zones s)[i := name]\<rparr>))"

text \<open>\<open>env\<close> is what \<open>getenv("TZ")\<close> returns.\<close>

definition tz_update :: "byte list option \<Rightarrow> tz_common \<Rightarrow> tz_common option" where
  "tz_update env s =
     (let tz = (case env of None \<Rightarrow> [] | Some v \<Rightarrow> v) in
      if t_cached s \<and> tz = t_tz s then Some s
      else do {
        info \<leftarrow> tz_parse (tz @ [0]);
        let (z0, s) = tz_intern (tz_name info ! 0) s;
        let (z1, s) = tz_intern (tz_name info ! 1) s;
        let s = s\<lparr>t_info := info\<lparr>tz_zone := [Zone_slot z0, Zone_slot z1]\<rparr>\<rparr>;
        let s = (if length tz < TZ_CACHE_LEN then s\<lparr>t_tz := tz, t_cached := True\<rparr> else s\<lparr>t_cached := False\<rparr>);
        Some (s\<lparr>t_timezone := - (tz_offset (t_info s) ! 0), t_daylight := tz_hasdst (t_info s)\<rparr>) })"

definition tz_get :: "byte list option \<Rightarrow> tz_common \<Rightarrow> (tzinfo \<times> tz_common) option" where
  "tz_get env s = do { s \<leftarrow> tz_update env s; Some (t_info s, s) }"

definition tzset :: "byte list option \<Rightarrow> tz_common \<Rightarrow> tz_common option" where
  "tzset env s = tz_update env s"

definition localtime_r :: "byte list option \<Rightarrow> int \<Rightarrow> tz_common \<Rightarrow> ((errno + tm) \<times> tz_common) option" where
  "localtime_r env timep s = do {
     (info, s) \<leftarrow> tz_get env s;
     r \<leftarrow> tz_localtime info timep;
     Some (r, s) }"

definition mktime :: "byte list option \<Rightarrow> tm \<Rightarrow> tz_common \<Rightarrow> ((int \<times> (errno + tm)) \<times> tz_common) option" where
  "mktime env tp s = do {
     (info, s) \<leftarrow> tz_get env s;
     r \<leftarrow> tz_mktime info tp;
     Some (r, s) }"

definition timelocal :: "byte list option \<Rightarrow> tm \<Rightarrow> tz_common \<Rightarrow> ((int \<times> (errno + tm)) \<times> tz_common) option" where
  "timelocal env tp s = mktime env tp s"


subsection \<open>The state stays coherent with TZ\<close>

definition tz_value :: "byte list option \<Rightarrow> byte list" where
  "tz_value env = (case env of None \<Rightarrow> [] | Some v \<Rightarrow> v)"

definition info_of :: "tzinfo \<Rightarrow> tzinfo \<Rightarrow> bool" where
  "info_of info i \<longleftrightarrow> (\<exists>a b. a < TZ_ZONES \<and> b < TZ_ZONES \<and> i = info\<lparr>tz_zone := [Zone_slot a, Zone_slot b]\<rparr>)"

definition table_inv :: "tz_common \<Rightarrow> bool" where
  "table_inv s \<longleftrightarrow> length (t_zones s) = TZ_ZONES \<and> t_nzones s \<le> TZ_ZONES \<and> t_nextZone s < TZ_ZONES \<and>
     (t_nzones s < TZ_ZONES \<longrightarrow> t_nextZone s = t_nzones s)"

definition tz_inv :: "tz_common \<Rightarrow> bool" where
  "tz_inv s \<longleftrightarrow> table_inv s \<and>
     (t_cached s \<longrightarrow> (\<exists>info. tz_parse (t_tz s @ [0]) = Some info \<and> info_of info (t_info s)) \<and>
        t_timezone s = - (tz_offset (t_info s) ! 0) \<and> t_daylight s = tz_hasdst (t_info s))"

text \<open>The slots \<open>tm_zone\<close> is taken from hold the names of the zone.\<close>

definition zones_ok :: "tz_common \<Rightarrow> bool" where
  "zones_ok s \<longleftrightarrow> (\<exists>a b. tz_zone (t_info s) = [Zone_slot a, Zone_slot b] \<and>
     t_zones s ! a = tz_name (t_info s) ! 0 \<and> t_zones s ! b = tz_name (t_info s) ! 1)"

lemma find_zone_Some: "find_zone zones name i n = Some k \<Longrightarrow> k < n \<and> zones ! k = name"
  by (induction zones name i n rule: find_zone.induct) (subst (asm) find_zone.simps, auto split: if_splits)

text \<open>What one call does to the table: the new slot and the counters, and the slots in use are kept.\<close>

definition interned :: "byte list \<Rightarrow> tz_common \<Rightarrow> nat \<Rightarrow> tz_common \<Rightarrow> bool" where
  "interned name s i s' \<longleftrightarrow> s' = s\<lparr>t_nextZone := t_nextZone s', t_nzones := t_nzones s', t_zones := t_zones s'\<rparr> \<and>
     t_zones s' ! i = name \<and> i < t_nzones s' \<and> t_nzones s \<le> t_nzones s' \<and> t_nzones s' \<le> t_nzones s + 1 \<and>
     (t_nzones s < TZ_ZONES \<longrightarrow> (\<forall>j<t_nzones s. t_zones s' ! j = t_zones s ! j))"

lemma tz_intern_spec:
  assumes inv: "table_inv s" and r: "tz_intern name s = (i, s')"
  shows "interned name s i s'" and "table_inv s'"
proof -
  have "interned name s i s' \<and> table_inv s'"
  proof (cases "find_zone (t_zones s) name 0 (t_nzones s)")
    case (Some k)
    with r find_zone_Some [OF this] inv show ?thesis
      by (auto simp: tz_intern_def interned_def)
  next
    case None
    have pos: "0 < TZ_ZONES" by (simp add: TZ_ZONES_def)
    show ?thesis
      using r None inv pos by (auto simp: tz_intern_def interned_def table_inv_def Let_def)
  qed
  then show "interned name s i s'" and "table_inv s'" by simp_all
qed

lemma tz_update_spec:
  assumes inv: "tz_inv s"
  shows "\<exists>s' info. tz_update env s = Some s' \<and> tz_inv s' \<and> tz_parse (tz_value env @ [0]) = Some info \<and>
    info_of info (t_info s') \<and> t_timezone s' = - (tz_offset info ! 0) \<and> t_daylight s' = tz_hasdst info \<and>
    (length (tz_value env) < TZ_CACHE_LEN \<longrightarrow> tz_update env s' = Some s') \<and>
    (t_nzones s \<le> TZ_ZONES - 2 \<and> (t_cached s \<longrightarrow> zones_ok s) \<longrightarrow>
       zones_ok s' \<and> (\<forall>i<t_nzones s. t_zones s' ! i = t_zones s ! i))"
proof (cases "t_cached s \<and> tz_value env = t_tz s")
  case True
  then have "tz_update env s = Some s" by (simp add: tz_update_def tz_value_def)
  moreover obtain info where "tz_parse (t_tz s @ [0]) = Some info" "info_of info (t_info s)"
    "t_timezone s = - (tz_offset (t_info s) ! 0)" "t_daylight s = tz_hasdst (t_info s)"
    using inv True by (auto simp: tz_inv_def)
  moreover have "tz_offset (t_info s) = tz_offset info" "tz_hasdst (t_info s) = tz_hasdst info"
    using calculation(3) by (auto simp: info_of_def)
  ultimately show ?thesis using inv True by auto
next
  case False
  define tz where "tz = tz_value env"
  obtain info where info: "tz_parse (tz @ [0]) = Some info"
    using tz_parse_delivers [of "tz @ [0]"] by (auto simp: in_string_def)
  have s: "table_inv s" using inv by (simp add: tz_inv_def)
  obtain i s1 where 1: "tz_intern (tz_name info ! 0) s = (i, s1)" by fastforce
  obtain i' s2 where 2: "tz_intern (tz_name info ! 1) s1 = (i', s2)" by fastforce
  note t1 = tz_intern_spec [OF s 1]
  note t2 = tz_intern_spec [OF t1(2) 2]
  have lt: "i < TZ_ZONES" "i' < TZ_ZONES"
    using t1 t2 by (auto simp: interned_def table_inv_def)
  define inf where "inf = info\<lparr>tz_zone := [Zone_slot i, Zone_slot i']\<rparr>"
  define s' where "s' = (let s = s2\<lparr>t_info := inf\<rparr>;
     s = (if length tz < TZ_CACHE_LEN then s\<lparr>t_tz := tz, t_cached := True\<rparr> else s\<lparr>t_cached := False\<rparr>)
     in s\<lparr>t_timezone := - (tz_offset (t_info s) ! 0), t_daylight := tz_hasdst (t_info s)\<rparr>)"
  have upd: "tz_update env s = Some s'"
  proof -
    have "(t_cached s \<and> tz = t_tz s) = False" using False by (simp add: tz_def)
    then show ?thesis
      unfolding tz_update_def tz_value_def [symmetric] tz_def [symmetric] Let_def s'_def
      by (simp only: if_False info bind.bind_lunit 1 2 prod.case inf_def)
  qed
  have fields: "t_info s' = inf" "t_zones s' = t_zones s2" "t_nzones s' = t_nzones s2" "t_nextZone s' = t_nextZone s2"
    "t_cached s' \<longleftrightarrow> length tz < TZ_CACHE_LEN" "length tz < TZ_CACHE_LEN \<Longrightarrow> t_tz s' = tz"
    "t_timezone s' = - (tz_offset inf ! 0)" "t_daylight s' = tz_hasdst inf"
    by (simp_all add: s'_def Let_def)
  have inf: "info_of info inf" using lt by (auto simp: info_of_def inf_def)
  have inv': "tz_inv s'" using t2(2) info inf by (auto simp: tz_inv_def table_inv_def fields)
  have again: "length tz < TZ_CACHE_LEN \<longrightarrow> tz_update env s' = Some s'"
    by (simp add: tz_update_def tz_value_def [symmetric] tz_def [symmetric] fields)
  have names: "zones_ok s' \<and> (\<forall>j<t_nzones s. t_zones s' ! j = t_zones s ! j)" if "t_nzones s \<le> TZ_ZONES - 2"
  proof -
    have "t_nzones s < TZ_ZONES" "t_nzones s1 < TZ_ZONES"
      using that t1(1) by (auto simp: TZ_ZONES_def interned_def)
    then show ?thesis
      using t1(1) t2(1) by (auto simp: interned_def zones_ok_def fields) (simp_all add: inf_def)
  qed
  show ?thesis
    using upd inv' info inf again names unfolding tz_def by (auto simp: fields inf_def)
qed


text \<open>The state of a process that has not called any of the functions yet.\<close>

definition tz_init :: tz_common where
  "tz_init = \<lparr>t_cached = False, t_tz = [], t_info = zero_info\<lparr>tz_name := [str ''UTC'', str ''UTC''],
     tz_zone := [Zone_lit (str ''UTC''), Zone_lit (str ''UTC'')]\<rparr>, t_nzones = 0, t_nextZone = 0,
     t_zones = replicate TZ_ZONES [], t_timezone = 0, t_daylight = False\<rparr>"

lemma tz_init_inv: "tz_inv tz_init"
  by (simp add: tz_inv_def table_inv_def tz_init_def TZ_ZONES_def)

text \<open>
  C10. The shared state follows \<open>TZ\<close>: after every update the rules, \<open>timezone\<close> and \<open>daylight\<close> are those of
  the current value, whatever was cached before, and a second update changes nothing. While the table
  of zone names has two free slots the names \<open>tm_zone\<close> points to are right and every name handed out
  before is still in its slot.
\<close>

theorem tz_update_coherent:
  assumes "tz_inv s"
  shows "\<exists>s' info. tz_update env s = Some s' \<and> tz_inv s' \<and> tz_parse (tz_value env @ [0]) = Some info \<and>
    info_of info (t_info s') \<and> t_timezone s' = - (tz_offset info ! 0) \<and> t_daylight s' = tz_hasdst info \<and>
    (length (tz_value env) < TZ_CACHE_LEN \<longrightarrow> tz_update env s' = Some s') \<and>
    (t_nzones s \<le> TZ_ZONES - 2 \<and> (t_cached s \<longrightarrow> zones_ok s) \<longrightarrow>
       zones_ok s' \<and> (\<forall>i<t_nzones s. t_zones s' ! i = t_zones s ! i))"
  using assms by (rule tz_update_spec)

theorem tz_update_coherent_witness:
  "\<exists>s' info. tz_update None tz_init = Some s' \<and> tz_inv s' \<and> tz_parse (tz_value None @ [0]) = Some info \<and>
    info_of info (t_info s') \<and> t_timezone s' = - (tz_offset info ! 0) \<and> t_daylight s' = tz_hasdst info \<and>
    (length (tz_value None) < TZ_CACHE_LEN \<longrightarrow> tz_update None s' = Some s') \<and>
    (t_nzones tz_init \<le> TZ_ZONES - 2 \<and> (t_cached tz_init \<longrightarrow> zones_ok tz_init) \<longrightarrow>
       zones_ok s' \<and> (\<forall>i<t_nzones tz_init. t_zones s' ! i = t_zones tz_init ! i))"
  by (rule tz_update_coherent [OF tz_init_inv])



lemma find_zone_distinct:
  "i \<le> k \<Longrightarrow> k < n \<Longrightarrow> distinct zones \<Longrightarrow> n \<le> length zones \<Longrightarrow> find_zone zones (zones ! k) i n = Some k"
proof (induction zones "zones ! k" i n rule: find_zone.induct)
  case (1 zones i n)
  then show ?case by (subst find_zone.simps) (auto simp: nth_eq_iff_index_eq)
qed

lemma find_zone_None: "name \<notin> set zones \<Longrightarrow> n \<le> length zones \<Longrightarrow> find_zone zones name i n = None"
proof (induction zones name i n rule: find_zone.induct)
  case (1 zones name i n)
  then show ?case by (subst find_zone.simps) auto
qed

text \<open>
  Once the table is full the slot of the standard name can be the one the daylight saving name
  takes over within the same update. Then \<open>tm_zone\<close> of standard time points to a slot that holds the
  name of daylight saving time.
\<close>

theorem tm_zone_overwritten:
  assumes "table_inv s" and "t_nzones s = TZ_ZONES" and "distinct (t_zones s)"
    and "tz_parse (tz_value env @ [0]) = Some info" and "\<not> t_cached s"
    and "tz_name info ! 0 = t_zones s ! t_nextZone s" and "tz_name info ! 1 \<notin> set (t_zones s)"
  shows "\<exists>s'. tz_update env s = Some s' \<and>
    tz_zone (t_info s') = [Zone_slot (t_nextZone s), Zone_slot (t_nextZone s)] \<and>
    t_zones s' ! t_nextZone s = tz_name info ! 1"
proof -
  have "find_zone (t_zones s) (tz_name info ! 0) 0 TZ_ZONES = Some (t_nextZone s)"
    using assms(1,3,6) find_zone_distinct [of 0 "t_nextZone s" TZ_ZONES "t_zones s"] by (simp add: table_inv_def)
  then have 1: "tz_intern (tz_name info ! 0) s = (t_nextZone s, s)" using assms(2) by (simp add: tz_intern_def)
  have "find_zone (t_zones s) (tz_name info ! 1) 0 TZ_ZONES = None"
    using assms(1,7) by (intro find_zone_None) (simp_all add: table_inv_def)
  then have 2: "tz_intern (tz_name info ! 1) s = (t_nextZone s, s\<lparr>t_nextZone := (t_nextZone s + 1) mod TZ_ZONES,
      t_nzones := TZ_ZONES, t_zones := (t_zones s)[t_nextZone s := tz_name info ! 1]\<rparr>)"
    using assms(2) by (simp add: tz_intern_def Let_def)
  have "t_nextZone s < length (t_zones s)" using assms(1) by (simp add: table_inv_def)
  then show ?thesis
    unfolding tz_update_def tz_value_def [symmetric] Let_def using assms(5)
    by (simp add: assms(4) 1 2 [unfolded One_nat_def])
qed

definition full_table :: tz_common where
  "full_table = \<lparr>t_cached = False, t_tz = [], t_info = t_info tz_init, t_nzones = TZ_ZONES, t_nextZone = 0,
     t_zones = map (\<lambda>i. [65, 65, of_nat i]) [65..<97], t_timezone = 0, t_daylight = False\<rparr>"

theorem tm_zone_overwritten_witness:
  "\<exists>s'. tz_update (Some (str ''AAA0BBB'')) full_table = Some s' \<and>
    tz_zone (t_info s') = [Zone_slot (t_nextZone full_table), Zone_slot (t_nextZone full_table)] \<and>
    t_zones s' ! t_nextZone full_table = str ''BBB''"
proof -
  define info where "info = zero_info\<lparr>tz_offset := [0, 3600], tz_hasdst := True, tz_rule := [usStart, usEnd],
      tz_name := [str ''AAA'', str ''BBB'']\<rparr>"
  have "tz_parse (tz_value (Some (str ''AAA0BBB'')) @ [0]) = Some info"
    unfolding info_def by code_simp
  moreover have "distinct (t_zones full_table)"
  proof -
    have "inj_on (\<lambda>i. [65, 65, of_nat i :: byte]) {65..<97}"
    proof (rule inj_onI)
      fix i j :: nat assume ij: "i \<in> {65..<97}" "j \<in> {65..<97}"
        and eq: "[65, 65, of_nat i :: byte] = [65, 65, of_nat j]"
      have "unat (of_nat i :: byte) = i" "unat (of_nat j :: byte) = j"
        using ij by (simp_all add: unat_of_nat_small)
      moreover have "(of_nat i :: byte) = of_nat j" using eq by (simp only: list.inject)
      ultimately show "i = j" by metis
    qed
    then show ?thesis unfolding full_table_def
      by (simp only: tz_common.select_convs distinct_map distinct_upt set_upt simp_thms)
  qed
  moreover have "str ''BBB'' \<notin> set (t_zones full_table)" "str ''AAA'' = t_zones full_table ! 0"
    by (auto simp: full_table_def str_def)
  ultimately show ?thesis
    using tm_zone_overwritten [of full_table "Some (str ''AAA0BBB'')" info]
    by (simp add: full_table_def table_inv_def tz_init_def info_def TZ_ZONES_def)
qed

end
