(* ===== verification/MemStream.thy ===== *)
theory MemStream
  imports CMem
begin

section \<open>Memory streams: stdio/memstream.c\<close>

text \<open>
  The descriptor primitives behind \<open>open_memstream\<close> and \<open>fmemopen\<close>. The buffer is an object of its
  own: its address and the list of its bytes. \<open>size_t\<close> values are natural numbers below $2^{64}$ (the
  tests of the code keep sums in range), \<open>off_t\<close> values are integers. A result \<open>Inl\<close> is the -1 of
  the code with the value it leaves in \<open>errno\<close>. \<open>realloc\<close>, \<open>calloc\<close> and \<open>_file_openOps\<close>
  are parameters: the address they return for a size, 0 for NULL.
\<close>

subsection \<open>The code\<close>

datatype whence = SEEK_SET | SEEK_CUR | SEEK_END | SEEK_BAD

definition SSIZE_MAX :: nat where "SSIZE_MAX = 9223372036854775807"

text \<open>Conversions between \<open>size_t\<close> and \<open>off_t\<close>.\<close>

definition off_of :: "nat \<Rightarrow> int" where
  "off_of n = signed_take_bit 63 (int n)"

definition size_of :: "int \<Rightarrow> nat" where
  "size_of i = nat (i mod 2 ^ 64)"

definition memstream_seekTo :: "nat \<Rightarrow> nat \<Rightarrow> nat \<Rightarrow> int \<Rightarrow> whence \<Rightarrow> errno + int" where
  "memstream_seekTo pos len limit off wh =
     (case (case wh of SEEK_SET \<Rightarrow> Some 0 | SEEK_CUR \<Rightarrow> Some (off_of pos) | SEEK_END \<Rightarrow> Some (off_of len)
            | SEEK_BAD \<Rightarrow> None) of
        None \<Rightarrow> Inl EINVAL
      | Some base \<Rightarrow>
          if off < - base \<or> off > 0 \<and> size_of off > size_of (int limit - int (size_of base))
          then Inl EINVAL else Inr (base + off))"

record memstream =
  ms_bufp :: addr
  ms_sizep :: nat
  ms_buf :: addr
  ms_data :: "byte list"
  ms_cap :: nat
  ms_len :: nat
  ms_pos :: nat

definition memstream_publish :: "memstream \<Rightarrow> memstream" where
  "memstream_publish ms = ms\<lparr>ms_bufp := ms_buf ms,
     ms_sizep := (if ms_pos ms < ms_len ms then ms_pos ms else ms_len ms)\<rparr>"

text \<open>Copying bytes into an object; outside of it there is no defined result.\<close>

definition overwrite :: "byte list \<Rightarrow> nat \<Rightarrow> byte list \<Rightarrow> byte list option" where
  "overwrite buf p bs =
     (if p + length bs \<le> length buf then Some (take p buf @ bs @ drop (p + length bs) buf) else None)"

text \<open>The growth of the buffer: the new object keeps the old bytes, the rest is cleared.\<close>

definition memstream_grow :: "(nat \<Rightarrow> addr) \<Rightarrow> memstream \<Rightarrow> nat \<Rightarrow> memstream option" where
  "memstream_grow realloc ms end =
     (if end \<ge> ms_cap ms then
        let ncap = (if ms_cap ms \<le> SSIZE_MAX div 2 then 2 * ms_cap ms else SSIZE_MAX);
            ncap = (if ncap \<le> end then end + 1 else ncap);
            nbuf = realloc ncap
        in if nbuf = NULL then None
           else Some (ms\<lparr>ms_buf := nbuf, ms_cap := ncap,
             ms_data := take ncap (ms_data ms) @ replicate (ncap - ms_cap ms) 0\<rparr>)
      else Some ms)"

definition memstream_write :: "(nat \<Rightarrow> addr) \<Rightarrow> memstream \<Rightarrow> byte list \<Rightarrow> (memstream \<times> (errno + nat)) option" where
  "memstream_write realloc ms data =
     (let sz = length data in
      if sz > SSIZE_MAX \<or> ms_pos ms > SSIZE_MAX - sz then Some (ms, Inl EFBIG)
      else
        let end = ms_pos ms + sz in
        case memstream_grow realloc ms end of
          None \<Rightarrow> Some (ms, Inl ENOMEM)
        | Some ms \<Rightarrow> do {
            buf \<leftarrow> overwrite (ms_data ms) (ms_pos ms) data;
            let ms = ms\<lparr>ms_data := buf, ms_pos := end\<rparr>;
            let ms = (if end > ms_len ms then ms\<lparr>ms_len := end\<rparr> else ms);
            Some (memstream_publish ms, Inr sz) })"

definition memstream_seek :: "memstream \<Rightarrow> int \<Rightarrow> whence \<Rightarrow> memstream \<times> (errno + int)" where
  "memstream_seek ms off wh =
     (case memstream_seekTo (ms_pos ms) (ms_len ms) SSIZE_MAX off wh of
        Inl e \<Rightarrow> (ms, Inl e)
      | Inr npos \<Rightarrow>
          if npos \<ge> 0 then (memstream_publish (ms\<lparr>ms_pos := size_of npos\<rparr>), Inr npos) else (ms, Inr npos))"

text \<open>Returns what is left to the caller: the values of \<open>*bufp\<close> and \<open>*sizep\<close> and the buffer.\<close>

definition memstream_close :: "memstream \<Rightarrow> (addr \<times> nat \<times> byte list) option" where
  "memstream_close ms = do {
     let ms = memstream_publish ms;
     buf \<leftarrow> overwrite (ms_data ms) (ms_sizep ms) [0];
     Some (ms_bufp ms, ms_sizep ms, buf) }"

text \<open>
  \<open>bufp_null\<close>: one of the arguments is NULL. \<open>cookie\<close>, \<open>file\<close>: the allocations of the cookie and of
  the \<open>FILE\<close> succeed. \<open>buf\<close>: the address the 64 bytes are allocated at.
\<close>

definition open_memstream :: "bool \<Rightarrow> bool \<Rightarrow> addr \<Rightarrow> bool \<Rightarrow> errno + memstream" where
  "open_memstream args_null cookie buf file =
     (if args_null then Inl EINVAL
      else if \<not> cookie then Inl ENOMEM
      else if buf = NULL then Inl ENOMEM
      else if \<not> file then Inl ENOMEM
      else Inr (memstream_publish \<lparr>ms_bufp = 0, ms_sizep = 0, ms_buf = buf, ms_data = replicate 64 0,
             ms_cap = 64, ms_len = 0, ms_pos = 0\<rparr>))"

record fmemstream =
  fm_buf :: "byte list"
  fm_size :: nat
  fm_len :: nat
  fm_pos :: nat
  fm_append :: bool
  fm_readable :: bool
  fm_owned :: bool

definition fmem_read :: "fmemstream \<Rightarrow> nat \<Rightarrow> (fmemstream \<times> byte list) option" where
  "fmem_read fm sz =
     (if fm_pos fm \<ge> fm_len fm then Some (fm, [])
      else
        let n = fm_len fm - fm_pos fm;
            n = (if n > sz then sz else n)
        in if fm_pos fm + n \<le> length (fm_buf fm)
           then Some (fm\<lparr>fm_pos := fm_pos fm + n\<rparr>, take n (drop (fm_pos fm) (fm_buf fm))) else None)"

definition fmem_write :: "fmemstream \<Rightarrow> byte list \<Rightarrow> (fmemstream \<times> nat) option" where
  "fmem_write fm data =
     (let fm = (if fm_append fm then fm\<lparr>fm_pos := fm_len fm\<rparr> else fm);
          n = (if fm_pos fm < fm_size fm then fm_size fm - fm_pos fm else 0);
          n = (if n > length data then length data else n)
      in if n = 0 then Some (fm, 0)
         else do {
           buf \<leftarrow> overwrite (fm_buf fm) (fm_pos fm) (take n data);
           let fm = fm\<lparr>fm_buf := buf, fm_pos := fm_pos fm + n\<rparr>;
           if fm_pos fm > fm_len fm then do {
             let fm = fm\<lparr>fm_len := fm_pos fm\<rparr>;
             buf \<leftarrow> (if fm_len fm < fm_size fm then overwrite (fm_buf fm) (fm_len fm) [0]
                     else if \<not> fm_readable fm then overwrite (fm_buf fm) (fm_size fm - 1) [0]
                     else Some (fm_buf fm));
             Some (fm\<lparr>fm_buf := buf\<rparr>, n) }
           else Some (fm, n) })"

definition fmem_seek :: "fmemstream \<Rightarrow> int \<Rightarrow> whence \<Rightarrow> fmemstream \<times> (errno + int)" where
  "fmem_seek fm off wh =
     (case memstream_seekTo (fm_pos fm) (fm_len fm) (fm_size fm) off wh of
        Inl e \<Rightarrow> (fm, Inl e)
      | Inr npos \<Rightarrow> if npos \<ge> 0 then (fm\<lparr>fm_pos := size_of npos\<rparr>, Inr npos) else (fm, Inr npos))"

text \<open>Returns whether the buffer is freed with the stream.\<close>

definition fmem_close :: "fmemstream \<Rightarrow> bool" where
  "fmem_close fm = fm_owned fm"

text \<open>
  \<open>buf\<close>: the caller's buffer, \<open>None\<close> for NULL; \<open>mode\<close>: the mode string, \<open>None\<close> for NULL;
  \<open>cookie\<close>, \<open>priv\<close>, \<open>file\<close>: the allocations succeed.
\<close>

definition fmemopen ::
  "byte list option \<Rightarrow> nat \<Rightarrow> byte list option \<Rightarrow> bool \<Rightarrow> bool \<Rightarrow> bool \<Rightarrow> (errno + fmemstream) option" where
  "fmemopen buf sz mode cookie priv file =
     (case mode of
        None \<Rightarrow> Some (Inl EINVAL)
      | Some [] \<Rightarrow> Some (Inl EINVAL)
      | Some (m0 # ms) \<Rightarrow>
          if m0 \<notin> set (str ''rwa'') \<or> sz = 0 then Some (Inl EINVAL)
          else if \<not> cookie then Some (Inl ENOMEM)
          else if buf = None \<and> \<not> priv then Some (Inl ENOMEM)
          else
            let owned = (buf = None);
                b = (case buf of None \<Rightarrow> replicate sz 0 | Some b \<Rightarrow> b);
                readable = (m0 = of_char (CHR ''r'') \<or> of_char (CHR ''+'') \<in> set (m0 # ms));
                fm = \<lparr>fm_buf = b, fm_size = sz, fm_len = 0, fm_pos = 0, fm_append = False,
                      fm_readable = readable, fm_owned = owned\<rparr>
            in do {
              fm \<leftarrow> (if m0 = of_char (CHR ''r'') then Some (fm\<lparr>fm_len := sz\<rparr>)
                     else if m0 = of_char (CHR ''w'') then
                       if readable then do { b \<leftarrow> overwrite b 0 [0]; Some (fm\<lparr>fm_buf := b\<rparr>) } else Some fm
                     else if sz \<le> length b \<or> 0 \<in> set b then
                       let n = length (takeWhile (\<lambda>c. c \<noteq> 0) (take sz b))
                       in Some (fm\<lparr>fm_len := n, fm_pos := n, fm_append := True\<rparr>)
                     else None);
              Some (if \<not> file then Inl ENOMEM else Inr fm) })"


subsection \<open>Seeking\<close>

lemma off_of_id [simp]: "n \<le> SSIZE_MAX \<Longrightarrow> off_of n = int n"
  by (simp add: off_of_def SSIZE_MAX_def signed_take_bit_int_eq_self)

lemma size_of_id [simp]: "0 \<le> i \<Longrightarrow> i \<le> int SSIZE_MAX \<Longrightarrow> size_of i = nat i"
  by (simp add: size_of_def SSIZE_MAX_def)

text \<open>The position a request names, where it has one.\<close>

definition seek_base :: "nat \<Rightarrow> nat \<Rightarrow> whence \<Rightarrow> int option" where
  "seek_base pos len wh =
     (case wh of SEEK_SET \<Rightarrow> Some 0 | SEEK_CUR \<Rightarrow> Some (int pos) | SEEK_END \<Rightarrow> Some (int len) | SEEK_BAD \<Rightarrow> None)"

definition seek_spec :: "nat \<Rightarrow> nat \<Rightarrow> nat \<Rightarrow> int \<Rightarrow> whence \<Rightarrow> errno + int" where
  "seek_spec pos len limit off wh =
     (case seek_base pos len wh of None \<Rightarrow> Inl EINVAL
      | Some base \<Rightarrow> if 0 \<le> base + off \<and> base + off \<le> int limit then Inr (base + off) else Inl EINVAL)"

lemma memstream_seekTo_spec:
  assumes "pos \<le> limit" and "len \<le> limit" and "limit \<le> SSIZE_MAX" and "off \<le> int SSIZE_MAX"
  shows "memstream_seekTo pos len limit off wh = seek_spec pos len limit off wh"
proof -
  have *: "(off < - int b \<or> off > 0 \<and> size_of off > size_of (int limit - int (size_of (int b)))) \<longleftrightarrow>
      \<not> (0 \<le> int b + off \<and> int b + off \<le> int limit)" if "b \<le> limit" for b
  proof -
    have "size_of (int b) = b" using that assms(3) by simp
    moreover have "size_of (int limit - int b) = limit - b" using that assms(3) by (simp add: nat_diff_distrib)
    moreover have "off > 0 \<Longrightarrow> size_of off = nat off" using assms(4) by simp
    ultimately show ?thesis using that by (cases "off > 0") auto
  qed
  show ?thesis
    using *[of 0] *[OF assms(1)] *[OF assms(2)] assms
    by (cases wh) (auto simp: memstream_seekTo_def seek_spec_def seek_base_def)
qed

subsection \<open>The growing stream\<close>

text \<open>The invariant of the code's comment, with what is published.\<close>

definition ms_inv :: "memstream \<Rightarrow> bool" where
  "ms_inv ms \<longleftrightarrow> length (ms_data ms) = ms_cap ms \<and> ms_len ms < ms_cap ms \<and> ms_cap ms \<le> SSIZE_MAX + 1 \<and>
     drop (ms_len ms) (ms_data ms) = replicate (ms_cap ms - ms_len ms) 0 \<and> ms_pos ms \<le> SSIZE_MAX \<and>
     ms_buf ms \<noteq> NULL \<and> ms_bufp ms = ms_buf ms \<and> ms_sizep ms = min (ms_pos ms) (ms_len ms)"

text \<open>A file: its bytes and the position. A write beyond the end leaves a gap of zeros.\<close>

definition file_write :: "byte list \<Rightarrow> nat \<Rightarrow> byte list \<Rightarrow> byte list" where
  "file_write c p bs = take p c @ replicate (p - length c) 0 @ bs @ drop (p + length bs) c"

definition ms_contents :: "memstream \<Rightarrow> byte list" where
  "ms_contents ms = take (ms_len ms) (ms_data ms)"

lemma zero_tail:
  assumes "drop n xs = replicate (length xs - n) 0" and "n \<le> length xs"
  shows "xs = take n xs @ replicate (length xs - n) 0"
  using assms append_take_drop_id [of n xs] by simp

lemma memstream_grow_spec:
  assumes "ms_inv ms" and "fin \<le> SSIZE_MAX"
  shows "(\<exists>ms'. memstream_grow realloc ms fin = Some ms' \<and> fin < ms_cap ms' \<and> ms_cap ms' \<le> SSIZE_MAX + 1 \<and>
      ms_data ms' = ms_data ms @ replicate (ms_cap ms' - ms_cap ms) 0 \<and> ms_cap ms \<le> ms_cap ms' \<and>
      ms_pos ms' = ms_pos ms \<and> ms_len ms' = ms_len ms \<and> ms_buf ms' \<noteq> NULL) \<or>
    memstream_grow realloc ms fin = None \<and> (\<exists>n. realloc n = NULL)"
proof (cases "fin \<ge> ms_cap ms")
  case True
  define ncap where "ncap = (let ncap = (if ms_cap ms \<le> SSIZE_MAX div 2 then 2 * ms_cap ms else SSIZE_MAX)
    in if ncap \<le> fin then fin + 1 else ncap)"
  have inv: "length (ms_data ms) = ms_cap ms" "0 < ms_cap ms" "ms_cap ms \<le> SSIZE_MAX"
    using assms True by (auto simp: ms_inv_def)
  have n: "fin < ncap" "ncap \<le> SSIZE_MAX + 1" "ms_cap ms \<le> ncap"
    using inv assms(2) True by (auto simp: ncap_def Let_def SSIZE_MAX_def)
  have g: "memstream_grow realloc ms fin = (if realloc ncap = NULL then None
      else Some (ms\<lparr>ms_buf := realloc ncap, ms_cap := ncap,
        ms_data := take ncap (ms_data ms) @ replicate (ncap - ms_cap ms) 0\<rparr>))"
    using True by (simp add: memstream_grow_def ncap_def Let_def)
  show ?thesis
  proof (cases "realloc ncap = NULL")
    case True
    then show ?thesis using g by auto
  next
    case False
    then show ?thesis using g n inv by simp
  qed
next
  case False
  then show ?thesis using assms by (simp add: memstream_grow_def ms_inv_def)
qed

lemma memstream_write_spec:
  assumes "ms_inv ms"
  shows "(\<exists>ms'. memstream_write realloc ms data = Some (ms', Inr (length data)) \<and> ms_inv ms' \<and>
      ms_contents ms' = file_write (ms_contents ms) (ms_pos ms) data \<and> ms_pos ms' = ms_pos ms + length data) \<or>
    (\<exists>e. memstream_write realloc ms data = Some (ms, Inl e) \<and>
      (e = EFBIG \<and> SSIZE_MAX < ms_pos ms + length data \<or> e = ENOMEM \<and> (\<exists>n. realloc n = NULL)))"
proof (cases "length data > SSIZE_MAX \<or> ms_pos ms > SSIZE_MAX - length data")
  case True
  then show ?thesis by (auto simp: memstream_write_def Let_def)
next
  case False
  define fin where "fin = ms_pos ms + length data"
  have e: "fin \<le> SSIZE_MAX" using False unfolding fin_def by linarith
  from memstream_grow_spec [OF assms this, of realloc] show ?thesis
  proof
    assume "memstream_grow realloc ms fin = None \<and> (\<exists>n. realloc n = NULL)"
    then show ?thesis using False by (auto simp: memstream_write_def Let_def fin_def)
  next
    assume "\<exists>ms'. memstream_grow realloc ms fin = Some ms' \<and> fin < ms_cap ms' \<and> ms_cap ms' \<le> SSIZE_MAX + 1 \<and>
      ms_data ms' = ms_data ms @ replicate (ms_cap ms' - ms_cap ms) 0 \<and> ms_cap ms \<le> ms_cap ms' \<and>
      ms_pos ms' = ms_pos ms \<and> ms_len ms' = ms_len ms \<and> ms_buf ms' \<noteq> NULL"
    then obtain m where m: "memstream_grow realloc ms fin = Some m" "fin < ms_cap m" "ms_cap m \<le> SSIZE_MAX + 1"
      "ms_data m = ms_data ms @ replicate (ms_cap m - ms_cap ms) 0" "ms_cap ms \<le> ms_cap m"
      "ms_pos m = ms_pos ms" "ms_len m = ms_len ms" "ms_buf m \<noteq> NULL" by blast
    have inv: "length (ms_data ms) = ms_cap ms" "ms_len ms < ms_cap ms"
      "drop (ms_len ms) (ms_data ms) = replicate (ms_cap ms - ms_len ms) 0"
      using assms by (simp_all add: ms_inv_def)
    define c where "c = ms_contents ms"
    have c: "length c = ms_len ms" using inv by (simp add: c_def ms_contents_def)
    have "ms_data ms = c @ replicate (ms_cap ms - ms_len ms) 0"
      using zero_tail [of "ms_len ms" "ms_data ms"] inv by (simp add: c_def ms_contents_def)
    then have data: "ms_data m = c @ replicate (ms_cap m - ms_len ms) 0"
      using m(4,5) inv(2) by (simp add: replicate_add [symmetric])
    define buf where "buf = take (ms_pos ms) (ms_data m) @ data @ drop fin (ms_data m)"
    define l where "l = max fin (ms_len ms)"
    have lm: "length (ms_data m) = ms_cap m" using data c m(5) inv(2) by simp
    have ow: "overwrite (ms_data m) (ms_pos ms) data = Some buf"
      using m(2) lm by (simp add: overwrite_def buf_def fin_def)
    have buf: "buf = file_write c (ms_pos ms) data @ replicate (ms_cap m - l) 0"
    proof -
      have "take (ms_pos ms) (ms_data m) = take (ms_pos ms) c @ replicate (ms_pos ms - ms_len ms) 0"
        using c m(2) inv(2) m(5) by (simp add: data fin_def min_def)
      moreover have "drop fin (ms_data m) = drop fin c @ replicate (ms_cap m - l) 0"
        using c by (simp add: data l_def max_def)
      ultimately show ?thesis using c by (simp add: buf_def file_write_def fin_def)
    qed
    have fl: "length (file_write c (ms_pos ms) data) = l"
      using c by (auto simp: file_write_def l_def fin_def max_def)
    define ms' where "ms' = memstream_publish (m\<lparr>ms_data := buf, ms_pos := fin, ms_len := l\<rparr>)"
    have w: "memstream_write realloc ms data = Some (ms', Inr (length data))"
      using False m(1,6,7) ow
      by (cases m) (auto simp: memstream_write_def Let_def fin_def [symmetric] ms'_def l_def max_def)
    have lt: "l < ms_cap m" using m(2,5) inv(2) by (simp add: l_def)
    have "length buf = ms_cap m" using lt by (simp add: buf fl)
    then have "ms_inv ms'"
      using m(3,8) e lt by (simp add: ms_inv_def ms'_def memstream_publish_def buf fl min_def)
    moreover have "ms_contents ms' = file_write c (ms_pos ms) data"
      by (simp add: ms_contents_def ms'_def memstream_publish_def buf fl)
    moreover have "ms_pos ms' = ms_pos ms + length data" by (simp add: ms'_def memstream_publish_def fin_def)
    ultimately show ?thesis using w by (simp add: c_def)
  qed
qed



subsection \<open>The contract of a seekable stream\<close>

text \<open>
  Both kinds of stream promise the same of their position: a request is granted exactly when its
  target lies inside the stream's limit, and a refused one changes nothing.
\<close>

locale seekable =
  fixes inv :: "'s \<Rightarrow> bool"
    and contents :: "'s \<Rightarrow> byte list"
    and pos :: "'s \<Rightarrow> nat"
    and limit :: "'s \<Rightarrow> nat"
    and seek :: "'s \<Rightarrow> int \<Rightarrow> whence \<Rightarrow> 's \<times> (errno + int)"
  assumes seek_result: "inv s \<Longrightarrow> off \<le> int SSIZE_MAX \<Longrightarrow>
      snd (seek s off wh) = seek_spec (pos s) (length (contents s)) (limit s) off wh"
    and seek_moves: "inv s \<Longrightarrow> off \<le> int SSIZE_MAX \<Longrightarrow> snd (seek s off wh) = Inr n \<Longrightarrow> int (pos (fst (seek s off wh))) = n"
    and seek_refused: "inv s \<Longrightarrow> off \<le> int SSIZE_MAX \<Longrightarrow> snd (seek s off wh) = Inl e \<Longrightarrow> fst (seek s off wh) = s"
    and seek_keeps: "inv s \<Longrightarrow> off \<le> int SSIZE_MAX \<Longrightarrow> inv (fst (seek s off wh)) \<and>
      contents (fst (seek s off wh)) = contents s \<and> limit (fst (seek s off wh)) = limit s"
    and limit_max: "inv s \<Longrightarrow> limit s \<le> SSIZE_MAX"
    and pos_limit: "inv s \<Longrightarrow> pos s \<le> limit s"
begin

lemma set_then_tell:
  assumes "inv s" and "p \<le> limit s"
  shows "snd (seek s (int p) SEEK_SET) = Inr (int p)"
    and "snd (seek (fst (seek s (int p) SEEK_SET)) 0 SEEK_CUR) = Inr (int p)"
proof -
  have p: "int p \<le> int SSIZE_MAX" using assms limit_max [OF assms(1)] by simp
  then show set: "snd (seek s (int p) SEEK_SET) = Inr (int p)"
    using seek_result [OF assms(1) p, of SEEK_SET] assms(2) by (simp add: seek_spec_def seek_base_def)
  let ?t = "fst (seek s (int p) SEEK_SET)"
  have t: "inv ?t" "limit ?t = limit s" using seek_keeps [OF assms(1) p] by simp_all
  have "int (pos ?t) = int p" by (rule seek_moves [OF assms(1) p set])
  then show "snd (seek ?t 0 SEEK_CUR) = Inr (int p)"
    using seek_result [OF t(1), of 0 SEEK_CUR] t(2) assms(2) by (simp add: seek_spec_def seek_base_def)
qed

lemma tell_keeps: "inv s \<Longrightarrow> snd (seek s 0 SEEK_CUR) = Inr (int (pos s))"
  using seek_result [of s 0 SEEK_CUR] pos_limit [of s] by (simp add: seek_spec_def seek_base_def)

end

lemma ms_contents_length: "ms_inv ms \<Longrightarrow> length (ms_contents ms) = ms_len ms"
  by (simp add: ms_contents_def ms_inv_def)

lemma memstream_seek_eq:
  assumes "ms_inv ms" and "off \<le> int SSIZE_MAX"
  shows "memstream_seek ms off wh = (case seek_spec (ms_pos ms) (ms_len ms) SSIZE_MAX off wh of
     Inl e \<Rightarrow> (ms, Inl e) | Inr n \<Rightarrow> (memstream_publish (ms\<lparr>ms_pos := nat n\<rparr>), Inr n))"
proof -
  have "ms_pos ms \<le> SSIZE_MAX" "ms_len ms \<le> SSIZE_MAX" using assms(1) by (simp_all add: ms_inv_def)
  from memstream_seekTo_spec [OF this _ assms(2)] show ?thesis
    by (auto simp: memstream_seek_def seek_spec_def split: sum.splits option.splits if_splits)
qed

lemma seek_spec_Inr: "seek_spec pos len limit off wh = Inr n \<Longrightarrow> 0 \<le> n \<and> n \<le> int limit"
  by (auto simp: seek_spec_def split: option.splits if_splits)

lemma memstream_seek_inv:
  "ms_inv ms \<Longrightarrow> 0 \<le> n \<Longrightarrow> n \<le> int SSIZE_MAX \<Longrightarrow> ms_inv (memstream_publish (ms\<lparr>ms_pos := nat n\<rparr>))"
  by (auto simp: ms_inv_def memstream_publish_def min_def nat_le_iff)

interpretation mem: seekable ms_inv ms_contents ms_pos "\<lambda>_. SSIZE_MAX" memstream_seek
proof
  fix s :: memstream and off wh
  assume s: "ms_inv s" and off: "off \<le> int SSIZE_MAX"
  note eq = memstream_seek_eq [OF s off, of wh]
  show "snd (memstream_seek s off wh) = seek_spec (ms_pos s) (length (ms_contents s)) SSIZE_MAX off wh"
    unfolding eq ms_contents_length [OF s] by (simp split: sum.split)
  show "ms_inv (fst (memstream_seek s off wh)) \<and> ms_contents (fst (memstream_seek s off wh)) = ms_contents s \<and>
      SSIZE_MAX = SSIZE_MAX"
    using s seek_spec_Inr memstream_seek_inv [OF s] unfolding eq
    by (auto simp: ms_contents_def memstream_publish_def split: sum.split)
  show "int (ms_pos (fst (memstream_seek s off wh))) = n" if "snd (memstream_seek s off wh) = Inr n" for n
    using that seek_spec_Inr [of "ms_pos s" "ms_len s" SSIZE_MAX off wh] unfolding eq
    by (auto simp: memstream_publish_def split: sum.splits)
  show "fst (memstream_seek s off wh) = s" if "snd (memstream_seek s off wh) = Inl e" for e
    using that unfolding eq by (auto split: sum.splits)
qed (simp_all add: ms_inv_def)

subsection \<open>A whole life of the growing stream\<close>

datatype ms_op = Write "byte list" | Seek int whence

fun ms_run :: "(nat \<Rightarrow> addr) \<Rightarrow> ms_op list \<Rightarrow> memstream \<Rightarrow> memstream option" where
  "ms_run realloc [] ms = Some ms"
| "ms_run realloc (Write d # ops) ms = do { (ms, _) \<leftarrow> memstream_write realloc ms d; ms_run realloc ops ms }"
| "ms_run realloc (Seek off wh # ops) ms = ms_run realloc ops (fst (memstream_seek ms off wh))"

text \<open>The same operations on a file.\<close>

fun file_run :: "ms_op list \<Rightarrow> byte list \<times> nat \<Rightarrow> byte list \<times> nat" where
  "file_run [] f = f"
| "file_run (Write d # ops) (c, p) =
     file_run ops (if p + length d \<le> SSIZE_MAX then (file_write c p d, p + length d) else (c, p))"
| "file_run (Seek off wh # ops) (c, p) =
     file_run ops (case seek_spec p (length c) SSIZE_MAX off wh of Inl _ \<Rightarrow> (c, p) | Inr n \<Rightarrow> (c, nat n))"

primrec op_ok :: "ms_op \<Rightarrow> bool" where
  "op_ok (Write d) = True"
| "op_ok (Seek off wh) = (off \<le> int SSIZE_MAX)"

lemma memstream_write_total:
  assumes "ms_inv ms" and "\<forall>n. realloc n \<noteq> NULL"
  shows "\<exists>ms' r. memstream_write realloc ms d = Some (ms', r) \<and> ms_inv ms' \<and>
    (ms_contents ms', ms_pos ms') =
      (if ms_pos ms + length d \<le> SSIZE_MAX then (file_write (ms_contents ms) (ms_pos ms) d, ms_pos ms + length d)
       else (ms_contents ms, ms_pos ms))"
proof -
  have big: "ms_pos ms' \<le> SSIZE_MAX" if "ms_inv ms'" for ms' using that by (simp add: ms_inv_def)
  from memstream_write_spec [OF assms(1), of realloc d] show ?thesis
  proof
    assume "\<exists>ms'. memstream_write realloc ms d = Some (ms', Inr (length d)) \<and> ms_inv ms' \<and>
      ms_contents ms' = file_write (ms_contents ms) (ms_pos ms) d \<and> ms_pos ms' = ms_pos ms + length d"
    then show ?thesis using big by fastforce
  next
    assume "\<exists>e. memstream_write realloc ms d = Some (ms, Inl e) \<and>
      (e = EFBIG \<and> SSIZE_MAX < ms_pos ms + length d \<or> e = ENOMEM \<and> (\<exists>n. realloc n = NULL))"
    then show ?thesis using assms by auto
  qed
qed

lemma ms_run_spec:
  "ms_inv ms \<Longrightarrow> \<forall>n. realloc n \<noteq> NULL \<Longrightarrow> list_all op_ok ops \<Longrightarrow>
   \<exists>ms'. ms_run realloc ops ms = Some ms' \<and> ms_inv ms' \<and>
     (ms_contents ms', ms_pos ms') = file_run ops (ms_contents ms, ms_pos ms)"
proof (induction ops arbitrary: ms)
  case (Cons op ops)
  show ?case
  proof (cases op)
    case (Write d)
    obtain ms1 r where 1: "memstream_write realloc ms d = Some (ms1, r)" "ms_inv ms1"
      "(ms_contents ms1, ms_pos ms1) =
        (if ms_pos ms + length d \<le> SSIZE_MAX then (file_write (ms_contents ms) (ms_pos ms) d, ms_pos ms + length d)
         else (ms_contents ms, ms_pos ms))"
      using memstream_write_total [OF Cons.prems(1,2)] by blast
    from Cons.IH [OF 1(2) Cons.prems(2)] Cons.prems(3) show ?thesis by (simp add: Write 1(1) 1(3) [symmetric])
  next
    case (Seek off wh)
    let ?ms = "fst (memstream_seek ms off wh)"
    have off: "off \<le> int SSIZE_MAX" using Cons.prems(3) by (simp add: Seek)
    have "(ms_contents ?ms, ms_pos ?ms) = (case seek_spec (ms_pos ms) (length (ms_contents ms)) SSIZE_MAX off wh of
        Inl _ \<Rightarrow> (ms_contents ms, ms_pos ms) | Inr n \<Rightarrow> (ms_contents ms, nat n))"
      using memstream_seek_eq [OF Cons.prems(1) off, of wh] ms_contents_length [OF Cons.prems(1)]
      by (auto simp: ms_contents_def memstream_publish_def split: sum.split)
    moreover have "ms_inv ?ms" using mem.seek_keeps [OF Cons.prems(1) off] by blast
    ultimately show ?thesis using Cons.IH [of ?ms] Cons.prems by (simp add: Seek)
  qed
qed simp

text \<open>
  C24. A memory stream is a file: after any sequence of writes and seeks (backwards, beyond the end,
  refused ones) that finds memory, closing it leaves the caller a buffer whose first \<open>*sizep\<close> bytes
  are those of the file the same operations produce, gaps filled with zeros, cut at the current
  position where that is smaller than the length, and a NUL behind them.
\<close>

theorem memstream_is_a_file:
  assumes "open_memstream False True buf True = Inr ms" and "\<forall>n. realloc n \<noteq> NULL" and "list_all op_ok ops"
  shows "\<exists>ms' b n bytes c p. ms_run realloc ops ms = Some ms' \<and> memstream_close ms' = Some (b, n, bytes) \<and>
    file_run ops ([], 0) = (c, p) \<and> b \<noteq> NULL \<and> n = min p (length c) \<and>
    take n bytes = take n c \<and> bytes ! n = 0"
proof -
  have ms: "ms = memstream_publish \<lparr>ms_bufp = 0, ms_sizep = 0, ms_buf = buf, ms_data = replicate 64 0,
             ms_cap = 64, ms_len = 0, ms_pos = 0\<rparr>" "buf \<noteq> NULL"
    using assms(1) by (auto simp: open_memstream_def split: if_splits)
  then have "ms_inv ms" by (simp add: ms_inv_def memstream_publish_def SSIZE_MAX_def)
  from ms_run_spec [OF this assms(2,3)] obtain ms' where r: "ms_run realloc ops ms = Some ms'" "ms_inv ms'"
    "(ms_contents ms', ms_pos ms') = file_run ops (ms_contents ms, ms_pos ms)" by blast
  have "ms_contents ms = []" "ms_pos ms = 0" by (simp_all add: ms ms_contents_def memstream_publish_def)
  then have f: "file_run ops ([], 0) = (ms_contents ms', ms_pos ms')" using r(3) by simp
  let ?n = "min (ms_pos ms') (ms_len ms')"
  have i: "length (ms_data ms') = ms_cap ms'" "ms_len ms' < ms_cap ms'" "ms_buf ms' \<noteq> NULL"
    using r(2) by (simp_all add: ms_inv_def)
  have n: "?n < length (ms_data ms')" using i by simp
  have "(if ms_pos ms' < ms_len ms' then ms_pos ms' else ms_len ms') = ?n" by (simp add: min_def)
  then have "memstream_close ms' = Some (ms_buf ms', ?n, take ?n (ms_data ms') @ [0] @ drop (?n + 1) (ms_data ms'))"
    using n by (simp add: memstream_close_def memstream_publish_def overwrite_def Suc_leI)
  moreover have "take ?n (take ?n (ms_data ms') @ [0] @ drop (?n + 1) (ms_data ms')) = take ?n (ms_contents ms')"
    using n by (simp add: ms_contents_def min_def)
  moreover have "(take ?n (ms_data ms') @ [0] @ drop (?n + 1) (ms_data ms')) ! ?n = 0"
    using n by (simp add: nth_append)
  ultimately show ?thesis using r(1) f i(3) ms_contents_length [OF r(2)] by simp
qed

theorem memstream_is_a_file_witness:
  "\<exists>ms' b n bytes c p. ms_run (\<lambda>_. 4096) [Write [1, 2, 3], Seek 80 SEEK_SET, Write [4], Seek (- 1) SEEK_CUR]
      (memstream_publish \<lparr>ms_bufp = 0, ms_sizep = 0, ms_buf = 8192, ms_data = replicate 64 0,
         ms_cap = 64, ms_len = 0, ms_pos = 0\<rparr>) = Some ms' \<and> memstream_close ms' = Some (b, n, bytes) \<and>
    file_run [Write [1, 2, 3], Seek 80 SEEK_SET, Write [4], Seek (- 1) SEEK_CUR] ([], 0) = (c, p) \<and> b \<noteq> NULL \<and>
    n = min p (length c) \<and> take n bytes = take n c \<and> bytes ! n = 0"
  by (rule memstream_is_a_file [of 8192]) (simp_all add: open_memstream_def SSIZE_MAX_def)

text \<open>
  A write to the growing stream is the write to a file, at every position and for every growth of
  the buffer, and keeps the invariant (data below the capacity, zeros behind it, the published pointer
  and size current); where the file would pass the largest size or memory is out it fails and changes
  nothing.
\<close>

theorem memstream_write_refines:
  assumes "ms_inv ms"
  shows "(\<exists>ms'. memstream_write realloc ms data = Some (ms', Inr (length data)) \<and> ms_inv ms' \<and>
      ms_contents ms' = file_write (ms_contents ms) (ms_pos ms) data \<and> ms_pos ms' = ms_pos ms + length data) \<or>
    (\<exists>e. memstream_write realloc ms data = Some (ms, Inl e) \<and>
      (e = EFBIG \<and> SSIZE_MAX < ms_pos ms + length data \<or> e = ENOMEM \<and> (\<exists>n. realloc n = NULL)))"
  using assms by (rule memstream_write_spec)

theorem memstream_write_refines_witness:
  "(\<exists>ms'. memstream_write (\<lambda>_. 0) (memstream_publish \<lparr>ms_bufp = 0, ms_sizep = 0, ms_buf = 8192,
        ms_data = replicate 64 0, ms_cap = 64, ms_len = 0, ms_pos = 0\<rparr>) [7] = Some (ms', Inr (length [7 :: byte])) \<and>
      ms_inv ms' \<and> ms_contents ms' = file_write [] 0 [7] \<and> ms_pos ms' = 0 + length [7 :: byte]) \<or>
    (\<exists>e. memstream_write (\<lambda>_. 0) (memstream_publish \<lparr>ms_bufp = 0, ms_sizep = 0, ms_buf = 8192,
        ms_data = replicate 64 0, ms_cap = 64, ms_len = 0, ms_pos = 0\<rparr>) [7] =
        Some (memstream_publish \<lparr>ms_bufp = 0, ms_sizep = 0, ms_buf = 8192, ms_data = replicate 64 0,
          ms_cap = 64, ms_len = 0, ms_pos = 0\<rparr>, Inl e) \<and>
      (e = EFBIG \<and> SSIZE_MAX < 0 + length [7 :: byte] \<or> e = ENOMEM \<and> (\<exists>n :: nat. (0 :: addr) = NULL)))"
  using memstream_write_refines [of "memstream_publish \<lparr>ms_bufp = 0, ms_sizep = 0, ms_buf = 8192,
        ms_data = replicate 64 0, ms_cap = 64, ms_len = 0, ms_pos = 0\<rparr>" "\<lambda>_. 0" "[7]"]
  by (simp add: ms_inv_def memstream_publish_def SSIZE_MAX_def ms_contents_def)


subsection \<open>The fixed stream\<close>

definition fm_inv :: "fmemstream \<Rightarrow> bool" where
  "fm_inv fm \<longleftrightarrow> fm_size fm \<le> length (fm_buf fm) \<and> 0 < fm_size fm \<and> fm_size fm \<le> SSIZE_MAX \<and>
     fm_len fm \<le> fm_size fm \<and> fm_pos fm \<le> fm_size fm"

definition fm_contents :: "fmemstream \<Rightarrow> byte list" where
  "fm_contents fm = take (fm_len fm) (fm_buf fm)"

lemma fm_contents_length: "fm_inv fm \<Longrightarrow> length (fm_contents fm) = fm_len fm"
  by (simp add: fm_contents_def fm_inv_def)

lemma overwrite_in:
  "p + length bs \<le> length buf \<Longrightarrow> overwrite buf p bs = Some (take p buf @ bs @ drop (p + length bs) buf)"
  by (simp add: overwrite_def)

lemma fmem_seek_eq:
  assumes "fm_inv fm" and "off \<le> int SSIZE_MAX"
  shows "fmem_seek fm off wh = (case seek_spec (fm_pos fm) (fm_len fm) (fm_size fm) off wh of
     Inl e \<Rightarrow> (fm, Inl e) | Inr n \<Rightarrow> (fm\<lparr>fm_pos := nat n\<rparr>, Inr n))"
proof -
  have "fm_pos fm \<le> fm_size fm" "fm_len fm \<le> fm_size fm" "fm_size fm \<le> SSIZE_MAX"
    using assms(1) by (simp_all add: fm_inv_def)
  from memstream_seekTo_spec [OF this assms(2)] this(3) show ?thesis
    by (auto simp: fmem_seek_def seek_spec_def split: sum.splits option.splits if_splits)
qed

interpretation fmem: seekable fm_inv fm_contents fm_pos fm_size fmem_seek
proof
  fix s :: fmemstream and off wh
  assume s: "fm_inv s" and off: "off \<le> int SSIZE_MAX"
  note eq = fmem_seek_eq [OF s off, of wh]
  show "snd (fmem_seek s off wh) = seek_spec (fm_pos s) (length (fm_contents s)) (fm_size s) off wh"
    unfolding eq fm_contents_length [OF s] by (simp split: sum.split)
  show "fm_inv (fst (fmem_seek s off wh)) \<and> fm_contents (fst (fmem_seek s off wh)) = fm_contents s \<and>
      fm_size (fst (fmem_seek s off wh)) = fm_size s"
    using s seek_spec_Inr [of "fm_pos s" "fm_len s" "fm_size s" off wh] unfolding eq
    by (auto simp: fm_inv_def fm_contents_def nat_le_iff split: sum.split)
  show "int (fm_pos (fst (fmem_seek s off wh))) = n" if "snd (fmem_seek s off wh) = Inr n" for n
    using that seek_spec_Inr [of "fm_pos s" "fm_len s" "fm_size s" off wh] unfolding eq
    by (auto split: sum.splits)
  show "fst (fmem_seek s off wh) = s" if "snd (fmem_seek s off wh) = Inl e" for e
    using that unfolding eq by (auto split: sum.splits)
qed (simp_all add: fm_inv_def)

lemma fmem_read_spec:
  assumes "fm_inv fm"
  shows "\<exists>fm'. fmem_read fm n = Some (fm', take n (drop (fm_pos fm) (fm_contents fm))) \<and> fm_inv fm' \<and>
    fm_contents fm' = fm_contents fm \<and>
    fm_pos fm' = fm_pos fm + length (take n (drop (fm_pos fm) (fm_contents fm)))"
proof (cases "fm_pos fm \<ge> fm_len fm")
  case True
  then have "drop (fm_pos fm) (fm_contents fm) = []" using fm_contents_length [OF assms] by simp
  with True assms show ?thesis by (simp add: fmem_read_def)
next
  case False
  define k where "k = (if fm_len fm - fm_pos fm > n then n else fm_len fm - fm_pos fm)"
  have inv: "fm_len fm \<le> length (fm_buf fm)" "fm_len fm \<le> fm_size fm" using assms by (simp_all add: fm_inv_def)
  have k: "fm_pos fm + k \<le> fm_len fm"
    using False by (cases "fm_len fm - fm_pos fm > n") (simp_all add: k_def)
  have "take n (drop (fm_pos fm) (fm_contents fm)) = take k (drop (fm_pos fm) (fm_buf fm))"
    using inv by (auto simp: fm_contents_def k_def drop_take min_def)
  moreover have "fmem_read fm n = Some (fm\<lparr>fm_pos := fm_pos fm + k\<rparr>, take k (drop (fm_pos fm) (fm_buf fm)))"
    using False k inv by (simp add: fmem_read_def k_def Let_def)
  moreover have "length (take k (drop (fm_pos fm) (fm_buf fm))) = k" using k inv by simp
  moreover have "fm_inv (fm\<lparr>fm_pos := fm_pos fm + k\<rparr>)" using assms k by (simp add: fm_inv_def)
  ultimately show ?thesis by (simp add: fm_contents_def)
qed

text \<open>Where a write starts, and how much of it fits.\<close>

definition fm_start :: "fmemstream \<Rightarrow> nat" where
  "fm_start fm = (if fm_append fm then fm_len fm else fm_pos fm)"

definition fm_room :: "fmemstream \<Rightarrow> nat" where
  "fm_room fm = fm_size fm - fm_start fm"

text \<open>
  The contents after the data is in: what lies between the old contents and a write behind them are
  the bytes the buffer already had there.
\<close>

lemma fmem_write_spec:
  fixes data :: "byte list"
  assumes "fm_inv fm"
  defines "n \<equiv> min (fm_room fm) (length data)" and "p \<equiv> fm_start fm"
  shows "\<exists>fm'. fmem_write fm data = Some (fm', n) \<and> fm_inv fm' \<and> fm_pos fm' = p + n \<and>
    length (fm_buf fm') = length (fm_buf fm) \<and> drop (fm_size fm) (fm_buf fm') = drop (fm_size fm) (fm_buf fm) \<and>
    fm_len fm' = (if n = 0 then fm_len fm else max (fm_len fm) (p + n)) \<and>
    (\<forall>i<fm_size fm. fm_buf fm' ! i =
       (if 0 < n \<and> fm_len fm < p + n \<and> i = p + n then 0
        else if 0 < n \<and> fm_len fm < p + n \<and> p + n = fm_size fm \<and> \<not> fm_readable fm \<and> i = fm_size fm - 1 then 0
        else if p \<le> i \<and> i < p + n then data ! (i - p) else fm_buf fm ! i))"
proof -
  define fm1 where "fm1 = (if fm_append fm then fm\<lparr>fm_pos := fm_len fm\<rparr> else fm)"
  have f1: "fm_pos fm1 = p" "fm_len fm1 = fm_len fm" "fm_size fm1 = fm_size fm" "fm_buf fm1 = fm_buf fm"
    "fm_readable fm1 = fm_readable fm" "fm_append fm1 = fm_append fm"
    by (simp_all add: fm1_def p_def fm_start_def)
  have inv: "fm_size fm \<le> length (fm_buf fm)" "0 < fm_size fm" "fm_size fm \<le> SSIZE_MAX" "fm_len fm \<le> fm_size fm" "p \<le> fm_size fm"
    using assms(1) by (auto simp: fm_inv_def p_def fm_start_def)
  have n: "(if (if p < fm_size fm then fm_size fm - p else 0) > length data then length data
      else (if p < fm_size fm then fm_size fm - p else 0)) = n"
    using inv(5) by (auto simp: n_def fm_room_def p_def [symmetric] min_def)
  show ?thesis
  proof (cases "n = 0")
    case True
    have "fmem_write fm data = Some (fm1, 0)"
      unfolding fmem_write_def fm1_def [symmetric] Let_def f1 n using True by simp
    moreover have "fm_inv fm1" using inv assms(1) by (simp add: fm_inv_def f1)
    ultimately show ?thesis using True by (auto simp: f1)
  next
    case False
    define buf where "buf = take p (fm_buf fm) @ take n data @ drop (p + n) (fm_buf fm)"
    have pn: "p + n \<le> fm_size fm" "n \<le> length data" using inv(5) by (auto simp: n_def fm_room_def p_def)
    have ow: "overwrite (fm_buf fm) p (take n data) = Some buf"
      using pn inv(1) by (subst overwrite_in) (auto simp: buf_def min_absorb2)
    have lb: "length buf = length (fm_buf fm)" using pn inv(1) by (simp add: buf_def)
    have nth: "buf ! i = (if p \<le> i \<and> i < p + n then data ! (i - p) else fm_buf fm ! i)" if "i < length (fm_buf fm)" for i
      using that pn inv(1) by (auto simp: buf_def nth_append min_absorb2)
    have tail: "drop (fm_size fm) buf = drop (fm_size fm) (fm_buf fm)"
      using pn inv by (simp add: buf_def add.commute)
    define fm2 where "fm2 = fm1\<lparr>fm_buf := buf, fm_pos := p + n\<rparr>"
    have w: "fmem_write fm data = (if p + n > fm_len fm then do {
             let fm = fm2\<lparr>fm_len := p + n\<rparr>;
             buf \<leftarrow> (if p + n < fm_size fm then overwrite buf (p + n) [0]
                     else if \<not> fm_readable fm then overwrite buf (fm_size fm - 1) [0]
                     else Some buf);
             Some (fm\<lparr>fm_buf := buf\<rparr>, n) }
           else Some (fm2, n))"
      unfolding fmem_write_def fm1_def [symmetric] Let_def f1 n using False
      by (simp add: ow fm2_def f1)
    have f2: "fm_size fm2 = fm_size fm" "fm_readable fm2 = fm_readable fm" "fm_buf fm2 = buf" "fm_pos fm2 = p + n"
      "fm_len fm2 = fm_len fm" by (simp_all add: fm2_def f1)
    have zero: "\<exists>b. overwrite buf i [0] = Some b \<and> length b = length buf \<and>
        drop (fm_size fm) b = drop (fm_size fm) buf \<and> (\<forall>j<length buf. b ! j = (if j = i then 0 else buf ! j))"
      if "i < fm_size fm" for i
    proof -
      have il: "i < length buf" using that inv(1) lb by simp
      have "overwrite buf i [0] = Some (buf[i := 0])" using il by (simp add: overwrite_def upd_conv_take_nth_drop)
      with il that show ?thesis by (auto simp: drop_update_cancel nth_list_update)
    qed
    show ?thesis
    proof (cases "p + n > fm_len fm")
      case False
      then have "fmem_write fm data = Some (fm2, n)" by (simp add: w)
      moreover have "fm_inv fm2" using inv pn lb by (simp add: fm_inv_def f2)
      ultimately show ?thesis using False \<open>n \<noteq> 0\<close> lb tail nth inv(1) by (auto simp: f2)
    next
      case True
      have close: ?thesis if b: "(if p + n < fm_size fm then overwrite buf (p + n) [0]
                     else if \<not> fm_readable fm then overwrite buf (fm_size fm - 1) [0]
                     else Some buf) = Some b" "length b = length buf" "drop (fm_size fm) b = drop (fm_size fm) buf"
        "\<forall>j<fm_size fm. b ! j = (if p + n < fm_size fm \<and> j = p + n \<or>
            p + n = fm_size fm \<and> \<not> fm_readable fm \<and> j = fm_size fm - 1 then 0 else buf ! j)" for b
      proof -
        define fm' where "fm' = fm2\<lparr>fm_len := p + n, fm_buf := b\<rparr>"
        have "fmem_write fm data = Some (fm', n)" using True b(1) by (auto simp: w f2 fm'_def Let_def split: if_splits)
        moreover have "fm_inv fm'" using inv pn lb b(2) by (simp add: fm_inv_def fm'_def f2)
        ultimately show ?thesis
          using True \<open>n \<noteq> 0\<close> lb tail b nth inv(1) pn by (auto simp: fm'_def f2 max_def)
      qed
      consider "p + n < fm_size fm" | "p + n = fm_size fm" "\<not> fm_readable fm" | "p + n = fm_size fm" "fm_readable fm"
        using pn(1) by linarith
      then show ?thesis
      proof cases
        case 1
        from zero [OF 1] obtain b where b: "overwrite buf (p + n) [0] = Some b" "length b = length buf"
          "drop (fm_size fm) b = drop (fm_size fm) buf" "\<forall>j<length buf. b ! j = (if j = p + n then 0 else buf ! j)"
          by blast
        show ?thesis by (rule close [of b]) (use 1 b lb inv(1) in auto)
      next
        case 2
        from zero [of "fm_size fm - 1"] inv(2) obtain b where b: "overwrite buf (fm_size fm - 1) [0] = Some b"
          "length b = length buf" "drop (fm_size fm) b = drop (fm_size fm) buf"
          "\<forall>j<length buf. b ! j = (if j = fm_size fm - 1 then 0 else buf ! j)"
          by auto
        show ?thesis by (rule close [of b]) (use 2 b lb inv(1) in auto)
      next
        case 3
        then show ?thesis by (intro close [of buf]) simp_all
      qed
    qed
  qed
qed


lemma fmemopen_inv:
  assumes "fmemopen buf sz mode cookie priv file = Some (Inr fm)" and "sz \<le> SSIZE_MAX"
    and "case buf of None \<Rightarrow> True | Some b \<Rightarrow> sz \<le> length b"
  shows "fm_inv fm" and "fm_size fm = sz"
proof -
  obtain m0 ms where mode: "mode = Some (m0 # ms)"
    using assms(1) by (auto simp: fmemopen_def split: option.splits list.splits)
  have k: "0 < sz" using assms(1) by (auto simp: fmemopen_def mode split: if_splits)
  have tw: "length (takeWhile P (take n xs)) \<le> n" for P and n and xs :: "byte list"
    using length_takeWhile_le [of P "take n xs"] by simp
  have "fm_inv fm \<and> fm_size fm = sz"
    using assms k tw
    by (auto simp: fmemopen_def mode fm_inv_def overwrite_def Let_def bind_eq_Some_conv
        split: if_splits option.splits)
  then show "fm_inv fm" and "fm_size fm = sz" by simp_all
qed

text \<open>
  C25. A write to a stream over a fixed buffer stays inside the buffer: it takes as many bytes as fit
  (0 when full, at the end of the contents in append mode), changes exactly those positions, puts a NUL
  behind contents that grew where one fits, gives up the last byte for it only on a stream opened for
  writing, and keeps every byte behind the buffer.
\<close>

theorem fmem_write_bounded:
  fixes data :: "byte list"
  assumes "fm_inv fm"
  shows "\<exists>fm'. fmem_write fm data = Some (fm', min (fm_room fm) (length data)) \<and> fm_inv fm' \<and>
    fm_pos fm' = fm_start fm + min (fm_room fm) (length data) \<and>
    length (fm_buf fm') = length (fm_buf fm) \<and> drop (fm_size fm) (fm_buf fm') = drop (fm_size fm) (fm_buf fm) \<and>
    fm_len fm' = (if min (fm_room fm) (length data) = 0 then fm_len fm
      else max (fm_len fm) (fm_start fm + min (fm_room fm) (length data))) \<and>
    (\<forall>i<fm_size fm. fm_buf fm' ! i =
       (if 0 < min (fm_room fm) (length data) \<and> fm_len fm < fm_start fm + min (fm_room fm) (length data) \<and>
            i = fm_start fm + min (fm_room fm) (length data) then 0
        else if 0 < min (fm_room fm) (length data) \<and> fm_len fm < fm_start fm + min (fm_room fm) (length data) \<and>
            fm_start fm + min (fm_room fm) (length data) = fm_size fm \<and> \<not> fm_readable fm \<and> i = fm_size fm - 1 then 0
        else if fm_start fm \<le> i \<and> i < fm_start fm + min (fm_room fm) (length data) then data ! (i - fm_start fm)
        else fm_buf fm ! i))"
  using assms by (rule fmem_write_spec)

definition sample_fm :: fmemstream where
  "sample_fm = \<lparr>fm_buf = [1, 2, 3, 4], fm_size = 3, fm_len = 1, fm_pos = 1, fm_append = False,
     fm_readable = False, fm_owned = False\<rparr>"

theorem fmem_write_bounded_witness:
  "\<exists>fm'. fmem_write sample_fm [7, 8, 9] = Some (fm', 2) \<and> fm_inv fm' \<and> fm_pos fm' = 3 \<and>
    drop 3 (fm_buf fm') = [4] \<and> fm_len fm' = 3"
proof -
  have inv: "fm_inv sample_fm" by (simp add: sample_fm_def fm_inv_def SSIZE_MAX_def)
  have "min (fm_room sample_fm) (length [7 :: byte, 8, 9]) = 2" "fm_start sample_fm = 1" "fm_size sample_fm = 3"
    "fm_buf sample_fm = [1, 2, 3, 4]" "fm_len sample_fm = 1"
    by (simp_all add: sample_fm_def fm_room_def fm_start_def)
  note v = this
  from fmem_write_bounded [OF inv, of "[7, 8, 9]", unfolded v] obtain fm' where
    "fmem_write sample_fm [7, 8, 9] = Some (fm', 2)" "fm_inv fm'" "fm_pos fm' = 1 + 2"
    "drop 3 (fm_buf fm') = drop 3 [1, 2, 3, 4]" "fm_len fm' = (if (2 :: nat) = 0 then 1 else max 1 (1 + 2))"
    by blast
  then show ?thesis by (intro exI [of _ fm']) simp
qed

text \<open>
  What is written is read back: on a stream open for reading and writing, data that fits is
  returned by a read after seeking back to where it was written.
\<close>

theorem fmem_write_read:
  assumes "fm_inv fm" and "fm_readable fm" and "\<not> fm_append fm" and "fm_pos fm + length data \<le> fm_size fm"
    and "data \<noteq> []"
  shows "\<exists>fm1 fm2 fm3. fmem_write fm data = Some (fm1, length data) \<and>
    fmem_seek fm1 (int (fm_pos fm)) SEEK_SET = (fm2, Inr (int (fm_pos fm))) \<and>
    fmem_read fm2 (length data) = Some (fm3, data) \<and> fm_pos fm3 = fm_pos fm + length data"
proof -
  have k: "min (fm_room fm) (length data) = length data" "fm_start fm = fm_pos fm"
    using assms(3,4) by (simp_all add: fm_room_def fm_start_def)
  from fmem_write_spec [OF assms(1), of data, unfolded k] assms(2,5)
  obtain fm1 where 1: "fmem_write fm data = Some (fm1, length data)" "fm_inv fm1" "fm_pos fm1 = fm_pos fm + length data"
    "length (fm_buf fm1) = length (fm_buf fm)" "fm_len fm1 = max (fm_len fm) (fm_pos fm + length data)"
    "\<forall>i<fm_size fm. fm_buf fm1 ! i = (if fm_len fm < fm_pos fm + length data \<and> i = fm_pos fm + length data then 0
        else if fm_pos fm \<le> i \<and> i < fm_pos fm + length data then data ! (i - fm_pos fm) else fm_buf fm ! i)"
    by auto
  have size: "fm_size fm \<le> SSIZE_MAX" "fm_size fm \<le> length (fm_buf fm)" using assms(1) by (simp_all add: fm_inv_def)
  then have off: "int (fm_pos fm) \<le> int SSIZE_MAX" using assms(4) by simp
  have sz1: "fm_pos fm \<le> fm_size fm1" "fm_len fm1 \<le> fm_size fm1" using 1 by (auto simp: fm_inv_def)
  define fm2 where "fm2 = fm1\<lparr>fm_pos := fm_pos fm\<rparr>"
  have seek: "fmem_seek fm1 (int (fm_pos fm)) SEEK_SET = (fm2, Inr (int (fm_pos fm)))"
    using fmem_seek_eq [OF 1(2) off, of SEEK_SET] sz1 by (simp add: seek_spec_def seek_base_def fm2_def)
  have inv2: "fm_inv fm2" using 1(2) sz1 by (simp add: fm_inv_def fm2_def)
  have "take (length data) (drop (fm_pos fm) (fm_contents fm2)) = data"
  proof (rule nth_equalityI)
    show len: "length (take (length data) (drop (fm_pos fm) (fm_contents fm2))) = length data"
      using fm_contents_length [OF inv2] 1(5) by (simp add: fm2_def)
    fix i assume "i < length (take (length data) (drop (fm_pos fm) (fm_contents fm2)))"
    then have i: "i < length data" by (simp only: len)
    then have "fm_pos fm + i < fm_size fm" "fm_pos fm + i < fm_len fm1" using assms(4) 1(5) by simp_all
    with i 1(4,6) size(2) show "take (length data) (drop (fm_pos fm) (fm_contents fm2)) ! i = data ! i"
      by (simp add: fm_contents_def fm2_def)
  qed
  moreover have "fm_pos fm2 = fm_pos fm" by (simp add: fm2_def)
  ultimately obtain fm3 where
    "fmem_read fm2 (length data) = Some (fm3, data)" "fm_pos fm3 = fm_pos fm + length data"
    using fmem_read_spec [OF inv2, of "length data"] by metis
  with 1(1) seek show ?thesis by blast
qed

theorem fmem_write_read_witness:
  "\<exists>fm1 fm2 fm3. fmem_write (sample_fm\<lparr>fm_readable := True\<rparr>) [7, 8] = Some (fm1, length [7 :: byte, 8]) \<and>
    fmem_seek fm1 (int 1) SEEK_SET = (fm2, Inr (int 1)) \<and>
    fmem_read fm2 (length [7 :: byte, 8]) = Some (fm3, [7, 8]) \<and> fm_pos fm3 = 1 + length [7 :: byte, 8]"
  using fmem_write_read [of "sample_fm\<lparr>fm_readable := True\<rparr>" "[7, 8]"]
  by (simp add: sample_fm_def fm_inv_def SSIZE_MAX_def)

end
