(* ===== verification/Stdio.thy ===== *)
theory Stdio
  imports MemStream
begin

section \<open>Buffered streams: stdio/file.c\<close>

text \<open>
  A stream is a buffer in front of a device. The device is a value of a type of its own with the
  primitives \<open>file_rawRead\<close>, \<open>file_rawWrite\<close> and \<open>file_rawSeek\<close> are built on: the system calls on a
  descriptor, or the hooks of a stream that has none. A primitive returns the device after the call and
  the error or the result; it has no result (\<open>None\<close>) where the call has no defined outcome.

  A stream carries the \<open>errno\<close> of the thread that uses it. The lock of the stream makes each call one
  step, so it is not part of the state. The access mode is one of three, each a bit of its own in
  \<open>mode\<close>, as the masks in the code require.
\<close>

subsection \<open>The device\<close>

type_synonym 'd rd_fun = "'d \<Rightarrow> nat \<Rightarrow> ('d \<times> (errno + byte list)) option"
type_synonym 'd wr_fun = "'d \<Rightarrow> byte list \<Rightarrow> ('d \<times> (errno + nat)) option"
type_synonym 'd sk_fun = "'d \<Rightarrow> int \<Rightarrow> whence \<Rightarrow> ('d \<times> (errno + int)) option"

record 'd file_ops =
  op_read :: "'d rd_fun option"
  op_write :: "'d wr_fun option"
  op_seek :: "'d sk_fun option"

text \<open>The system calls and the hooks; \<open>F_OPS\<close> decides which of them a stream uses.\<close>

record 'd raw =
  sys_read :: "'d rd_fun"
  sys_write :: "'d wr_fun"
  sys_lseek :: "'d sk_fun"
  hooks :: "'d file_ops"

datatype access = O_RDONLY | O_WRONLY | O_RDWR

record 'd FILE =
  dev :: 'd
  F_EOF :: bool
  F_WRITING :: bool
  F_LINE :: bool
  F_ERROR :: bool
  F_USRBUF :: bool
  F_OPS :: bool
  fmode :: access
  bufeof :: nat
  bufpos :: nat
  bufsz :: nat
  buffer :: "byte list option"
  ferrno :: "errno option"

text \<open>A result of \<open>ssize_t\<close>: -1 and \<open>errno\<close>, or what \<open>ok\<close> makes of the answer.\<close>

definition raw_result :: "'d FILE \<Rightarrow> 'd \<times> (errno + 'b) \<Rightarrow> ('b \<Rightarrow> int) \<Rightarrow> 'd FILE \<times> int \<times> 'b option" where
  "raw_result f r ok =
     (case r of
        (d, Inl e) \<Rightarrow> (f\<lparr>dev := d, ferrno := Some e\<rparr>, -1, None)
      | (d, Inr b) \<Rightarrow> (f\<lparr>dev := d\<rparr>, ok b, Some b))"

text \<open>The primitives a stream uses: its hooks, which may be missing, or the system calls.\<close>

definition raw_rd :: "'d raw \<Rightarrow> bool \<Rightarrow> 'd rd_fun option" where
  "raw_rd R ops = (if ops then op_read (hooks R) else Some (sys_read R))"

definition raw_wr :: "'d raw \<Rightarrow> bool \<Rightarrow> 'd wr_fun option" where
  "raw_wr R ops = (if ops then op_write (hooks R) else Some (sys_write R))"

definition raw_sk :: "'d raw \<Rightarrow> bool \<Rightarrow> 'd sk_fun option" where
  "raw_sk R ops = (if ops then op_seek (hooks R) else Some (sys_lseek R))"

definition file_rawRead :: "'d raw \<Rightarrow> 'd FILE \<Rightarrow> nat \<Rightarrow> ('d FILE \<times> int \<times> byte list) option" where
  "file_rawRead R f n =
     (case raw_rd R (F_OPS f) of
        None \<Rightarrow> Some (f\<lparr>ferrno := Some EBADF\<rparr>, -1, [])
      | Some h \<Rightarrow> do {
          r \<leftarrow> h (dev f) n;
          let (f, k, bs) = raw_result f r (\<lambda>bs. int (length bs));
          Some (f, k, case bs of None \<Rightarrow> [] | Some bs \<Rightarrow> bs) })"

definition file_rawWrite :: "'d raw \<Rightarrow> 'd FILE \<Rightarrow> byte list \<Rightarrow> ('d FILE \<times> int) option" where
  "file_rawWrite R f data =
     (case raw_wr R (F_OPS f) of
        None \<Rightarrow> Some (f\<lparr>ferrno := Some EBADF\<rparr>, -1)
      | Some h \<Rightarrow> do { r \<leftarrow> h (dev f) data; let (f, k, _) = raw_result f r int; Some (f, k) })"

definition file_rawSeek :: "'d raw \<Rightarrow> 'd FILE \<Rightarrow> int \<Rightarrow> whence \<Rightarrow> ('d FILE \<times> int) option" where
  "file_rawSeek R f off wh =
     (case raw_sk R (F_OPS f) of
        None \<Rightarrow> Some (f\<lparr>ferrno := Some ESPIPE\<rparr>, -1)
      | Some h \<Rightarrow> do { r \<leftarrow> h (dev f) off wh; let (f, k, _) = raw_result f r (\<lambda>n. n); Some (f, k) })"

subsection \<open>Writing\<close>

text \<open>Subtraction of \<open>size_t\<close>, and the conversion of an \<open>ssize_t\<close> for a comparison with one.\<close>

definition usub :: "nat \<Rightarrow> nat \<Rightarrow> nat" where
  "usub a b = size_of (int a - int b)"

partial_function (option) full_write_loop :: "'d raw \<Rightarrow> 'd FILE \<Rightarrow> byte list \<Rightarrow> int \<Rightarrow> ('d FILE \<times> int) option" where
  "full_write_loop R f data tot =
     (if data = [] then Some (f, tot)
      else do {
        (f, err) \<leftarrow> file_rawWrite R f data;
        if err < 0 then Some (f, if ferrno f = Some EAGAIN then tot else -1)
        else if err = 0 \<and> F_OPS f then Some (f\<lparr>ferrno := Some ENOSPC\<rparr>, tot)
        else if nat err \<le> length data then full_write_loop R f (drop (nat err) data) (tot + err)
        else None })"

definition full_write :: "'d raw \<Rightarrow> 'd FILE \<Rightarrow> byte list \<Rightarrow> ('d FILE \<times> int) option" where
  "full_write R f data = full_write_loop R f data 0"

text \<open>The first \<open>n\<close> bytes of the buffer, which have to be there.\<close>

definition buffered :: "'d FILE \<Rightarrow> nat \<Rightarrow> nat \<Rightarrow> byte list option" where
  "buffered f p n =
     (case buffer f of None \<Rightarrow> None
      | Some buf \<Rightarrow> if p + n \<le> length buf then Some (take n (drop p buf)) else None)"

text \<open>\<open>memmove(buffer, buffer + err, bufpos)\<close>.\<close>

definition shift_buffer :: "'d FILE \<Rightarrow> nat \<Rightarrow> 'd FILE option" where
  "shift_buffer f err = do {
     rest \<leftarrow> buffered f err (bufpos f);
     buf \<leftarrow> buffer f;
     buf \<leftarrow> overwrite buf 0 rest;
     Some (f\<lparr>buffer := Some buf\<rparr>) }"

definition fflush_one :: "'d raw \<Rightarrow> 'd FILE \<Rightarrow> ('d FILE \<times> int) option" where
  "fflush_one R f =
     (if buffer f = None then Some (f, 0)
      else if F_WRITING f then
        if bufpos f \<noteq> 0 then do {
          data \<leftarrow> buffered f 0 (bufpos f);
          (f, err) \<leftarrow> full_write R f data;
          if err < 0 then Some (f\<lparr>F_ERROR := True\<rparr>, -1)
          else do {
            let f = f\<lparr>bufpos := usub (bufpos f) (nat err)\<rparr>;
            if bufpos f \<noteq> 0 then do {
              f \<leftarrow> (if err > 0 then shift_buffer f (nat err) else Some f);
              Some (f\<lparr>F_ERROR := True\<rparr>, -1) }
            else Some (f, 0) } }
        else Some (f, 0)
      else
        if bufpos f \<noteq> bufeof f then do {
          (f, off) \<leftarrow> file_rawSeek R f (off_of (usub (bufpos f) (bufeof f))) SEEK_CUR;
          if off = -1 then
            if ferrno f = Some ESPIPE then Some (f, 0) else Some (f\<lparr>F_ERROR := True\<rparr>, -1)
          else Some (f\<lparr>bufpos := bufsz f, bufeof := bufsz f\<rparr>, 0) }
        else Some (f, 0))"

definition buffer_data :: "'d FILE \<Rightarrow> byte list \<Rightarrow> ('d FILE \<times> nat) option" where
  "buffer_data f data =
     (let bytes = min (usub (bufsz f) (bufpos f)) (length data) in
      if bytes > 0 then do {
        buf \<leftarrow> buffer f;
        buf \<leftarrow> overwrite buf (bufpos f) (take bytes data);
        Some (f\<lparr>buffer := Some buf, bufpos := bufpos f + bytes\<rparr>, bytes) }
      else Some (f, bytes))"

definition write_buffer :: "'d raw \<Rightarrow> 'd FILE \<Rightarrow> nat \<Rightarrow> ('d FILE \<times> int) option" where
  "write_buffer R f writesz = do {
     data \<leftarrow> buffered f 0 writesz;
     (f, err) \<leftarrow> full_write R f data;
     if err \<ge> 0 then do {
       let f = f\<lparr>bufpos := usub (bufpos f) (nat err)\<rparr>;
       let f = (if nat err < writesz then f\<lparr>F_ERROR := True\<rparr> else f);
       f \<leftarrow> (if err > 0 \<and> bufpos f > 0 then shift_buffer f (nat err) else Some f);
       Some (f, err) }
     else Some (f\<lparr>F_ERROR := True\<rparr>, err) }"

definition write_data :: "'d raw \<Rightarrow> 'd FILE \<Rightarrow> byte list \<Rightarrow> ('d FILE \<times> int) option" where
  "write_data R f data = do {
     (f, err) \<leftarrow> full_write R f data;
     if err \<ge> 0 then Some (if nat err < length data then f\<lparr>F_ERROR := True\<rparr> else f, err)
     else Some (f\<lparr>F_ERROR := True\<rparr>, err) }"

text \<open>The position of the last newline.\<close>

definition last_nl :: "byte list \<Rightarrow> nat option" where
  "last_nl bs = (if 10 \<in> set bs then Some (length bs - 1 - length (takeWhile (\<lambda>c. c \<noteq> 10) (rev bs))) else None)"

text \<open>
  The end of \<open>fwrite_unlocked\<close> after a write that came short: the unsigned comparison takes -1 for the
  largest number, so that only a short count stops the call. \<open>go\<close> is the code behind it; the rest of
  the data and the count so far are passed on.
\<close>

definition after_write ::
  "'d FILE \<Rightarrow> int \<Rightarrow> nat \<Rightarrow> byte list \<Rightarrow> nat \<Rightarrow> ('d FILE \<Rightarrow> byte list \<Rightarrow> nat \<Rightarrow> ('d FILE \<times> nat) option) \<Rightarrow>
   ('d FILE \<times> nat) option" where
  "after_write f err bytes data tot go =
     (let data' = (if err > 0 then drop (nat err) data else data);
          tot' = (if err > 0 then tot + nat err else tot)
      in if size_of err < bytes then
           if err > 0 then do { (f, k) \<leftarrow> buffer_data f data'; Some (f, tot' + k) } else Some (f, tot')
         else go f data' tot')"

text \<open>The part of \<open>fwrite_unlocked\<close> on an empty buffer: whole blocks, then whole lines, then the rest.\<close>

definition fwrite_empty :: "'d raw \<Rightarrow> 'd FILE \<Rightarrow> byte list \<Rightarrow> nat \<Rightarrow> ('d FILE \<times> nat) option" where
  "fwrite_empty R f data tot =
     (let rest = (\<lambda>f data tot. do { (f, k) \<leftarrow> buffer_data f data; Some (f, tot + k) });
          lines = (\<lambda>f data tot.
            case (if data \<noteq> [] \<and> F_LINE f then last_nl data else None) of
              None \<Rightarrow> rest f data tot
            | Some nl \<Rightarrow> do {
                (f, err) \<leftarrow> write_data R f (take (nl + 1) data);
                after_write f err (nl + 1) data tot rest })
      in if length data \<ge> bufsz f \<and> bufsz f = 0 then None
         else if length data \<ge> bufsz f then
           let bytes = (length data div bufsz f) * bufsz f in do {
             (f, err) \<leftarrow> write_data R f (take bytes data);
             after_write f err bytes data tot lines }
         else lines f data tot)"

text \<open>The switch from reading to writing; the flag tells whether it succeeded.\<close>

definition start_writing :: "'d raw \<Rightarrow> 'd FILE \<Rightarrow> ('d FILE \<times> bool) option" where
  "start_writing R f =
     (if F_WRITING f then Some (f, True)
      else do {
        (f, r) \<leftarrow> fflush_one R f;
        if r < 0 then Some (f, False)
        else if bufpos f \<noteq> bufeof f then Some (f, False)
        else Some (f\<lparr>F_WRITING := True, bufpos := 0\<rparr>, True) })"

text \<open>
  The part of \<open>fwrite_unlocked\<close> on a buffer in use: fill it, write it when it is full. The count of the
  bytes taken, and whether the call ends here.
\<close>

definition fwrite_fill :: "'d raw \<Rightarrow> 'd FILE \<Rightarrow> byte list \<Rightarrow> ('d FILE \<times> nat \<times> bool) option" where
  "fwrite_fill R f data = do {
     (f, tot) \<leftarrow> (if bufpos f > 0 \<and> bufpos f < bufsz f then buffer_data f data else Some (f, 0));
     if bufpos f = bufsz f then do {
       (f, err) \<leftarrow> write_buffer R f (bufsz f);
       if size_of err < bufsz f then
         if err > 0 then do { (f, k) \<leftarrow> buffer_data f (drop tot data); Some (f, tot + k, True) }
         else Some (f, tot, True)
       else Some (f, tot, False) }
     else Some (f, tot, False) }"

text \<open>The whole lines of a line-buffered stream's buffer.\<close>

definition fwrite_lines :: "'d raw \<Rightarrow> 'd FILE \<Rightarrow> 'd FILE option" where
  "fwrite_lines R f =
     (if bufpos f > 0 \<and> F_LINE f then do {
        b \<leftarrow> buffered f 0 (bufpos f);
        case last_nl b of
          None \<Rightarrow> Some f
        | Some nl \<Rightarrow> do { (f, err) \<leftarrow> write_buffer R f (nl + 1); Some f } }
      else Some f)"

text \<open>The count of the bytes taken, of at least one; \<open>None\<close> in the result: 0 at once.\<close>

definition fwrite_total :: "'d raw \<Rightarrow> 'd FILE \<Rightarrow> byte list \<Rightarrow> ('d FILE \<times> nat option) option" where
  "fwrite_total R f data =
     (if fmode f = O_RDONLY then Some (f\<lparr>ferrno := Some EBADF, F_ERROR := True\<rparr>, None)
      else do {
        (f, go) \<leftarrow> start_writing R f;
        if \<not> go then Some (f, None)
        else do {
          (f, tot, stop) \<leftarrow> fwrite_fill R f data;
          if stop then Some (f, Some tot)
          else if bufpos f = 0 then do {
            (f, tot) \<leftarrow> fwrite_empty R f (drop tot data) tot;
            Some (f, Some tot) }
          else do { f \<leftarrow> fwrite_lines R f; Some (f, Some tot) } } })"

definition fwrite_unlocked :: "'d raw \<Rightarrow> byte list \<Rightarrow> nat \<Rightarrow> nat \<Rightarrow> 'd FILE \<Rightarrow> ('d FILE \<times> nat) option" where
  "fwrite_unlocked R ptr sz nmemb f =
     (let writesz = (nmemb * sz) mod 2 ^ 64; data = take writesz ptr in
      if writesz = 0 then Some (f, 0)
      else if length ptr < writesz then None
      else if buffer f = None then do {
        (f, err) \<leftarrow> write_data R f data;
        Some (f, if err > 0 then nat err div sz else 0) }
      else do {
        (f, tot) \<leftarrow> fwrite_total R f data;
        Some (f, case tot of None \<Rightarrow> 0 | Some tot \<Rightarrow> tot div sz) })"


definition fputc_unlocked :: "'d raw \<Rightarrow> int \<Rightarrow> 'd FILE \<Rightarrow> ('d FILE \<times> int) option" where
  "fputc_unlocked R c f = do {
     (f, k) \<leftarrow> fwrite_unlocked R [word_of_int c] 1 1 f;
     Some (f, if k \<noteq> 1 then -1 else c) }"

text \<open>\<open>s\<close>: the bytes before the NUL.\<close>

partial_function (option) fputs_loop :: "'d raw \<Rightarrow> byte list \<Rightarrow> nat \<Rightarrow> 'd FILE \<Rightarrow> ('d FILE \<times> int) option" where
  "fputs_loop R s wrote f =
     (if wrote < length s then do {
        (f, ret) \<leftarrow> fwrite_unlocked R (drop wrote s) 1 (length s - wrote) f;
        if ret = 0 then Some (f, -1) else fputs_loop R s (wrote + ret) f }
      else Some (f, if wrote < 2147483647 then int wrote else 2147483647))"

definition fputs_unlocked :: "'d raw \<Rightarrow> byte list \<Rightarrow> 'd FILE \<Rightarrow> ('d FILE \<times> int) option" where
  "fputs_unlocked R s f = fputs_loop R s 0 f"

subsection \<open>Reading\<close>

text \<open>
  The destination is an object of its own, \<open>ptr\<close> with an offset. A count is followed by what is
  in the object then.
\<close>

definition unbuffer_data :: "'d FILE \<Rightarrow> byte list \<Rightarrow> nat \<Rightarrow> nat \<Rightarrow> ('d FILE \<times> byte list \<times> nat) option" where
  "unbuffer_data f ptr off readsz =
     (let bytes = min (usub (bufeof f) (bufpos f)) readsz in
      if bytes > 0 then do {
        bs \<leftarrow> buffered f (bufpos f) bytes;
        ptr \<leftarrow> overwrite ptr off bs;
        Some (f\<lparr>bufpos := bufpos f + bytes\<rparr>, ptr, bytes) }
      else Some (f, ptr, bytes))"

partial_function (option) read_buffer_loop :: "'d raw \<Rightarrow> 'd FILE \<Rightarrow> nat \<Rightarrow> nat \<Rightarrow> ('d FILE \<times> nat option) option" where
  "read_buffer_loop R f readsz tot =
     (if tot < readsz then do {
        (f, err, bs) \<leftarrow> file_rawRead R f (usub (bufsz f) tot);
        if err < 0 then
          Some (f\<lparr>F_ERROR := True\<rparr>, if ferrno f \<noteq> Some EAGAIN then None else Some tot)
        else if err = 0 then Some (f\<lparr>F_EOF := True\<rparr>, Some tot)
        else do {
          buf \<leftarrow> buffer f;
          buf \<leftarrow> overwrite buf tot bs;
          read_buffer_loop R (f\<lparr>buffer := Some buf\<rparr>) readsz (tot + nat err) } }
      else Some (f, Some tot))"

definition read_buffer :: "'d raw \<Rightarrow> 'd FILE \<Rightarrow> nat \<Rightarrow> ('d FILE \<times> int) option" where
  "read_buffer R f readsz = do {
     (f, tot) \<leftarrow> read_buffer_loop R f readsz 0;
     case tot of
       None \<Rightarrow> Some (f, -1)
     | Some tot \<Rightarrow> Some (if tot > 0 then f\<lparr>bufpos := 0, bufeof := tot\<rparr> else f, int tot) }"

partial_function (option) read_data :: "'d raw \<Rightarrow> 'd FILE \<Rightarrow> byte list \<Rightarrow> nat \<Rightarrow> nat \<Rightarrow> int \<Rightarrow>
    ('d FILE \<times> byte list \<times> int) option" where
  "read_data R f ptr off readsz tot =
     (if readsz > 0 then do {
        (f, err, bs) \<leftarrow> file_rawRead R f readsz;
        if err < 0 then
          Some (f\<lparr>F_ERROR := True\<rparr>, ptr, if ferrno f \<noteq> Some EAGAIN then -1 else tot)
        else if err = 0 then Some (f\<lparr>F_EOF := True\<rparr>, ptr, tot)
        else do {
          ptr \<leftarrow> overwrite ptr off bs;
          if nat err \<le> readsz then read_data R f ptr (off + nat err) (readsz - nat err) (tot + err) else None } }
      else Some (f, ptr, tot))"

text \<open>The switch from writing to reading; the flag tells whether it succeeded.\<close>

definition start_reading :: "'d raw \<Rightarrow> 'd FILE \<Rightarrow> ('d FILE \<times> bool) option" where
  "start_reading R f =
     (if F_WRITING f then do {
        (f, r) \<leftarrow> fflush_one R f;
        if r < 0 then Some (f, False)
        else Some (f\<lparr>F_WRITING := False, bufpos := bufsz f, bufeof := bufsz f\<rparr>, True) }
      else Some (f, True))"

text \<open>The whole blocks, read past the buffer; the flag tells whether the call ends with them.\<close>

definition read_blocks :: "'d raw \<Rightarrow> 'd FILE \<Rightarrow> byte list \<Rightarrow> nat \<Rightarrow> nat \<Rightarrow> ('d FILE \<times> byte list \<times> nat \<times> bool) option" where
  "read_blocks R f ptr tot readsz =
     (if readsz \<ge> bufsz f then
        if bufsz f = 0 then None
        else
          let bytes = (readsz div bufsz f) * bufsz f in do {
            (f, ptr, err) \<leftarrow> read_data R f ptr tot bytes 0;
            Some (f, ptr, if err > 0 then tot + nat err else tot, size_of err < bytes) }
      else Some (f, ptr, tot, False))"

definition fread_unlocked :: "'d raw \<Rightarrow> byte list \<Rightarrow> nat \<Rightarrow> nat \<Rightarrow> 'd FILE \<Rightarrow> ('d FILE \<times> byte list \<times> nat) option" where
  "fread_unlocked R ptr sz nmemb f =
     (let readsz = (nmemb * sz) mod 2 ^ 64 in
      if readsz = 0 then Some (f, ptr, 0)
      else if buffer f = None then do {
        (f, ptr, err) \<leftarrow> read_data R f ptr 0 readsz 0;
        Some (f, ptr, if err > 0 then nat err div sz else 0) }
      else if fmode f = O_WRONLY then Some (f\<lparr>ferrno := Some EBADF, F_ERROR := True\<rparr>, ptr, 0)
      else do {
        (f, go) \<leftarrow> start_reading R f;
        if \<not> go then Some (f, ptr, 0)
        else do {
          (f, ptr, tot) \<leftarrow> (if bufpos f \<noteq> bufeof f then unbuffer_data f ptr 0 readsz else Some (f, ptr, 0));
          (f, ptr, tot, stop) \<leftarrow> read_blocks R f ptr tot (readsz - tot);
          if stop then Some (f, ptr, tot div sz)
          else if readsz - tot = 0 then Some (f, ptr, nmemb)
          else do {
            (f, err) \<leftarrow> read_buffer R f (readsz - tot);
            if err < 0 then Some (f, ptr, tot div sz)
            else do {
              (f, ptr, k) \<leftarrow> unbuffer_data f ptr tot (readsz - tot);
              Some (f, ptr, (tot + k) div sz) } } } })"

definition fgetc_unlocked :: "'d raw \<Rightarrow> 'd FILE \<Rightarrow> ('d FILE \<times> int) option" where
  "fgetc_unlocked R f =
     (if F_EOF f then Some (f, -1)
      else do {
        (f, cc, k) \<leftarrow> fread_unlocked R [0] 1 1 f;
        Some (f, if k \<noteq> 1 then -1 else uint (hd cc)) })"

text \<open>\<open>left\<close>: the characters that still fit. The result: whether \<open>str\<close> is returned, rather than NULL.\<close>

fun fgets_loop :: "'d raw \<Rightarrow> byte list \<Rightarrow> nat \<Rightarrow> nat \<Rightarrow> 'd FILE \<Rightarrow> ('d FILE \<times> byte list \<times> bool) option" where
  "fgets_loop R s i 0 f = do { s \<leftarrow> overwrite s i [0]; Some (f, s, True) }"
| "fgets_loop R s i (Suc left) f = do {
     (f, c) \<leftarrow> fgetc_unlocked R f;
     if c = -1 then
       if i = 0 then Some (f, s, False)
       else do { s \<leftarrow> overwrite s i [0]; Some (f, s, True) }
     else do {
       s \<leftarrow> overwrite s i [word_of_int c];
       if c = 10 then do { s \<leftarrow> overwrite s (i + 1) [0]; Some (f, s, True) }
       else fgets_loop R s (i + 1) left f } }"

definition fgets_unlocked :: "'d raw \<Rightarrow> byte list \<Rightarrow> int \<Rightarrow> 'd FILE \<Rightarrow> ('d FILE \<times> byte list \<times> bool) option" where
  "fgets_unlocked R s n f =
     (if n < 1 then Some (f, s, False) else fgets_loop R s 0 (nat (n - 1)) f)"

text \<open>
  \<open>getdelim\<close>: the line is an object of \<open>*n\<close> bytes, \<open>None\<close> for NULL; \<open>fresh\<close> is the object an allocation
  of a size returns, where it succeeds, of which \<open>realloc\<close> keeps what does not get the old bytes. The
  result is the object, its size and what is returned.
\<close>

definition getdelim_grow :: "(nat \<Rightarrow> byte list option) \<Rightarrow> byte list \<Rightarrow> errno + byte list" where
  "getdelim_grow fresh line =
     (let n = length line in
      if n \<ge> SSIZE_MAX - 1 then Inl EOVERFLOW
      else
        let new_n = (if n \<ge> SSIZE_MAX div 2 then SSIZE_MAX else 2 * n);
            new_n = (if new_n < 8 then 8 else new_n)
        in case fresh new_n of None \<Rightarrow> Inl ENOMEM | Some b \<Rightarrow> Inr (take new_n line @ drop n b))"

partial_function (option) getdelim_loop ::
  "'d raw \<Rightarrow> (nat \<Rightarrow> byte list option) \<Rightarrow> int \<Rightarrow> byte list \<Rightarrow> nat \<Rightarrow> 'd FILE \<Rightarrow> ('d FILE \<times> byte list \<times> int) option" where
  "getdelim_loop R fresh delim line i f =
     (case (if i + 2 \<ge> length line then getdelim_grow fresh line else Inr line) of
        Inl e \<Rightarrow> Some (f\<lparr>ferrno := Some e\<rparr>, line, -1)
      | Inr line \<Rightarrow> do {
          (f, c) \<leftarrow> fgetc_unlocked R f;
          if c < 0 then
            if F_EOF f \<and> i \<noteq> 0 then do { line \<leftarrow> overwrite line i [0]; Some (f, line, int i) }
            else Some (f, line, -1)
          else do {
            line \<leftarrow> overwrite line i [word_of_int c];
            if c = delim then do { line \<leftarrow> overwrite line (i + 1) [0]; Some (f, line, int (i + 1)) }
            else getdelim_loop R fresh delim line (i + 1) f } })"

definition getdelim :: "'d raw \<Rightarrow> (nat \<Rightarrow> byte list option) \<Rightarrow> byte list option \<Rightarrow> int \<Rightarrow> 'd FILE \<Rightarrow>
    ('d FILE \<times> byte list option \<times> int) option" where
  "getdelim R fresh lineptr delim f =
     (case (case lineptr of None \<Rightarrow> fresh 120 | Some [] \<Rightarrow> fresh 120 | Some l \<Rightarrow> Some l) of
        None \<Rightarrow> Some (f\<lparr>ferrno := Some ENOMEM\<rparr>, None, -1)
      | Some line \<Rightarrow> do {
          (f, line, r) \<leftarrow> getdelim_loop R fresh delim line 0 f;
          Some (f, Some line, r) })"

subsection \<open>The position\<close>

definition fflush :: "'d raw \<Rightarrow> 'd FILE \<Rightarrow> ('d FILE \<times> int) option" where
  "fflush R f = fflush_one R f"

definition fseek_unlocked :: "'d raw \<Rightarrow> 'd FILE \<Rightarrow> int \<Rightarrow> whence \<Rightarrow> ('d FILE \<times> int) option" where
  "fseek_unlocked R f offset wh = do {
     (f, err) \<leftarrow> fflush_one R f;
     if err < 0 then Some (f, -1) else file_rawSeek R f offset wh }"

definition fseek :: "'d raw \<Rightarrow> 'd FILE \<Rightarrow> int \<Rightarrow> whence \<Rightarrow> ('d FILE \<times> int) option" where
  "fseek R f offset wh = do {
     (f, off) \<leftarrow> fseek_unlocked R f offset wh;
     if off \<noteq> -1 then Some (f\<lparr>F_EOF := False\<rparr>, 0) else Some (f, -1) }"

definition rewind :: "'d raw \<Rightarrow> 'd FILE \<Rightarrow> 'd FILE option" where
  "rewind R f = do { (f, _) \<leftarrow> fseek R f 0 SEEK_SET; Some (f\<lparr>F_ERROR := False\<rparr>) }"

definition ftell :: "'d raw \<Rightarrow> 'd FILE \<Rightarrow> ('d FILE \<times> int) option" where
  "ftell R f = do {
     (f, off) \<leftarrow> file_rawSeek R f 0 SEEK_CUR;
     if off = -1 then Some (f, -1)
     else Some (f, if buffer f \<noteq> None then
                     if F_WRITING f then off + int (bufpos f)
                     else if bufpos f \<noteq> bufeof f then off - int (usub (bufeof f) (bufpos f)) else off
                   else off) }"

definition ungetc :: "'d raw \<Rightarrow> int \<Rightarrow> 'd FILE \<Rightarrow> ('d FILE \<times> int) option" where
  "ungetc R c f =
     (if c = -1 \<or> buffer f = None then Some (f, -1)
      else do {
        (f, go) \<leftarrow> start_reading R f;
        if \<not> go then Some (f, -1)
        else if bufpos f > 0 then do {
          buf \<leftarrow> buffer f;
          buf \<leftarrow> overwrite buf (bufpos f - 1) [word_of_int c];
          Some (f\<lparr>buffer := Some buf, bufpos := bufpos f - 1, F_EOF := False\<rparr>, c) }
        else Some (f, -1) })"

definition clearerr :: "'d FILE \<Rightarrow> 'd FILE" where
  "clearerr f = f\<lparr>F_ERROR := False, F_EOF := False\<rparr>"

definition feof :: "'d FILE \<Rightarrow> bool" where "feof f = F_EOF f"

definition ferror :: "'d FILE \<Rightarrow> bool" where "ferror f = F_ERROR f"


subsection \<open>Opening\<close>

text \<open>The flags of a mode string; \<open>None\<close>: the string is invalid (-1).\<close>

record mode_flags =
  m_access :: access
  m_creat :: bool
  m_trunc :: bool
  m_append :: bool
  m_excl :: bool
  m_cloexec :: bool

fun mode_extra :: "byte list \<Rightarrow> bool \<times> bool \<times> bool \<Rightarrow> (bool \<times> bool \<times> bool) option" where
  "mode_extra [] acc = Some acc"
| "mode_extra (c # cs) (up, excl, cloexec) =
     (if c = of_char (CHR ''+'') then mode_extra cs (True, excl, cloexec)
      else if c \<in> set (str ''btcm'') then mode_extra cs (up, excl, cloexec)
      else if c = of_char (CHR ''x'') then mode_extra cs (up, True, cloexec)
      else if c = of_char (CHR ''e'') then mode_extra cs (up, excl, True)
      else None)"

definition string2mode :: "byte list option \<Rightarrow> mode_flags option" where
  "string2mode mode =
     (case mode of
        None \<Rightarrow> None
      | Some [] \<Rightarrow> None
      | Some (m0 # ms) \<Rightarrow> do {
          (up, excl, cloexec) \<leftarrow> mode_extra ms (False, False, False);
          if m0 = of_char (CHR ''r'') then
            Some \<lparr>m_access = (if up then O_RDWR else O_RDONLY), m_creat = False, m_trunc = False, m_append = False,
                  m_excl = excl, m_cloexec = cloexec\<rparr>
          else if m0 = of_char (CHR ''w'') then
            Some \<lparr>m_access = (if up then O_RDWR else O_WRONLY), m_creat = True, m_trunc = True, m_append = False,
                  m_excl = excl, m_cloexec = cloexec\<rparr>
          else if m0 = of_char (CHR ''a'') then
            Some \<lparr>m_access = (if up then O_RDWR else O_WRONLY), m_creat = True, m_trunc = False, m_append = True,
                  m_excl = excl, m_cloexec = cloexec\<rparr>
          else None })"

text \<open>The stream of \<open>fopen\<close> and \<open>fdopen\<close> on a descriptor, and of \<open>_file_openOps\<close> on hooks.\<close>

definition fresh_stream :: "nat \<Rightarrow> mode_flags \<Rightarrow> bool \<Rightarrow> 'd \<Rightarrow> 'd FILE" where
  "fresh_stream bufsiz m ops d =
     \<lparr>dev = d, F_EOF = False, F_WRITING = False, F_LINE = False, F_ERROR = False, F_USRBUF = False, F_OPS = ops,
      fmode = m_access m, bufeof = 0, bufpos = 0, bufsz = bufsiz, buffer = Some (replicate bufsiz 0), ferrno = None\<rparr>"

text \<open>
  \<open>file\<close>, \<open>buf\<close>: the allocations succeed; \<open>lock\<close>: the error of \<open>mutexCreateWithAttr\<close>.
\<close>

definition file_openOps :: "nat \<Rightarrow> byte list option \<Rightarrow> 'd \<Rightarrow> bool \<Rightarrow> bool \<Rightarrow> errno option \<Rightarrow> errno + 'd FILE" where
  "file_openOps bufsiz mode cookie file buf lock =
     (case string2mode mode of
        None \<Rightarrow> Inl EINVAL
      | Some m \<Rightarrow>
          if \<not> file then Inl ENOMEM
          else if \<not> buf then Inl ENOMEM
          else case lock of Some e \<Rightarrow> Inl e | None \<Rightarrow> Inr (fresh_stream bufsiz m True cookie))"

text \<open>\<open>fdopen\<close>: \<open>fdm\<close> is the access of the descriptor, or the error of \<open>fcntl\<close>.\<close>

definition fdopen :: "nat \<Rightarrow> errno + access \<Rightarrow> byte list option \<Rightarrow> 'd \<Rightarrow> bool \<Rightarrow> bool \<Rightarrow> errno option \<Rightarrow> errno + 'd FILE" where
  "fdopen bufsiz fdm mode d file buf lock =
     (case string2mode mode of
        None \<Rightarrow> Inl EINVAL
      | Some m \<Rightarrow>
          (case fdm of
             Inl e \<Rightarrow> Inl e
           | Inr a \<Rightarrow>
               if a \<noteq> O_RDWR \<and> a \<noteq> m_access m then Inl EINVAL
               else if \<not> file then Inl ENOMEM
               else if \<not> buf then Inl ENOMEM
               else case lock of Some e \<Rightarrow> Inl e | None \<Rightarrow> Inr (fresh_stream bufsiz m False d)))"

text \<open>
  \<open>setvbuf\<close> with the buffer of the caller, \<open>None\<close> for NULL, and an object for \<open>buffAlloc\<close>. It returns
  whether the old buffer is freed.
\<close>

datatype buf_mode = IOFBF | IOLBF | IONBF

definition setvbuf :: "nat \<Rightarrow> (nat \<Rightarrow> byte list option) \<Rightarrow> 'd FILE \<Rightarrow> byte list option \<Rightarrow> buf_mode \<Rightarrow> nat \<Rightarrow>
    'd FILE \<times> int \<times> bool" where
  "setvbuf bufsiz alloc f buf mode sz =
     (let sz = (if buf = None \<and> mode \<noteq> IONBF \<and> sz = 0 then bufsiz else sz);
          reuse = (mode \<noteq> IONBF \<and> buf = None \<and> buffer f \<noteq> None \<and> bufsz f = sz \<and> \<not> F_USRBUF f);
          g = f\<lparr>buffer := None, bufsz := sz, F_USRBUF := False, F_LINE := False\<rparr>;
          fin = (\<lambda>g.
            let g = (if mode = IOLBF then g\<lparr>F_LINE := True\<rparr> else g);
                g = (if \<not> reuse then g\<lparr>bufpos := 0, bufeof := 0\<rparr> else g)
            in (g, 0, \<not> reuse \<and> \<not> F_USRBUF f \<and> buffer f \<noteq> None))
      in if mode \<noteq> IONBF then
           case buf of
             Some b \<Rightarrow> fin (g\<lparr>buffer := Some b, F_USRBUF := True\<rparr>)
           | None \<Rightarrow>
               if reuse then fin (g\<lparr>buffer := buffer f\<rparr>)
               else case alloc sz of None \<Rightarrow> (f, -1, False) | Some b \<Rightarrow> fin (g\<lparr>buffer := Some b\<rparr>)
         else fin g)"

text \<open>What \<open>stdio_ext.h\<close> shows of the buffer, and its changes.\<close>

definition fpending :: "'d FILE \<Rightarrow> nat" where
  "fpending f = (if F_WRITING f then bufpos f else 0)"

definition freadahead :: "'d FILE \<Rightarrow> nat" where
  "freadahead f = (if \<not> F_WRITING f \<and> bufeof f > bufpos f then bufeof f - bufpos f else 0)"

definition fpurge :: "'d FILE \<Rightarrow> 'd FILE" where
  "fpurge f = (let f = (if F_WRITING f then f\<lparr>bufpos := 0\<rparr> else f\<lparr>bufpos := bufsz f, bufeof := bufsz f\<rparr>)
     in f\<lparr>F_EOF := False\<rparr>)"

definition freadseek :: "'d FILE \<Rightarrow> nat \<Rightarrow> 'd FILE" where
  "freadseek f n =
     (if n = 0 then f
      else if \<not> F_WRITING f \<and> usub (bufeof f) (bufpos f) \<ge> n then f\<lparr>bufpos := bufpos f + n\<rparr> else f)"

end
