(* ===== verification/StdioFile.thy ===== *)
theory StdioFile
  imports Stdio
begin

section \<open>A buffered stream is a file\<close>

text \<open>
  What the stream layer needs of its device, as a locale; inside it, what every operation of
  \<open>Stdio\<close> does to the file the stream stands for. The locale is interpreted on the hooks of
  \<open>fmemopen\<close>, and what follows for a program that uses such a stream is stated over them. The end of
  the theory has what the code does where a device fails.
\<close>

subsection \<open>The contract of the device\<close>

lemma usub_id [simp]: "b \<le> a \<Longrightarrow> a \<le> SSIZE_MAX \<Longrightarrow> usub a b = a - b"
  by (simp add: usub_def)

lemma buffered_in: "buffer f = Some buf \<Longrightarrow> p + n \<le> length buf \<Longrightarrow> buffered f p n = Some (take n (drop p buf))"
  by (simp add: buffered_def)

text \<open>A write at a position inside the contents.\<close>

lemma file_write_in: "p \<le> length c \<Longrightarrow> file_write c p bs = take p c @ bs @ drop (p + length bs) c"
  by (simp add: file_write_def)

lemma file_write_length: "p \<le> length c \<Longrightarrow> length (file_write c p bs) = max (length c) (p + length bs)"
  by (auto simp: file_write_in max_def)

lemma file_write_nil [simp]: "p \<le> length c \<Longrightarrow> file_write c p [] = c"
  by (simp add: file_write_in)

lemma file_write_append:
  assumes "p \<le> length c"
  shows "file_write (file_write c p a) (p + length a) b = file_write c p (a @ b)"
proof -
  have "p + length a \<le> length (file_write c p a)" using assms by (simp add: file_write_length)
  then show ?thesis using assms by (simp add: file_write_in add.commute add.left_commute)
qed

text \<open>
  What the stream needs of its device: bytes with a position. A read returns a beginning of what is
  behind the position, nothing only at the end; a write that fits takes at least one byte; the position
  can be put anywhere inside the contents and a negative one is refused.
\<close>

locale raw_file =
  fixes R :: "'d raw"
    and ops :: bool
    and dinv :: "'d \<Rightarrow> bool"
    and contents :: "'d \<Rightarrow> byte list"
    and pos :: "'d \<Rightarrow> nat"
    and cap :: "'d \<Rightarrow> nat"
  assumes read_law: "dinv d \<Longrightarrow> \<exists>h d' bs. raw_rd R ops = Some h \<and> h d n = Some (d', Inr bs) \<and> dinv d' \<and>
      contents d' = contents d \<and> cap d' = cap d \<and> pos d' = pos d + length bs \<and>
      bs = take (length bs) (take n (drop (pos d) (contents d))) \<and>
      (bs = [] \<longrightarrow> n = 0 \<or> length (contents d) \<le> pos d)"
    and write_law: "dinv d \<Longrightarrow> data \<noteq> [] \<Longrightarrow> pos d + length data \<le> cap d \<Longrightarrow>
      \<exists>h d' k. raw_wr R ops = Some h \<and> h d data = Some (d', Inr k) \<and> dinv d' \<and> 0 < k \<and> k \<le> length data \<and>
        contents d' = file_write (contents d) (pos d) (take k data) \<and> cap d' = cap d \<and> pos d' = pos d + k"
    and seek_law: "dinv d \<Longrightarrow> seek_base (pos d) (length (contents d)) wh = Some base \<Longrightarrow> 0 \<le> base + off \<Longrightarrow>
      base + off \<le> int (length (contents d)) \<Longrightarrow>
      \<exists>h d'. raw_sk R ops = Some h \<and> h d off wh = Some (d', Inr (base + off)) \<and> dinv d' \<and>
        contents d' = contents d \<and> cap d' = cap d \<and> int (pos d') = base + off"
    and seek_bad: "dinv d \<Longrightarrow> seek_base (pos d) (length (contents d)) wh = Some base \<Longrightarrow> base + off < 0 \<Longrightarrow>
      \<exists>h e. raw_sk R ops = Some h \<and> h d off wh = Some (d, Inl e)"
    and pos_le: "dinv d \<Longrightarrow> pos d \<le> length (contents d)"
    and length_le: "dinv d \<Longrightarrow> length (contents d) \<le> cap d"
    and cap_le: "dinv d \<Longrightarrow> cap d \<le> SSIZE_MAX"
begin

lemma rawRead:
  assumes "dinv (dev f)" and "F_OPS f = ops"
  obtains d bs where "file_rawRead R f n = Some (f\<lparr>dev := d\<rparr>, int (length bs), bs)" and "dinv d"
    and "contents d = contents (dev f)" and "cap d = cap (dev f)" and "pos d = pos (dev f) + length bs"
    and "bs = take (length bs) (take n (drop (pos (dev f)) (contents (dev f))))"
    and "bs = [] \<Longrightarrow> n = 0 \<or> length (contents (dev f)) \<le> pos (dev f)"
proof -
  from read_law [OF assms(1), of n] obtain h d bs where *: "raw_rd R ops = Some h" "h (dev f) n = Some (d, Inr bs)"
    "dinv d" "contents d = contents (dev f)" "cap d = cap (dev f)" "pos d = pos (dev f) + length bs"
    "bs = take (length bs) (take n (drop (pos (dev f)) (contents (dev f))))"
    "bs = [] \<longrightarrow> n = 0 \<or> length (contents (dev f)) \<le> pos (dev f)" by blast
  have "file_rawRead R f n = Some (f\<lparr>dev := d\<rparr>, int (length bs), bs)"
    using *(1,2) assms(2) by (simp add: file_rawRead_def raw_result_def)
  with * show thesis by (intro that) auto
qed

lemma rawWrite:
  assumes "dinv (dev f)" and "F_OPS f = ops" and "data \<noteq> []" and "pos (dev f) + length data \<le> cap (dev f)"
  obtains d k where "file_rawWrite R f data = Some (f\<lparr>dev := d\<rparr>, int k)" and "dinv d" and "0 < k"
    and "k \<le> length data" and "contents d = file_write (contents (dev f)) (pos (dev f)) (take k data)"
    and "cap d = cap (dev f)" and "pos d = pos (dev f) + k"
proof -
  from write_law [OF assms(1,3,4)] obtain h d k where *: "raw_wr R ops = Some h" "h (dev f) data = Some (d, Inr k)"
    "dinv d" "0 < k" "k \<le> length data" "contents d = file_write (contents (dev f)) (pos (dev f)) (take k data)"
    "cap d = cap (dev f)" "pos d = pos (dev f) + k" by blast
  have "file_rawWrite R f data = Some (f\<lparr>dev := d\<rparr>, int k)"
    using *(1,2) assms(2) by (simp add: file_rawWrite_def raw_result_def)
  with * show thesis by (intro that) auto
qed

lemma rawSeek:
  assumes "dinv (dev f)" and "F_OPS f = ops"
    and "seek_base (pos (dev f)) (length (contents (dev f))) wh = Some base" and "0 \<le> base + off"
    and "base + off \<le> int (length (contents (dev f)))"
  obtains d where "file_rawSeek R f off wh = Some (f\<lparr>dev := d\<rparr>, base + off)" and "dinv d"
    and "contents d = contents (dev f)" and "cap d = cap (dev f)" and "int (pos d) = base + off"
proof -
  from seek_law [OF assms(1,3,4,5)] obtain h d where *: "raw_sk R ops = Some h" "h (dev f) off wh = Some (d, Inr (base + off))"
    "dinv d" "contents d = contents (dev f)" "cap d = cap (dev f)" "int (pos d) = base + off" by blast
  have "file_rawSeek R f off wh = Some (f\<lparr>dev := d\<rparr>, base + off)"
    using *(1,2) assms(2) by (simp add: file_rawSeek_def raw_result_def)
  with * show thesis by (intro that) auto
qed

text \<open>The whole of a write goes out, in as many calls as it takes.\<close>

lemma full_write_loop_ok:
  assumes "dinv (dev f)" and "F_OPS f = ops" and "pos (dev f) + length data \<le> cap (dev f)"
  shows "\<exists>d. full_write_loop R f data tot = Some (f\<lparr>dev := d\<rparr>, tot + int (length data)) \<and> dinv d \<and>
    contents d = file_write (contents (dev f)) (pos (dev f)) data \<and> cap d = cap (dev f) \<and>
    pos d = pos (dev f) + length data"
  using assms
proof (induction "length data" arbitrary: f data tot rule: less_induct)
  case less
  show ?case
  proof (cases "data = []")
    case True
    then show ?thesis using less.prems pos_le by (intro exI [of _ "dev f"]) (simp add: full_write_loop.simps)
  next
    case False
    obtain d k where w: "file_rawWrite R f data = Some (f\<lparr>dev := d\<rparr>, int k)" "dinv d" "0 < k" "k \<le> length data"
      "contents d = file_write (contents (dev f)) (pos (dev f)) (take k data)" "cap d = cap (dev f)"
      "pos d = pos (dev f) + k"
      by (rule rawWrite [OF less.prems(1,2) False less.prems(3)])
    let ?f = "f\<lparr>dev := d\<rparr>"
    have "length (drop k data) < length data" using w(3,4) by simp
    from less.hyps [OF this, of ?f "tot + int k"] less.prems w obtain d' where
      d': "full_write_loop R ?f (drop k data) (tot + int k) = Some (?f\<lparr>dev := d'\<rparr>, tot + int k + int (length (drop k data)))"
      "dinv d'" "contents d' = file_write (contents d) (pos d) (drop k data)" "cap d' = cap d"
      "pos d' = pos d + length (drop k data)" by auto
    have "contents d' = file_write (contents (dev f)) (pos (dev f)) data"
      using file_write_append [OF pos_le [OF less.prems(1)], of "take k data" "drop k data"] w(4,5,7) d'(3)
      by (simp add: min_absorb2)
    moreover have "full_write_loop R f data tot = Some (f\<lparr>dev := d'\<rparr>, tot + int (length data))"
      using False w(1,3,4) d'(1) by (simp add: full_write_loop.simps [of R f data] of_nat_diff)
    ultimately show ?thesis using d' w by auto
  qed
qed

lemma full_write_ok:
  assumes "dinv (dev f)" and "F_OPS f = ops" and "pos (dev f) + length data \<le> cap (dev f)"
  obtains d where "full_write R f data = Some (f\<lparr>dev := d\<rparr>, int (length data))" and "dinv d"
    and "contents d = file_write (contents (dev f)) (pos (dev f)) data" and "cap d = cap (dev f)"
    and "pos d = pos (dev f) + length data"
  using full_write_loop_ok [OF assms, of 0] by (auto simp: full_write_def)

end

subsection \<open>A stream is a file\<close>

text \<open>
  What a stream stands for: what was written is behind the position of the device while writing, what
  was read ahead lies before it while reading.
\<close>

definition st_contents :: "('d \<Rightarrow> byte list) \<Rightarrow> ('d \<Rightarrow> nat) \<Rightarrow> 'd FILE \<Rightarrow> byte list" where
  "st_contents contents pos f =
     (if F_WRITING f then
        case buffer f of None \<Rightarrow> contents (dev f)
        | Some buf \<Rightarrow> file_write (contents (dev f)) (pos (dev f)) (take (bufpos f) buf)
      else contents (dev f))"

definition st_pos :: "('d \<Rightarrow> nat) \<Rightarrow> 'd FILE \<Rightarrow> nat" where
  "st_pos pos f = (if F_WRITING f then pos (dev f) + bufpos f else pos (dev f) - (bufeof f - bufpos f))"

definition st_flags :: "'d FILE \<Rightarrow> bool \<times> bool \<times> access \<times> bool \<times> nat" where
  "st_flags f = (F_ERROR f, F_LINE f, fmode f, F_OPS f, bufsz f)"

definition st_inv :: "bool \<Rightarrow> ('d \<Rightarrow> bool) \<Rightarrow> ('d \<Rightarrow> byte list) \<Rightarrow> ('d \<Rightarrow> nat) \<Rightarrow> ('d \<Rightarrow> nat) \<Rightarrow> 'd FILE \<Rightarrow> bool" where
  "st_inv ops dinv contents pos cap f \<longleftrightarrow> dinv (dev f) \<and> F_OPS f = ops \<and> 0 < bufsz f \<and> bufsz f \<le> SSIZE_MAX \<and>
     (case buffer f of None \<Rightarrow> False
      | Some buf \<Rightarrow> length buf = bufsz f \<and>
         (if F_WRITING f then bufpos f \<le> bufsz f \<and> pos (dev f) + bufpos f \<le> cap (dev f)
          else bufpos f \<le> bufeof f \<and> bufeof f \<le> bufsz f \<and> bufeof f - bufpos f \<le> pos (dev f) \<and>
            take (bufeof f - bufpos f) (drop (bufpos f) buf) =
              take (bufeof f - bufpos f) (drop (pos (dev f) - (bufeof f - bufpos f)) (contents (dev f)))))"

lemma off_usub:
  assumes "a \<le> SSIZE_MAX" and "b \<le> SSIZE_MAX"
  shows "off_of (usub a b) = int a - int b"
proof -
  have "off_of (usub a b) = signed_take_bit 63 (take_bit (Suc 63) (int a - int b))"
    by (simp add: off_of_def usub_def size_of_def take_bit_eq_mod)
  also have "\<dots> = signed_take_bit 63 (int a - int b)" by (simp add: signed_take_bit_take_bit)
  also have "\<dots> = int a - int b"
    using assms by (intro signed_take_bit_int_eq_self) (simp_all add: SSIZE_MAX_def)
  finally show ?thesis .
qed

text \<open>The bytes up to the first delimiter, with it; and whether there is one.\<close>

fun upto_delim :: "int \<Rightarrow> byte list \<Rightarrow> byte list" where
  "upto_delim d [] = []"
| "upto_delim d (c # cs) = (if uint c = d then [c] else c # upto_delim d cs)"

lemma upto_delim_length: "length (upto_delim d cs) \<le> length cs"
  by (induction cs) simp_all

lemma drop_step: "p < length c \<Longrightarrow> drop p c = c ! p # drop (p + 1) c"
  by (simp add: Cons_nth_drop_Suc)

fun ends :: "int \<Rightarrow> byte list \<Rightarrow> bool" where
  "ends d [] = False"
| "ends d (c # cs) = (uint c = d \<or> ends d cs)"

text \<open>
  The operations of a program on a stream and what it sees of them; \<open>ref_step\<close>: a file without a
  buffer, its contents, position and end-of-file flag. It has no answer (\<open>None\<close>) for a write that
  does not fit, a seek behind the end or a length that is no \<open>ssize_t\<close>.
\<close>

datatype stdio_op = Fread nat | Fgetc | Fgets nat | Fwrite "byte list" | Fputc byte | Fputs "byte list" | Fseek int whence | Ftell | Fflush

datatype stdio_out = Bytes "byte list" | Num int

definition stdio_step :: "'d raw \<Rightarrow> stdio_op \<Rightarrow> 'd FILE \<Rightarrow> ('d FILE \<times> stdio_out) option" where
  "stdio_step R x f =
     (case x of
        Fread n \<Rightarrow> do { (f, ptr, k) \<leftarrow> fread_unlocked R (replicate n 0) 1 n f; Some (f, Bytes (take k ptr)) }
      | Fgetc \<Rightarrow> do { (f, c) \<leftarrow> fgetc_unlocked R f; Some (f, Num c) }
      | Fgets n \<Rightarrow> do {
          (f, s, r) \<leftarrow> fgets_unlocked R (replicate n 0) (int n) f;
          Some (f, if r then Bytes s else Num (-1)) }
      | Fputc c \<Rightarrow> do { (f, r) \<leftarrow> fputc_unlocked R (uint c) f; Some (f, Num r) }
      | Fputs s \<Rightarrow> do { (f, r) \<leftarrow> fputs_unlocked R s f; Some (f, Num r) }
      | Fwrite bs \<Rightarrow> do { (f, k) \<leftarrow> fwrite_unlocked R bs 1 (length bs) f; Some (f, Num (int k)) }
      | Fseek off wh \<Rightarrow> do { (f, r) \<leftarrow> fseek R f off wh; Some (f, Num r) }
      | Ftell \<Rightarrow> do { (f, r) \<leftarrow> ftell R f; Some (f, Num r) }
      | Fflush \<Rightarrow> do { (f, r) \<leftarrow> fflush R f; Some (f, Num r) })"

fun stdio_run :: "'d raw \<Rightarrow> stdio_op list \<Rightarrow> 'd FILE \<Rightarrow> ('d FILE \<times> stdio_out list) option" where
  "stdio_run R [] f = Some (f, [])"
| "stdio_run R (x # xs) f = do {
     (f, v) \<leftarrow> stdio_step R x f;
     (f, vs) \<leftarrow> stdio_run R xs f;
     Some (f, v # vs) }"

type_synonym ref_file = "byte list \<times> nat \<times> bool"

fun ref_step :: "nat \<Rightarrow> stdio_op \<Rightarrow> ref_file \<Rightarrow> (ref_file \<times> stdio_out) option" where
  "ref_step lim (Fread n) (c, p, e) =
     (let bs = take n (drop p c) in
      if n \<le> SSIZE_MAX then Some ((c, p + length bs, e \<or> length bs < n), Bytes bs) else None)"
| "ref_step lim Fgetc (c, p, e) =
     Some (if e \<or> length c \<le> p then ((c, p, True), Num (-1)) else ((c, p + 1, e), Num (uint (c ! p))))"
| "ref_step lim (Fgets n) (c, p, e) =
     (let l = (if e then [] else upto_delim 10 (take (n - 1) (drop p c))) in
      Some ((c, p + length l, e \<or> \<not> ends 10 (take (n - 1) (drop p c)) \<and> length (drop p c) < n - 1),
        if n = 0 \<or> l = [] \<and> n \<noteq> 1 then Num (-1) else Bytes (l @ replicate (n - length l) 0)))"
| "ref_step lim (Fputc b) (c, p, e) =
     (if p + 1 \<le> lim then Some ((file_write c p [b], p + 1, e), Num (uint b)) else None)"
| "ref_step lim (Fputs bs) (c, p, e) =
     (if p + length bs \<le> lim then
        Some ((file_write c p bs, p + length bs, e), Num (if length bs < 2147483647 then int (length bs) else 2147483647))
      else None)"
| "ref_step lim (Fwrite bs) (c, p, e) =
     (if p + length bs \<le> lim then Some ((file_write c p bs, p + length bs, e), Num (int (length bs))) else None)"
| "ref_step lim (Fseek off wh) (c, p, e) =
     (case seek_base p (length c) wh of
        None \<Rightarrow> None
      | Some base \<Rightarrow>
          if base + off < 0 then Some ((c, p, e), Num (-1))
          else if base + off \<le> int (length c) then Some ((c, nat (base + off), False), Num 0) else None)"
| "ref_step lim Ftell (c, p, e) = Some ((c, p, e), Num (int p))"
| "ref_step lim Fflush (c, p, e) = Some ((c, p, e), Num 0)"

fun ref_run :: "nat \<Rightarrow> stdio_op list \<Rightarrow> ref_file \<Rightarrow> (ref_file \<times> stdio_out list) option" where
  "ref_run lim [] s = Some (s, [])"
| "ref_run lim (x # xs) s = do {
     (s, v) \<leftarrow> ref_step lim x s;
     (s, vs) \<leftarrow> ref_run lim xs s;
     Some (s, v # vs) }"

context raw_file begin

abbreviation "sinv \<equiv> st_inv ops dinv contents pos cap"
abbreviation "fc \<equiv> st_contents contents pos"
abbreviation "fp \<equiv> st_pos pos"
abbreviation "fcap f \<equiv> cap (dev f)"

text \<open>Flags the invariant does not look at, and a device that is at the same position.\<close>

lemma inv_other: "sinv (f\<lparr>ferrno := e\<rparr>) = sinv f" "sinv (f\<lparr>F_EOF := b\<rparr>) = sinv f" "sinv (f\<lparr>F_ERROR := b\<rparr>) = sinv f"
  by (cases "buffer f"; simp add: st_inv_def)+

lemma inv_same_dev:
  assumes "sinv f" and "dinv d" and "contents d = contents (dev f)" and "cap d = cap (dev f)" and "pos d = pos (dev f)"
  shows "sinv (f\<lparr>dev := d\<rparr>)"
  using assms by (cases "buffer f") (simp_all add: st_inv_def)

lemma fc_fields:
  assumes "contents (dev f') = contents (dev f)" and "pos (dev f') = pos (dev f)" and "F_WRITING f' = F_WRITING f"
    and "buffer f' = buffer f" and "bufpos f' = bufpos f" and "bufeof f' = bufeof f"
  shows "fc f' = fc f" and "fp f' = fp f"
  using assms by (cases "buffer f"; simp add: st_contents_def st_pos_def)+

lemma inv_writing:
  "F_WRITING f \<Longrightarrow> sinv f \<longleftrightarrow> dinv (dev f) \<and> F_OPS f = ops \<and> 0 < bufsz f \<and> bufsz f \<le> SSIZE_MAX \<and>
     (\<exists>buf. buffer f = Some buf \<and> length buf = bufsz f) \<and> bufpos f \<le> bufsz f \<and> pos (dev f) + bufpos f \<le> cap (dev f)"
  by (auto simp: st_inv_def split: option.splits)

lemma inv_dev: "sinv f \<Longrightarrow> dinv (dev f)" and inv_ops: "sinv f \<Longrightarrow> F_OPS f = ops"
  and inv_bufsz: "sinv f \<Longrightarrow> 0 < bufsz f" "sinv f \<Longrightarrow> bufsz f \<le> SSIZE_MAX"
  by (simp_all add: st_inv_def)

lemma inv_buffer:
  assumes "sinv f" obtains buf where "buffer f = Some buf" and "length buf = bufsz f"
  using assms by (auto simp: st_inv_def split: option.splits)

lemma fp_le:
  assumes "sinv f"
  shows "fp f \<le> length (fc f)" and "length (fc f) \<le> fcap f" and "fcap f \<le> SSIZE_MAX"
proof -
  have d: "dinv (dev f)" by (rule inv_dev [OF assms])
  show "fcap f \<le> SSIZE_MAX" by (rule cap_le [OF d])
  show "fp f \<le> length (fc f)" "length (fc f) \<le> fcap f"
    using assms pos_le [OF d] length_le [OF d]
    by (auto simp: st_inv_def st_pos_def st_contents_def file_write_length split: option.splits)
qed

text \<open>What a step of writing does to the file.\<close>

definition wrote :: "'d FILE \<Rightarrow> byte list \<Rightarrow> 'd FILE \<Rightarrow> bool" where
  "wrote f data f' \<longleftrightarrow> sinv f' \<and> F_WRITING f' \<and> fc f' = file_write (fc f) (fp f) data \<and>
     fp f' = fp f + length data \<and> st_flags f' = st_flags f \<and> F_EOF f' = F_EOF f \<and> fcap f' = fcap f"

lemma wrote_refl: "sinv f \<Longrightarrow> F_WRITING f \<Longrightarrow> wrote f [] f"
  using fp_le [of f] by (simp add: wrote_def)

lemma wrote_trans:
  assumes "sinv f" and "wrote f a f1" and "wrote f1 b f2"
  shows "wrote f (a @ b) f2"
  using assms(2,3) file_write_append [OF fp_le(1) [OF assms(1)], of a b] by (simp add: wrote_def)

lemma wrote_D: "wrote f data f' \<Longrightarrow> sinv f'" "wrote f data f' \<Longrightarrow> F_WRITING f'"
  "wrote f data f' \<Longrightarrow> fp f' = fp f + length data" "wrote f data f' \<Longrightarrow> fcap f' = fcap f"
  "wrote f data f' \<Longrightarrow> bufsz f' = bufsz f" "wrote f data f' \<Longrightarrow> F_LINE f' = F_LINE f"
  by (simp_all add: wrote_def st_flags_def)

lemma buffer_data_ok:
  assumes "sinv f" and "F_WRITING f" and "fp f + length data \<le> fcap f"
  obtains f' k where "buffer_data f data = Some (f', k)" and "k = min (bufsz f - bufpos f) (length data)"
    and "wrote f (take k data) f'" and "bufpos f' = bufpos f + k"
proof -
  obtain buf where buf: "buffer f = Some buf" "length buf = bufsz f" by (rule inv_buffer [OF assms(1)])
  have i: "dinv (dev f)" "bufpos f \<le> bufsz f" "bufsz f \<le> SSIZE_MAX"
    using assms(1) inv_writing [OF assms(2)] by simp_all
  define k where "k = min (bufsz f - bufpos f) (length data)"
  define buf' where "buf' = take (bufpos f) buf @ take k data @ drop (bufpos f + k) buf"
  define f' where "f' = (if k > 0 then f\<lparr>buffer := Some buf', bufpos := bufpos f + k\<rparr> else f)"
  have kl: "k \<le> length data" "bufpos f + k \<le> bufsz f" using i(2) by (auto simp: k_def)
  have ow: "overwrite buf (bufpos f) (take k data) = Some buf'"
    using kl buf(2) by (simp add: overwrite_in buf'_def min_absorb2)
  have "buffer_data f data = Some (f', k)"
    using buf(1) ow i by (simp add: buffer_data_def k_def [symmetric] Let_def f'_def)
  moreover have "wrote f (take k data) f'"
  proof (cases "k > 0")
    case False
    then show ?thesis using wrote_refl [OF assms(1,2)] by (simp add: f'_def)
  next
    case True
    have lb: "length buf' = bufsz f" using kl buf(2) by (simp add: buf'_def min_absorb2)
    have tk: "take (bufpos f + k) buf' = take (bufpos f) buf @ take k data"
      using kl buf(2) by (simp add: buf'_def min_absorb2)
    have "sinv f'" using assms buf lb i kl True inv_writing [of f] inv_writing [of f']
      by (simp add: f'_def st_pos_def)
    moreover have "fc f' = file_write (fc f) (fp f) (take k data)"
      using True assms(2) buf kl i tk file_write_append [OF pos_le [OF i(1)], of "take (bufpos f) buf" "take k data"]
      by (simp add: st_contents_def st_pos_def f'_def min_absorb2)
    ultimately show ?thesis using True assms(2) kl
      by (simp add: wrote_def f'_def st_pos_def st_flags_def min_absorb2)
  qed
  moreover have "bufpos f' = bufpos f + k" by (simp add: f'_def)
  ultimately show thesis using k_def that by blast
qed

lemma write_data_ok:
  assumes "sinv f" and "F_WRITING f" and "bufpos f = 0" and "fp f + length data \<le> fcap f"
  obtains f' where "write_data R f data = Some (f', int (length data))" and "wrote f data f'" and "bufpos f' = 0"
proof -
  have p: "pos (dev f) + length data \<le> cap (dev f)" using assms(2-4) by (simp add: st_pos_def)
  obtain d where w: "full_write R f data = Some (f\<lparr>dev := d\<rparr>, int (length data))" "dinv d"
    "contents d = file_write (contents (dev f)) (pos (dev f)) data" "cap d = cap (dev f)" "pos d = pos (dev f) + length data"
    by (rule full_write_ok [OF inv_dev [OF assms(1)] inv_ops [OF assms(1)] p])
  have "write_data R f data = Some (f\<lparr>dev := d\<rparr>, int (length data))" using w(1) by (simp add: write_data_def)
  moreover have "wrote f data (f\<lparr>dev := d\<rparr>)"
    using assms w p inv_writing [of f] inv_writing [of "f\<lparr>dev := d\<rparr>"] pos_le [OF inv_dev [OF assms(1)]] pos_le [OF w(2)]
    by (auto simp: wrote_def st_contents_def st_pos_def st_flags_def split: option.splits)
  ultimately show thesis using assms(3) by (intro that [of "f\<lparr>dev := d\<rparr>"]) simp_all
qed

lemma shift_buffer_ok:
  assumes "buffer f = Some buf" and "k + bufpos f \<le> length buf"
  obtains buf' where "shift_buffer f k = Some (f\<lparr>buffer := Some buf'\<rparr>)" and "length buf' = length buf"
    and "take (bufpos f) buf' = take (bufpos f) (drop k buf)"
proof -
  let ?rest = "take (bufpos f) (drop k buf)"
  let ?buf' = "take 0 buf @ ?rest @ drop (bufpos f) buf"
  have "overwrite buf 0 ?rest = Some ?buf'" using assms(2) by (simp add: overwrite_in min_absorb2)
  then have "shift_buffer f k = Some (f\<lparr>buffer := Some ?buf'\<rparr>)"
    using assms by (simp add: shift_buffer_def buffered_in)
  then show thesis using assms(2) by (intro that [of ?buf']) (simp_all add: min_absorb2)
qed

lemma write_buffer_ok:
  assumes "sinv f" and "F_WRITING f" and "n \<le> bufpos f"
  obtains f' where "write_buffer R f n = Some (f', int n)" and "wrote f [] f'" and "bufpos f' = bufpos f - n"
proof -
  obtain buf where buf: "buffer f = Some buf" "length buf = bufsz f" by (rule inv_buffer [OF assms(1)])
  have i: "dinv (dev f)" "F_OPS f = ops" "bufpos f \<le> bufsz f" "bufsz f \<le> SSIZE_MAX" "pos (dev f) + bufpos f \<le> cap (dev f)"
    "0 < bufsz f"
    using assms(1) inv_writing [OF assms(2)] by simp_all
  have n: "n \<le> bufsz f" using i(3) assms(3) by simp
  have bd: "buffered f 0 n = Some (take n buf)" using buf n by (simp add: buffered_in)
  have "pos (dev f) + length (take n buf) \<le> cap (dev f)" using i(5) assms(3) by simp
  then obtain d where w: "full_write R f (take n buf) = Some (f\<lparr>dev := d\<rparr>, int (length (take n buf)))" "dinv d"
    "contents d = file_write (contents (dev f)) (pos (dev f)) (take n buf)" "cap d = cap (dev f)"
    "pos d = pos (dev f) + length (take n buf)"
    by (rule full_write_ok [OF i(1,2)])
  have ln: "length (take n buf) = n" using buf n by simp
  let ?f = "f\<lparr>dev := d, bufpos := bufpos f - n\<rparr>"
  have "\<exists>buf'. write_buffer R f n = Some (?f\<lparr>buffer := Some buf'\<rparr>, int n) \<and> length buf' = bufsz f \<and>
      take (bufpos f - n) buf' = take (bufpos f - n) (drop n buf)"
  proof (cases "n > 0 \<and> bufpos f - n > 0")
    case True
    obtain buf' where "shift_buffer ?f n = Some (?f\<lparr>buffer := Some buf'\<rparr>)" "length buf' = length buf"
      "take (bufpos ?f) buf' = take (bufpos ?f) (drop n buf)"
      by (rule shift_buffer_ok [of ?f buf n]) (use buf i(3) assms(3) in simp_all)
    moreover have "usub (bufpos f) n = bufpos f - n" using assms(3) i by (intro usub_id) simp_all
    ultimately show ?thesis using True bd w(1) ln buf
      by (intro exI [of _ buf']) (simp add: write_buffer_def Let_def)
  next
    case False
    have "usub (bufpos f) n = bufpos f - n" using assms(3) i by (intro usub_id) simp_all
    then have "write_buffer R f n = Some (?f, int n)" using False bd w(1) ln by (auto simp: write_buffer_def Let_def)
    moreover have "?f = ?f\<lparr>buffer := Some buf\<rparr>" using buf by simp
    ultimately show ?thesis using False buf by (intro exI [of _ buf]) auto
  qed
  then obtain buf' where b: "write_buffer R f n = Some (?f\<lparr>buffer := Some buf'\<rparr>, int n)" "length buf' = bufsz f"
      "take (bufpos f - n) buf' = take (bufpos f - n) (drop n buf)" by blast
  let ?f' = "?f\<lparr>buffer := Some buf'\<rparr>"
  have split: "take n buf @ take (bufpos f - n) (drop n buf) = take (bufpos f) buf"
    using take_add [of n "bufpos f - n" buf] assms(3) by simp
  have "fc ?f' = fc f"
    using file_write_append [OF pos_le [OF i(1)], of "take n buf" "take (bufpos f - n) (drop n buf)"] assms(2) b(3) w(3,5) buf ln
    by (simp add: st_contents_def split)
  moreover have "sinv ?f'" using assms(2,3) i w ln b(2) inv_writing [of ?f'] by simp
  ultimately have "wrote f [] ?f'"
    using assms(2,3) w ln fp_le(1) [OF assms(1)] by (simp add: wrote_def st_pos_def st_flags_def)
  moreover have "bufpos ?f' = bufpos f - n" by simp
  ultimately show thesis using b(1) by (intro that [of ?f'])
qed

lemma fflush_ok:
  assumes "sinv f"
  obtains f' where "fflush_one R f = Some (f', 0)" and "sinv f'" and "fc f' = fc f" and "fp f' = fp f"
    and "contents (dev f') = fc f" and "pos (dev f') = fp f" and "st_flags f' = st_flags f" and "F_EOF f' = F_EOF f"
    and "F_WRITING f' = F_WRITING f" and "fcap f' = fcap f" and "if F_WRITING f then bufpos f' = 0 else bufpos f' = bufeof f'"
proof -
  obtain buf where buf: "buffer f = Some buf" "length buf = bufsz f" by (rule inv_buffer [OF assms])
  note d = inv_dev [OF assms] inv_ops [OF assms]
  note b = inv_bufsz [OF assms]
  show thesis
  proof (cases "F_WRITING f")
    case True
    note i = inv_writing [OF True, THEN iffD1, OF assms]
    show thesis
    proof (cases "bufpos f = 0")
      case True
      then have "fflush_one R f = Some (f, 0)" using \<open>F_WRITING f\<close> buf by (simp add: fflush_one_def)
      with True \<open>F_WRITING f\<close> assms buf pos_le [OF d(1)] show thesis
        by (intro that [of f]) (simp_all add: st_contents_def st_pos_def)
    next
      case False
      have bd: "buffered f 0 (bufpos f) = Some (take (bufpos f) buf)" using buf i by (simp add: buffered_in)
      have ln: "length (take (bufpos f) buf) = bufpos f" using buf i by simp
      have "pos (dev f) + length (take (bufpos f) buf) \<le> cap (dev f)" using ln i by simp
      then obtain e where w: "full_write R f (take (bufpos f) buf) = Some (f\<lparr>dev := e\<rparr>, int (length (take (bufpos f) buf)))"
        "dinv e" "contents e = file_write (contents (dev f)) (pos (dev f)) (take (bufpos f) buf)" "cap e = cap (dev f)"
        "pos e = pos (dev f) + length (take (bufpos f) buf)"
        by (rule full_write_ok [OF d])
      have us: "usub (bufpos f) (bufpos f) = 0" using i by (subst usub_id) simp_all
      let ?f = "f\<lparr>dev := e, bufpos := 0\<rparr>"
      have fl: "fflush_one R f = Some (?f, 0)"
        using True False buf(1) bd w(1) [unfolded ln] by (simp add: fflush_one_def us Let_def)
      have inv: "sinv ?f" using True i w ln inv_writing [of ?f] by simp
      have c: "contents e = fc f" "pos e = fp f" using True buf w ln by (simp_all add: st_contents_def st_pos_def)
      show thesis by (rule that [OF fl inv])
        (use True buf c w pos_le [OF w(2)] in \<open>simp_all add: st_contents_def st_pos_def st_flags_def\<close>)
    qed
  next
    case False
    define u where "u = bufeof f - bufpos f"
    have i: "bufpos f \<le> bufeof f" "bufeof f \<le> bufsz f" "u \<le> pos (dev f)"
      using assms False buf by (auto simp: st_inv_def u_def)
    show thesis
    proof (cases "bufpos f = bufeof f")
      case True
      then have "fflush_one R f = Some (f, 0)" using False buf by (simp add: fflush_one_def)
      with True False assms show thesis
        by (intro that [of f]) (simp_all add: st_contents_def st_pos_def)
    next
      case neq: False
      have o: "off_of (usub (bufpos f) (bufeof f)) = - int u" using i b by (simp add: off_usub u_def of_nat_diff)
      have sb: "seek_base (pos (dev f)) (length (contents (dev f))) SEEK_CUR = Some (int (pos (dev f)))"
        by (simp add: seek_base_def)
      have r: "0 \<le> int (pos (dev f)) + - int u" "int (pos (dev f)) + - int u \<le> int (length (contents (dev f)))"
        using i(3) pos_le [OF d(1)] by simp_all
      obtain e where s: "file_rawSeek R f (- int u) SEEK_CUR = Some (f\<lparr>dev := e\<rparr>, int (pos (dev f)) + - int u)"
        "dinv e" "contents e = contents (dev f)" "cap e = cap (dev f)" "int (pos e) = int (pos (dev f)) + - int u"
        by (rule rawSeek [OF d sb r])
      let ?f = "f\<lparr>dev := e, bufpos := bufsz f, bufeof := bufsz f\<rparr>"
      have fl: "fflush_one R f = Some (?f, 0)"
        using False neq buf(1) s(1) r(1) by (simp add: fflush_one_def o)
      have pe: "pos e = pos (dev f) - u" using s(5) by linarith
      have inv: "sinv ?f" using assms False buf s(2) by (simp add: st_inv_def)
      show thesis by (rule that [OF fl inv])
        (use False s pe in \<open>simp_all add: st_contents_def st_pos_def st_flags_def u_def\<close>)
    qed
  qed
qed

text \<open>On an empty buffer, and then in every state.\<close>

lemma after_write_all:
  assumes "0 < n" and "n \<le> SSIZE_MAX" and "n \<le> length data"
  shows "after_write f (int n) n data tot go = go f (drop n data) (tot + n)"
  using assms by (simp add: after_write_def)

lemma fwrite_empty_ok:
  assumes "sinv f" and "F_WRITING f" and "bufpos f = 0" and "fp f + length data \<le> fcap f"
  shows "\<exists>f'. fwrite_empty R f data tot = Some (f', tot + length data) \<and> wrote f data f'"
proof -
  note b = inv_bufsz [OF assms(1)]
  have smax: "length data \<le> SSIZE_MAX" using assms(4) fp_le(3) [OF assms(1)] by simp
  let ?rest = "\<lambda>f data tot. do { (f, k) \<leftarrow> buffer_data f data; Some (f, tot + k) }"
  let ?lines = "\<lambda>f data tot.
            case (if data \<noteq> [] \<and> F_LINE f then last_nl data else None) of
              None \<Rightarrow> ?rest f data tot
            | Some nl \<Rightarrow> do {
                (f, err) \<leftarrow> write_data R f (take (nl + 1) data);
                after_write f err (nl + 1) data tot ?rest }"
  have rest: "\<exists>f'. ?rest g dat t = Some (f', t + length dat) \<and> wrote g dat f'"
    if g: "sinv g" "F_WRITING g" "bufpos g = 0" "fp g + length dat \<le> fcap g" "length dat < bufsz g" for g dat t
  proof -
    obtain f' k where "buffer_data g dat = Some (f', k)" "k = min (bufsz g - bufpos g) (length dat)" "wrote g (take k dat) f'"
      by (rule buffer_data_ok [OF g(1,2,4)])
    with g(3,5) show ?thesis by simp
  qed
  have lines: "\<exists>f'. ?lines g dat t = Some (f', t + length dat) \<and> wrote g dat f'"
    if g: "sinv g" "F_WRITING g" "bufpos g = 0" "fp g + length dat \<le> fcap g" "length dat < bufsz g" for g dat t
  proof (cases "if dat \<noteq> [] \<and> F_LINE g then last_nl dat else None")
    case None
    show ?thesis unfolding None option.case using rest [OF g] .
  next
    case (Some nl)
    then have nl: "dat \<noteq> []" "last_nl dat = Some nl" by (auto split: if_splits)
    have "nl < length dat" using nl by (cases dat) (auto simp: last_nl_def split: if_splits)
    then have n: "0 < nl + 1" "nl + 1 \<le> length dat" by simp_all
    have nm: "nl + 1 \<le> SSIZE_MAX" using n(2) g(5) inv_bufsz [OF g(1)] by simp
    have fit: "fp g + length (take (nl + 1) dat) \<le> fcap g" using g(4) n by simp
    obtain h where h: "write_data R g (take (nl + 1) dat) = Some (h, int (length (take (nl + 1) dat)))"
      "wrote g (take (nl + 1) dat) h" "bufpos h = 0"
      by (rule write_data_ok [OF g(1-3) fit])
    note hD = wrote_D [OF h(2)]
    have l: "length (take (nl + 1) dat) = nl + 1" using n by simp
    have fit2: "fp h + length (drop (nl + 1) dat) \<le> fcap h" using g(4) hD l n by simp
    have lt: "length (drop (nl + 1) dat) < bufsz h" using g(5) hD(5) by simp
    from rest [OF hD(1,2) h(3) fit2 lt, of "t + (nl + 1)"] obtain f' where
      f': "?rest h (drop (nl + 1) dat) (t + (nl + 1)) = Some (f', t + (nl + 1) + length (drop (nl + 1) dat))"
      "wrote h (drop (nl + 1) dat) f'" by blast
    have "wrote g dat f'" using wrote_trans [OF g(1) h(2) f'(2)] by simp
    moreover have "?lines g dat t = Some (f', t + length dat)"
      unfolding Some option.case h(1) bind.bind_lunit prod.case l after_write_all [OF n(1) nm n(2)] f'(1)
      using n by simp
    ultimately show ?thesis by blast
  qed
  have eq: "fwrite_empty R f data tot =
      (if length data \<ge> bufsz f \<and> bufsz f = 0 then None
         else if length data \<ge> bufsz f then
           let bytes = (length data div bufsz f) * bufsz f in do {
             (f, err) \<leftarrow> write_data R f (take bytes data);
             after_write f err bytes data tot ?lines }
         else ?lines f data tot)"
    unfolding fwrite_empty_def Let_def ..
  show ?thesis
  proof (cases "length data \<ge> bufsz f")
    case False
    with lines [OF assms] show ?thesis unfolding eq by simp
  next
    case True
    define n where "n = (length data div bufsz f) * bufsz f"
    have n: "0 < n" "n \<le> length data" "length data - n < bufsz f"
    proof -
      have "0 < length data div bufsz f" using True b by (simp add: div_greater_zero_iff)
      then show "0 < n" using b by (simp add: n_def)
      show "n \<le> length data" by (simp add: n_def)
      have "length data - n = length data mod bufsz f" by (simp add: n_def minus_div_mult_eq_mod)
      then show "length data - n < bufsz f" using b by simp
    qed
    have l: "length (take n data) = n" using n by simp
    have fit: "fp f + length (take n data) \<le> fcap f" using assms(4) l n by simp
    obtain h where h: "write_data R f (take n data) = Some (h, int (length (take n data)))"
      "wrote f (take n data) h" "bufpos h = 0"
      by (rule write_data_ok [OF assms(1-3) fit])
    note hD = wrote_D [OF h(2)]
    have fit2: "fp h + length (drop n data) \<le> fcap h" using assms(4) hD l n by simp
    have lt: "length (drop n data) < bufsz h" using n(3) hD(5) by simp
    from lines [OF hD(1,2) h(3) fit2 lt, of "tot + n"] obtain f' where
      f': "?lines h (drop n data) (tot + n) = Some (f', tot + n + length (drop n data))" "wrote h (drop n data) f'" by blast
    have "wrote f data f'" using wrote_trans [OF assms(1) h(2) f'(2)] by simp
    moreover have "n \<le> SSIZE_MAX" using n(2) smax by simp
    then have "fwrite_empty R f data tot = Some (f', tot + length data)"
      unfolding eq n_def [symmetric] Let_def h(1) bind.bind_lunit prod.case l
        after_write_all [OF n(1) \<open>n \<le> SSIZE_MAX\<close> n(2)] f'(1)
      using True b n by simp
    ultimately show ?thesis by blast
  qed
qed

lemma start_writing_ok:
  assumes "sinv f"
  obtains f' where "start_writing R f = Some (f', True)" and "wrote f [] f'"
proof (cases "F_WRITING f")
  case True
  with assms show thesis by (intro that [of f]) (simp_all add: start_writing_def wrote_refl)
next
  case False
  obtain g where g: "fflush_one R f = Some (g, 0)" "sinv g" "fc g = fc f" "fp g = fp f" "contents (dev g) = fc f"
    "pos (dev g) = fp f" "st_flags g = st_flags f" "F_EOF g = F_EOF f" "F_WRITING g = F_WRITING f" "fcap g = fcap f"
    "if F_WRITING f then bufpos g = 0 else bufpos g = bufeof g"
    by (rule fflush_ok [OF assms])
  let ?g = "g\<lparr>F_WRITING := True, bufpos := 0\<rparr>"
  obtain buf where buf: "buffer g = Some buf" "length buf = bufsz g" by (rule inv_buffer [OF g(2)])
  have s: "start_writing R f = Some (?g, True)" using False g(1) g(11) by (simp add: start_writing_def)
  have d: "dinv (dev g)" by (rule inv_dev [OF g(2)])
  have p: "pos (dev g) \<le> length (contents (dev g))" "length (contents (dev g)) \<le> cap (dev g)"
    by (rule pos_le [OF d], rule length_le [OF d])
  have "sinv ?g" using g(2) buf inv_writing [of ?g] p inv_ops [OF g(2)] inv_bufsz [OF g(2)] d by simp
  then have "wrote f [] ?g"
    using g(5-8,10) buf p fp_le(1) [OF assms] by (simp add: wrote_def st_contents_def st_pos_def st_flags_def)
  with s show thesis by (rule that)
qed

lemma fwrite_fill_ok:
  assumes "sinv f" and "F_WRITING f" and "fp f + length data \<le> fcap f"
  obtains f' t where "fwrite_fill R f data = Some (f', t, False)" and "t \<le> length data" and "wrote f (take t data) f'"
    and "bufpos f' = 0 \<or> t = length data"
proof -
  have i: "bufpos f \<le> bufsz f" using assms(1) inv_writing [OF assms(2)] by simp
  have full: "\<exists>f'. do {
       (f, err) \<leftarrow> write_buffer R g (bufsz g);
       if size_of err < bufsz f then
         if err > 0 then do { (f, k) \<leftarrow> buffer_data f (drop tot data); Some (f, tot + k, True) }
         else Some (f, tot, True)
       else Some (f, tot, False) } = Some (f', tot, False) \<and> wrote g [] f' \<and> bufpos f' = 0"
    if g: "sinv g" "F_WRITING g" "bufpos g = bufsz g" for g tot
  proof -
    obtain h where h: "write_buffer R g (bufsz g) = Some (h, int (bufsz g))" "wrote g [] h" "bufpos h = bufpos g - bufsz g"
      by (rule write_buffer_ok [OF g(1,2), of "bufsz g"]) (use g(3) in simp_all)
    have "bufsz h = bufsz g" by (rule wrote_D [OF h(2)])
    moreover have "bufsz g \<le> SSIZE_MAX" by (rule inv_bufsz [OF g(1)])
    ultimately show ?thesis using h g(3) by simp
  qed
  consider "bufpos f = 0" | "bufpos f = bufsz f" "0 < bufpos f" | "0 < bufpos f" "bufpos f < bufsz f" using i by linarith
  then show thesis
  proof cases
    case 1
    then have "fwrite_fill R f data = Some (f, 0, False)" using inv_bufsz [OF assms(1)] by (simp add: fwrite_fill_def)
    with 1 wrote_refl [OF assms(1,2)] show thesis by (intro that [of f 0]) simp_all
  next
    case 2
    from full [OF assms(1,2) 2(1), of 0] obtain f' where f':
      "fwrite_fill R f data = Some (f', 0, False)" "wrote f [] f'" "bufpos f' = 0"
      using 2 by (auto simp: fwrite_fill_def)
    then show thesis by (intro that [of f' 0]) simp_all
  next
    case 3
    obtain g k where g: "buffer_data f data = Some (g, k)" "k = min (bufsz f - bufpos f) (length data)"
      "wrote f (take k data) g" "bufpos g = bufpos f + k"
      by (rule buffer_data_ok [OF assms])
    note gD = wrote_D [OF g(3)]
    show thesis
    proof (cases "bufpos g = bufsz g")
      case True
      from full [OF gD(1,2) True, of k] obtain f' where f':
        "fwrite_fill R f data = Some (f', k, False)" "wrote g [] f'" "bufpos f' = 0"
        using 3 g(1) True by (auto simp: fwrite_fill_def)
      have "wrote f (take k data) f'" using wrote_trans [OF assms(1) g(3) f'(2)] by simp
      with f' g(2) show thesis by (intro that [of f' k]) simp_all
    next
      case False
      then have "fwrite_fill R f data = Some (g, k, False)" using 3 g(1) by (simp add: fwrite_fill_def)
      moreover have "k = length data" using False g(2,4) gD(5) 3 by (simp add: min_def split: if_splits)
      ultimately show thesis using g(3) by (intro that [of g k]) simp_all
    qed
  qed
qed

lemma fwrite_lines_ok:
  assumes "sinv f" and "F_WRITING f"
  obtains f' where "fwrite_lines R f = Some f'" and "wrote f [] f'"
proof -
  obtain buf where buf: "buffer f = Some buf" "length buf = bufsz f" by (rule inv_buffer [OF assms(1)])
  have i: "bufpos f \<le> bufsz f" using assms(1) inv_writing [OF assms(2)] by simp
  have bd: "buffered f 0 (bufpos f) = Some (take (bufpos f) buf)" using buf i by (simp add: buffered_in)
  show thesis
  proof (cases "bufpos f > 0 \<and> F_LINE f \<and> last_nl (take (bufpos f) buf) \<noteq> None")
    case False
    then have "fwrite_lines R f = Some f" using bd by (auto simp: fwrite_lines_def)
    with wrote_refl [OF assms] show thesis by (intro that)
  next
    case True
    then obtain nl where nl: "last_nl (take (bufpos f) buf) = Some nl" by blast
    have "nl = length (take (bufpos f) buf) - 1 -
        length (takeWhile (\<lambda>c. c \<noteq> 10) (rev (take (bufpos f) buf)))"
      using nl unfolding last_nl_def by (auto split: if_splits)
    then have "nl \<le> length (take (bufpos f) buf) - 1" by linarith
    moreover have "length (take (bufpos f) buf) \<le> bufpos f" by simp
    ultimately have "nl + 1 \<le> bufpos f" using True by linarith
    then obtain f' where f': "write_buffer R f (nl + 1) = Some (f', int (nl + 1))" "wrote f [] f'"
      by (rule write_buffer_ok [OF assms])
    then have "fwrite_lines R f = Some f'" using True bd nl by (simp add: fwrite_lines_def)
    then show thesis using f'(2) by (rule that)
  qed
qed

lemma fwrite_ok:
  assumes "sinv f" and "fmode f \<noteq> O_RDONLY" and "fp f + length data \<le> fcap f" and "length data = nmemb * sz"
  obtains f' where "fwrite_unlocked R data sz nmemb f = Some (f', length data div sz)" and "sinv f'"
    and "fc f' = file_write (fc f) (fp f) data" and "fp f' = fp f + length data" and "st_flags f' = st_flags f"
    and "F_EOF f' = F_EOF f" and "fcap f' = fcap f"
proof (cases "data = []")
  case True
  then have "fwrite_unlocked R data sz nmemb f = Some (f, length data div sz)"
    using assms(4) by (auto simp: fwrite_unlocked_def)
  with True show thesis using assms fp_le(1) [OF assms(1)] by (intro that [of f]) simp_all
next
  case False
  obtain buf where buf: "buffer f = Some buf" "length buf = bufsz f" by (rule inv_buffer [OF assms(1)])
  have len: "length data \<le> SSIZE_MAX" using assms(3) fp_le(3) [OF assms(1)] by simp
  obtain g where g: "start_writing R f = Some (g, True)" "wrote f [] g" by (rule start_writing_ok [OF assms(1)])
  note gD = wrote_D [OF g(2)]
  have fit: "fp g + length data \<le> fcap g" using assms(3) gD by simp
  obtain h t where h: "fwrite_fill R g data = Some (h, t, False)" "t \<le> length data" "wrote g (take t data) h"
    "bufpos h = 0 \<or> t = length data"
    by (rule fwrite_fill_ok [OF gD(1,2) fit])
  note hD = wrote_D [OF h(3)]
  have w: "\<exists>f'. fwrite_total R f data = Some (f', Some (length data)) \<and> wrote h (drop t data) f'"
  proof (cases "bufpos h = 0")
    case True
    have fit2: "fp h + length (drop t data) \<le> fcap h" using fit hD h(2) by simp
    from fwrite_empty_ok [OF hD(1,2) True fit2, of t] obtain f' where
      "fwrite_empty R h (drop t data) t = Some (f', t + length (drop t data))" "wrote h (drop t data) f'" by blast
    with True g(1) h(1,2) assms(2) show ?thesis by (simp add: fwrite_total_def)
  next
    case False
    obtain f' where "fwrite_lines R h = Some f'" "wrote h [] f'" by (rule fwrite_lines_ok [OF hD(1,2)])
    with False g(1) h(1,4) assms(2) show ?thesis by (simp add: fwrite_total_def)
  qed
  then obtain f' where f': "fwrite_total R f data = Some (f', Some (length data))" "wrote h (drop t data) f'" by blast
  have "wrote f ([] @ take t data @ drop t data) f'"
    by (rule wrote_trans [OF assms(1) g(2)], rule wrote_trans [OF gD(1) h(3) f'(2)])
  then have "wrote f data f'" by simp
  moreover have "(nmemb * sz) mod 2 ^ 64 = length data" using len assms(4) by (simp add: SSIZE_MAX_def)
  then have "fwrite_unlocked R data sz nmemb f = Some (f', length data div sz)"
    using f'(1) False buf(1) by (simp add: fwrite_unlocked_def Let_def)
  ultimately show thesis by (intro that [of f']) (simp_all add: wrote_def)
qed

text \<open>Reading. The destination changes as a file does that is written at the offset.\<close>

lemma overwrite_file: "p + length bs \<le> length buf \<Longrightarrow> overwrite buf p bs = Some (file_write buf p bs)"
  by (simp add: overwrite_in file_write_in)

definition got :: "'d FILE \<Rightarrow> byte list \<Rightarrow> 'd FILE \<Rightarrow> bool" where
  "got f bs f' \<longleftrightarrow> sinv f' \<and> \<not> F_WRITING f' \<and> fc f' = fc f \<and> fp f' = fp f + length bs \<and>
     bs = take (length bs) (drop (fp f) (fc f)) \<and> st_flags f' = st_flags f \<and> fcap f' = fcap f"

lemma got_refl: "sinv f \<Longrightarrow> \<not> F_WRITING f \<Longrightarrow> got f [] f"
  by (simp add: got_def)

lemma got_trans:
  assumes "got f a f1" and "got f1 b f2"
  shows "got f (a @ b) f2"
proof -
  have a: "a = take (length a) (drop (fp f) (fc f))" and b: "b = take (length b) (drop (fp f + length a) (fc f))"
    using assms by (simp_all add: got_def)
  have "a @ b = take (length a) (drop (fp f) (fc f)) @ take (length b) (drop (fp f + length a) (fc f))"
    by (subst a, subst b) (rule refl)
  also have "\<dots> = take (length (a @ b)) (drop (fp f) (fc f))"
    using take_add [of "length a" "length b" "drop (fp f) (fc f)"] by (simp add: add.commute)
  finally have ab: "a @ b = take (length (a @ b)) (drop (fp f) (fc f))" .
  show ?thesis unfolding got_def by (intro conjI ab) (use assms in \<open>simp_all add: got_def\<close>)
qed

lemma got_D: "got f bs f' \<Longrightarrow> sinv f'" "got f bs f' \<Longrightarrow> \<not> F_WRITING f'" "got f bs f' \<Longrightarrow> bufsz f' = bufsz f"
  "got f bs f' \<Longrightarrow> fc f' = fc f" "got f bs f' \<Longrightarrow> fp f' = fp f + length bs"
  by (simp_all add: got_def st_flags_def)

lemma inv_reading:
  assumes "\<not> F_WRITING f"
  shows "sinv f \<longleftrightarrow> dinv (dev f) \<and> F_OPS f = ops \<and> 0 < bufsz f \<and> bufsz f \<le> SSIZE_MAX \<and>
     (\<exists>buf. buffer f = Some buf \<and> length buf = bufsz f \<and> take (bufeof f - bufpos f) (drop (bufpos f) buf) =
        take (bufeof f - bufpos f) (drop (fp f) (contents (dev f)))) \<and>
     bufpos f \<le> bufeof f \<and> bufeof f \<le> bufsz f \<and> bufeof f - bufpos f \<le> pos (dev f)"
  using assms by (auto simp: st_inv_def st_pos_def split: option.splits)

lemma reading_fc: "\<not> F_WRITING f \<Longrightarrow> fc f = contents (dev f)"
  and reading_fp: "\<not> F_WRITING f \<Longrightarrow> fp f = pos (dev f) - (bufeof f - bufpos f)"
  by (simp_all add: st_contents_def st_pos_def)

lemma unbuffer_data_ok:
  assumes "sinv f" and "\<not> F_WRITING f" and "off + n \<le> length ptr"
  obtains f' k bs where "unbuffer_data f ptr off n = Some (f', file_write ptr off bs, k)" and "k = min (bufeof f - bufpos f) n"
    and "length bs = k" and "got f bs f'" and "bufpos f' = bufpos f + k" and "bufeof f' = bufeof f" and "F_EOF f' = F_EOF f"
proof -
  note i = inv_reading [OF assms(2), THEN iffD1, OF assms(1)]
  then obtain buf where buf: "buffer f = Some buf" "length buf = bufsz f"
    "take (bufeof f - bufpos f) (drop (bufpos f) buf) = take (bufeof f - bufpos f) (drop (fp f) (contents (dev f)))" by blast
  define k where "k = min (bufeof f - bufpos f) n"
  define bs where "bs = take k (drop (bufpos f) buf)"
  define f' where "f' = (if k > 0 then f\<lparr>bufpos := bufpos f + k\<rparr> else f)"
  have us: "usub (bufeof f) (bufpos f) = bufeof f - bufpos f" using i by (intro usub_id) simp_all
  have k: "bufpos f + k \<le> bufeof f" "k \<le> n" using i by (auto simp: k_def)
  have kb: "bufpos f + k \<le> length buf" using k(1) i buf(2) by linarith
  have lk: "length bs = k" using kb by (simp add: bs_def min_absorb2)
  have bs: "bs = take k (drop (fp f) (contents (dev f)))"
  proof -
    have "bs = take k (take (bufeof f - bufpos f) (drop (bufpos f) buf))" by (simp add: bs_def k_def min_def)
    also have "\<dots> = take k (drop (fp f) (contents (dev f)))" unfolding buf(3) by (simp add: k_def min_def)
    finally show ?thesis .
  qed
  have bd: "buffered f (bufpos f) k = Some bs" using buf kb by (simp add: buffered_in bs_def)
  have ow: "overwrite ptr off bs = Some (file_write ptr off bs)" using assms(3) lk k by (intro overwrite_file) simp
  have u: "unbuffer_data f ptr off n = Some (f', file_write ptr off bs, k)"
  proof (cases "k > 0")
    case True
    with bd ow show ?thesis by (simp add: unbuffer_data_def us k_def [symmetric] Let_def f'_def)
  next
    case False
    with lk assms(3) show ?thesis by (simp add: unbuffer_data_def us k_def [symmetric] Let_def f'_def)
  qed
  have bp: "bufpos f' = bufpos f + k" "bufeof f' = bufeof f" "F_EOF f' = F_EOF f" "F_WRITING f' = F_WRITING f"
    "dev f' = dev f" "buffer f' = buffer f" "bufsz f' = bufsz f" "F_OPS f' = F_OPS f" "st_flags f' = st_flags f"
    by (simp_all add: f'_def st_flags_def)
  have nw: "\<not> F_WRITING f'" using assms(2) bp by simp
  have pk: "pos (dev f) - (bufeof f - (bufpos f + k)) = pos (dev f) - (bufeof f - bufpos f) + k"
    using k(1) i by linarith
  have pk2: "bufeof f - (bufpos f + k) \<le> pos (dev f)" using i by linarith
  have fp': "fp f' = fp f + k" unfolding reading_fp [OF nw] reading_fp [OF assms(2)] bp by (rule pk)
  have dr: "take (bufeof f - (bufpos f + k)) (drop (bufpos f + k) buf) =
      take (bufeof f - (bufpos f + k)) (drop (fp f + k) (contents (dev f)))"
  proof -
    have "drop k (take (bufeof f - bufpos f) (drop (bufpos f) buf)) =
        drop k (take (bufeof f - bufpos f) (drop (fp f) (contents (dev f))))" by (simp only: buf(3))
    then show ?thesis by (simp add: drop_take add.commute)
  qed
  have "sinv f'" using i buf k bp fp' dr pk2 by (simp add: inv_reading [OF nw])
  then have g: "got f bs f'" using nw bs lk bp fp' assms(2) by (simp add: got_def reading_fc)
  show thesis by (rule that [OF u k_def lk g bp(1-3)])
qed

lemma read_data_dev:
  assumes "dinv (dev f)" and "F_OPS f = ops" and "off + n \<le> length ptr" and "0 \<le> tot"
  shows "\<exists>d bs. read_data R f ptr off n tot =
      Some (f\<lparr>dev := d, F_EOF := F_EOF f \<or> length bs < n\<rparr>, file_write ptr off bs, tot + int (length bs)) \<and>
    dinv d \<and> bs = take n (drop (pos (dev f)) (contents (dev f))) \<and> contents d = contents (dev f) \<and>
    cap d = cap (dev f) \<and> pos d = pos (dev f) + length bs"
  using assms
proof (induction n arbitrary: f ptr off tot rule: less_induct)
  case (less n)
  show ?case
  proof (cases "n = 0")
    case True
    then show ?thesis using less.prems by (intro exI [of _ "dev f"] exI [of _ "[]"]) (simp add: read_data.simps)
  next
    case False
    obtain d a where r: "file_rawRead R f n = Some (f\<lparr>dev := d\<rparr>, int (length a), a)" "dinv d"
      "contents d = contents (dev f)" "cap d = cap (dev f)" "pos d = pos (dev f) + length a"
      "a = take (length a) (take n (drop (pos (dev f)) (contents (dev f))))"
      "a = [] \<Longrightarrow> n = 0 \<or> length (contents (dev f)) \<le> pos (dev f)"
      by (rule rawRead [OF less.prems(1,2)]) blast
    show ?thesis
    proof (cases "a = []")
      case True
      then have "take n (drop (pos (dev f)) (contents (dev f))) = []" using r(7) False by simp
      with True False r less.prems show ?thesis
        by (intro exI [of _ d] exI [of _ "[]"]) (simp add: read_data.simps [of R f])
    next
      case a: False
      have la: "length a \<le> n" using arg_cong [OF r(6), of length] by simp
      let ?f = "f\<lparr>dev := d\<rparr>"
      let ?ptr = "file_write ptr off a"
      have lp: "length ?ptr = length ptr" using less.prems(3) la by (simp add: file_write_length)
      have lt: "n - length a < n" using a False by (cases a) simp_all
      have "off + length a + (n - length a) \<le> length ?ptr" using less.prems(3) la lp by simp
      from less.IH [OF lt _ _ this, of ?f "tot + int (length a)"] r less.prems obtain e b where
        e: "read_data R ?f ?ptr (off + length a) (n - length a) (tot + int (length a)) =
          Some (?f\<lparr>dev := e, F_EOF := F_EOF f \<or> length b < n - length a\<rparr>, file_write ?ptr (off + length a) b,
            tot + int (length a) + int (length b))" "dinv e" "b = take (n - length a) (drop (pos d) (contents d))"
        "contents e = contents d" "cap e = cap d" "pos e = pos d + length b"
        by auto
      have ow: "overwrite ptr off a = Some ?ptr" using less.prems(3) la by (intro overwrite_file) simp
      have step: "read_data R f ptr off n tot =
          read_data R ?f ?ptr (off + length a) (n - length a) (tot + int (length a))"
        using False a r(1) ow la by (simp add: read_data.simps [of R f])
      have ab: "a @ b = take n (drop (pos (dev f)) (contents (dev f)))"
      proof -
        have a': "a = take (length a) (drop (pos (dev f)) (contents (dev f)))"
          using r(6) la by (simp add: min_absorb1)
        have b': "b = take (n - length a) (drop (length a) (drop (pos (dev f)) (contents (dev f))))"
          using e(3) r(3,5) by (simp add: add.commute)
        show ?thesis
          using take_add [of "length a" "n - length a" "drop (pos (dev f)) (contents (dev f))"] la
          unfolding a' [symmetric] b' [symmetric] by simp
      qed
      have fw: "file_write ?ptr (off + length a) b = file_write ptr off (a @ b)"
        using less.prems(3) by (intro file_write_append) simp
      have whole: "read_data R f ptr off n tot = Some (f\<lparr>dev := e, F_EOF := F_EOF f \<or> length (a @ b) < n\<rparr>,
          file_write ptr off (a @ b), tot + int (length (a @ b)))"
        unfolding step e(1) fw using la by (auto simp: less_diff_conv add.commute)
      have p: "pos e = pos (dev f) + length (a @ b)" using e(6) r(5) by simp
      show ?thesis by (intro exI [of _ e] exI [of _ "a @ b"] conjI whole e(2) ab p) (simp_all only: e(4,5) r(3,4))
    qed
  qed
qed

lemma read_data_ok:
  assumes "sinv f" and "\<not> F_WRITING f" and "bufpos f = bufeof f" and "off + n \<le> length ptr"
  obtains f' bs where "read_data R f ptr off n 0 = Some (f', file_write ptr off bs, int (length bs))"
    and "bs = take n (drop (fp f) (fc f))" and "got f bs f'" and "bufpos f' = bufeof f'"
    and "F_EOF f' \<longleftrightarrow> F_EOF f \<or> length bs < n"
proof -
  have p: "fc f = contents (dev f)" "fp f = pos (dev f)" using assms(2,3) by (simp_all add: reading_fc reading_fp)
  from read_data_dev [OF inv_dev [OF assms(1)] inv_ops [OF assms(1)] assms(4), of 0] obtain d bs where
    r: "read_data R f ptr off n 0 =
      Some (f\<lparr>dev := d, F_EOF := F_EOF f \<or> length bs < n\<rparr>, file_write ptr off bs, int (length bs))"
    "dinv d" "bs = take n (drop (fp f) (fc f))" "contents d = contents (dev f)"
    "cap d = cap (dev f)" "pos d = pos (dev f) + length bs"
    by (auto simp: p)
  let ?f = "f\<lparr>dev := d, F_EOF := F_EOF f \<or> length bs < n\<rparr>"
  have nw: "\<not> F_WRITING ?f" using assms(2) by simp
  have "sinv ?f" using inv_reading [OF assms(2), THEN iffD1, OF assms(1)] assms(3) r(2) by (auto simp: inv_reading [OF nw])
  moreover have "fc ?f = fc f" "fp ?f = fp f + length bs"
    unfolding reading_fc [OF nw] reading_fp [OF nw] using r(4,6) p assms(3) by simp_all
  moreover have "bs = take (length bs) (drop (fp f) (fc f))" unfolding r(3) by (simp add: min_def)
  ultimately have "got f bs ?f" using assms(2) r(5) by (simp add: got_def st_flags_def)
  with r(1,3) assms(3) show thesis by (intro that [of ?f bs]) simp_all
qed

lemma read_buffer_loop_ok:
  assumes "dinv (dev f)" and "F_OPS f = ops" and "buffer f = Some buf" and "length buf = bufsz f"
    and "bufsz f \<le> SSIZE_MAX" and "tot \<le> bufsz f" and "n \<le> bufsz f"
  shows "\<exists>d bs. read_buffer_loop R f n tot =
      Some (f\<lparr>dev := d, buffer := Some (file_write buf tot bs), F_EOF := F_EOF f \<or> tot + length bs < n\<rparr>,
        Some (tot + length bs)) \<and>
    dinv d \<and> bs = take (length bs) (drop (pos (dev f)) (contents (dev f))) \<and> contents d = contents (dev f) \<and>
    cap d = cap (dev f) \<and> pos d = pos (dev f) + length bs \<and> tot + length bs \<le> bufsz f \<and>
    (tot + length bs < n \<longrightarrow> length (contents d) \<le> pos d)"
  using assms
proof (induction "n - tot" arbitrary: f buf tot rule: less_induct)
  case less
  note p = less.prems
  show ?case
  proof (cases "tot < n")
    case False
    then have "read_buffer_loop R f n tot = Some (f, Some tot)" by (simp add: read_buffer_loop.simps [of R f])
    with False p show ?thesis by (intro exI [of _ "dev f"] exI [of _ "[]"]) simp
  next
    case True
    have us: "usub (bufsz f) tot = bufsz f - tot" using p(5,6) by simp
    obtain d a where r: "file_rawRead R f (bufsz f - tot) = Some (f\<lparr>dev := d\<rparr>, int (length a), a)" "dinv d"
      "contents d = contents (dev f)" "cap d = cap (dev f)" "pos d = pos (dev f) + length a"
      "a = take (length a) (take (bufsz f - tot) (drop (pos (dev f)) (contents (dev f))))"
      "a = [] \<Longrightarrow> bufsz f - tot = 0 \<or> length (contents (dev f)) \<le> pos (dev f)"
      by (rule rawRead [OF p(1,2)]) blast
    have la: "length a \<le> bufsz f - tot" using arg_cong [OF r(6), of length] by simp
    have a': "a = take (length a) (drop (pos (dev f)) (contents (dev f)))" using r(6) la by (simp add: min_absorb1)
    show ?thesis
    proof (cases "a = []")
      case Nil: True
      then have "length (contents (dev f)) \<le> pos (dev f)" using r(7) True p(7) by simp
      moreover have "read_buffer_loop R f n tot = Some (f\<lparr>dev := d, F_EOF := True\<rparr>, Some tot)"
        using True Nil r(1) by (simp add: read_buffer_loop.simps [of R f] us)
      ultimately show ?thesis using True Nil r p
        by (intro exI [of _ d] exI [of _ "[]"]) simp
    next
      case a: False
      let ?buf = "file_write buf tot a"
      let ?f = "f\<lparr>dev := d, buffer := Some ?buf\<rparr>"
      have ow: "overwrite buf tot a = Some ?buf" using la p(4,6) by (intro overwrite_file) simp
      have lb: "length ?buf = length buf" using la p(4,6) by (simp add: file_write_length)
      have tl: "tot + length a \<le> bufsz f" using la p(6) by simp
      have lt: "n - (tot + length a) < n - tot" using a True by (cases a) simp_all
      have "\<exists>e b. read_buffer_loop R ?f n (tot + length a) =
          Some (?f\<lparr>dev := e, buffer := Some (file_write ?buf (tot + length a) b), F_EOF := F_EOF ?f \<or> tot + length a + length b < n\<rparr>,
            Some (tot + length a + length b)) \<and>
        dinv e \<and> b = take (length b) (drop (pos (dev ?f)) (contents (dev ?f))) \<and> contents e = contents (dev ?f) \<and>
        cap e = cap (dev ?f) \<and> pos e = pos (dev ?f) + length b \<and> tot + length a + length b \<le> bufsz ?f \<and>
        (tot + length a + length b < n \<longrightarrow> length (contents e) \<le> pos e)"
        by (rule less.hyps [OF lt]) (use p r(2) lb tl in simp_all)
      then obtain e b where e: "read_buffer_loop R ?f n (tot + length a) =
          Some (?f\<lparr>dev := e, buffer := Some (file_write ?buf (tot + length a) b), F_EOF := F_EOF ?f \<or> tot + length a + length b < n\<rparr>,
            Some (tot + length a + length b))"
        "dinv e" "b = take (length b) (drop (pos (dev ?f)) (contents (dev ?f)))" "contents e = contents (dev ?f)"
        "cap e = cap (dev ?f)" "pos e = pos (dev ?f) + length b" "tot + length a + length b \<le> bufsz ?f"
        "tot + length a + length b < n \<longrightarrow> length (contents e) \<le> pos e" by blast
      have step: "read_buffer_loop R f n tot = read_buffer_loop R ?f n (tot + length a)"
        using True a r(1) ow p(3) by (simp add: read_buffer_loop.simps [of R f] us)
      have b': "b = take (length b) (drop (length a) (drop (pos (dev f)) (contents (dev f))))"
        using e(3) r(3,5) by (simp add: add.commute)
      have ab: "a @ b = take (length (a @ b)) (drop (pos (dev f)) (contents (dev f)))"
        using take_add [of "length a" "length b" "drop (pos (dev f)) (contents (dev f))"]
        unfolding a' [symmetric] b' [symmetric] by simp
      have fw: "file_write ?buf (tot + length a) b = file_write buf tot (a @ b)"
        using p(4,6) by (intro file_write_append) simp
      have whole: "read_buffer_loop R f n tot =
          Some (f\<lparr>dev := e, buffer := Some (file_write buf tot (a @ b)), F_EOF := F_EOF f \<or> tot + length (a @ b) < n\<rparr>,
            Some (tot + length (a @ b)))"
        unfolding step e(1) fw by (simp add: add.assoc)
      show ?thesis by (intro exI [of _ e] exI [of _ "a @ b"] conjI whole e(2) ab)
        (use e(4-8) r(3-5) in \<open>simp_all add: add.assoc\<close>)
    qed
  qed
qed

lemma read_buffer_ok:
  assumes "sinv f" and "\<not> F_WRITING f" and "bufpos f = bufeof f" and "n \<le> bufsz f"
  obtains f' t where "read_buffer R f n = Some (f', int t)" and "got f [] f'"
    and "min n (length (fc f) - fp f) \<le> bufeof f' - bufpos f'" and "bufeof f' - bufpos f' \<le> length (fc f) - fp f"
    and "F_EOF f' \<longleftrightarrow> F_EOF f \<or> length (fc f) - fp f < n"
proof -
  have p: "fc f = contents (dev f)" "fp f = pos (dev f)" using assms(2,3) by (simp_all add: reading_fc reading_fp)
  note i = inv_reading [OF assms(2), THEN iffD1, OF assms(1)]
  obtain buf where buf: "buffer f = Some buf" "length buf = bufsz f" by (rule inv_buffer [OF assms(1)])
  from read_buffer_loop_ok [OF inv_dev [OF assms(1)] inv_ops [OF assms(1)] buf inv_bufsz(2) [OF assms(1)] le0 assms(4),
      unfolded add_0_left]
  obtain d bs where r: "read_buffer_loop R f n 0 =
      Some (f\<lparr>dev := d, buffer := Some (file_write buf 0 bs), F_EOF := F_EOF f \<or> length bs < n\<rparr>, Some (length bs))"
    "dinv d" "bs = take (length bs) (drop (pos (dev f)) (contents (dev f)))" "contents d = contents (dev f)"
    "cap d = cap (dev f)" "pos d = pos (dev f) + length bs" "length bs \<le> bufsz f"
    "length bs < n \<longrightarrow> length (contents d) \<le> pos d"
    by blast
  have lbs: "length bs \<le> length (fc f) - fp f" using arg_cong [OF r(3), of length] by (simp add: p)
  have full: "length bs < n \<longleftrightarrow> length (fc f) - fp f < n" "length bs < n \<longrightarrow> length bs = length (fc f) - fp f"
    using r(4,6,8) lbs p by auto
  let ?g = "f\<lparr>dev := d, buffer := Some (file_write buf 0 bs), F_EOF := F_EOF f \<or> length bs < n\<rparr>"
  define f' where "f' = (if length bs > 0 then ?g\<lparr>bufpos := 0, bufeof := length bs\<rparr> else ?g)"
  have rb: "read_buffer R f n = Some (f', int (length bs))" using r(1) by (simp add: read_buffer_def f'_def)
  have f': "F_WRITING f' = F_WRITING f" "dev f' = d" "buffer f' = Some (file_write buf 0 bs)" "bufsz f' = bufsz f"
    "F_OPS f' = F_OPS f" "st_flags f' = st_flags f" "F_EOF f' \<longleftrightarrow> F_EOF f \<or> length bs < n" "bufeof f' - bufpos f' = length bs"
    "bufpos f' \<le> bufeof f'" "bufeof f' \<le> bufsz f"
    using assms(3) i r(7) by (simp_all add: f'_def st_flags_def)
  have nw: "\<not> F_WRITING f'" using assms(2) f'(1) by simp
  have fp': "fp f' = fp f" unfolding reading_fp [OF nw] f' p using r(6) by simp
  have dr: "take (length bs) (drop (bufpos f') (file_write buf 0 bs)) = take (length bs) (drop (fp f') (contents d))"
  proof (cases "bs = []")
    case False
    then have "bufpos f' = 0" by (simp add: f'_def)
    then have "take (length bs) (drop (bufpos f') (file_write buf 0 bs)) = bs" by (simp add: file_write_in)
    then show ?thesis using r(3,4) fp' p by simp
  qed simp
  have lb: "length (file_write buf 0 bs) = bufsz f" using buf r(7) by (simp add: file_write_length)
  have "length bs \<le> pos d" using r(6) by simp
  then have "sinv f'" unfolding inv_reading [OF nw] f' using i r(2) lb dr f'(9,10) by simp
  then have g: "got f [] f'" using nw fp' f' r(4,5) p by (simp add: got_def reading_fc)
  have "min n (length (fc f) - fp f) \<le> length bs" using lbs full by linarith
  then have ge: "min n (length (fc f) - fp f) \<le> bufeof f' - bufpos f'" by (simp only: f')
  have le: "bufeof f' - bufpos f' \<le> length (fc f) - fp f" using lbs by (simp only: f')
  show thesis by (rule that [OF rb g ge le]) (simp only: f' full)
qed

lemma start_reading_ok:
  assumes "sinv f"
  obtains f' where "start_reading R f = Some (f', True)" and "got f [] f'" and "F_EOF f' = F_EOF f"
proof (cases "F_WRITING f")
  case False
  with assms show thesis by (intro that [of f]) (simp_all add: start_reading_def got_refl)
next
  case True
  obtain g where g: "fflush_one R f = Some (g, 0)" "sinv g" "fc g = fc f" "fp g = fp f" "contents (dev g) = fc f"
    "pos (dev g) = fp f" "st_flags g = st_flags f" "F_EOF g = F_EOF f" "F_WRITING g = F_WRITING f" "fcap g = fcap f"
    "if F_WRITING f then bufpos g = 0 else bufpos g = bufeof g"
    by (rule fflush_ok [OF assms])
  let ?g = "g\<lparr>F_WRITING := False, bufpos := bufsz g, bufeof := bufsz g\<rparr>"
  have nw: "\<not> F_WRITING ?g" by simp
  obtain buf where buf: "buffer g = Some buf" "length buf = bufsz g" by (rule inv_buffer [OF g(2)])
  have "sinv ?g" using g(2) buf inv_bufsz [OF g(2)] inv_dev [OF g(2)] inv_ops [OF g(2)] by (simp add: inv_reading [OF nw])
  moreover have "fc ?g = fc f" "fp ?g = fp f" unfolding reading_fc [OF nw] reading_fp [OF nw] using g(5,6) by simp_all
  ultimately have "got f [] ?g" using g(7,10) by (simp add: got_def st_flags_def)
  moreover have "start_reading R f = Some (?g, True)" using True g(1) by (simp add: start_reading_def)
  ultimately show thesis using g(8) by (intro that [of ?g]) simp_all
qed

lemma got_length: "got f bs f' \<Longrightarrow> length bs \<le> length (fc f) - fp f"
  unfolding got_def by (metis length_drop length_take min.cobounded1)

lemma read_blocks_ok:
  assumes "sinv f" and "\<not> F_WRITING f" and "n = 0 \<or> bufpos f = bufeof f" and "tot + n \<le> length ptr" and "n \<le> SSIZE_MAX"
  obtains f' bs stop where "read_blocks R f ptr tot n = Some (f', file_write ptr tot bs, tot + length bs, stop)"
    and "got f bs f'" and "length bs \<le> n" and "if stop then length bs < n \<and> length bs = length (fc f) - fp f else n - length bs < bufsz f" and "n = length bs \<or> bufpos f' = bufeof f'"
    and "F_EOF f' \<longleftrightarrow> F_EOF f \<or> stop"
proof (cases "n \<ge> bufsz f")
  case False
  have "read_blocks R f ptr tot n = Some (f, file_write ptr tot [], tot + length ([] :: byte list), False)"
    using False assms(4) by (simp add: read_blocks_def)
  then show thesis by (rule that) (use False assms in \<open>auto simp: got_refl\<close>)
next
  case True
  note b = inv_bufsz [OF assms(1)]
  define m where "m = (n div bufsz f) * bufsz f"
  have m: "m \<le> n" "n - m < bufsz f"
  proof -
    show "m \<le> n" by (simp add: m_def)
    have "n - m = n mod bufsz f" by (simp add: m_def minus_div_mult_eq_mod)
    then show "n - m < bufsz f" using b by simp
  qed
  have pe: "bufpos f = bufeof f" using assms(3) True b by auto
  have fit: "tot + m \<le> length ptr" using assms(4) m by simp
  obtain f' bs where r: "read_data R f ptr tot m 0 = Some (f', file_write ptr tot bs, int (length bs))"
    "bs = take m (drop (fp f) (fc f))" "got f bs f'" "bufpos f' = bufeof f'" "F_EOF f' \<longleftrightarrow> F_EOF f \<or> length bs < m"
    by (rule read_data_ok [OF assms(1,2) pe fit])
  have lb: "length bs = min (length (fc f) - fp f) m" by (simp add: r(2))
  have so: "size_of (int (length bs)) = length bs" using lb m(1) assms(5) by simp
  have eq: "read_blocks R f ptr tot n = Some (f', file_write ptr tot bs, tot + length bs, length bs < m)"
    using True b(1) r(1) so by (auto simp: read_blocks_def Let_def m_def [symmetric])
  show thesis by (rule that [OF eq r(3) _ _ _ r(5)]) (use lb m r(4) in auto)
qed

lemma fread_ok:
  assumes "sinv f" and "fmode f \<noteq> O_WRONLY" and "nmemb * sz \<le> SSIZE_MAX" and "nmemb * sz \<le> length ptr"
  defines "bs \<equiv> take (nmemb * sz) (drop (fp f) (fc f))"
  obtains f' where "fread_unlocked R ptr sz nmemb f = Some (f', file_write ptr 0 bs, length bs div sz)" and "sinv f'"
    and "fc f' = fc f" and "fp f' = fp f + length bs" and "st_flags f' = st_flags f" and "fcap f' = fcap f"
    and "F_EOF f' \<longleftrightarrow> F_EOF f \<or> length bs < nmemb * sz"
proof -
  note result = that
  define n where "n = nmemb * sz"
  have nm: "n mod 2 ^ 64 = n" using assms(3) by (simp add: n_def SSIZE_MAX_def)
  have nS: "n \<le> SSIZE_MAX" "n \<le> length ptr" using assms(3,4) by (simp_all add: n_def)
  show thesis
  proof (cases "n = 0")
    case True
    then have "fread_unlocked R ptr sz nmemb f = Some (f, file_write ptr 0 bs, length bs div sz)"
      using nm by (simp add: fread_unlocked_def bs_def n_def [symmetric])
    then show thesis by (rule that) (use True assms(1) in \<open>simp_all add: bs_def n_def [symmetric]\<close>)
  next
    case False
    have szpos: "0 < sz" using False by (cases sz) (simp_all add: n_def)
    obtain buf where buf: "buffer f = Some buf" "length buf = bufsz f" by (rule inv_buffer [OF assms(1)])
    obtain g where g: "start_reading R f = Some (g, True)" "got f [] g" "F_EOF g = F_EOF f"
      by (rule start_reading_ok [OF assms(1)])
    note gD = got_D [OF g(2)]
    have fit0: "0 + n \<le> length ptr" using nS by simp
    obtain h a where h: "(if bufpos g \<noteq> bufeof g then unbuffer_data g ptr 0 n else Some (g, ptr, 0)) =
        Some (h, file_write ptr 0 a, length a)" "got g a h" "length a \<le> n" "n - length a = 0 \<or> bufpos h = bufeof h"
      "F_EOF h = F_EOF g"
    proof (cases "bufpos g = bufeof g")
      case True
      with gD show thesis by (intro that [of g "[]"]) (simp_all add: got_refl)
    next
      case neq: False
      obtain h k a where u: "unbuffer_data g ptr 0 n = Some (h, file_write ptr 0 a, k)"
        "k = min (bufeof g - bufpos g) n" "length a = k" "got g a h" "bufpos h = bufpos g + k" "bufeof h = bufeof g" "F_EOF h = F_EOF g"
        by (rule unbuffer_data_ok [OF gD(1,2) fit0])
      have "bufpos g \<le> bufeof g" using inv_reading [OF gD(2)] gD(1) by simp
      with neq u show thesis by (intro that [of h a]) (auto simp: min_def)
    qed
    note hD = got_D [OF h(2)]
    have lp: "length (file_write ptr 0 a) = length ptr" using h(3) nS by (simp add: file_write_length)
    have fit1: "length a + (n - length a) \<le> length (file_write ptr 0 a)" "n - length a \<le> SSIZE_MAX"
      using h(3) nS lp by simp_all
    obtain k b stop where k: "read_blocks R h (file_write ptr 0 a) (length a) (n - length a) =
        Some (k, file_write (file_write ptr 0 a) (length a) b, length a + length b, stop)" "got h b k" "length b \<le> n - length a"
      "if stop then length b < n - length a \<and> length b = length (fc h) - fp h else n - length a - length b < bufsz h"
      "n - length a = length b \<or> bufpos k = bufeof k" "F_EOF k \<longleftrightarrow> F_EOF h \<or> stop"
      by (rule read_blocks_ok [OF hD(1,2) h(4) fit1])
    have fw: "file_write (file_write ptr 0 a) (length a) b = file_write ptr 0 (a @ b)"
      using file_write_append [of 0 ptr a b] by simp
    have gab: "got f (a @ b) k" using got_trans [OF got_trans [OF g(2) h(2)] k(2)] by simp
    note kD = got_D [OF gab]
    have lab: "length (a @ b) = length a + length b" "length (a @ b) \<le> n" using h(3) k(3) by simp_all
    have whole: "c = bs" if "got f c f'" and l: "length c = min n (length (fc f) - fp f)" for c f'
    proof -
      have "c = take (length c) (drop (fp f) (fc f))" using that(1) by (simp add: got_def)
      also have "\<dots> = bs" unfolding l by (simp add: bs_def n_def [symmetric] min_def)
      finally show ?thesis .
    qed
    have finish: thesis if r: "fread_unlocked R ptr sz nmemb f = Some (f', file_write ptr 0 c, length c div sz)" "got f c f'"
      "length c = min n (length (fc f) - fp f)" "F_EOF f' \<longleftrightarrow> F_EOF f \<or> length c < n" for f' c
    proof -
      have "c = bs" by (rule whole [OF r(2,3)])
      with r show thesis by (intro result [of f']) (simp_all add: got_def n_def)
    qed
    have start: "fread_unlocked R ptr sz nmemb f =
        (if stop then Some (k, file_write ptr 0 (a @ b), length (a @ b) div sz)
          else if n - length (a @ b) = 0 then Some (k, file_write ptr 0 (a @ b), nmemb)
          else do {
            (f, err) \<leftarrow> read_buffer R k (n - length (a @ b));
            if err < 0 then Some (f, file_write ptr 0 (a @ b), length (a @ b) div sz)
            else do {
              (f, ptr, j) \<leftarrow> unbuffer_data f (file_write ptr 0 (a @ b)) (length (a @ b)) (n - length (a @ b));
              Some (f, ptr, (length (a @ b) + j) div sz) } })"
      unfolding fread_unlocked_def Let_def n_def [symmetric] nm g(1) bind.bind_lunit prod.case h(1) k(1) fw lab(1)
      using False buf(1) assms(2) by simp
    consider "stop" | "\<not> stop" "n = length (a @ b)" | "\<not> stop" "length (a @ b) < n" using lab(2) by linarith
    then show thesis
    proof cases
      case 1
      have e: "length (a @ b) = length (fc f) - fp f" "length (a @ b) < n"
        using k(4) [unfolded if_P [OF 1]] hD(4,5) gD(4,5) got_length [OF gab] lab by (simp, linarith)
      show thesis by (rule finish [OF _ gab]) (use start 1 e k(6) h(5) g(3) in simp_all)
    next
      case 2
      have "nmemb = length (a @ b) div sz" unfolding 2(2) [symmetric] n_def using szpos by simp
      then show thesis by (intro finish [OF _ gab]) (use start 2 k(6) h(5) g(3) got_length [OF gab] in simp_all)
    next
      case 3
      define m where "m = n - length (a @ b)"
      have mb: "m \<le> bufsz k" using k(4) [unfolded if_not_P [OF 3(1)]] got_D(3) [OF k(2)] by (simp add: m_def)
      have pe: "bufpos k = bufeof k" using k(5) 3(2) by auto
      obtain l t where l: "read_buffer R k m = Some (l, int t)" "got k [] l"
        "min m (length (fc k) - fp k) \<le> bufeof l - bufpos l" "bufeof l - bufpos l \<le> length (fc k) - fp k"
        "F_EOF l \<longleftrightarrow> F_EOF k \<or> length (fc k) - fp k < m"
        by (rule read_buffer_ok [OF kD(1,2) pe mb])
      note lD = got_D [OF l(2)]
      have fit2: "length (a @ b) + m \<le> length (file_write ptr 0 (a @ b))"
        using nS lab(2) by (simp add: m_def file_write_length)
      obtain f' j c where u: "unbuffer_data l (file_write ptr 0 (a @ b)) (length (a @ b)) m =
          Some (f', file_write (file_write ptr 0 (a @ b)) (length (a @ b)) c, j)"
        "j = min (bufeof l - bufpos l) m" "length c = j" "got l c f'" "bufpos f' = bufpos l + j" "bufeof f' = bufeof l" "F_EOF f' = F_EOF l"
        by (rule unbuffer_data_ok [OF lD(1,2) fit2])
      have fw2: "file_write (file_write ptr 0 (a @ b)) (length (a @ b)) c = file_write ptr 0 ((a @ b) @ c)"
        using file_write_append [of 0 ptr "a @ b" c] by simp
      have gabc: "got f ((a @ b) @ c) f'" using got_trans [OF got_trans [OF gab l(2)] u(4)] by simp
      have j: "j = min m (length (fc k) - fp k)" using u(2) l(3,4) by linarith
      have rest: "length (fc k) - fp k = length (fc f) - fp f - length (a @ b)" using kD(4,5) by simp
      have lenc: "length ((a @ b) @ c) = min n (length (fc f) - fp f)"
        using u(3) j rest lab(2) got_length [OF gab] unfolding m_def length_append by linarith
      have eof: "F_EOF f' \<longleftrightarrow> F_EOF f \<or> length ((a @ b) @ c) < n"
        unfolding u(7) l(5) k(6) h(5) g(3) lenc rest m_def using 3 lab(2) by auto
      have "fread_unlocked R ptr sz nmemb f = Some (f', file_write ptr 0 ((a @ b) @ c), length ((a @ b) @ c) div sz)"
        unfolding start m_def [symmetric] l(1) bind.bind_lunit prod.case u(1) fw2 using 3 u(3)
        by (simp add: m_def add.assoc)
      then show thesis by (rule finish [OF _ gabc lenc eof])
    qed
  qed
qed

lemma fgetc_ok:
  assumes "sinv f" and "fmode f \<noteq> O_WRONLY"
  obtains f' r where "fgetc_unlocked R f = Some (f', r)" and "sinv f'" and "fc f' = fc f"
    and "st_flags f' = st_flags f" and "fcap f' = fcap f"
    and "(fp f', F_EOF f', r) = (if F_EOF f \<or> length (fc f) \<le> fp f then (fp f, True, -1)
      else (fp f + 1, F_EOF f, uint (fc f ! fp f)))"
proof (cases "F_EOF f")
  case True
  with assms show thesis by (intro that [of f "-1"]) (simp_all add: fgetc_unlocked_def)
next
  case False
  let ?bs = "take (1 * 1) (drop (fp f) (fc f))"
  obtain f' where f': "fread_unlocked R [0] 1 1 f = Some (f', file_write [0] 0 ?bs, length ?bs div 1)" "sinv f'"
    "fc f' = fc f" "fp f' = fp f + length ?bs" "st_flags f' = st_flags f" "fcap f' = fcap f"
    "F_EOF f' \<longleftrightarrow> F_EOF f \<or> length ?bs < 1 * 1"
    by (rule fread_ok [OF assms, of 1 1 "[0]"]) (simp_all add: SSIZE_MAX_def)
  show thesis
  proof (cases "length (fc f) \<le> fp f")
    case True
    with False f' show thesis by (intro that [of f' "-1"]) (simp_all add: fgetc_unlocked_def)
  next
    case lt: False
    then have bs: "?bs = [fc f ! fp f]" by (simp add: take_Suc hd_drop_conv_nth)
    have "fgetc_unlocked R f = Some (f', uint (fc f ! fp f))"
      using False f'(1) unfolding bs by (simp add: fgetc_unlocked_def file_write_in)
    with False lt f' show thesis unfolding bs by (intro that [of f']) simp_all
  qed
qed

lemma fseek_dev:
  assumes "sinv g" and "contents (dev g) = fc g" and "pos (dev g) = fp g"
    and "if F_WRITING g then bufpos g = 0 else bufpos g = bufeof g"
    and "dinv d" and "contents d = contents (dev g)" and "cap d = cap (dev g)"
  shows "sinv (g\<lparr>dev := d\<rparr>)" and "fc (g\<lparr>dev := d\<rparr>) = fc g" and "fp (g\<lparr>dev := d\<rparr>) = pos d"
proof -
  obtain buf where buf: "buffer g = Some buf" "length buf = bufsz g" by (rule inv_buffer [OF assms(1)])
  have p: "pos d \<le> length (contents d)" "length (contents d) \<le> cap d" by (rule pos_le [OF assms(5)], rule length_le [OF assms(5)])
  show "sinv (g\<lparr>dev := d\<rparr>)" using assms buf p by (auto simp: st_inv_def split: if_splits)
  show "fc (g\<lparr>dev := d\<rparr>) = fc g" unfolding assms(2) [symmetric]
    using assms(4,6) buf p by (auto simp: st_contents_def split: if_splits)
  show "fp (g\<lparr>dev := d\<rparr>) = pos d" using assms(4) by (auto simp: st_pos_def split: if_splits)
qed

lemma fseek_ok:
  assumes "sinv f" and "seek_base (fp f) (length (fc f)) wh = Some base" and "base + off \<le> int (length (fc f))"
  obtains f' where "fseek R f off wh = Some (f', if base + off < 0 then -1 else 0)" and "sinv f'" and "fc f' = fc f"
    and "(fp f', F_EOF f') = (if base + off < 0 then (fp f, F_EOF f) else (nat (base + off), False))"
    and "st_flags f' = st_flags f" and "fcap f' = fcap f"
proof -
  obtain g where g: "fflush_one R f = Some (g, 0)" "sinv g" "fc g = fc f" "fp g = fp f" "contents (dev g) = fc f"
    "pos (dev g) = fp f" "st_flags g = st_flags f" "F_EOF g = F_EOF f" "F_WRITING g = F_WRITING f" "fcap g = fcap f"
    "if F_WRITING f then bufpos g = 0 else bufpos g = bufeof g"
    by (rule fflush_ok [OF assms(1)])
  note dv = inv_dev [OF g(2)] inv_ops [OF g(2)]
  have sb: "seek_base (pos (dev g)) (length (contents (dev g))) wh = Some base" using assms(2) g(5,6) by simp
  have gg: "contents (dev g) = fc g" "pos (dev g) = fp g" "if F_WRITING g then bufpos g = 0 else bufpos g = bufeof g"
    using g by simp_all
  show thesis
  proof (cases "base + off < 0")
    case True
    from seek_bad [OF dv(1) sb True] obtain h e where h: "raw_sk R ops = Some h" "h (dev g) off wh = Some (dev g, Inl e)"
      by blast
    let ?g = "g\<lparr>dev := dev g, ferrno := Some e\<rparr>"
    have "file_rawSeek R g off wh = Some (?g, -1)" using h dv(2) by (simp add: file_rawSeek_def raw_result_def)
    then have "fseek R f off wh = Some (?g, if base + off < 0 then -1 else 0)"
      using g(1) True by (simp add: fseek_def fseek_unlocked_def)
    moreover have "sinv (g\<lparr>dev := dev g\<rparr>)" using g(2) by simp
    then have "sinv ?g" by (simp only: inv_other)
    moreover have "fc ?g = fc g" "fp ?g = fp g" by (rule fc_fields; simp)+
    moreover have "st_flags ?g = st_flags g" by (simp add: st_flags_def)
    ultimately show thesis using True g by (intro that [of ?g]) simp_all
  next
    case False
    then have r: "0 \<le> base + off" "base + off \<le> int (length (contents (dev g)))" using assms(3) g(5) by simp_all
    obtain d where d: "file_rawSeek R g off wh = Some (g\<lparr>dev := d\<rparr>, base + off)" "dinv d" "contents d = contents (dev g)"
      "cap d = cap (dev g)" "int (pos d) = base + off"
      by (rule rawSeek [OF dv sb r])
    note k = fseek_dev [OF g(2) gg d(2-4)]
    let ?g = "g\<lparr>dev := d, F_EOF := False\<rparr>"
    have "fseek R f off wh = Some (?g, if base + off < 0 then -1 else 0)"
      using g(1) False d(1) by (simp add: fseek_def fseek_unlocked_def)
    moreover have "sinv ?g" using k(1) by (simp only: inv_other)
    moreover have "fc ?g = fc (g\<lparr>dev := d\<rparr>)" "fp ?g = fp (g\<lparr>dev := d\<rparr>)" by (rule fc_fields; simp)+
    moreover have "st_flags ?g = st_flags g" by (simp add: st_flags_def)
    moreover have "pos d = nat (base + off)" using d(5) by linarith
    ultimately show thesis using False g k d(1-4) by (intro that [of ?g]) simp_all
  qed
qed

lemma ftell_ok:
  assumes "sinv f"
  obtains f' where "ftell R f = Some (f', int (fp f))" and "sinv f'" and "fc f' = fc f" and "fp f' = fp f"
    and "F_EOF f' = F_EOF f" and "st_flags f' = st_flags f" and "fcap f' = fcap f"
proof -
  obtain buf where buf: "buffer f = Some buf" "length buf = bufsz f" by (rule inv_buffer [OF assms])
  note dv = inv_dev [OF assms] inv_ops [OF assms]
  have sb: "seek_base (pos (dev f)) (length (contents (dev f))) SEEK_CUR = Some (int (pos (dev f)))"
    by (simp add: seek_base_def)
  have r: "0 \<le> int (pos (dev f)) + 0" "int (pos (dev f)) + 0 \<le> int (length (contents (dev f)))"
    using pos_le [OF dv(1)] by simp_all
  obtain d where d: "file_rawSeek R f 0 SEEK_CUR = Some (f\<lparr>dev := d\<rparr>, int (pos (dev f)) + 0)" "dinv d"
    "contents d = contents (dev f)" "cap d = cap (dev f)" "int (pos d) = int (pos (dev f)) + 0"
    by (rule rawSeek [OF dv sb r])
  let ?f = "f\<lparr>dev := d\<rparr>"
  have pd: "pos d = pos (dev f)" using d(5) by simp
  have i: "\<not> F_WRITING f \<Longrightarrow> bufpos f \<le> bufeof f \<and> bufeof f \<le> SSIZE_MAX \<and> bufeof f - bufpos f \<le> pos (dev f)"
    using assms inv_bufsz [OF assms] by (auto simp: inv_reading)
  have "ftell R f = Some (?f, int (fp f))"
  proof (cases "F_WRITING f")
    case True
    then show ?thesis using d(1) buf by (simp add: ftell_def st_pos_def)
  next
    case False
    with i have k: "usub (bufeof f) (bufpos f) = bufeof f - bufpos f" "bufeof f - bufpos f \<le> pos (dev f)" by simp_all
    then show ?thesis using False d(1) buf by (auto simp: ftell_def st_pos_def of_nat_diff)
  qed
  moreover have "sinv ?f" by (rule inv_same_dev [OF assms d(2-4) pd])
  moreover have "fc ?f = fc f" "fp ?f = fp f" by (rule fc_fields; use d(3) pd in simp)+
  moreover have "st_flags ?f = st_flags f" by (simp add: st_flags_def)
  ultimately show thesis using d(4) by (intro that [of ?f]) simp_all
qed

lemma fgets_loop_ok:
  assumes "sinv f" and "fmode f \<noteq> O_WRONLY" and "i + left < length s"
  shows "\<exists>f' s' r l. fgets_loop R s i left f = Some (f', s', r) \<and> sinv f' \<and> fc f' = fc f \<and> st_flags f' = st_flags f \<and>
    fcap f' = fcap f \<and> l = (if F_EOF f then [] else upto_delim 10 (take left (drop (fp f) (fc f)))) \<and>
    fp f' = fp f + length l \<and>
    (F_EOF f' \<longleftrightarrow> F_EOF f \<or> \<not> ends 10 (take left (drop (fp f) (fc f))) \<and> length (drop (fp f) (fc f)) < left) \<and>
    (r \<longleftrightarrow> left = 0 \<or> i + length l \<noteq> 0) \<and> s' = (if r then file_write s i (l @ [0]) else s)"
  using assms
proof (induction left arbitrary: f i s)
  case 0
  then have "fgets_loop R s i 0 f = Some (f, file_write s i [0], True)" by (simp add: overwrite_file)
  with 0 show ?case by (intro exI [of _ f] exI [of _ "file_write s i [0]"] exI [of _ True] exI [of _ "[]"]) simp
next
  case (Suc left)
  let ?rest = "drop (fp f) (fc f)"
  obtain g c where g: "fgetc_unlocked R f = Some (g, c)" "sinv g" "fc g = fc f" "st_flags g = st_flags f" "fcap g = fcap f"
    "(fp g, F_EOF g, c) = (if F_EOF f \<or> length (fc f) \<le> fp f then (fp f, True, -1)
      else (fp f + 1, F_EOF f, uint (fc f ! fp f)))"
    by (rule fgetc_ok [OF Suc.prems(1,2)])
  show ?case
  proof (cases "F_EOF f \<or> length (fc f) \<le> fp f")
    case True
    then have e: "fp g = fp f" "F_EOF g" "c = -1" using g(6) by simp_all
    have l: "(if F_EOF f then [] else upto_delim 10 (take (Suc left) ?rest)) = []" "F_EOF f \<or> ?rest = []" using True by auto
    show ?thesis
    proof (cases "i = 0")
      case True
      have "fgets_loop R s i (Suc left) f = Some (g, s, False)" using True e(3) g(1) by simp
      then show ?thesis unfolding l(1)
        by (intro exI [of _ g] exI [of _ s] exI [of _ False] exI [of _ "[]"]) (use True l(2) e g(2-5) in auto)
    next
      case False
      have "overwrite s i [0] = Some (file_write s i [0])" using Suc.prems(3) by (intro overwrite_file) simp
      then have "fgets_loop R s i (Suc left) f = Some (g, file_write s i [0], True)" using False e(3) g(1) by simp
      then show ?thesis unfolding l(1)
        by (intro exI [of _ g] exI [of _ "file_write s i [0]"] exI [of _ True] exI [of _ "[]"])
          (use False l(2) e g(2-5) in auto)
    qed
  next
    case False
    then have lt: "fp f < length (fc f)" "\<not> F_EOF f" by simp_all
    define b where "b = fc f ! fp f"
    have e: "fp g = fp f + 1" "\<not> F_EOF g" "c = uint b" using g(6) False by (simp_all add: b_def)
    have rest: "?rest = b # drop (fp g) (fc g)" using g(3) e(1) drop_step [OF lt(1)] by (simp add: b_def)
    have ow: "overwrite s i [b] = Some (file_write s i [b])" using Suc.prems(3) by (intro overwrite_file) simp
    have ls: "length (file_write s i [b]) = length s" using Suc.prems(3) by (simp add: file_write_length)
    have "0 \<le> uint b" by simp
    then have ne: "c \<noteq> -1" "word_of_int c = b" unfolding e(3) by linarith simp
    have step: "fgets_loop R s i (Suc left) f =
        (if c = 10 then do { s \<leftarrow> overwrite (file_write s i [b]) (i + 1) [0]; Some (g, s, True) }
         else fgets_loop R (file_write s i [b]) (i + 1) left g)"
      using ne ow by (simp add: g(1))
    show ?thesis
    proof (cases "c = 10")
      case True
      have "overwrite (file_write s i [b]) (i + 1) [0] = Some (file_write (file_write s i [b]) (i + 1) [0])"
        using Suc.prems(3) ls by (intro overwrite_file) simp
      moreover have "file_write (file_write s i [b]) (i + 1) [0] = file_write s i ([b] @ [0])"
        using file_write_append [of i s "[b]" "[0]"] Suc.prems(3) by simp
      ultimately have "fgets_loop R s i (Suc left) f = Some (g, file_write s i ([b] @ [0]), True)" using True step by simp
      then show ?thesis using True g(2-5) e lt rest by auto
    next
      case nl: False
      have m: "fmode g \<noteq> O_WRONLY" using Suc.prems(2) g(4) by (simp add: st_flags_def)
      have fit: "(i + 1) + left < length (file_write s i [b])" using Suc.prems(3) ls by simp
      let ?l = "upto_delim 10 (take left (drop (fp g) (fc g)))"
      from Suc.IH [OF g(2) m fit, unfolded if_not_P [OF e(2)]] obtain f' s' r where f': "fgets_loop R (file_write s i [b]) (i + 1) left g = Some (f', s', r)"
        "sinv f'" "fc f' = fc g" "st_flags f' = st_flags g" "fcap f' = fcap g" "fp f' = fp g + length ?l"
        "F_EOF f' \<longleftrightarrow> F_EOF g \<or> \<not> ends 10 (take left (drop (fp g) (fc g))) \<and> length (drop (fp g) (fc g)) < left"
        "r \<longleftrightarrow> left = 0 \<or> i + 1 + length ?l \<noteq> 0"
        "s' = (if r then file_write (file_write s i [b]) (i + 1) (?l @ [0]) else file_write s i [b])" by blast
      have fw: "file_write (file_write s i [b]) (i + 1) (?l @ [0]) = file_write s i ((b # ?l) @ [0])"
        using file_write_append [of i s "[b]" "?l @ [0]"] Suc.prems(3) by simp
      have l: "upto_delim 10 (take (Suc left) ?rest) = b # ?l" "ends 10 (take (Suc left) ?rest) = ends 10 (take left (drop (fp g) (fc g)))"
        unfolding rest using nl e(3) by simp_all
      have "length ?rest = Suc (length (drop (fp g) (fc g)))" unfolding rest by simp
      moreover have "fgets_loop R s i (Suc left) f = Some (f', s', r)" using step nl f'(1) by simp
      ultimately show ?thesis unfolding l
        by (intro exI [of _ f'] exI [of _ s'] exI [of _ r] exI [of _ "b # ?l"]) (use f' g(3-5) e lt fw in simp)
    qed
  qed
qed

lemma fputs_ok:
  assumes "sinv f" and "fmode f \<noteq> O_RDONLY" and "fp f + length data \<le> fcap f"
  obtains f' where "fputs_unlocked R data f = Some (f', if length data < 2147483647 then int (length data) else 2147483647)"
    and "sinv f'" and "fc f' = file_write (fc f) (fp f) data" and "fp f' = fp f + length data"
    and "st_flags f' = st_flags f" and "F_EOF f' = F_EOF f" and "fcap f' = fcap f"
proof (cases "data = []")
  case True
  then have "fputs_unlocked R data f = Some (f, 0)" by (simp add: fputs_unlocked_def fputs_loop.simps [of R "[]"])
  with True assms(1) fp_le(1) [OF assms(1)] show thesis by (intro that [of f]) simp_all
next
  case False
  obtain f' where f': "fwrite_unlocked R data 1 (length data) f = Some (f', length data div 1)" "sinv f'"
    "fc f' = file_write (fc f) (fp f) data" "fp f' = fp f + length data" "st_flags f' = st_flags f"
    "F_EOF f' = F_EOF f" "fcap f' = fcap f"
    by (rule fwrite_ok [OF assms, of "length data" 1]) simp_all
  have stop: "fputs_loop R data (length data) f' = Some (f', if length data < 2147483647 then int (length data) else 2147483647)"
    by (simp add: fputs_loop.simps [of R data "length data"])
  have "fputs_unlocked R data f = fputs_loop R data (length data) f'"
    using False f'(1) by (simp add: fputs_unlocked_def fputs_loop.simps [of R data 0])
  with f' stop show thesis by (intro that [of f']) simp_all
qed

definition st_file :: "'d FILE \<Rightarrow> ref_file" where
  "st_file f = (fc f, fp f, F_EOF f)"

lemma stdio_step_ok:
  assumes "sinv f" and "fmode f = O_RDWR" and "ref_step (fcap f) x (st_file f) = Some (s, v)"
  shows "\<exists>f'. stdio_step R x f = Some (f', v) \<and> sinv f' \<and> st_file f' = s \<and> fmode f' = O_RDWR \<and> fcap f' = fcap f"
proof -
  have m: "fmode f \<noteq> O_WRONLY" "fmode f \<noteq> O_RDONLY" using assms(2) by simp_all
  have keep: "st_flags f' = st_flags f \<Longrightarrow> fmode f' = O_RDWR" for f' using assms(2) by (simp add: st_flags_def)
  show ?thesis
  proof (cases x)
    case (Fread n)
    let ?bs = "take (n * 1) (drop (fp f) (fc f))"
    have n: "n * 1 \<le> SSIZE_MAX" "n * 1 \<le> length (replicate n (0 :: byte))"
      and s: "s = (fc f, fp f + length ?bs, F_EOF f \<or> length ?bs < n)" "v = Bytes ?bs"
      using assms(3) Fread by (auto simp: st_file_def Let_def split: if_splits)
    obtain f' where f': "fread_unlocked R (replicate n 0) 1 n f = Some (f', file_write (replicate n 0) 0 ?bs, length ?bs div 1)"
      "sinv f'" "fc f' = fc f" "fp f' = fp f + length ?bs" "st_flags f' = st_flags f" "fcap f' = fcap f"
      "F_EOF f' \<longleftrightarrow> F_EOF f \<or> length ?bs < n * 1"
      by (rule fread_ok [OF assms(1) m(1) n])
    have "take (length ?bs div 1) (file_write (replicate n 0) 0 ?bs) = ?bs"
      by (simp add: file_write_in min_def)
    then have "stdio_step R x f = Some (f', Bytes ?bs)"
      unfolding stdio_step_def Fread stdio_op.case f'(1) bind.bind_lunit prod.case by (simp only:)
    moreover have "st_file f' = s" using f'(3,4,7) by (simp add: st_file_def s)
    ultimately show ?thesis using f'(2,5,6) keep s by (intro exI [of _ f']) simp
  next
    case Fgetc
    obtain f' r where f': "fgetc_unlocked R f = Some (f', r)" "sinv f'" "fc f' = fc f"
      "st_flags f' = st_flags f" "fcap f' = fcap f"
      "(fp f', F_EOF f', r) = (if F_EOF f \<or> length (fc f) \<le> fp f then (fp f, True, -1)
        else (fp f + 1, F_EOF f, uint (fc f ! fp f)))"
      by (rule fgetc_ok [OF assms(1) m(1)])
    then have "stdio_step R x f = Some (f', Num r)" by (simp add: stdio_step_def Fgetc)
    moreover have "st_file f' = s \<and> v = Num r"
      using assms(3) f'(3,6) by (auto simp: Fgetc st_file_def split: if_splits)
    ultimately show ?thesis using f' keep by auto
  next
    case (Fgets n)
    show ?thesis
    proof (cases n)
      case 0
      then show ?thesis using assms Fgets
        by (auto simp: stdio_step_def fgets_unlocked_def st_file_def Let_def)
    next
      case (Suc m)
      let ?l = "if F_EOF f then [] else upto_delim 10 (take m (drop (fp f) (fc f)))"
      have n1: "n - 1 = m" using Suc by simp
      have "0 + m < length (replicate n (0 :: byte))" using Suc by simp
      from fgets_loop_ok [OF assms(1) m(1) this] obtain f' s' r where f':
        "fgets_loop R (replicate n 0) 0 m f = Some (f', s', r)" "sinv f'" "fc f' = fc f" "st_flags f' = st_flags f"
        "fcap f' = fcap f" "fp f' = fp f + length ?l"
        "F_EOF f' \<longleftrightarrow> F_EOF f \<or> \<not> ends 10 (take m (drop (fp f) (fc f))) \<and> length (drop (fp f) (fc f)) < m"
        "r \<longleftrightarrow> m = 0 \<or> 0 + length ?l \<noteq> 0" "s' = (if r then file_write (replicate n 0) 0 (?l @ [0]) else replicate n 0)"
        by blast
      have l: "length ?l \<le> m" using upto_delim_length [of 10 "take m (drop (fp f) (fc f))"] by simp
      have obj: "file_write (replicate n 0) 0 (?l @ [0]) = ?l @ replicate (n - length ?l) 0"
      proof -
        have "replicate (n - length ?l) (0 :: byte) = 0 # replicate (n - (length ?l + 1)) 0"
          using l Suc by (cases "n - length ?l") simp_all
        then show ?thesis using l Suc by (simp add: file_write_in)
      qed
      have step: "stdio_step R x f = Some (f', if r then Bytes s' else Num (-1))"
        unfolding stdio_step_def Fgets stdio_op.case fgets_unlocked_def using Suc f'(1) by simp
      have sv: "s = (fc f, fp f + length ?l, F_EOF f \<or> \<not> ends 10 (take m (drop (fp f) (fc f))) \<and> length (drop (fp f) (fc f)) < m)"
        "v = (if n = 0 \<or> ?l = [] \<and> n \<noteq> 1 then Num (-1) else Bytes (?l @ replicate (n - length ?l) 0))"
        using assms(3) unfolding Fgets st_file_def ref_step.simps Let_def n1 by (simp_all only: option.inject prod.inject)
      have v: "(if r then Bytes s' else Num (-1)) = v"
        unfolding sv(2) f'(9) obj using f'(8) Suc by (simp split: if_split)
      have "st_file f' = s" unfolding sv(1) st_file_def f'(3,6,7) ..
      then show ?thesis by (intro exI [of _ f'] conjI step [unfolded v] f'(2,5) keep f'(4))
    qed
  next
    case (Fputc c)
    then have fit: "fp f + length [c] \<le> fcap f" and s: "s = (file_write (fc f) (fp f) [c], fp f + 1, F_EOF f)"
      "v = Num (uint c)"
      using assms(3) by (auto simp: st_file_def split: if_splits)
    obtain f' where f': "fwrite_unlocked R [c] 1 1 f = Some (f', length [c] div 1)" "sinv f'"
      "fc f' = file_write (fc f) (fp f) [c]" "fp f' = fp f + length [c]" "st_flags f' = st_flags f"
      "F_EOF f' = F_EOF f" "fcap f' = fcap f"
      by (rule fwrite_ok [OF assms(1) m(2) fit, of 1 1]) simp_all
    then show ?thesis using keep
      by (intro exI [of _ f']) (simp add: stdio_step_def Fputc s st_file_def fputc_unlocked_def)
  next
    case (Fputs bs)
    then have fit: "fp f + length bs \<le> fcap f" and s: "s = (file_write (fc f) (fp f) bs, fp f + length bs, F_EOF f)"
      "v = Num (if length bs < 2147483647 then int (length bs) else 2147483647)"
      using assms(3) by (auto simp: st_file_def split: if_splits)
    obtain f' where f': "fputs_unlocked R bs f = Some (f', if length bs < 2147483647 then int (length bs) else 2147483647)" "sinv f'"
      "fc f' = file_write (fc f) (fp f) bs" "fp f' = fp f + length bs" "st_flags f' = st_flags f"
      "F_EOF f' = F_EOF f" "fcap f' = fcap f"
      by (rule fputs_ok [OF assms(1) m(2) fit])
    then show ?thesis using keep by (intro exI [of _ f']) (simp add: stdio_step_def Fputs s st_file_def)
  next
    case (Fwrite bs)
    then have fit: "fp f + length bs \<le> fcap f" and s: "s = (file_write (fc f) (fp f) bs, fp f + length bs, F_EOF f)"
      "v = Num (int (length bs))"
      using assms(3) by (auto simp: st_file_def split: if_splits)
    obtain f' where f': "fwrite_unlocked R bs 1 (length bs) f = Some (f', length bs div 1)" "sinv f'"
      "fc f' = file_write (fc f) (fp f) bs" "fp f' = fp f + length bs" "st_flags f' = st_flags f"
      "F_EOF f' = F_EOF f" "fcap f' = fcap f"
      by (rule fwrite_ok [OF assms(1) m(2) fit, of "length bs" 1]) simp_all
    then show ?thesis using keep by (intro exI [of _ f']) (simp add: stdio_step_def Fwrite s st_file_def)
  next
    case (Fseek off wh)
    then obtain base where b: "seek_base (fp f) (length (fc f)) wh = Some base" "base + off \<le> int (length (fc f))"
      and s: "s = (fc f, (if base + off < 0 then (fp f, F_EOF f) else (nat (base + off), False)))"
      "v = Num (if base + off < 0 then -1 else 0)"
      using assms(3) by (auto simp: st_file_def split: option.splits if_splits)
    obtain f' where f': "fseek R f off wh = Some (f', if base + off < 0 then -1 else 0)" "sinv f'" "fc f' = fc f"
      "(fp f', F_EOF f') = (if base + off < 0 then (fp f, F_EOF f) else (nat (base + off), False))"
      "st_flags f' = st_flags f" "fcap f' = fcap f"
      by (rule fseek_ok [OF assms(1) b])
    then have "stdio_step R x f = Some (f', v)" by (simp add: stdio_step_def Fseek s)
    moreover have "st_file f' = s" unfolding st_file_def s f'(3,4) ..
    ultimately show ?thesis using f' keep by blast
  next
    case Ftell
    then have s: "s = st_file f" "v = Num (int (fp f))" using assms(3) by (simp_all add: st_file_def)
    obtain f' where "ftell R f = Some (f', int (fp f))" "sinv f'" "fc f' = fc f" "fp f' = fp f"
      "F_EOF f' = F_EOF f" "st_flags f' = st_flags f" "fcap f' = fcap f"
      by (rule ftell_ok [OF assms(1)])
    then show ?thesis using keep by (intro exI [of _ f']) (simp add: stdio_step_def Ftell s st_file_def)
  next
    case Fflush
    then have s: "s = st_file f" "v = Num 0" using assms(3) by (simp_all add: st_file_def)
    obtain f' where "fflush_one R f = Some (f', 0)" "sinv f'" "fc f' = fc f" "fp f' = fp f" "st_flags f' = st_flags f"
      "F_EOF f' = F_EOF f" "fcap f' = fcap f"
      by (rule fflush_ok [OF assms(1)])
    then show ?thesis using keep by (intro exI [of _ f']) (simp add: stdio_step_def fflush_def Fflush s st_file_def)
  qed
qed

lemma stdio_run_ok:
  assumes "sinv f" and "fmode f = O_RDWR" and "ref_run (fcap f) xs (st_file f) = Some (s, vs)"
  shows "\<exists>f'. stdio_run R xs f = Some (f', vs) \<and> sinv f' \<and> st_file f' = s \<and> fcap f' = fcap f"
  using assms
proof (induction xs arbitrary: f vs)
  case Nil
  then show ?case by simp
next
  case (Cons x xs)
  from Cons.prems(3) obtain t v ws where t: "ref_step (fcap f) x (st_file f) = Some (t, v)"
    "ref_run (fcap f) xs t = Some (s, ws)" "vs = v # ws"
    by (auto simp: bind_eq_Some_conv)
  from stdio_step_ok [OF Cons.prems(1,2) t(1)] obtain g where g: "stdio_step R x f = Some (g, v)" "sinv g"
    "st_file g = t" "fmode g = O_RDWR" "fcap g = fcap f" by blast
  from Cons.IH [OF g(2,4), of ws] t(2) g(3,5) obtain f' where
    "stdio_run R xs g = Some (f', ws)" "sinv f'" "st_file f' = s" "fcap f' = fcap g" by auto
  then show ?case using g t(3) by (intro exI [of _ f']) simp
qed

end

subsection \<open>Lines\<close>

context raw_file begin

lemma getdelim_grow_ok:
  assumes "\<And>k. \<exists>b. fresh k = Some b \<and> length b = k" and "i + 3 < SSIZE_MAX" and "i + 1 \<le> length line"
  obtains l where "(if i + 2 \<ge> length line then getdelim_grow fresh line else Inr line) = Inr l" and "i + 2 < length l"
    and "take i l = take i line"
proof (cases "i + 2 \<ge> length line")
  case False
  then show thesis by (intro that [of line]) simp_all
next
  case True
  define m where "m = (let new_n = (if length line \<ge> SSIZE_MAX div 2 then SSIZE_MAX else 2 * length line)
    in if new_n < 8 then 8 else new_n)"
  have m: "length line \<le> m" "i + 2 < m"
    using assms(2,3) True by (auto simp: m_def Let_def SSIZE_MAX_def)
  obtain b where b: "fresh m = Some b" "length b = m" using assms(1) [of m] by blast
  have "getdelim_grow fresh line = Inr (take m line @ drop (length line) b)"
    using assms(2) True b(1) by (simp add: getdelim_grow_def Let_def m_def)
  then show thesis using True b(2) m assms(3) by (intro that [of "take m line @ drop (length line) b"]) (simp_all add: min_def)
qed

lemma getdelim_loop_ok:
  assumes "sinv f" and "fmode f \<noteq> O_WRONLY" and "\<not> F_EOF f" and "\<And>k. \<exists>b. fresh k = Some b \<and> length b = k"
    and "i + 1 \<le> length line" and "i + length (drop (fp f) (fc f)) + 3 < SSIZE_MAX"
  shows "\<exists>f' line'. getdelim_loop R fresh delim line i f =
      Some (f', line', if i + length (upto_delim delim (drop (fp f) (fc f))) = 0 then -1 else int (i + length (upto_delim delim (drop (fp f) (fc f))))) \<and> sinv f' \<and> fc f' = fc f \<and>
    fp f' = fp f + length (upto_delim delim (drop (fp f) (fc f))) \<and> F_EOF f' = (\<not> ends delim (drop (fp f) (fc f))) \<and>
    (if i + length (upto_delim delim (drop (fp f) (fc f))) = 0 then True else take (i + length (upto_delim delim (drop (fp f) (fc f))) + 1) line' = take i line @ upto_delim delim (drop (fp f) (fc f)) @ [0])"
  using assms
proof (induction "length (drop (fp f) (fc f))" arbitrary: f line i rule: less_induct)
  case less
  note p = less.prems
  let ?rest = "drop (fp f) (fc f)"
  have "i + 3 < SSIZE_MAX" using p(6) by simp
  from getdelim_grow_ok [OF p(4) this p(5)] obtain l where l:
    "(if i + 2 \<ge> length line then getdelim_grow fresh line else Inr line) = Inr l" "i + 2 < length l" "take i l = take i line"
    by blast
  obtain g r where g: "fgetc_unlocked R f = Some (g, r)" "sinv g" "fc g = fc f" "st_flags g = st_flags f" "fcap g = fcap f"
    "(fp g, F_EOF g, r) = (if F_EOF f \<or> length (fc f) \<le> fp f then (fp f, True, -1)
      else (fp f + 1, F_EOF f, uint (fc f ! fp f)))"
    by (rule fgetc_ok [OF p(1,2)])
  have eq: "getdelim_loop R fresh delim line i f =
      (if r < 0 then
            if F_EOF g \<and> i \<noteq> 0 then do { line \<leftarrow> overwrite l i [0]; Some (g, line, int i) }
            else Some (g, l, -1)
          else do {
            line \<leftarrow> overwrite l i [word_of_int r];
            if r = delim then do { line \<leftarrow> overwrite line (i + 1) [0]; Some (g, line, int (i + 1)) }
            else getdelim_loop R fresh delim line (i + 1) g })"
    unfolding getdelim_loop.simps [of R fresh delim line i f] l(1) sum.case g(1) bind.bind_lunit prod.case ..
  have ow: "overwrite m j [c] = Some (m[j := c])" if "j < length m" for m :: "byte list" and j c
    using that by (simp add: overwrite_def upd_conv_take_nth_drop)
  show ?case
  proof (cases "length (fc f) \<le> fp f")
    case True
    then have e: "?rest = []" "fp g = fp f" "F_EOF g" "r = -1" using g(6) p(3) by simp_all
    show ?thesis
    proof (cases "i = 0")
      case True
      with eq e g(2,3) show ?thesis by simp
    next
      case False
      have "take (i + 1) (l[i := 0]) = take i line @ [0]" using l(2,3) by (simp add: take_Suc_conv_app_nth)
      then show ?thesis using False eq e g(2,3) l(2) ow [of i l] by simp
    qed
  next
    case False
    then have lt: "fp f < length (fc f)" by simp
    define c where "c = fc f ! fp f"
    have rest: "?rest = c # drop (fp g) (fc g)" and e: "fp g = fp f + 1" "\<not> F_EOF g" "r = uint c"
      using g(3,6) p(3) False drop_step [OF lt] by (simp_all add: c_def)
    have rn: "\<not> r < 0" by (simp add: e(3))
    have wc: "word_of_int r = c" by (simp add: e(3))
    have tl: "take (i + 1) (l[i := c]) = take i line @ [c]" using l(2,3) by (simp add: take_Suc_conv_app_nth)
    show ?thesis
    proof (cases "r = delim")
      case True
      have "getdelim_loop R fresh delim line i f = Some (g, l[i := c, i + 1 := 0], int (i + 1))"
        unfolding eq wc using rn True l(2) by (simp add: ow)
      moreover have "take (i + 1 + 1) (l[i := c, i + 1 := 0]) = take i line @ [c, 0]"
        using l(2) tl by (simp add: take_Suc_conv_app_nth)
      ultimately show ?thesis using rest True e g(2,3) by simp
    next
      case ne: False
      have step: "getdelim_loop R fresh delim line i f = getdelim_loop R fresh delim (l[i := c]) (i + 1) g"
        unfolding eq wc using rn ne l(2) by (simp add: ow)
      have lt': "length (drop (fp g) (fc g)) < length ?rest" unfolding rest by simp
      have m: "fmode g \<noteq> O_WRONLY" using p(2) g(4) by (simp add: st_flags_def)
      have fit: "i + 1 + length (drop (fp g) (fc g)) + 3 < SSIZE_MAX" using p(6) unfolding rest by simp
      have len: "i + 1 + 1 \<le> length (l[i := c])" using l(2) by simp
      from less.hyps [OF lt' g(2) m e(2) p(4) len fit] obtain f' line' where
        f': "getdelim_loop R fresh delim (l[i := c]) (i + 1) g =
          Some (f', line', int (i + 1 + length (upto_delim delim (drop (fp g) (fc g)))))" "sinv f'" "fc f' = fc g"
        "fp f' = fp g + length (upto_delim delim (drop (fp g) (fc g)))" "F_EOF f' = (\<not> ends delim (drop (fp g) (fc g)))"
        "take (i + 1 + length (upto_delim delim (drop (fp g) (fc g))) + 1) line' =
          take (i + 1) (l[i := c]) @ upto_delim delim (drop (fp g) (fc g)) @ [0]"
        by auto
      have "upto_delim delim ?rest = c # upto_delim delim (drop (fp g) (fc g))" "ends delim ?rest = ends delim (drop (fp g) (fc g))"
        unfolding rest using ne e(3) by simp_all
      then show ?thesis using step f' g(3) e(1) tl by (intro exI [of _ f'] exI [of _ line']) simp
    qed
  qed
qed

lemma freadahead_fpending:
  assumes "sinv f"
  shows "fp f + freadahead f = pos (dev f) + fpending f"
  using assms by (cases "F_WRITING f") (auto simp: inv_reading fpending_def freadahead_def st_pos_def)

end

subsection \<open>The device of \<open>fmemopen\<close>\<close>

text \<open>The hooks of a stream over a fixed buffer; such a stream has no descriptor.\<close>

definition fmem_raw :: "fmemstream raw" where
  "fmem_raw = \<lparr>sys_read = (\<lambda>_ _. None), sys_write = (\<lambda>_ _. None), sys_lseek = (\<lambda>_ _ _. None),
     hooks = \<lparr>op_read = Some (\<lambda>d n. do { (d, bs) \<leftarrow> fmem_read d n; Some (d, Inr bs) }),
              op_write = Some (\<lambda>d bs. do { (d, k) \<leftarrow> fmem_write d bs; Some (d, Inr k) }),
              op_seek = Some (\<lambda>d off wh. Some (fmem_seek d off wh))\<rparr>\<rparr>"

definition fmem_dev :: "fmemstream \<Rightarrow> bool" where
  "fmem_dev d \<longleftrightarrow> fm_inv d \<and> fm_readable d \<and> \<not> fm_append d \<and> fm_pos d \<le> fm_len d"

lemma fmem_write_flags:
  "fmem_write d bs = Some (d', k) \<Longrightarrow> fm_readable d' = fm_readable d \<and> fm_append d' = fm_append d \<and> fm_size d' = fm_size d"
  by (auto simp: fmem_write_def Let_def bind_eq_Some_conv split: if_splits option.splits)

lemma fmem_read_flags:
  "fmem_read d n = Some (d', bs) \<Longrightarrow> fm_readable d' = fm_readable d \<and> fm_append d' = fm_append d \<and> fm_size d' = fm_size d \<and>
    fm_len d' = fm_len d"
  by (auto simp: fmem_read_def Let_def split: if_splits)

lemma fmem_write_in:
  assumes "fmem_dev d" and "data \<noteq> []" and "fm_pos d + length data \<le> fm_size d"
  shows "\<exists>d'. fmem_write d data = Some (d', length data) \<and> fmem_dev d' \<and> fm_size d' = fm_size d \<and>
    fm_contents d' = file_write (fm_contents d) (fm_pos d) data \<and> fm_pos d' = fm_pos d + length data"
proof -
  have i: "fm_inv d" "fm_readable d" "\<not> fm_append d" "fm_pos d \<le> fm_len d" using assms(1) by (simp_all add: fmem_dev_def)
  have k: "min (fm_room d) (length data) = length data" "fm_start d = fm_pos d"
    using assms(3) i(3) by (simp_all add: fm_room_def fm_start_def)
  have n: "length data \<noteq> 0" using assms(2) by simp
  from fmem_write_spec [OF i(1), of data, unfolded k] i(2) n obtain d' where d':
    "fmem_write d data = Some (d', length data)" "fm_inv d'" "fm_pos d' = fm_pos d + length data"
    "length (fm_buf d') = length (fm_buf d)" "fm_len d' = max (fm_len d) (fm_pos d + length data)"
    "\<forall>i<fm_size d. fm_buf d' ! i =
       (if fm_len d < fm_pos d + length data \<and> i = fm_pos d + length data then 0
        else if fm_pos d \<le> i \<and> i < fm_pos d + length data then data ! (i - fm_pos d) else fm_buf d ! i)"
    by auto
  note fl = fmem_write_flags [OF d'(1)]
  have size: "fm_size d \<le> length (fm_buf d)" "fm_len d \<le> fm_size d" using i(1) by (simp_all add: fm_inv_def)
  have lc: "length (fm_contents d) = fm_len d" "length (fm_contents d') = fm_len d'"
    by (rule fm_contents_length [OF i(1)], rule fm_contents_length [OF d'(2)])
  have "fm_contents d' = file_write (fm_contents d) (fm_pos d) data"
  proof (rule nth_equalityI)
    show len: "length (fm_contents d') = length (file_write (fm_contents d) (fm_pos d) data)"
      using i(4) lc d'(5) by (simp add: file_write_length)
    fix j assume "j < length (fm_contents d')"
    then have j: "j < fm_len d'" "j < fm_size d" using lc d'(5) size assms(3) by auto
    then have "fm_contents d' ! j = fm_buf d' ! j" by (simp add: fm_contents_def)
    also have "\<dots> = (if fm_pos d \<le> j \<and> j < fm_pos d + length data then data ! (j - fm_pos d) else fm_buf d ! j)"
      using d'(5,6) j by auto
    also have "\<dots> = file_write (fm_contents d) (fm_pos d) data ! j"
      using i(4) j d'(5) size lc by (auto simp: file_write_in nth_append fm_contents_def min_def)
    finally show "fm_contents d' ! j = file_write (fm_contents d) (fm_pos d) data ! j" .
  qed
  with d' fl i show ?thesis by (auto simp: fmem_dev_def)
qed

interpretation fms: raw_file fmem_raw True fmem_dev fm_contents fm_pos fm_size
proof
  fix d n
  assume d: "fmem_dev d"
  then have i: "fm_inv d" by (simp add: fmem_dev_def)
  let ?bs = "take n (drop (fm_pos d) (fm_contents d))"
  from fmem_read_spec [OF i, of n] obtain d' where r: "fmem_read d n = Some (d', ?bs)" "fm_inv d'"
    "fm_contents d' = fm_contents d" "fm_pos d' = fm_pos d + length ?bs" by blast
  note fl = fmem_read_flags [OF r(1)]
  have "fm_pos d' \<le> fm_len d'"
    using d fl r(4) fm_contents_length [OF i] by (auto simp: fmem_dev_def)
  then have "fmem_dev d'" using d r(2) fl by (simp add: fmem_dev_def)
  then show "\<exists>h d' bs. raw_rd fmem_raw True = Some h \<and> h d n = Some (d', Inr bs) \<and> fmem_dev d' \<and>
      fm_contents d' = fm_contents d \<and> fm_size d' = fm_size d \<and> fm_pos d' = fm_pos d + length bs \<and>
      bs = take (length bs) (take n (drop (fm_pos d) (fm_contents d))) \<and>
      (bs = [] \<longrightarrow> n = 0 \<or> length (fm_contents d) \<le> fm_pos d)"
    using r fl by (intro exI [of _ "\<lambda>d n. do { (d, bs) \<leftarrow> fmem_read d n; Some (d, Inr bs) }"] exI [of _ d'] exI [of _ ?bs])
      (auto simp: raw_rd_def fmem_raw_def min_def)
next
  fix d and data :: "byte list"
  assume "fmem_dev d" and "data \<noteq> []" and "fm_pos d + length data \<le> fm_size d"
  from fmem_write_in [OF this] obtain d' where "fmem_write d data = Some (d', length data)" "fmem_dev d'"
    "fm_size d' = fm_size d" "fm_contents d' = file_write (fm_contents d) (fm_pos d) data"
    "fm_pos d' = fm_pos d + length data" by blast
  with \<open>data \<noteq> []\<close> show "\<exists>h d' k. raw_wr fmem_raw True = Some h \<and> h d data = Some (d', Inr k) \<and> fmem_dev d' \<and> 0 < k \<and>
      k \<le> length data \<and> fm_contents d' = file_write (fm_contents d) (fm_pos d) (take k data) \<and>
      fm_size d' = fm_size d \<and> fm_pos d' = fm_pos d + k"
    by (intro exI [of _ "\<lambda>d bs. do { (d, k) \<leftarrow> fmem_write d bs; Some (d, Inr k) }"] exI [of _ d'] exI [of _ "length data"])
      (simp add: raw_wr_def fmem_raw_def)
next
  fix d wh base off
  assume d: "fmem_dev d" and b: "seek_base (fm_pos d) (length (fm_contents d)) wh = Some base"
  then have i: "fm_inv d" "fm_pos d \<le> fm_len d" by (simp_all add: fmem_dev_def)
  have lc: "length (fm_contents d) = fm_len d" by (rule fm_contents_length [OF i(1)])
  have sz: "fm_len d \<le> fm_size d" "fm_size d \<le> SSIZE_MAX" using i(1) by (simp_all add: fm_inv_def)
  have base: "0 \<le> base" using b by (cases wh) (simp_all add: seek_base_def)
  {
    assume t: "0 \<le> base + off" "base + off \<le> int (length (fm_contents d))"
    have "off \<le> int SSIZE_MAX" using t base lc sz by linarith
    from fmem_seek_eq [OF i(1) this, of wh] b lc t sz have
      "fmem_seek d off wh = (d\<lparr>fm_pos := nat (base + off)\<rparr>, Inr (base + off))"
      by (simp add: seek_spec_def)
    moreover have "fmem_dev (d\<lparr>fm_pos := nat (base + off)\<rparr>)"
      using d t lc sz by (simp add: fmem_dev_def fm_inv_def nat_le_iff)
    ultimately show "\<exists>h d'. raw_sk fmem_raw True = Some h \<and> h d off wh = Some (d', Inr (base + off)) \<and> fmem_dev d' \<and>
        fm_contents d' = fm_contents d \<and> fm_size d' = fm_size d \<and> int (fm_pos d') = base + off"
      using t by (intro exI [of _ "\<lambda>d off wh. Some (fmem_seek d off wh)"] exI [of _ "d\<lparr>fm_pos := nat (base + off)\<rparr>"])
        (simp add: raw_sk_def fmem_raw_def fm_contents_def)
  next
    assume t: "base + off < 0"
    have "off \<le> int SSIZE_MAX" using t base by linarith
    from fmem_seek_eq [OF i(1) this, of wh] b lc t have "fmem_seek d off wh = (d, Inl EINVAL)"
      by (simp add: seek_spec_def)
    then show "\<exists>h e. raw_sk fmem_raw True = Some h \<and> h d off wh = Some (d, Inl e)"
      by (simp add: raw_sk_def fmem_raw_def)
  }
next
  fix d
  assume "fmem_dev d"
  then have i: "fm_inv d" "fm_pos d \<le> fm_len d" by (simp_all add: fmem_dev_def)
  show "fm_pos d \<le> length (fm_contents d)" using i fm_contents_length [OF i(1)] by simp
  show "length (fm_contents d) \<le> fm_size d" using i fm_contents_length [OF i(1)] by (simp add: fm_inv_def)
  show "fm_size d \<le> SSIZE_MAX" using i by (simp add: fm_inv_def)
qed

lemma fmemopen_dev:
  assumes "fmemopen buf sz (Some mode) True True True = Some (Inr d)" and "mode = str ''r+'' \<or> mode = str ''w+''"
    and "sz \<le> SSIZE_MAX" and "case buf of None \<Rightarrow> True | Some b \<Rightarrow> sz \<le> length b"
  shows "fmem_dev d" and "fm_pos d = 0" and "fm_size d = sz"
proof -
  note i = fmemopen_inv [OF assms(1,3,4)]
  show "fm_size d = sz" by (rule i(2))
  have "fm_readable d \<and> \<not> fm_append d \<and> fm_pos d = 0"
    using assms(1,2) by (auto simp: fmemopen_def Let_def str_def bind_eq_Some_conv split: if_splits option.splits)
  then show "fmem_dev d" "fm_pos d = 0" using i(1) by (simp_all add: fmem_dev_def)
qed

lemma string2mode_update:
  assumes "mode = str ''r+'' \<or> mode = str ''w+''"
  obtains m where "string2mode (Some mode) = Some m" and "m_access m = O_RDWR"
  using assms by (auto simp: string2mode_def str_def)

lemma fresh_stream_inv:
  assumes "fmem_dev d" and "0 < bufsiz" and "bufsiz \<le> SSIZE_MAX"
  shows "st_inv True fmem_dev fm_contents fm_pos fm_size (fresh_stream bufsiz m True d)"
  using assms by (simp add: st_inv_def fresh_stream_def)


definition sample_ops :: "stdio_op list" where
  "sample_ops = [Fread 1, Fwrite [7, 8], Fseek (-1) SEEK_CUR, Fgetc, Ftell, Fread 9, Fseek (-5) SEEK_SET, Fflush]"



definition sample_fm2 :: fmemstream where
  "sample_fm2 = \<lparr>fm_buf = [1, 10, 3], fm_size = 3, fm_len = 3, fm_pos = 0, fm_append = False, fm_readable = True,
     fm_owned = False\<rparr>"

definition sample_rw :: mode_flags where
  "sample_rw = \<lparr>m_access = O_RDWR, m_creat = False, m_trunc = False, m_append = False, m_excl = False, m_cloexec = False\<rparr>"


subsection \<open>Errors\<close>

text \<open>A device that answers its reads from a list.\<close>

definition script_raw :: "(errno + byte list) list raw" where
  "script_raw = \<lparr>
     sys_read = (\<lambda>d n. Some (case d of [] \<Rightarrow> ([], Inr []) | Inl e # d \<Rightarrow> (d, Inl e) | Inr bs # d \<Rightarrow> (d, Inr (take n bs)))),
     sys_write = (\<lambda>_ _. None), sys_lseek = (\<lambda>_ _ _. None),
     hooks = \<lparr>op_read = None, op_write = None, op_seek = None\<rparr>\<rparr>"

lemma script_read:
  "F_OPS f = False \<Longrightarrow> dev f = Inl e # d \<Longrightarrow> file_rawRead script_raw f n = Some (f\<lparr>dev := d, ferrno := Some e\<rparr>, -1, [])"
  "F_OPS f = False \<Longrightarrow> dev f = Inr bs # d \<Longrightarrow>
     file_rawRead script_raw f n = Some (f\<lparr>dev := d\<rparr>, int (length (take n bs)), take n bs)"
  by (simp_all add: file_rawRead_def raw_rd_def script_raw_def raw_result_def)


text \<open>
  The character C guarantees can be pushed back is refused on a stream nothing was read from yet:
  \<open>ungetc\<close> fails on every stream as \<open>fopen\<close> leaves it, for every character and buffer size.
\<close>

theorem ungetc_fails_before_first_read:
  "ungetc R c (fresh_stream bufsiz m ops d) = Some (fresh_stream bufsiz m ops d, -1)"
  by (simp add: ungetc_def start_reading_def fresh_stream_def)

text \<open>Elsewhere it is read back.\<close>

lemma ungetc_then_fgetc:
  assumes "buffer f = Some buf" and "length buf = bufsz f" and "\<not> F_WRITING f" and "0 < bufpos f" and "bufpos f \<le> bufeof f"
    and "bufeof f \<le> bufsz f" and "bufsz f \<le> SSIZE_MAX" and "fmode f \<noteq> O_WRONLY" and "0 \<le> c" and "c < 256"
  shows "\<exists>f' f''. ungetc R c f = Some (f', c) \<and> fgetc_unlocked R f' = Some (f'', c) \<and> bufpos f'' = bufpos f \<and>
    dev f'' = dev f"
proof -
  let ?buf = "take (bufpos f - 1) buf @ [word_of_int c] @ drop (bufpos f) buf"
  let ?f = "f\<lparr>buffer := Some ?buf, bufpos := bufpos f - 1, F_EOF := False\<rparr>"
  have lt: "bufpos f - 1 < length buf" using assms(2,4-6) by linarith
  have "overwrite buf (bufpos f - 1) [word_of_int c] = Some ?buf"
    using lt assms(4) by (simp add: overwrite_def)
  then have u: "ungetc R c f = Some (?f, c)"
    using assms(1,3,4,9) by (simp add: ungetc_def start_reading_def)
  have lb: "length ?buf = bufsz f" using lt assms(2,4) by simp
  have us: "usub (bufeof f) (bufpos f - 1) = bufeof f - (bufpos f - 1)" using assms(4-7) by (intro usub_id) simp_all
  have ub: "unbuffer_data ?f [0] 0 1 = Some (?f\<lparr>bufpos := bufpos f\<rparr>, [word_of_int c], 1)"
  proof -
    have "min (bufeof f - (bufpos f - 1)) 1 = 1" using assms(4,5) by arith
    moreover have "bufeof ?f = bufeof f" "bufpos ?f = bufpos f - 1" by simp_all
    ultimately have "min (usub (bufeof ?f) (bufpos ?f)) 1 = 1" by (simp only: us)
    moreover have "buffered ?f (bufpos ?f) 1 = Some [word_of_int c]"
      using lt lb assms(2,4-6) by (simp add: buffered_def)
    ultimately show ?thesis using assms(4) by (simp add: unbuffer_data_def Let_def overwrite_def)
  qed
  have ne: "bufpos ?f \<noteq> bufeof ?f" using assms(4,5) by simp
  have "bufsz f \<noteq> 0" using lt assms(2) by simp
  then have rb: "read_blocks R (?f\<lparr>bufpos := bufpos f\<rparr>) [word_of_int c] 1 0 =
      Some (?f\<lparr>bufpos := bufpos f\<rparr>, [word_of_int c], 1, False)" by (simp add: read_blocks_def)
  have sr: "start_reading R ?f = Some (?f, True)" using assms(3) by (simp add: start_reading_def)
  have "fread_unlocked R [0] 1 1 ?f = Some (?f\<lparr>bufpos := bufpos f\<rparr>, [word_of_int c], 1)"
    unfolding fread_unlocked_def Let_def sr bind.bind_lunit prod.case using ne assms(8) ub rb by simp
  moreover have "uint (word_of_int c :: byte) = c" using assms(9,10) by (simp add: uint_word_of_int)
  ultimately have "fgetc_unlocked R ?f = Some (?f\<lparr>bufpos := bufpos f\<rparr>, c)" by (simp add: fgetc_unlocked_def)
  with u show ?thesis by (intro exI [of _ ?f] exI [of _ "?f\<lparr>bufpos := bufpos f\<rparr>"]) simp
qed

end
