(* ===== verification/DList.thy ===== *)
theory DList
  imports CMem
begin

section \<open>Intrusive lists: sys/list.c, and the open streams of stdio/file.c\<close>

text \<open>
  A list is a ring of objects, each with a next pointer at the offset \<open>noff\<close> and a previous pointer at
  the offset \<open>poff\<close>; the head pointer is a variable of its own, passed and returned. Memory is the map
  of the pointer cells; reading or writing a cell that is not mapped has no outcome.
\<close>

subsection \<open>The code\<close>

type_synonym cells = "addr \<Rightarrow> addr option"

definition store :: "cells \<Rightarrow> addr \<Rightarrow> addr \<Rightarrow> cells option" where
  "store h a v = (if h a = None then None else Some (h(a \<mapsto> v)))"

definition lib_listAdd :: "addr \<Rightarrow> addr \<Rightarrow> nat \<Rightarrow> nat \<Rightarrow> cells \<Rightarrow> (addr \<times> cells) option" where
  "lib_listAdd list t noff poff h =
     (if t = NULL then Some (list, h)
      else if list = NULL then do {
        h \<leftarrow> store h (t + noff) t;
        h \<leftarrow> store h (t + poff) t;
        Some (t, h) }
      else do {
        final \<leftarrow> h (list + poff);
        h \<leftarrow> store h (t + poff) final;
        final \<leftarrow> h (list + poff);
        h \<leftarrow> store h (final + noff) t;
        h \<leftarrow> store h (t + noff) list;
        h \<leftarrow> store h (list + poff) t;
        Some (list, h) })"

definition lib_listRemove :: "addr \<Rightarrow> addr \<Rightarrow> nat \<Rightarrow> nat \<Rightarrow> cells \<Rightarrow> (addr \<times> cells) option" where
  "lib_listRemove list t noff poff h =
     (if t = NULL then Some (list, h)
      else do {
        nxt \<leftarrow> h (t + noff);
        prv \<leftarrow> h (t + poff);
        if nxt = NULL \<or> prv = NULL then Some (if list = t then NULL else list, h)
        else do {
          (list, h) \<leftarrow> (if nxt = t \<and> prv = t then Some (NULL, h)
            else do {
              p \<leftarrow> h (t + poff);
              n \<leftarrow> h (t + noff);
              h \<leftarrow> store h (p + noff) n;
              n \<leftarrow> h (t + noff);
              p \<leftarrow> h (t + poff);
              h \<leftarrow> store h (n + poff) p;
              if t = list then do { n \<leftarrow> h (t + noff); Some (n, h) } else Some (list, h) });
          h \<leftarrow> store h (t + noff) NULL;
          h \<leftarrow> store h (t + poff) NULL;
          Some (list, h) } })"

subsection \<open>Rings\<close>

text \<open>Neighbours in a list.\<close>

fun links :: "'a list \<Rightarrow> ('a \<times> 'a) list" where
  "links (a # b # xs) = (a, b) # links (b # xs)"
| "links _ = []"

lemma links_append: "links (xs @ y # ys) = links (xs @ [y]) @ links (y # ys)"
proof (induction xs)
  case Nil
  show ?case by simp
next
  case (Cons a xs)
  then show ?case by (cases xs) simp_all
qed

lemma links_last: "xs \<noteq> [] \<Longrightarrow> links (xs @ [y]) = links xs @ [(last xs, y)]"
  by (induction xs rule: links.induct) simp_all

lemma links_in: "(a, b) \<in> set (links xs) \<Longrightarrow> a \<in> set (butlast xs) \<and> b \<in> set (tl xs)"
  by (induction xs rule: links.induct) auto

text \<open>The pairs of neighbours of a ring do not depend on where it starts.\<close>

definition around :: "'a list \<Rightarrow> ('a \<times> 'a) list" where
  "around xs = (if xs = [] then [] else links (xs @ [hd xs]))"

lemma around_rotate: "set (around (xs @ ys)) = set (around (ys @ xs))"
proof (cases "xs = [] \<or> ys = []")
  case False
  then obtain a as b bs where xs: "xs = a # as" and ys: "ys = b # bs" by (auto simp: neq_Nil_conv)
  have "around (xs @ ys) = links (xs @ [b]) @ links (ys @ [a])"
    using links_append [of xs b "bs @ [a]"] by (simp add: around_def xs ys)
  moreover have "around (ys @ xs) = links (ys @ [a]) @ links (xs @ [b])"
    using links_append [of ys a "as @ [b]"] by (simp add: around_def xs ys)
  ultimately show ?thesis by auto
qed auto

lemma around_Cons: "xs \<noteq> [] \<Longrightarrow> set (around (t # xs)) = insert (t, hd xs) (insert (last xs, t) (set (links xs)))"
  by (cases xs) (auto simp: around_def links_last [of "_ # _", simplified])

lemma around_links: "xs \<noteq> [] \<Longrightarrow> set (around xs) = insert (last xs, hd xs) (set (links xs))"
  by (simp add: around_def links_last)

lemma around_single [simp]: "around [t] = [(t, t)]" and around_Nil [simp]: "around [] = []"
  by (simp_all add: around_def)

definition ring :: "nat \<Rightarrow> nat \<Rightarrow> cells \<Rightarrow> addr list \<Rightarrow> bool" where
  "ring noff poff h xs \<longleftrightarrow> (\<forall>(a, b) \<in> set (around xs). h (a + noff) = Some b \<and> h (b + poff) = Some a)"

text \<open>The two cells of different objects do not overlap.\<close>

definition apart :: "nat \<Rightarrow> nat \<Rightarrow> addr set \<Rightarrow> bool" where
  "apart noff poff A \<longleftrightarrow> (\<forall>a \<in> A. \<forall>b \<in> A. a + noff \<noteq> b + poff)"

definition dlist :: "nat \<Rightarrow> nat \<Rightarrow> cells \<Rightarrow> addr \<Rightarrow> addr list \<Rightarrow> bool" where
  "dlist noff poff h list xs \<longleftrightarrow> distinct xs \<and> NULL \<notin> set xs \<and> ring noff poff h xs \<and>
     list = (if xs = [] then NULL else hd xs)"

definition off_list :: "nat \<Rightarrow> nat \<Rightarrow> cells \<Rightarrow> addr \<Rightarrow> bool" where
  "off_list noff poff h t \<longleftrightarrow> h (t + noff) = Some NULL \<and> h (t + poff) = Some NULL"

definition node_cells :: "nat \<Rightarrow> nat \<Rightarrow> addr set \<Rightarrow> addr set" where
  "node_cells noff poff A = (\<lambda>a. a + noff) ` A \<union> (\<lambda>a. a + poff) ` A"

lemma ring_mapped:
  assumes "ring noff poff h xs" and "a \<in> set xs"
  shows "\<exists>b \<in> set xs. \<exists>c \<in> set xs. h (a + noff) = Some b \<and> h (a + poff) = Some c"
proof -
  obtain ps qs where xs: "xs = ps @ a # qs" using assms(2) by (auto simp: in_set_conv_decomp)
  have r: "set (around xs) = set (around (a # qs @ ps))" unfolding xs using around_rotate [of ps "a # qs"] by simp
  show ?thesis
  proof (cases "qs @ ps = []")
    case True
    then have "(a, a) \<in> set (around xs)" unfolding r by simp
    then show ?thesis using assms by (auto simp: ring_def)
  next
    case False
    have "(a, hd (qs @ ps)) \<in> set (around xs)" "(last (qs @ ps), a) \<in> set (around xs)"
      unfolding r around_Cons [OF False] by simp_all
    moreover have "hd (qs @ ps) \<in> set xs" "last (qs @ ps) \<in> set xs"
      using False hd_in_set [OF False] last_in_set [OF False] by (auto simp: xs)
    ultimately show ?thesis using assms(1) by (auto simp: ring_def)
  qed
qed

lemma listAdd_spec:
  assumes "dlist noff poff h list xs" and "t \<noteq> NULL" and "t \<notin> set xs" and "apart noff poff (insert t (set xs))"
    and "h (t + noff) \<noteq> None" and "h (t + poff) \<noteq> None"
  shows "\<exists>list' h'. lib_listAdd list t noff poff h = Some (list', h') \<and> dlist noff poff h' list' (xs @ [t]) \<and>
    (\<forall>a. a \<notin> node_cells noff poff (insert t (set xs)) \<longrightarrow> h' a = h a) \<and> dom h' = dom h"
proof (cases "xs = []")
  case True
  then have "list = NULL" using assms(1) by (simp add: dlist_def)
  moreover have "t + noff \<noteq> t + poff" using assms(4) by (simp add: apart_def)
  ultimately show ?thesis using assms(2,5,6) True
    by (auto simp: lib_listAdd_def store_def dlist_def ring_def node_cells_def)
next
  case False
  have d: "distinct xs" "NULL \<notin> set xs" "ring noff poff h xs" "list = hd xs"
    using assms(1) False by (simp_all add: dlist_def)
  have mem: "hd xs \<in> set xs" "last xs \<in> set xs" using False by simp_all
  have nn: "list \<noteq> NULL" using d(2,4) mem by metis
  have prev: "h (hd xs + poff) = Some (last xs)"
    using d(3) around_links [OF False] by (simp add: ring_def)
  have ap: "a + noff \<noteq> b + poff" if "a \<in> insert t (set xs)" "b \<in> insert t (set xs)" for a b
    using assms(4) that by (auto simp: apart_def)
  define h' where "h' = h(t + poff \<mapsto> last xs, last xs + noff \<mapsto> t, t + noff \<mapsto> hd xs, hd xs + poff \<mapsto> t)"
  have m: "h (last xs + noff) \<noteq> None" using ring_mapped [OF d(3) mem(2)] by auto
  have th: "t \<noteq> hd xs" "t \<noteq> last xs" using assms(3) mem by auto
  have run: "lib_listAdd list t noff poff h = Some (list, h')"
    using assms(2,5,6) nn m prev th by (auto simp: lib_listAdd_def store_def d(4) h'_def)
  have cells: "h' (a + noff) = Some b \<and> h' (b + poff) = Some a" if ab: "(a, b) \<in> set (links xs)" for a b
  proof -
    have "a \<in> set (butlast xs)" "b \<in> set (tl xs)" using links_in [OF ab] by simp_all
    moreover have "xs = butlast xs @ [last xs]" "xs = hd xs # tl xs" using False by simp_all
    ultimately have ne: "a \<noteq> last xs" "b \<noteq> hd xs" "a \<in> set xs" "b \<in> set xs"
      using d(1) by (metis distinct_append Int_iff empty_iff list.set_intros(1) disjoint_iff, metis distinct.simps(2),
          metis in_set_butlastD, metis list.set_intros(2))
    have "h (a + noff) = Some b \<and> h (b + poff) = Some a" using d(3) ab around_links [OF False] by (auto simp: ring_def)
    then show ?thesis using ne ap [of a t] ap [of a "hd xs"] ap [of t b] ap [of "last xs" b] mem assms(3) by (auto simp: h'_def)
  qed
  have "ring noff poff h' (xs @ [t])"
  proof -
    have "around (xs @ [t]) = links xs @ [(last xs, t), (t, hd xs)]"
      using False links_append [of xs t "[hd xs]"] by (simp add: around_def links_last)
    moreover have "h' (last xs + noff) = Some t \<and> h' (t + poff) = Some (last xs)"
      using th ap [of "last xs" t] ap [of "last xs" "hd xs"] ap [of t t] mem by (auto simp: h'_def)
    moreover have "h' (t + noff) = Some (hd xs) \<and> h' (hd xs + poff) = Some t"
      using ap [of t "hd xs"] mem by (auto simp: h'_def)
    ultimately show ?thesis using cells by (auto simp: ring_def)
  qed
  then have "dlist noff poff h' list (xs @ [t])"
    using d False assms(2,3) by (simp add: dlist_def)
  moreover have "h' a = h a" if "a \<notin> node_cells noff poff (insert t (set xs))" for a
    using that mem by (auto simp: h'_def node_cells_def)
  moreover have "dom h' = dom h" using assms(5,6) m prev by (auto simp: h'_def)
  ultimately show ?thesis using run by blast
qed

lemma listRemove_off:
  assumes "off_list noff poff h t" and "dlist noff poff h list xs" and "t \<notin> set xs"
  shows "lib_listRemove list t noff poff h = Some (list, h)"
proof (cases "t = NULL")
  case False
  have "list \<noteq> t" using assms(2,3) False by (auto simp: dlist_def)
  then show ?thesis using assms(1) False by (simp add: lib_listRemove_def off_list_def)
qed (simp add: lib_listRemove_def)

lemma listRemove_spec:
  assumes "dlist noff poff h list xs" and "t \<in> set xs" and "apart noff poff (set xs)"
  shows "\<exists>list' h'. lib_listRemove list t noff poff h = Some (list', h') \<and> dlist noff poff h' list' (remove1 t xs) \<and>
    off_list noff poff h' t \<and> (\<forall>a. a \<notin> node_cells noff poff (set xs) \<longrightarrow> h' a = h a) \<and> dom h' = dom h"
proof -
  have d: "distinct xs" "NULL \<notin> set xs" "ring noff poff h xs" "list = hd xs"
    using assms(1,2) by (auto simp: dlist_def)
  obtain ps qs where xs: "xs = ps @ t # qs" and ps: "t \<notin> set ps" using split_list_first [OF assms(2)] by blast
  have qs: "t \<notin> set qs" using d(1) by (simp add: xs)
  have rem: "remove1 t xs = ps @ qs" using ps by (simp add: xs remove1_append)
  have tN: "t \<noteq> NULL" using d(2) by (auto simp: xs)
  define ys where "ys = qs @ ps"
  have ys: "distinct ys" "t \<notin> set ys" "set xs = insert t (set ys)" using d(1) ps qs by (auto simp: ys_def xs)
  have r: "set (around xs) = set (around (t # ys))" unfolding xs ys_def using around_rotate [of ps "t # qs"] by simp
  have r': "set (around (ps @ qs)) = set (around ys)" unfolding ys_def by (rule around_rotate)
  have tt: "t + noff \<noteq> t + poff" using assms(3) ys(3) by (simp add: apart_def)
  show ?thesis
  proof (cases "ys = []")
    case True
    then have one: "ps = []" "qs = []" by (simp_all add: ys_def)
    have h: "h (t + noff) = Some t" "h (t + poff) = Some t"
      using d(3) r True by (simp_all add: ring_def)
    define h' where "h' = h(t + noff \<mapsto> NULL, t + poff \<mapsto> NULL)"
    have "lib_listRemove list t noff poff h = Some (NULL, h')"
      using tN h tt by (simp add: lib_listRemove_def store_def h'_def)
    moreover have "dlist noff poff h' NULL (remove1 t xs)" by (simp add: rem one dlist_def ring_def)
    moreover have "off_list noff poff h' t" using tt by (simp add: off_list_def h'_def)
    moreover have "\<forall>a. a \<notin> node_cells noff poff (set xs) \<longrightarrow> h' a = h a" using ys(3) by (auto simp: h'_def node_cells_def)
    moreover have "dom h' = dom h" using h by (auto simp: h'_def)
    ultimately show ?thesis by blast
  next
    case False
    let ?p = "last ys" and ?n = "hd ys"
    have mem: "?p \<in> set ys" "?n \<in> set ys" using False by simp_all
    have ne: "?p \<noteq> t" "?n \<noteq> t" using mem ys(2) by auto
    have nz: "?p \<noteq> NULL" "?n \<noteq> NULL" using mem d(2) ys(3) by auto
    have ap: "a + noff \<noteq> b + poff" if "a \<in> insert t (set ys)" "b \<in> insert t (set ys)" for a b
      using assms(3) that unfolding apart_def ys(3) by blast
    have pairs: "\<forall>(a, b) \<in> set (around (t # ys)). h (a + noff) = Some b \<and> h (b + poff) = Some a"
      using d(3) by (simp add: ring_def r)
    then have h: "h (t + noff) = Some ?n" "h (?n + poff) = Some t" "h (?p + noff) = Some t" "h (t + poff) = Some ?p"
      unfolding around_Cons [OF False] by simp_all
    define h1 where "h1 = h(?p + noff \<mapsto> ?n, ?n + poff \<mapsto> ?p)"
    define h' where "h' = h1(t + noff \<mapsto> NULL, t + poff \<mapsto> NULL)"
    define list' where "list' = (if t = list then ?n else list)"
    have h1: "h1 (t + noff) = Some ?n" "h1 (t + poff) = Some ?p"
      using h ne ap [of t ?n] ap [of ?p t] mem by (auto simp: h1_def)
    have c: "?p + noff \<noteq> t + poff" "?p + noff \<noteq> ?n + poff" "t + noff \<noteq> ?n + poff"
      using ap [of ?p t] ap [of ?p ?n] ap [of t ?n] mem by auto
    have "\<not> (?n = t \<and> ?p = t)" using ne by simp
    then have "lib_listRemove list t noff poff h = Some (list', h')"
      using tN h h1 nz ne c tt unfolding lib_listRemove_def store_def list'_def h'_def h1_def
      by (cases "list = t") simp_all
    moreover have "dlist noff poff h' list' (remove1 t xs)"
    proof -
      have "h' (a + noff) = Some b \<and> h' (b + poff) = Some a" if ab: "(a, b) \<in> set (links ys)" for a b
      proof -
        have "a \<in> set (butlast ys)" "b \<in> set (tl ys)" using links_in [OF ab] by simp_all
        moreover have "ys = butlast ys @ [?p]" "ys = ?n # tl ys" using False by simp_all
        ultimately have n: "a \<noteq> ?p" "b \<noteq> ?n" "a \<in> set ys" "b \<in> set ys"
          using ys(1) by (metis distinct_append Int_iff empty_iff list.set_intros(1) disjoint_iff, metis distinct.simps(2),
              metis in_set_butlastD, metis list.set_intros(2))
        have "a \<noteq> t" "b \<noteq> t" using n(3,4) ys(2) by auto
        moreover have "h (a + noff) = Some b \<and> h (b + poff) = Some a"
          using pairs ab unfolding around_Cons [OF False] by auto
        ultimately show ?thesis using n ap [of a t] ap [of a ?n] ap [of t b] ap [of ?p b] mem
          by (auto simp: h'_def h1_def)
      qed
      moreover have "h' (?p + noff) = Some ?n \<and> h' (?n + poff) = Some ?p"
        using ne c by (auto simp: h'_def h1_def)
      ultimately have "ring noff poff h' (remove1 t xs)"
        unfolding ring_def rem r' around_links [OF False] by auto
      moreover have "list' = (if remove1 t xs = [] then NULL else hd (remove1 t xs))"
      proof (cases ps)
        case Nil
        then show ?thesis using False d(4) by (simp add: list'_def rem xs ys_def)
      next
        case (Cons a as)
        then have "t \<noteq> list" using ps d(4) by (auto simp: xs)
        then show ?thesis using Cons d(4) by (simp add: list'_def rem xs)
      qed
      ultimately show ?thesis using d(1,2) by (simp add: dlist_def rem xs)
    qed
    moreover have "off_list noff poff h' t" using tt by (simp add: off_list_def h'_def)
    moreover have "\<forall>a. a \<notin> node_cells noff poff (set xs) \<longrightarrow> h' a = h a"
      using mem by (auto simp: h'_def h1_def node_cells_def ys(3))
    moreover have "dom h' = dom h" using h by (auto simp: h'_def h1_def)
    ultimately show ?thesis by blast
  qed
qed

subsection \<open>Any sequence of operations\<close>

datatype list_op = Add addr | Remove addr

fun clist_run :: "nat \<Rightarrow> nat \<Rightarrow> list_op list \<Rightarrow> addr \<times> cells \<Rightarrow> (addr \<times> cells) option" where
  "clist_run noff poff [] s = Some s"
| "clist_run noff poff (Add t # xs) (list, h) = do {
     s \<leftarrow> lib_listAdd list t noff poff h; clist_run noff poff xs s }"
| "clist_run noff poff (Remove t # xs) (list, h) = do {
     s \<leftarrow> lib_listRemove list t noff poff h; clist_run noff poff xs s }"

text \<open>The list they stand for; an object is added only while it is not on the list.\<close>

fun alist_run :: "list_op list \<Rightarrow> addr list \<Rightarrow> addr list option" where
  "alist_run [] ys = Some ys"
| "alist_run (Add t # xs) ys = (if t \<in> set ys then None else alist_run xs (ys @ [t]))"
| "alist_run (Remove t # xs) ys = alist_run xs (remove1 t ys)"

fun op_object :: "list_op \<Rightarrow> addr" where
  "op_object (Add t) = t"
| "op_object (Remove t) = t"

lemma node_cells_mono: "A \<subseteq> B \<Longrightarrow> node_cells noff poff A \<subseteq> node_cells noff poff B"
  by (auto simp: node_cells_def)

lemma off_list_frame:
  assumes "off_list noff poff h u" and "\<forall>a. a \<notin> node_cells noff poff A \<longrightarrow> h' a = h a" and "u \<notin> A"
    and "apart noff poff (insert u A)"
  shows "off_list noff poff h' u"
proof -
  have "u + noff \<notin> node_cells noff poff A" "u + poff \<notin> node_cells noff poff A"
    using assms(3,4) by (auto simp: node_cells_def apart_def)
  then show ?thesis using assms(1,2) by (simp add: off_list_def)
qed

lemma apart_mono: "apart noff poff B \<Longrightarrow> A \<subseteq> B \<Longrightarrow> apart noff poff A"
  by (auto simp: apart_def)

lemma clist_run_ok:
  assumes "dlist noff poff h list xs" and "apart noff poff A" and "NULL \<notin> A" and "set xs \<subseteq> A"
    and "\<forall>t \<in> A - set xs. off_list noff poff h t" and "list_all (\<lambda>x. op_object x \<in> A) ops" and "alist_run ops xs = Some ys"
  shows "\<exists>list' h'. clist_run noff poff ops (list, h) = Some (list', h') \<and> dlist noff poff h' list' ys \<and>
    (\<forall>t \<in> A - set ys. off_list noff poff h' t) \<and> (\<forall>a. a \<notin> node_cells noff poff A \<longrightarrow> h' a = h a)"
  using assms
proof (induction ops arbitrary: xs list h)
  case Nil
  then show ?case by auto
next
  case (Cons x ops)
  note p = Cons.prems
  show ?case
  proof (cases x)
    case (Add t)
    have t: "t \<notin> set xs" "t \<in> A" "alist_run ops (xs @ [t]) = Some ys" using p(6,7) Add by (auto split: if_splits)
    have ap: "apart noff poff (insert t (set xs))" using p(2,4) t(2) by (auto intro: apart_mono)
    have "off_list noff poff h t" using p(5) t by simp
    then have cells: "h (t + noff) \<noteq> None" "h (t + poff) \<noteq> None" by (simp_all add: off_list_def)
    have "t \<noteq> NULL" using t(2) p(3) by metis
    from listAdd_spec [OF p(1) this t(1) ap cells] obtain list1 h1 where 1:
      "lib_listAdd list t noff poff h = Some (list1, h1)" "dlist noff poff h1 list1 (xs @ [t])"
      "\<forall>a. a \<notin> node_cells noff poff (insert t (set xs)) \<longrightarrow> h1 a = h a" by blast
    have off: "off_list noff poff h1 u" if "u \<in> A - set (xs @ [t])" for u
      by (rule off_list_frame [OF _ 1(3)]) (use that p(2,4,5) t(2) in \<open>auto intro: apart_mono\<close>)
    have frame: "h1 a = h a" if "a \<notin> node_cells noff poff A" for a
    proof -
      have "a \<notin> node_cells noff poff (insert t (set xs))"
        using that node_cells_mono [of "insert t (set xs)" A noff poff] p(4) t(2) by blast
      then show ?thesis using 1(3) by blast
    qed
    have ops: "list_all (\<lambda>x. op_object x \<in> A) ops" using p(6) by simp
    have sub: "set (xs @ [t]) \<subseteq> A" using p(4) t(2) by simp
    from Cons.IH [OF 1(2) p(2,3) sub _ ops t(3)] off obtain list' h' where
      "clist_run noff poff ops (list1, h1) = Some (list', h')" "dlist noff poff h' list' ys"
      "\<forall>t \<in> A - set ys. off_list noff poff h' t" "\<forall>a. a \<notin> node_cells noff poff A \<longrightarrow> h' a = h1 a" by blast
    then show ?thesis using 1(1) frame Add by (intro exI [of _ list'] exI [of _ h']) simp
  next
    case (Remove t)
    have ops: "list_all (\<lambda>x. op_object x \<in> A) ops" "t \<in> A" "alist_run ops (remove1 t xs) = Some ys"
      using p(6,7) Remove by simp_all
    have sub: "set (remove1 t xs) \<subseteq> A" using p(4) set_remove1_subset [of t xs] by blast
    show ?thesis
    proof (cases "t \<in> set xs")
      case False
      have "off_list noff poff h t" using p(5) ops(2) False by simp
      then have 1: "lib_listRemove list t noff poff h = Some (list, h)" using p(1) False by (rule listRemove_off)
      have same: "remove1 t xs = xs" using False by (rule remove1_idem)
      from Cons.IH [OF p(1-5) ops(1)] ops(3) show ?thesis unfolding same Remove by (simp add: 1)
    next
      case True
      have ap: "apart noff poff (set xs)" using p(2,4) by (rule apart_mono)
      from listRemove_spec [OF p(1) True ap] obtain list1 h1 where 1:
        "lib_listRemove list t noff poff h = Some (list1, h1)" "dlist noff poff h1 list1 (remove1 t xs)"
        "off_list noff poff h1 t" "\<forall>a. a \<notin> node_cells noff poff (set xs) \<longrightarrow> h1 a = h a" by blast
      have dist: "distinct xs" using p(1) by (simp add: dlist_def)
      have off: "off_list noff poff h1 u" if u: "u \<in> A - set (remove1 t xs)" for u
      proof (cases "u = t")
        case True
        then show ?thesis using 1(3) by simp
      next
        case False
        then have "u \<notin> set xs" using u dist by simp
        moreover have "apart noff poff (insert u (set xs))" using p(2,4) u by (auto intro: apart_mono)
        ultimately show ?thesis using off_list_frame [OF _ 1(4)] p(5) u by simp
      qed
      have frame: "h1 a = h a" if "a \<notin> node_cells noff poff A" for a
        using that 1(4) node_cells_mono [OF p(4), of noff poff] by blast
      from Cons.IH [OF 1(2) p(2,3) sub _ ops(1,3)] off obtain list' h' where
        "clist_run noff poff ops (list1, h1) = Some (list', h')" "dlist noff poff h' list' ys"
        "\<forall>t \<in> A - set ys. off_list noff poff h' t" "\<forall>a. a \<notin> node_cells noff poff A \<longrightarrow> h' a = h1 a" by blast
      then show ?thesis using 1(1) frame Remove by (intro exI [of _ list'] exI [of _ h']) simp
    qed
  qed
qed

text \<open>
  C27. Whatever objects a program adds to a list and removes from it, in whatever order, removing also
  what is not there any more: the ring in memory holds, in order, what the list of the objects would
  be, each object off the list has NULL links, and no other cell of the memory changes. An object is
  only added while it is not on the list.
\<close>

theorem list_operations_refine:
  assumes "apart noff poff A" and "NULL \<notin> A" and "\<forall>t \<in> A. off_list noff poff h t"
    and "list_all (\<lambda>x. op_object x \<in> A) ops" and "alist_run ops [] = Some ys"
  shows "\<exists>list' h'. clist_run noff poff ops (NULL, h) = Some (list', h') \<and> dlist noff poff h' list' ys \<and>
    (\<forall>t \<in> A - set ys. off_list noff poff h' t) \<and> (\<forall>a. a \<notin> node_cells noff poff A \<longrightarrow> h' a = h a)"
  by (rule clist_run_ok [where xs = "[]"]) (use assms in \<open>simp_all add: dlist_def ring_def\<close>)

theorem list_operations_refine_witness:
  "\<exists>list' h'. clist_run 0 1 [Add 8, Add 16, Remove 8, Add 24, Remove 8] (NULL, (\<lambda>_. None)(8 \<mapsto> 0, 9 \<mapsto> 0, 16 \<mapsto> 0, 17 \<mapsto> 0,
      24 \<mapsto> 0, 25 \<mapsto> 0, 7 \<mapsto> 5)) = Some (list', h') \<and> dlist 0 1 h' list' [16, 24] \<and> off_list 0 1 h' 8 \<and> h' 7 = Some 5"
proof -
  let ?h = "(\<lambda>_. None)(8 \<mapsto> 0, 9 \<mapsto> 0, 16 \<mapsto> 0, 17 \<mapsto> 0, 24 \<mapsto> 0, 25 \<mapsto> 0, 7 \<mapsto> (5 :: addr)) :: cells"
  let ?ops = "[Add 8, Add 16, Remove 8, Add 24, Remove 8]"
  have "apart 0 1 {8, 16, 24}" "NULL \<notin> {8, 16, 24 :: addr}" "\<forall>t \<in> {8, 16, 24}. off_list 0 1 ?h t"
    "list_all (\<lambda>x. op_object x \<in> {8, 16, 24}) ?ops" "alist_run ?ops [] = Some [16, 24]"
    by (simp_all add: apart_def off_list_def)
  from list_operations_refine [OF this] show ?thesis by (auto simp: node_cells_def)
qed

subsection \<open>The open streams\<close>

text \<open>
  \<open>file_isOpen\<close> walks the list and compares addresses: the pointer it is asked about is never read
  through. \<open>noff\<close> and \<open>poff\<close> are the places of the links in a \<open>FILE\<close>.
\<close>

partial_function (option) isOpen_loop :: "nat \<Rightarrow> addr \<Rightarrow> cells \<Rightarrow> addr \<Rightarrow> addr \<Rightarrow> bool option" where
  "isOpen_loop noff list h strm it =
     (if it = strm then Some True
      else do {
        it \<leftarrow> h (it + noff);
        if it \<noteq> NULL \<and> it \<noteq> list then isOpen_loop noff list h strm it else Some False })"

definition file_isOpen :: "nat \<Rightarrow> addr \<Rightarrow> cells \<Rightarrow> addr \<Rightarrow> bool option" where
  "file_isOpen noff list h strm = (if list = NULL then Some False else isOpen_loop noff list h strm list)"

definition file_unlink :: "nat \<Rightarrow> nat \<Rightarrow> addr \<times> cells \<Rightarrow> addr \<Rightarrow> ((addr \<times> cells) \<times> int) option" where
  "file_unlink noff poff s strm = do {
     isopen \<leftarrow> file_isOpen noff (fst s) (snd s) strm;
     if \<not> isopen then Some (s, -1)
     else do { s \<leftarrow> lib_listRemove (fst s) strm noff poff (snd s); Some (s, 0) } }"

definition file_isStd :: "addr list \<Rightarrow> addr \<Rightarrow> bool" where
  "file_isStd std strm = (strm \<in> set std)"

text \<open>
  What closing does to a stream: it is flushed, its descriptor or hook closed, and its memory freed, or
  emptied where it is one of the three standard streams, \<open>std\<close>.
\<close>

datatype file_action = Flush addr | RawClose addr | Free addr | Empty addr

definition file_release :: "addr list \<Rightarrow> addr \<Rightarrow> file_action" where
  "file_release std strm = (if file_isStd std strm then Empty strm else Free strm)"

text \<open>
  \<open>fl\<close>, \<open>cl\<close>: what \<open>fflush\<close> and \<open>file_rawClose\<close> return for a stream. The result: the list, what is
  returned, \<open>errno\<close> where the function sets it, and what was done, in order.
\<close>

definition fclose ::
  "nat \<Rightarrow> nat \<Rightarrow> addr list \<Rightarrow> (addr \<Rightarrow> int) \<Rightarrow> (addr \<Rightarrow> int) \<Rightarrow> addr \<times> cells \<Rightarrow> addr \<Rightarrow>
   ((addr \<times> cells) \<times> int \<times> errno option \<times> file_action list) option" where
  "fclose noff poff std fl cl s stream =
     (if stream = NULL then Some (s, -1, Some EBADF, [])
      else do {
        (s, r) \<leftarrow> file_unlink noff poff s stream;
        if r < 0 then Some (s, -1, Some EBADF, [])
        else
          let err = fl stream; err = (if cl stream < 0 then -1 else err)
          in Some (s, err, None, [Flush stream, RawClose stream, file_release std stream]) })"

fun fclose_run ::
  "nat \<Rightarrow> nat \<Rightarrow> addr list \<Rightarrow> (addr \<Rightarrow> int) \<Rightarrow> (addr \<Rightarrow> int) \<Rightarrow> addr list \<Rightarrow> addr \<times> cells \<Rightarrow>
   ((addr \<times> cells) \<times> (int \<times> errno option) list \<times> file_action list) option" where
  "fclose_run noff poff std fl cl [] s = Some (s, [], [])"
| "fclose_run noff poff std fl cl (f # fs) s = do {
     (s, r, e, as) \<leftarrow> fclose noff poff std fl cl s f;
     (s, rs, bs) \<leftarrow> fclose_run noff poff std fl cl fs s;
     Some (s, (r, e) # rs, as @ bs) }"

lemma links_next:
  "xs = ps @ a # b # qs \<Longrightarrow> (a, b) \<in> set (links xs)"
  using links_append [of ps a "b # qs"] by simp

lemma isOpen_loop_ok:
  assumes "dlist noff poff h list xs" and "xs = ps @ it # qs"
  shows "isOpen_loop noff list h strm it = Some (strm \<in> set (it # qs))"
  using assms(2)
proof (induction qs arbitrary: ps it)
  case Nil
  have d: "ring noff poff h xs" "list = hd xs" "xs \<noteq> []" using assms(1) Nil by (simp_all add: dlist_def)
  have "h (it + noff) = Some list"
    using d around_links [OF d(3)] Nil by (auto simp: ring_def)
  then show ?case by (simp add: isOpen_loop.simps [of noff list h strm it])
next
  case (Cons b qs)
  have d: "distinct xs" "NULL \<notin> set xs" "ring noff poff h xs" "list = hd xs" "xs \<noteq> []"
    using assms(1) Cons.prems by (simp_all add: dlist_def)
  have "h (it + noff) = Some b"
    using d(3) around_links [OF d(5)] links_next [OF Cons.prems] by (auto simp: ring_def)
  moreover have "b \<noteq> NULL" using d(2) Cons.prems by auto
  moreover have "b \<noteq> list" using d(1,4) Cons.prems by (cases ps) auto
  moreover have "isOpen_loop noff list h strm b = Some (strm \<in> set (b # qs))"
    by (rule Cons.IH [of "ps @ [it]"]) (simp add: Cons.prems)
  ultimately show ?case by (auto simp: isOpen_loop.simps [of noff list h strm it])
qed

lemma file_isOpen_ok:
  assumes "dlist noff poff h list xs"
  shows "file_isOpen noff list h strm = Some (strm \<in> set xs)"
proof (cases xs)
  case Nil
  then show ?thesis using assms by (simp add: file_isOpen_def dlist_def)
next
  case (Cons a as)
  then have "list = a" "list \<noteq> NULL" using assms by (auto simp: dlist_def)
  with isOpen_loop_ok [OF assms, of "[]" a as strm] Cons show ?thesis by (simp add: file_isOpen_def)
qed

text \<open>The first of each of the closes that name an open stream.\<close>

fun first_closes :: "addr list \<Rightarrow> addr list \<Rightarrow> addr list" where
  "first_closes xs [] = []"
| "first_closes xs (f # fs) = (if f \<in> set xs then f # first_closes (remove1 f xs) fs else first_closes xs fs)"

definition close_actions :: "addr list \<Rightarrow> addr \<Rightarrow> file_action list" where
  "close_actions std f = [Flush f, RawClose f, if f \<in> set std then Empty f else Free f]"

lemma first_closes_distinct:
  "distinct xs \<Longrightarrow> distinct (first_closes xs fs) \<and> set (first_closes xs fs) = set xs \<inter> set fs"
  by (induction xs fs rule: first_closes.induct) auto

lemma fclose_run_ok:
  assumes "dlist noff poff h list xs" and "apart noff poff (set xs)"
  shows "\<exists>list' h' rs. fclose_run noff poff std fl cl fs (list, h) =
      Some ((list', h'), rs, concat (map (close_actions std) (first_closes xs fs))) \<and>
    dlist noff poff h' list' (fold remove1 fs xs) \<and> length rs = length fs"
  using assms
proof (induction fs arbitrary: list h xs)
  case Nil
  then show ?case by simp
next
  case (Cons f fs)
  have nn: "f \<in> set xs \<Longrightarrow> f \<noteq> NULL" using Cons.prems(1) unfolding dlist_def by metis
  note isop = file_isOpen_ok [OF Cons.prems(1), of f]
  show ?case
  proof (cases "f \<in> set xs")
    case False
    then have "fclose noff poff std fl cl (list, h) f = Some ((list, h), -1, Some EBADF, [])"
      using isop by (simp add: fclose_def file_unlink_def)
    moreover from Cons.IH [OF Cons.prems] obtain list' h' rs where
      "fclose_run noff poff std fl cl fs (list, h) = Some ((list', h'), rs, concat (map (close_actions std) (first_closes xs fs)))"
      "dlist noff poff h' list' (fold remove1 fs xs)" "length rs = length fs" by blast
    ultimately show ?thesis using False by (simp add: remove1_idem)
  next
    case True
    from listRemove_spec [OF Cons.prems(1) True Cons.prems(2)] obtain list1 h1 where 1:
      "lib_listRemove list f noff poff h = Some (list1, h1)" "dlist noff poff h1 list1 (remove1 f xs)" by blast
    have "apart noff poff (set (remove1 f xs))" by (rule apart_mono [OF Cons.prems(2) set_remove1_subset])
    from Cons.IH [OF 1(2) this] obtain list' h' rs where
      "fclose_run noff poff std fl cl fs (list1, h1) =
         Some ((list', h'), rs, concat (map (close_actions std) (first_closes (remove1 f xs) fs)))"
      "dlist noff poff h' list' (fold remove1 fs (remove1 f xs))" "length rs = length fs" by blast
    moreover have "fclose noff poff std fl cl (list, h) f =
        Some ((list1, h1), if cl f < 0 then -1 else fl f, None, close_actions std f)"
      using isop True nn 1(1) by (simp add: fclose_def file_unlink_def close_actions_def file_release_def file_isStd_def)
    ultimately show ?thesis using True by simp
  qed
qed

text \<open>
  C28. Closing is done once. For every sequence of \<open>fclose\<close> calls, on any pointers, open streams,
  closed ones or addresses that were never streams: each stream of the list that is closed at all is
  flushed, closed and released exactly once, in the order of the first calls, nothing is done to any
  other address, no freed memory is read, and the list then holds the rest.
\<close>

theorem fclose_once:
  assumes "dlist noff poff h list xs" and "apart noff poff (set xs)"
  shows "\<exists>s rs ys. fclose_run noff poff std fl cl fs (list, h) =
      Some (s, rs, concat (map (close_actions std) ys)) \<and> length rs = length fs \<and>
    distinct ys \<and> set ys = set xs \<inter> set fs \<and> dlist noff poff (snd s) (fst s) (fold remove1 fs xs)"
proof -
  from fclose_run_ok [OF assms, of std fl cl fs] obtain list' h' rs where
    "fclose_run noff poff std fl cl fs (list, h) =
      Some ((list', h'), rs, concat (map (close_actions std) (first_closes xs fs)))"
    "dlist noff poff h' list' (fold remove1 fs xs)" "length rs = length fs" by blast
  moreover have "distinct xs" using assms(1) by (simp add: dlist_def)
  ultimately show ?thesis using first_closes_distinct [of xs fs]
    by (intro exI [of _ "(list', h')"] exI [of _ rs] exI [of _ "first_closes xs fs"]) simp
qed

theorem fclose_once_witness:
  "\<exists>s rs ys. fclose_run 0 1 [8] (\<lambda>_. 0) (\<lambda>_. 0) [16, 16, 99] (8, (\<lambda>_. None)(8 \<mapsto> 16, 9 \<mapsto> 16, 16 \<mapsto> 8, 17 \<mapsto> 8)) =
      Some (s, rs, concat (map (close_actions [8]) ys)) \<and> length rs = 3 \<and> set ys = {16} \<and>
    dlist 0 1 (snd s) (fst s) [8]"
proof -
  let ?h = "(\<lambda>_. None)(8 \<mapsto> 16, 9 \<mapsto> 16, 16 \<mapsto> 8, 17 \<mapsto> (8 :: addr)) :: cells"
  have "dlist 0 1 ?h 8 [8, 16]" "apart 0 1 (set [8, 16])"
    by (simp_all add: dlist_def ring_def around_def apart_def)
  from fclose_once [OF this, of "[8]" "\<lambda>_. 0" "\<lambda>_. 0" "[16, 16, 99]"] show ?thesis
    by (simp add: numeral_3_eq_3) blast
qed

end
