(* ===== verification/RBTree.thy ===== *)
theory RBTree
  imports CMem
begin

section \<open>Intrusive red-black trees: sys/rb.c\<close>

text \<open>
  The nodes live in the caller's objects. Memory is the map from the addresses of the nodes to their
  contents, the rest of the objects (the keys the comparison reads, the data the augment callback
  maintains) is the component \<open>udata\<close> of the state. Reading or writing a node that is not mapped has no
  outcome. The augment callback may change the caller's data and not the links.
\<close>

subsection \<open>The data\<close>

datatype rbcolor_t = RB_RED | RB_BLACK

record rbnode_t =
  parent :: addr
  left :: addr
  right :: addr
  color :: rbcolor_t

type_synonym nodes = "addr \<Rightarrow> rbnode_t option"
type_synonym rbcomp_t = "addr \<Rightarrow> addr \<Rightarrow> int"
type_synonym 'u rbaugment_t = "nodes \<Rightarrow> addr \<Rightarrow> 'u \<Rightarrow> 'u option"

record 'u rbtree_t =
  root :: addr
  compare :: "'u \<Rightarrow> rbcomp_t"
  augment :: "'u rbaugment_t option"
  nodes :: nodes
  udata :: 'u

definition set_node :: "(rbnode_t \<Rightarrow> rbnode_t) \<Rightarrow> 'u rbtree_t \<Rightarrow> addr \<Rightarrow> 'u rbtree_t option" where
  "set_node f s p = (case nodes s p of None \<Rightarrow> None | Some n \<Rightarrow> Some (s\<lparr>nodes := (nodes s)(p \<mapsto> f n)\<rparr>))"

definition set_parent :: "'u rbtree_t \<Rightarrow> addr \<Rightarrow> addr \<Rightarrow> 'u rbtree_t option" where
  "set_parent s p v = set_node (\<lambda>n. n\<lparr>parent := v\<rparr>) s p"

definition set_left :: "'u rbtree_t \<Rightarrow> addr \<Rightarrow> addr \<Rightarrow> 'u rbtree_t option" where
  "set_left s p v = set_node (\<lambda>n. n\<lparr>left := v\<rparr>) s p"

definition set_right :: "'u rbtree_t \<Rightarrow> addr \<Rightarrow> addr \<Rightarrow> 'u rbtree_t option" where
  "set_right s p v = set_node (\<lambda>n. n\<lparr>right := v\<rparr>) s p"

definition set_color :: "'u rbtree_t \<Rightarrow> addr \<Rightarrow> rbcolor_t \<Rightarrow> 'u rbtree_t option" where
  "set_color s p v = set_node (\<lambda>n. n\<lparr>color := v\<rparr>) s p"

lemmas set_defs = set_parent_def set_left_def set_right_def set_color_def set_node_def

subsection \<open>The code\<close>

definition lib_rbInit :: "'u rbtree_t \<Rightarrow> ('u \<Rightarrow> rbcomp_t) \<Rightarrow> 'u rbaugment_t option \<Rightarrow> 'u rbtree_t" where
  "lib_rbInit s cmp aug = s\<lparr>root := NULL, compare := cmp, augment := aug\<rparr>"

definition rb_augment :: "'u rbtree_t \<Rightarrow> addr \<Rightarrow> 'u rbtree_t option" where
  "rb_augment s node =
     (if node = NULL then Some s
      else case augment s of
        None \<Rightarrow> Some s
      | Some f \<Rightarrow> map_option (\<lambda>u. s\<lparr>udata := u\<rparr>) (f (nodes s) node (udata s)))"

definition rb_rotateLeft :: "'u rbtree_t \<Rightarrow> addr \<Rightarrow> 'u rbtree_t option" where
  "rb_rotateLeft s x = do {
     nx \<leftarrow> nodes s x;
     let y = right nx;
     ny \<leftarrow> nodes s y;
     s \<leftarrow> set_right s x (left ny);
     ny \<leftarrow> nodes s y;
     s \<leftarrow> (if left ny \<noteq> NULL then set_parent s (left ny) x else Some s);
     nx \<leftarrow> nodes s x;
     s \<leftarrow> set_parent s y (parent nx);
     nx \<leftarrow> nodes s x;
     s \<leftarrow> (if parent nx = NULL then Some (s\<lparr>root := y\<rparr>)
       else do {
         np \<leftarrow> nodes s (parent nx);
         if x = left np then set_left s (parent nx) y else set_right s (parent nx) y });
     s \<leftarrow> set_left s y x;
     s \<leftarrow> set_parent s x y;
     ny \<leftarrow> nodes s y;
     s \<leftarrow> rb_augment s (left ny);
     ny \<leftarrow> nodes s y;
     rb_augment s (right ny) }"

definition rb_rotateRight :: "'u rbtree_t \<Rightarrow> addr \<Rightarrow> 'u rbtree_t option" where
  "rb_rotateRight s x = do {
     nx \<leftarrow> nodes s x;
     let y = left nx;
     ny \<leftarrow> nodes s y;
     s \<leftarrow> set_left s x (right ny);
     ny \<leftarrow> nodes s y;
     s \<leftarrow> (if right ny \<noteq> NULL then set_parent s (right ny) x else Some s);
     nx \<leftarrow> nodes s x;
     s \<leftarrow> set_parent s y (parent nx);
     nx \<leftarrow> nodes s x;
     s \<leftarrow> (if parent nx = NULL then Some (s\<lparr>root := y\<rparr>)
       else do {
         np \<leftarrow> nodes s (parent nx);
         if x = right np then set_right s (parent nx) y else set_left s (parent nx) y });
     s \<leftarrow> set_right s y x;
     s \<leftarrow> set_parent s x y;
     ny \<leftarrow> nodes s y;
     s \<leftarrow> rb_augment s (left ny);
     ny \<leftarrow> nodes s y;
     rb_augment s (right ny) }"

text \<open>The loop of \<open>lib_rbInsertBalance\<close>, then its last line.\<close>

partial_function (option) insert_loop :: "'u rbtree_t \<Rightarrow> addr \<Rightarrow> 'u rbtree_t option" where
  "insert_loop s z = do {
     nz \<leftarrow> nodes s z;
     if parent nz = NULL then Some s
     else do {
       np \<leftarrow> nodes s (parent nz);
       if color np \<noteq> RB_RED then Some s
       else do {
         ng \<leftarrow> nodes s (parent np);
         if parent nz = left ng then do {
           let y = right ng;
           red \<leftarrow> (if y = NULL then Some False else map_option (\<lambda>n. color n = RB_RED) (nodes s y));
           if red then do {
             s \<leftarrow> set_color s (parent nz) RB_BLACK;
             s \<leftarrow> set_color s y RB_BLACK;
             s \<leftarrow> set_color s (parent np) RB_RED;
             insert_loop s (parent np) }
           else if z = right np then do {
             s \<leftarrow> rb_rotateLeft s (parent nz);
             insert_loop s (parent nz) }
           else do {
             s \<leftarrow> set_color s (parent nz) RB_BLACK;
             s \<leftarrow> set_color s (parent np) RB_RED;
             s \<leftarrow> rb_rotateRight s (parent np);
             insert_loop s z } }
         else do {
           let y = left ng;
           red \<leftarrow> (if y = NULL then Some False else map_option (\<lambda>n. color n = RB_RED) (nodes s y));
           if red then do {
             s \<leftarrow> set_color s (parent nz) RB_BLACK;
             s \<leftarrow> set_color s y RB_BLACK;
             s \<leftarrow> set_color s (parent np) RB_RED;
             insert_loop s (parent np) }
           else if z = left np then do {
             s \<leftarrow> rb_rotateRight s (parent nz);
             insert_loop s (parent nz) }
           else do {
             s \<leftarrow> set_color s (parent nz) RB_BLACK;
             s \<leftarrow> set_color s (parent np) RB_RED;
             s \<leftarrow> rb_rotateLeft s (parent np);
             insert_loop s z } } } } }"

definition lib_rbInsertBalance :: "'u rbtree_t \<Rightarrow> addr \<Rightarrow> 'u rbtree_t option" where
  "lib_rbInsertBalance s node = do {
     s \<leftarrow> insert_loop s node;
     set_color s (root s) RB_BLACK }"

text \<open>The descent of \<open>lib_rbInsert\<close>: the node that equals \<open>z\<close>, or the last node passed and on which side.\<close>

partial_function (option) insert_descend ::
  "rbcomp_t \<Rightarrow> nodes \<Rightarrow> addr \<Rightarrow> addr \<Rightarrow> addr \<Rightarrow> int \<Rightarrow> (addr + addr \<times> int) option" where
  "insert_descend cmp h z y x c =
     (if x = NULL then Some (Inr (y, c))
      else if cmp x z = 0 then Some (Inl x)
      else do {
        nx \<leftarrow> h x;
        insert_descend cmp h z x (if cmp x z > 0 then left nx else right nx) (cmp x z) })"

definition lib_rbInsert :: "'u rbtree_t \<Rightarrow> addr \<Rightarrow> (addr \<times> 'u rbtree_t) option" where
  "lib_rbInsert s z = do {
     d \<leftarrow> insert_descend (compare s (udata s)) (nodes s) z NULL (root s) 0;
     case d of
       Inl y \<Rightarrow> Some (y, s)
     | Inr (y, c) \<Rightarrow> do {
         s \<leftarrow> set_parent s z y;
         s \<leftarrow> (if y = NULL then Some (s\<lparr>root := z\<rparr>)
           else if c > 0 then set_left s y z
           else set_right s y z);
         s \<leftarrow> set_left s z NULL;
         s \<leftarrow> set_right s z NULL;
         s \<leftarrow> set_color s z RB_RED;
         s \<leftarrow> rb_augment s z;
         s \<leftarrow> lib_rbInsertBalance s z;
         Some (NULL, s) } }"

partial_function (option) go_left :: "nodes \<Rightarrow> addr \<Rightarrow> addr option" where
  "go_left h x = do { n \<leftarrow> h x; if left n = NULL then Some x else go_left h (left n) }"

definition lib_rbMinimum :: "nodes \<Rightarrow> addr \<Rightarrow> addr option" where
  "lib_rbMinimum h node = (if node = NULL then Some NULL else go_left h node)"

partial_function (option) go_right :: "nodes \<Rightarrow> addr \<Rightarrow> addr option" where
  "go_right h x = do { n \<leftarrow> h x; if right n = NULL then Some x else go_right h (right n) }"

definition lib_rbMaximum :: "nodes \<Rightarrow> addr \<Rightarrow> addr option" where
  "lib_rbMaximum h node = (if node = NULL then Some NULL else go_right h node)"

text \<open>The climbs of \<open>lib_rbPrev\<close> and \<open>lib_rbNext\<close>, with the parent they return.\<close>

partial_function (option) climb_left :: "nodes \<Rightarrow> addr \<Rightarrow> addr option" where
  "climb_left h x = do {
     n \<leftarrow> h x;
     if parent n = NULL then Some NULL
     else do {
       np \<leftarrow> h (parent n);
       if x = left np then climb_left h (parent n) else Some (parent n) } }"

definition lib_rbPrev :: "nodes \<Rightarrow> addr \<Rightarrow> addr option" where
  "lib_rbPrev h x = do {
     n \<leftarrow> h x;
     if left n \<noteq> NULL then lib_rbMaximum h (left n) else climb_left h x }"

partial_function (option) climb_right :: "nodes \<Rightarrow> addr \<Rightarrow> addr option" where
  "climb_right h x = do {
     n \<leftarrow> h x;
     if parent n = NULL then Some NULL
     else do {
       np \<leftarrow> h (parent n);
       if x = right np then climb_right h (parent n) else Some (parent n) } }"

definition lib_rbNext :: "nodes \<Rightarrow> addr \<Rightarrow> addr option" where
  "lib_rbNext h x = do {
     n \<leftarrow> h x;
     if right n \<noteq> NULL then lib_rbMinimum h (right n) else climb_right h x }"

partial_function (option) lib_rbFindEx :: "nodes \<Rightarrow> addr \<Rightarrow> addr \<Rightarrow> rbcomp_t \<Rightarrow> addr option" where
  "lib_rbFindEx h it node cmp =
     (if it = NULL then Some NULL
      else if cmp it node = 0 then Some it
      else do {
        n \<leftarrow> h it;
        lib_rbFindEx h (if cmp it node > 0 then left n else right n) node cmp })"

definition lib_rbFind :: "'u rbtree_t \<Rightarrow> addr \<Rightarrow> addr option" where
  "lib_rbFind s node = lib_rbFindEx (nodes s) (root s) node (compare s (udata s))"

definition rb_transplant :: "'u rbtree_t \<Rightarrow> addr \<Rightarrow> addr \<Rightarrow> 'u rbtree_t option" where
  "rb_transplant s u v = do {
     nu \<leftarrow> nodes s u;
     s \<leftarrow> (if parent nu \<noteq> NULL then do {
         np \<leftarrow> nodes s (parent nu);
         s \<leftarrow> (if u = left np then set_left s (parent nu) v else set_right s (parent nu) v);
         nu \<leftarrow> nodes s u;
         rb_augment s (parent nu) }
       else Some (s\<lparr>root := v\<rparr>));
     s \<leftarrow> (if v \<noteq> NULL then do { nu \<leftarrow> nodes s u; set_parent s v (parent nu) } else Some s);
     rb_augment s v }"

text \<open>
  The loop of \<open>lib_rbRemoveBalance\<close>. The local variable \<open>nil\<close> stands for the missing node: its address is an
  argument, it is mapped while the call runs.
\<close>

definition black :: "nodes \<Rightarrow> addr \<Rightarrow> bool option" where
  "black h p = (if p = NULL then Some True else map_option (\<lambda>n. color n = RB_BLACK) (h p))"

partial_function (option) remove_loop :: "addr \<Rightarrow> 'u rbtree_t \<Rightarrow> addr \<Rightarrow> ('u rbtree_t \<times> addr) option" where
  "remove_loop nil s x =
     (if x = root s then Some (s, x)
      else do {
        nx \<leftarrow> nodes s x;
        if color nx \<noteq> RB_BLACK then Some (s, x)
        else do {
          np \<leftarrow> nodes s (parent nx);
          if x = left np \<or> (x = nil \<and> left np = NULL) then do {
            let w = (if right np = NULL then nil else right np);
            nw \<leftarrow> nodes s w;
            (s, w) \<leftarrow> (if color nw = RB_RED then do {
                s \<leftarrow> set_color s w RB_BLACK;
                s \<leftarrow> set_color s (parent nx) RB_RED;
                s \<leftarrow> rb_rotateLeft s (parent nx);
                nx \<leftarrow> nodes s x;
                np \<leftarrow> nodes s (parent nx);
                Some (s, right np) }
              else Some (s, w));
            nw \<leftarrow> nodes s w;
            lb \<leftarrow> black (nodes s) (left nw);
            rb \<leftarrow> black (nodes s) (right nw);
            if lb \<and> rb then do {
              s \<leftarrow> set_color s w RB_RED;
              nx \<leftarrow> nodes s x;
              remove_loop nil s (parent nx) }
            else if rb then do {
              s \<leftarrow> set_color s (left nw) RB_BLACK;
              s \<leftarrow> set_color s w RB_RED;
              s \<leftarrow> rb_rotateRight s w;
              nx \<leftarrow> nodes s x;
              np \<leftarrow> nodes s (parent nx);
              remove_loop nil s x }
            else do {
              nx \<leftarrow> nodes s x;
              np \<leftarrow> nodes s (parent nx);
              s \<leftarrow> set_color s w (color np);
              s \<leftarrow> set_color s (parent nx) RB_BLACK;
              s \<leftarrow> set_color s (right nw) RB_BLACK;
              s \<leftarrow> rb_rotateLeft s (parent nx);
              remove_loop nil s (root s) } }
          else do {
            let w = (if left np = NULL then nil else left np);
            nw \<leftarrow> nodes s w;
            (s, w) \<leftarrow> (if color nw = RB_RED then do {
                s \<leftarrow> set_color s w RB_BLACK;
                s \<leftarrow> set_color s (parent nx) RB_RED;
                s \<leftarrow> rb_rotateRight s (parent nx);
                nx \<leftarrow> nodes s x;
                np \<leftarrow> nodes s (parent nx);
                Some (s, left np) }
              else Some (s, w));
            nw \<leftarrow> nodes s w;
            rb \<leftarrow> black (nodes s) (right nw);
            lb \<leftarrow> black (nodes s) (left nw);
            if rb \<and> lb then do {
              s \<leftarrow> set_color s w RB_RED;
              nx \<leftarrow> nodes s x;
              remove_loop nil s (parent nx) }
            else if lb then do {
              s \<leftarrow> set_color s (right nw) RB_BLACK;
              s \<leftarrow> set_color s w RB_RED;
              s \<leftarrow> rb_rotateLeft s w;
              nx \<leftarrow> nodes s x;
              np \<leftarrow> nodes s (parent nx);
              remove_loop nil s x }
            else do {
              nx \<leftarrow> nodes s x;
              np \<leftarrow> nodes s (parent nx);
              s \<leftarrow> set_color s w (color np);
              s \<leftarrow> set_color s (parent nx) RB_BLACK;
              s \<leftarrow> set_color s (left nw) RB_BLACK;
              s \<leftarrow> rb_rotateRight s (parent nx);
              remove_loop nil s (root s) } } } })"

definition lib_rbRemoveBalance :: "addr \<Rightarrow> 'u rbtree_t \<Rightarrow> addr \<Rightarrow> addr \<Rightarrow> 'u rbtree_t option" where
  "lib_rbRemoveBalance nil s p node = do {
     let s = s\<lparr>nodes := (nodes s)(nil \<mapsto> \<lparr>parent = p, left = NULL, right = NULL, color = RB_BLACK\<rparr>)\<rparr>;
     let x = (if node = NULL then nil else node);
     s \<leftarrow> (if root s = NULL then Some s
       else do {
         (s, x) \<leftarrow> remove_loop nil s x;
         set_color s x RB_BLACK });
     Some (s\<lparr>nodes := (nodes s)(nil := None)\<rparr>) }"

text \<open>The unlinking of \<open>lib_rbRemove\<close>: the colour that is gone, and the place \<open>x\<close> with its parent \<open>p\<close>.\<close>

definition rb_unlink :: "'u rbtree_t \<Rightarrow> addr \<Rightarrow> ('u rbtree_t \<times> rbcolor_t \<times> addr \<times> addr) option" where
  "rb_unlink s z = do {
     nz \<leftarrow> nodes s z;
     if left nz = NULL then do {
       s \<leftarrow> rb_transplant s z (right nz);
       Some (s, color nz, parent nz, right nz) }
     else if right nz = NULL then do {
       s \<leftarrow> rb_transplant s z (left nz);
       Some (s, color nz, parent nz, left nz) }
     else do {
       y \<leftarrow> lib_rbMinimum (nodes s) (right nz);
       ny \<leftarrow> nodes s y;
       (s, p) \<leftarrow> (if parent ny = z then Some (s, y)
         else do {
           s \<leftarrow> rb_transplant s y (right ny);
           nz \<leftarrow> nodes s z;
           s \<leftarrow> set_right s y (right nz);
           s \<leftarrow> set_parent s (right nz) y;
           Some (s, parent ny) });
       s \<leftarrow> rb_transplant s z y;
       nz \<leftarrow> nodes s z;
       s \<leftarrow> set_left s y (left nz);
       s \<leftarrow> set_parent s (left nz) y;
       nz \<leftarrow> nodes s z;
       s \<leftarrow> set_color s y (color nz);
       ny' \<leftarrow> nodes s y;
       t \<leftarrow> lib_rbMaximum (nodes s) (left ny');
       s \<leftarrow> rb_augment s t;
       ny' \<leftarrow> nodes s y;
       t \<leftarrow> lib_rbMinimum (nodes s) (right ny');
       s \<leftarrow> rb_augment s t;
       Some (s, color ny, p, right ny) } }"

definition lib_rbRemove :: "addr \<Rightarrow> 'u rbtree_t \<Rightarrow> addr \<Rightarrow> 'u rbtree_t option" where
  "lib_rbRemove nil s z = do {
     (s, c, p, x) \<leftarrow> rb_unlink s z;
     if c = RB_BLACK then lib_rbRemoveBalance nil s p x else Some s }"

subsection \<open>The shape in memory\<close>

datatype ptree = Tip | Nd ptree addr rbcolor_t ptree

primrec ptr :: "ptree \<Rightarrow> addr" where
  "ptr Tip = NULL"
| "ptr (Nd l x c r) = x"

primrec inorder :: "ptree \<Rightarrow> addr list" where
  "inorder Tip = []"
| "inorder (Nd l x c r) = inorder l @ x # inorder r"

primrec col :: "ptree \<Rightarrow> rbcolor_t" where
  "col Tip = RB_BLACK"
| "col (Nd l x c r) = c"

text \<open>The nodes of a subtree whose root has the parent \<open>p\<close> are the contents of memory.\<close>

primrec rep :: "nodes \<Rightarrow> addr \<Rightarrow> ptree \<Rightarrow> bool" where
  "rep h p Tip \<longleftrightarrow> True"
| "rep h p (Nd l x c r) \<longleftrightarrow> x \<noteq> NULL \<and>
     h x = Some \<lparr>parent = p, left = ptr l, right = ptr r, color = c\<rparr> \<and> rep h x l \<and> rep h x r"

text \<open>The way from a subtree to the root: a frame is a node with the subtree on its other side.\<close>

datatype frame = LF addr rbcolor_t ptree | RF ptree addr rbcolor_t

primrec faddr :: "frame \<Rightarrow> addr" where
  "faddr (LF x c r) = x"
| "faddr (RF l x c) = x"

primrec fcol :: "frame \<Rightarrow> rbcolor_t" where
  "fcol (LF x c r) = c"
| "fcol (RF l x c) = c"

primrec plug1 :: "frame \<Rightarrow> ptree \<Rightarrow> ptree" where
  "plug1 (LF x c r) t = Nd t x c r"
| "plug1 (RF l x c) t = Nd l x c t"

primrec plug :: "frame list \<Rightarrow> ptree \<Rightarrow> ptree" where
  "plug [] t = t"
| "plug (f # fs) t = plug fs (plug1 f t)"

primrec cptr :: "frame list \<Rightarrow> addr" where
  "cptr [] = NULL"
| "cptr (f # fs) = faddr f"

primrec repc :: "nodes \<Rightarrow> frame list \<Rightarrow> addr \<Rightarrow> bool" where
  "repc h [] q \<longleftrightarrow> True"
| "repc h (f # fs) q \<longleftrightarrow> faddr f \<noteq> NULL \<and> repc h fs (faddr f) \<and>
     (case f of
        LF x c r \<Rightarrow> h x = Some \<lparr>parent = cptr fs, left = q, right = ptr r, color = c\<rparr> \<and> rep h x r
      | RF l x c \<Rightarrow> h x = Some \<lparr>parent = cptr fs, left = ptr l, right = q, color = c\<rparr> \<and> rep h x l)"

primrec before :: "frame list \<Rightarrow> addr list" where
  "before [] = []"
| "before (f # fs) = before fs @ (case f of LF x c r \<Rightarrow> [] | RF l x c \<Rightarrow> inorder l @ [x])"

primrec behind :: "frame list \<Rightarrow> addr list" where
  "behind [] = []"
| "behind (f # fs) = (case f of LF x c r \<Rightarrow> x # inorder r | RF l x c \<Rightarrow> []) @ behind fs"

lemma inorder_plug [simp]: "inorder (plug fs t) = before fs @ inorder t @ behind fs"
  by (induction fs arbitrary: t) (auto split: frame.splits)

lemma rep_plug: "rep h NULL (plug fs t) \<longleftrightarrow> rep h (cptr fs) t \<and> repc h fs (ptr t)"
proof (induction fs arbitrary: t)
  case (Cons f fs)
  then show ?case by (cases f) auto
qed simp

lemma rep_ptr: "rep h p t \<Longrightarrow> ptr t = NULL \<longleftrightarrow> t = Tip"
  by (cases t) auto

lemma ptr_in: "ptr t \<in> set (inorder t) \<or> ptr t = NULL"
  by (cases t) auto

lemma ptr_neq: "x \<notin> set (inorder t) \<Longrightarrow> x \<noteq> NULL \<Longrightarrow> ptr t \<noteq> x"
  using ptr_in [of t] by auto

lemma rep_upd [simp]: "a \<notin> set (inorder t) \<Longrightarrow> rep (h(a := v)) p t = rep h p t"
  by (induction t arbitrary: p) auto

lemma repc_upd [simp]: "a \<notin> set (before fs) \<Longrightarrow> a \<notin> set (behind fs) \<Longrightarrow> repc (h(a := v)) fs q = repc h fs q"
  by (induction fs arbitrary: q) (auto split: frame.splits)

lemma rep_mapped: "rep h p t \<Longrightarrow> a \<in> set (inorder t) \<Longrightarrow> a \<noteq> NULL \<and> h a \<noteq> None"
  by (induction t arbitrary: p) auto

lemma repc_addr: "repc h fs q \<Longrightarrow> fs \<noteq> [] \<Longrightarrow> cptr fs \<noteq> NULL"
  by (cases fs) auto

definition tree_at :: "'u rbtree_t \<Rightarrow> ptree \<Rightarrow> bool" where
  "tree_at s T \<longleftrightarrow> root s = ptr T \<and> rep (nodes s) NULL T \<and> distinct (inorder T)"

text \<open>Everything of the state that a change of links leaves alone.\<close>

definition same_but :: "addr set \<Rightarrow> 'u rbtree_t \<Rightarrow> 'u rbtree_t \<Rightarrow> bool" where
  "same_but A s s' \<longleftrightarrow> compare s' = compare s \<and> augment s' = augment s \<and> (\<forall>a. a \<notin> A \<longrightarrow> nodes s' a = nodes s a)"

lemma same_but_refl [simp]: "same_but A s s"
  by (simp add: same_but_def)

lemma same_but_trans: "same_but A s t \<Longrightarrow> same_but A t u \<Longrightarrow> same_but A s u"
  by (simp add: same_but_def)

primrec augs :: "'u rbtree_t \<Rightarrow> addr list \<Rightarrow> 'u rbtree_t option" where
  "augs s [] = Some s"
| "augs s (p # ps) = do { s \<leftarrow> rb_augment s p; augs s ps }"

lemma rb_augment_nodes: "rb_augment s p = Some s' \<Longrightarrow> nodes s' = nodes s \<and> root s' = root s \<and> compare s' = compare s \<and> augment s' = augment s"
  by (auto simp: rb_augment_def split: if_splits option.splits)

lemma augs_nodes: "augs s ps = Some s' \<Longrightarrow> nodes s' = nodes s \<and> root s' = root s \<and> compare s' = compare s \<and> augment s' = augment s"
proof (induction ps arbitrary: s)
  case (Cons p ps)
  then obtain t where "rb_augment s p = Some t" "augs t ps = Some s'" by (auto split: bind_splits)
  then show ?case using Cons.IH [of t] rb_augment_nodes [of s p t] by simp
qed simp

lemma rb_augment_bind:
  "nodes s y = Some n \<Longrightarrow> (rb_augment s p \<bind> (\<lambda>s. nodes s y \<bind> F s)) = (rb_augment s p \<bind> (\<lambda>s. F s n))"
  by (auto simp: rb_augment_def map_option_case split: option.splits)


lemma tree_at_plug:
  "tree_at s (plug fs t) \<longleftrightarrow> root s = ptr (plug fs t) \<and> rep (nodes s) (cptr fs) t \<and> repc (nodes s) fs (ptr t) \<and>
     distinct (before fs @ inorder t @ behind fs)"
  by (simp add: tree_at_def rep_plug)

lemma ptr_plug: "ptr t = ptr t' \<Longrightarrow> ptr (plug fs t) = ptr (plug fs t')"
proof (induction fs arbitrary: t t')
  case (Cons f fs)
  then show ?case by (cases f) auto
qed simp

lemma ptr_plug1 [simp]: "ptr (plug1 f t) = faddr f"
  by (cases f) auto

lemma ptr_plug_Cons: "ptr (plug (f # fs) t) = ptr (plug (f # fs) t')"
  using ptr_plug [of "plug1 f t" "plug1 f t'"] by simp

lemma rotateLeft:
  assumes "tree_at s (plug fs (Nd a x cx (Nd b y cy c)))"
  shows "\<exists>s'. rb_rotateLeft s x = augs s' [x, ptr c] \<and> tree_at s' (plug fs (Nd (Nd a x cx b) y cy c)) \<and>
     udata s' = udata s \<and> same_but (set (inorder (plug fs (Nd a x cx (Nd b y cy c))))) s s'"
proof -
  have T: "root s = ptr (plug fs (Nd a x cx (Nd b y cy c)))"
    "rep (nodes s) (cptr fs) (Nd a x cx (Nd b y cy c))" "repc (nodes s) fs x"
    "distinct (before fs @ inorder (Nd a x cx (Nd b y cy c)) @ behind fs)"
    using assms by (simp_all add: tree_at_plug)
  show ?thesis
  proof (cases fs)
    case Nil
    show ?thesis
      using T by (cases b) (auto simp: Nil rb_rotateLeft_def set_defs tree_at_def same_but_def rb_augment_bind fun_upd_twist)
  next
    case (Cons f gs)
    have r: "root s = ptr (plug (f # gs) (Nd (Nd a x cx b) y cy c))"
      using T(1) Cons ptr_plug_Cons [of f gs] by metis
    show ?thesis
    proof (cases f)
      case (LF g cg u)
      show ?thesis
        using T r by (cases b) (auto simp: Cons LF rb_rotateLeft_def set_defs tree_at_plug same_but_def rb_augment_bind
            fun_upd_twist)
    next
      case (RF u g cg)
      have "ptr u \<noteq> x" using T(4) T(2) by (intro ptr_neq) (auto simp: Cons RF)
      then show ?thesis
        using T r by (cases b) (auto simp: Cons RF rb_rotateLeft_def set_defs tree_at_plug same_but_def rb_augment_bind
            fun_upd_twist)
    qed
  qed
qed

lemma rotateRight:
  assumes "tree_at s (plug fs (Nd (Nd a y cy b) x cx c))"
  shows "\<exists>s'. rb_rotateRight s x = augs s' [ptr a, x] \<and> tree_at s' (plug fs (Nd a y cy (Nd b x cx c))) \<and>
     udata s' = udata s \<and> same_but (set (inorder (plug fs (Nd (Nd a y cy b) x cx c)))) s s'"
proof -
  have T: "root s = ptr (plug fs (Nd (Nd a y cy b) x cx c))"
    "rep (nodes s) (cptr fs) (Nd (Nd a y cy b) x cx c)" "repc (nodes s) fs x"
    "distinct (before fs @ inorder (Nd (Nd a y cy b) x cx c) @ behind fs)"
    using assms by (simp_all add: tree_at_plug)
  show ?thesis
  proof (cases fs)
    case Nil
    show ?thesis
      using T by (cases b) (auto simp: Nil rb_rotateRight_def set_defs tree_at_def same_but_def rb_augment_bind fun_upd_twist)
  next
    case (Cons f gs)
    have r: "root s = ptr (plug (f # gs) (Nd a y cy (Nd b x cx c)))"
      using T(1) Cons ptr_plug_Cons [of f gs] by metis
    show ?thesis
    proof (cases f)
      case (LF g cg u)
      have "ptr u \<noteq> x" using T(4) T(2) by (intro ptr_neq) (auto simp: Cons LF)
      then show ?thesis
        using T r by (cases b) (auto simp: Cons LF rb_rotateRight_def set_defs tree_at_plug same_but_def rb_augment_bind
            fun_upd_twist)
    next
      case (RF u g cg)
      show ?thesis
        using T r by (cases b) (auto simp: Cons RF rb_rotateRight_def set_defs tree_at_plug same_but_def rb_augment_bind
            fun_upd_twist)
    qed
  qed
qed


subsection \<open>The red-black invariants\<close>

primrec bh :: "ptree \<Rightarrow> nat" where
  "bh Tip = 0"
| "bh (Nd l x c r) = bh l + (if c = RB_BLACK then 1 else 0)"

primrec invh :: "ptree \<Rightarrow> bool" where
  "invh Tip \<longleftrightarrow> True"
| "invh (Nd l x c r) \<longleftrightarrow> bh l = bh r \<and> invh l \<and> invh r"

primrec invc :: "ptree \<Rightarrow> bool" where
  "invc Tip \<longleftrightarrow> True"
| "invc (Nd l x c r) \<longleftrightarrow> (c = RB_RED \<longrightarrow> col l = RB_BLACK \<and> col r = RB_BLACK) \<and> invc l \<and> invc r"

definition rbt :: "ptree \<Rightarrow> bool" where
  "rbt t \<longleftrightarrow> invc t \<and> invh t \<and> col t = RB_BLACK"

lemma not_red [simp]: "c \<noteq> RB_RED \<longleftrightarrow> c = RB_BLACK"
  by (cases c) auto

lemma not_black [simp]: "c \<noteq> RB_BLACK \<longleftrightarrow> c = RB_RED"
  by (cases c) auto

lemma invh_sub: "invh (plug fs t) \<Longrightarrow> invh t"
proof (induction fs arbitrary: t)
  case (Cons f fs)
  then have "invh (plug1 f t)" by simp
  then show ?case by (cases f) auto
qed simp

lemma invh_repl: "invh (plug fs t) \<Longrightarrow> invh t' \<Longrightarrow> bh t' = bh t \<Longrightarrow> invh (plug fs t')"
proof (induction fs arbitrary: t t')
  case (Cons f fs)
  have s: "invh (plug1 f t)" using Cons.prems(1) invh_sub by force
  have "bh (plug1 f t') = bh (plug1 f t)" using Cons.prems(3) s by (cases f) auto
  moreover have "invh (plug1 f t')" using s Cons.prems by (cases f) auto
  ultimately show ?case using Cons.IH [of "plug1 f t" "plug1 f t'"] Cons.prems(1) by simp
qed simp

lemma invc_sub: "invc (plug fs t) \<Longrightarrow> invc t"
proof (induction fs arbitrary: t)
  case (Cons f fs)
  then have "invc (plug1 f t)" by simp
  then show ?case by (cases f) auto
qed simp

lemma invc_repl: "invc (plug fs t) \<Longrightarrow> invc t' \<Longrightarrow> col t' = RB_BLACK \<or> col t' = col t \<Longrightarrow> invc (plug fs t')"
proof (induction fs arbitrary: t t')
  case (Cons f fs)
  have s: "invc (plug1 f t)" using Cons.prems(1) invc_sub by force
  have "invc (plug1 f t')" using s Cons.prems(2,3) by (cases f) auto
  moreover have "col (plug1 f t') = col (plug1 f t)" by (cases f) auto
  ultimately show ?case using Cons.IH [of "plug1 f t" "plug1 f t'"] Cons.prems(1) by simp
qed simp

lemma last_black: "fs \<noteq> [] \<Longrightarrow> fcol (last fs) = col (plug fs t)"
proof (induction fs arbitrary: t)
  case (Cons f fs)
  then show ?case by (cases fs; cases f) auto
qed simp

primrec uncolor :: "ptree \<Rightarrow> ptree" where
  "uncolor Tip = Tip"
| "uncolor (Nd l x c r) = Nd (uncolor l) x RB_RED (uncolor r)"

lemma uncolor_plug: "uncolor t = uncolor t' \<Longrightarrow> uncolor (plug fs t) = uncolor (plug fs t')"
proof (induction fs arbitrary: t t')
  case (Cons f fs)
  then show ?case by (cases f) auto
qed simp

definition bst :: "rbcomp_t \<Rightarrow> ptree \<Rightarrow> bool" where
  "bst cmp t \<longleftrightarrow> sorted_wrt (\<lambda>a b. cmp a b < 0) (inorder t)"

lemma set_color_at:
  assumes "tree_at s (plug fs (Nd l x c r))"
  shows "\<exists>s'. set_color s x k = Some s' \<and> tree_at s' (plug fs (Nd l x k r)) \<and> udata s' = udata s \<and>
    same_but (set (inorder (plug fs (Nd l x c r)))) s s'"
  using assms ptr_plug [of "Nd l x c r" "Nd l x k r" fs]
  by (auto simp: tree_at_plug set_defs same_but_def)


text \<open>The links \<open>lib_rbInsert\<close> writes once it knows the place.\<close>

lemma attach_links:
  assumes "tree_at s (plug fs Tip)" "z \<notin> set (inorder (plug fs Tip))" "z \<noteq> NULL" "nodes s z \<noteq> None"
    and "case fs of [] \<Rightarrow> True | LF x k r # _ \<Rightarrow> c > 0 | RF l x k # _ \<Rightarrow> \<not> c > 0"
  shows "\<exists>s'. tree_at s' (plug fs (Nd Tip z RB_RED Tip)) \<and> udata s' = udata s \<and>
    same_but (insert z (set (inorder (plug fs Tip)))) s s' \<and>
    do {
         s \<leftarrow> set_parent s z (cptr fs);
         s \<leftarrow> (if cptr fs = NULL then Some (s\<lparr>root := z\<rparr>)
           else if c > 0 then set_left s (cptr fs) z
           else set_right s (cptr fs) z);
         s \<leftarrow> set_left s z NULL;
         s \<leftarrow> set_right s z NULL;
         set_color s z RB_RED } = Some s'"
proof (cases fs)
  case Nil
  show ?thesis using assms by (auto simp: Nil set_defs tree_at_def same_but_def)
next
  case (Cons f gs)
  have r: "root s = ptr (plug gs (plug1 f (Nd Tip z RB_RED Tip)))"
    using assms(1) ptr_plug_Cons [of f gs Tip "Nd Tip z RB_RED Tip"] by (simp add: Cons tree_at_def)
  show ?thesis
  proof (cases f)
    case (LF g cg u)
    show ?thesis using assms r
      by (auto simp: Cons LF set_defs tree_at_plug same_but_def fun_upd_twist)
  next
    case (RF u g cg)
    show ?thesis using assms r
      by (auto simp: Cons RF set_defs tree_at_plug same_but_def fun_upd_twist)
  qed
qed

subsection \<open>The interface of the callbacks\<close>

text \<open>
  What the balancing relies on: \<open>J\<close> relates the caller's data to the shape of the tree, not to the colours, and
  each time the tree has changed its shape the calls of the callback that follow return and establish \<open>J\<close> again.
\<close>

locale rb_user =
  fixes cmp :: rbcomp_t and aug :: "'u rbaugment_t option" and J :: "ptree \<Rightarrow> 'u \<Rightarrow> bool"
  assumes recolor: "\<lbrakk>uncolor t = uncolor t'; J t u\<rbrakk> \<Longrightarrow> J t' u"
    and rotl: "\<lbrakk>tree_at s (plug fs (Nd (Nd a x cx b) y cy c)); augment s = aug;
        J (plug fs (Nd a x cx (Nd b y cy c))) (udata s)\<rbrakk>
      \<Longrightarrow> \<exists>s'. augs s [x, ptr c] = Some s' \<and> J (plug fs (Nd (Nd a x cx b) y cy c)) (udata s')"
    and rotr: "\<lbrakk>tree_at s (plug fs (Nd a y cy (Nd b x cx c))); augment s = aug;
        J (plug fs (Nd (Nd a y cy b) x cx c)) (udata s)\<rbrakk>
      \<Longrightarrow> \<exists>s'. augs s [ptr a, x] = Some s' \<and> J (plug fs (Nd a y cy (Nd b x cx c))) (udata s')"
    and attach: "\<lbrakk>tree_at s (plug fs (Nd Tip z RB_RED Tip)); augment s = aug; J (plug fs Tip) (udata s);
        bst cmp (plug fs (Nd Tip z RB_RED Tip))\<rbrakk>
      \<Longrightarrow> \<exists>s'. augs s [z] = Some s' \<and> J (plug fs (Nd Tip z RB_RED Tip)) (udata s')"
begin

definition own :: "'u rbtree_t \<Rightarrow> ptree \<Rightarrow> bool" where
  "own s T \<longleftrightarrow> tree_at s T \<and> augment s = aug \<and> J T (udata s)"

lemma own_tree: "own s T \<Longrightarrow> tree_at s T"
  by (simp add: own_def)

lemma own_color:
  assumes "own s (plug fs (Nd l x c r))"
  shows "\<exists>s'. set_color s x k = Some s' \<and> own s' (plug fs (Nd l x k r)) \<and>
    same_but (set (inorder (plug fs (Nd l x c r)))) s s'"
proof -
  obtain s' where s': "set_color s x k = Some s'" "tree_at s' (plug fs (Nd l x k r))" "udata s' = udata s"
    "same_but (set (inorder (plug fs (Nd l x c r)))) s s'"
    using set_color_at [of s fs l x c r k] assms by (auto simp: own_def)
  have "J (plug fs (Nd l x k r)) (udata s')"
    using recolor [OF uncolor_plug [of "Nd l x c r" "Nd l x k r" fs]] assms s'(3) by (simp add: own_def)
  then show ?thesis using s' assms by (auto simp: own_def same_but_def)
qed

lemma own_rotl:
  assumes "own s (plug fs (Nd a x cx (Nd b y cy c)))"
  shows "\<exists>s'. rb_rotateLeft s x = Some s' \<and> own s' (plug fs (Nd (Nd a x cx b) y cy c)) \<and>
    same_but (set (inorder (plug fs (Nd a x cx (Nd b y cy c))))) s s'"
proof -
  obtain t where t: "rb_rotateLeft s x = augs t [x, ptr c]" "tree_at t (plug fs (Nd (Nd a x cx b) y cy c))"
    "udata t = udata s" "same_but (set (inorder (plug fs (Nd a x cx (Nd b y cy c))))) s t"
    using rotateLeft [of s fs a x cx b y cy c] assms by (auto simp only: own_def)
  obtain s' where s': "augs t [x, ptr c] = Some s'" "J (plug fs (Nd (Nd a x cx b) y cy c)) (udata s')"
    using rotl [OF t(2)] assms t(3,4) by (auto simp: own_def same_but_def simp del: augs.simps)
  show ?thesis using augs_nodes [OF s'(1)] s' t assms by (auto simp: own_def same_but_def tree_at_def)
qed

lemma own_rotr:
  assumes "own s (plug fs (Nd (Nd a y cy b) x cx c))"
  shows "\<exists>s'. rb_rotateRight s x = Some s' \<and> own s' (plug fs (Nd a y cy (Nd b x cx c))) \<and>
    same_but (set (inorder (plug fs (Nd (Nd a y cy b) x cx c)))) s s'"
proof -
  obtain t where t: "rb_rotateRight s x = augs t [ptr a, x]" "tree_at t (plug fs (Nd a y cy (Nd b x cx c)))"
    "udata t = udata s" "same_but (set (inorder (plug fs (Nd (Nd a y cy b) x cx c)))) s t"
    using rotateRight [of s fs a y cy b x cx c] assms by (auto simp only: own_def)
  obtain s' where s': "augs t [ptr a, x] = Some s'" "J (plug fs (Nd a y cy (Nd b x cx c))) (udata s')"
    using rotr [OF t(2)] assms t(3,4) by (auto simp: own_def same_but_def simp del: augs.simps)
  show ?thesis using augs_nodes [OF s'(1)] s' t assms by (auto simp: own_def same_but_def tree_at_def)
qed


lemma own_node: "own s (plug fs (Nd l x c r)) \<Longrightarrow>
    x \<noteq> NULL \<and> nodes s x = Some \<lparr>parent = cptr fs, left = ptr l, right = ptr r, color = c\<rparr>"
  by (simp add: own_def tree_at_plug)

lemma own_distinct: "own s (plug fs t) \<Longrightarrow> distinct (before fs @ inorder t @ behind fs)"
  by (simp add: own_def tree_at_plug)

lemma own_rep: "own s (plug fs t) \<Longrightarrow> rep (nodes s) (cptr fs) t"
  by (simp add: own_def tree_at_plug)

lemma insert_loop_exit:
  assumes "own s (plug fs (Nd l z c r))" "fs = [] \<or> fcol (hd fs) = RB_BLACK"
  shows "insert_loop s z = Some s"
proof (cases fs)
  case Nil
  then show ?thesis using own_node [OF assms(1)] by (subst insert_loop.simps) simp
next
  case (Cons f gs)
  have "repc (nodes s) (f # gs) z" using assms(1) unfolding Cons own_def tree_at_plug by simp
  then show ?thesis using own_node [OF assms(1)] assms(2) Cons
    by (subst insert_loop.simps) (cases f; auto)
qed

lemma uncle_black:
  assumes "rep (nodes s) p u"
  shows "(if ptr u = NULL then Some False else map_option (\<lambda>n. color n = RB_RED) (nodes s (ptr u))) =
    Some (col u = RB_RED)"
  using assms by (cases u) auto

lemma loop_LL:
  assumes o: "own s (plug fs (Nd (Nd (Nd a z cz b) p RB_RED c) g cg u))" and u: "col u = RB_BLACK"
  shows "\<exists>s'. insert_loop s z = Some s' \<and> own s' (plug fs (Nd (Nd a z cz b) p RB_BLACK (Nd c g RB_RED u))) \<and>
    same_but (set (inorder (plug fs (Nd (Nd (Nd a z cz b) p RB_RED c) g cg u)))) s s'"
proof -
  have nz: "z \<noteq> NULL" "nodes s z = Some \<lparr>parent = p, left = ptr a, right = ptr b, color = cz\<rparr>"
    and np: "p \<noteq> NULL" "nodes s p = Some \<lparr>parent = g, left = z, right = ptr c, color = RB_RED\<rparr>"
    and ng: "g \<noteq> NULL" "nodes s g = Some \<lparr>parent = cptr fs, left = p, right = ptr u, color = cg\<rparr>"
    and ru: "rep (nodes s) g u"
    using own_rep [OF o] by simp_all
  have zc: "ptr c \<noteq> z" using own_distinct [OF o] nz by (intro ptr_neq) auto
  obtain s1 where s1: "set_color s p RB_BLACK = Some s1" "own s1 (plug fs (Nd (Nd (Nd a z cz b) p RB_BLACK c) g cg u))"
    "same_but (set (inorder (plug fs (Nd (Nd (Nd a z cz b) p RB_RED c) g cg u)))) s s1"
    using own_color [of s "LF g cg u # fs" "Nd a z cz b" p RB_RED c RB_BLACK] o by auto
  obtain s2 where s2: "set_color s1 g RB_RED = Some s2" "own s2 (plug fs (Nd (Nd (Nd a z cz b) p RB_BLACK c) g RB_RED u))"
    "same_but (set (inorder (plug fs (Nd (Nd (Nd a z cz b) p RB_BLACK c) g cg u)))) s1 s2"
    using own_color [OF s1(2)] by blast
  obtain s3 where s3: "rb_rotateRight s2 g = Some s3" "own s3 (plug fs (Nd (Nd a z cz b) p RB_BLACK (Nd c g RB_RED u)))"
    "same_but (set (inorder (plug fs (Nd (Nd (Nd a z cz b) p RB_BLACK c) g RB_RED u)))) s2 s3"
    using own_rotr [OF s2(2)] by blast
  have "insert_loop s3 z = Some s3"
    using insert_loop_exit [of s3 "LF p RB_BLACK (Nd c g RB_RED u) # fs" a z cz b] s3(2) by simp
  moreover have "insert_loop s z = insert_loop s3 z"
    using nz np ng zc uncle_black [OF ru] u s1(1) s2(1) s3(1) by (subst insert_loop.simps) simp
  ultimately show ?thesis using s1(3) s2(3) s3 by (auto simp: same_but_def)
qed


lemma loop_LR:
  assumes o: "own s (plug fs (Nd (Nd a p RB_RED (Nd b z RB_RED c)) g cg u))" and u: "col u = RB_BLACK"
  shows "\<exists>s'. insert_loop s z = Some s' \<and> own s' (plug fs (Nd (Nd a p RB_RED b) z RB_BLACK (Nd c g RB_RED u))) \<and>
    same_but (set (inorder (plug fs (Nd (Nd a p RB_RED (Nd b z RB_RED c)) g cg u)))) s s'"
proof -
  have nz: "z \<noteq> NULL" "nodes s z = Some \<lparr>parent = p, left = ptr b, right = ptr c, color = RB_RED\<rparr>"
    and np: "p \<noteq> NULL" "nodes s p = Some \<lparr>parent = g, left = ptr a, right = z, color = RB_RED\<rparr>"
    and ng: "g \<noteq> NULL" "nodes s g = Some \<lparr>parent = cptr fs, left = p, right = ptr u, color = cg\<rparr>"
    and ru: "rep (nodes s) g u"
    using own_rep [OF o] by simp_all
  obtain s1 where s1: "rb_rotateLeft s p = Some s1" "own s1 (plug fs (Nd (Nd (Nd a p RB_RED b) z RB_RED c) g cg u))"
    "same_but (set (inorder (plug fs (Nd (Nd a p RB_RED (Nd b z RB_RED c)) g cg u)))) s s1"
    using own_rotl [of s "LF g cg u # fs" a p RB_RED b z RB_RED c] o by auto
  obtain s2 where s2: "insert_loop s1 p = Some s2" "own s2 (plug fs (Nd (Nd a p RB_RED b) z RB_BLACK (Nd c g RB_RED u)))"
    "same_but (set (inorder (plug fs (Nd (Nd (Nd a p RB_RED b) z RB_RED c) g cg u)))) s1 s2"
    using loop_LL [of s1 fs a p RB_RED b z c g cg u] s1(2) u by auto
  have "insert_loop s z = insert_loop s1 p"
    using nz np ng uncle_black [OF ru] u s1(1) by (subst insert_loop.simps) simp
  then show ?thesis using s1(3) s2 by (auto simp: same_but_def)
qed


lemma loop_RR:
  assumes o: "own s (plug fs (Nd u g cg (Nd c p RB_RED (Nd a z cz b))))" and u: "col u = RB_BLACK"
  shows "\<exists>s'. insert_loop s z = Some s' \<and> own s' (plug fs (Nd (Nd u g RB_RED c) p RB_BLACK (Nd a z cz b))) \<and>
    same_but (set (inorder (plug fs (Nd u g cg (Nd c p RB_RED (Nd a z cz b)))))) s s'"
proof -
  have nz: "z \<noteq> NULL" "nodes s z = Some \<lparr>parent = p, left = ptr a, right = ptr b, color = cz\<rparr>"
    and np: "p \<noteq> NULL" "nodes s p = Some \<lparr>parent = g, left = ptr c, right = z, color = RB_RED\<rparr>"
    and ng: "g \<noteq> NULL" "nodes s g = Some \<lparr>parent = cptr fs, left = ptr u, right = p, color = cg\<rparr>"
    and ru: "rep (nodes s) g u"
    using own_rep [OF o] by simp_all
  have zc: "ptr c \<noteq> z" "ptr u \<noteq> p" using own_distinct [OF o] nz np by (intro ptr_neq; auto)+
  obtain s1 where s1: "set_color s p RB_BLACK = Some s1" "own s1 (plug fs (Nd u g cg (Nd c p RB_BLACK (Nd a z cz b))))"
    "same_but (set (inorder (plug fs (Nd u g cg (Nd c p RB_RED (Nd a z cz b)))))) s s1"
    using own_color [of s "RF u g cg # fs" c p RB_RED "Nd a z cz b" RB_BLACK] o by auto
  obtain s2 where s2: "set_color s1 g RB_RED = Some s2" "own s2 (plug fs (Nd u g RB_RED (Nd c p RB_BLACK (Nd a z cz b))))"
    "same_but (set (inorder (plug fs (Nd u g cg (Nd c p RB_BLACK (Nd a z cz b)))))) s1 s2"
    using own_color [OF s1(2)] by blast
  obtain s3 where s3: "rb_rotateLeft s2 g = Some s3" "own s3 (plug fs (Nd (Nd u g RB_RED c) p RB_BLACK (Nd a z cz b)))"
    "same_but (set (inorder (plug fs (Nd u g RB_RED (Nd c p RB_BLACK (Nd a z cz b)))))) s2 s3"
    using own_rotl [OF s2(2)] by blast
  have "insert_loop s3 z = Some s3"
    using insert_loop_exit [of s3 "RF (Nd u g RB_RED c) p RB_BLACK # fs" a z cz b] s3(2) by simp
  moreover have "insert_loop s z = insert_loop s3 z"
    using nz np ng zc uncle_black [OF ru] u s1(1) s2(1) s3(1) by (subst insert_loop.simps) simp
  ultimately show ?thesis using s1(3) s2(3) s3 by (auto simp: same_but_def)
qed

lemma loop_RL:
  assumes o: "own s (plug fs (Nd u g cg (Nd (Nd c z RB_RED b) p RB_RED a)))" and u: "col u = RB_BLACK"
  shows "\<exists>s'. insert_loop s z = Some s' \<and> own s' (plug fs (Nd (Nd u g RB_RED c) z RB_BLACK (Nd b p RB_RED a))) \<and>
    same_but (set (inorder (plug fs (Nd u g cg (Nd (Nd c z RB_RED b) p RB_RED a))))) s s'"
proof -
  have nz: "z \<noteq> NULL" "nodes s z = Some \<lparr>parent = p, left = ptr c, right = ptr b, color = RB_RED\<rparr>"
    and np: "p \<noteq> NULL" "nodes s p = Some \<lparr>parent = g, left = z, right = ptr a, color = RB_RED\<rparr>"
    and ng: "g \<noteq> NULL" "nodes s g = Some \<lparr>parent = cptr fs, left = ptr u, right = p, color = cg\<rparr>"
    and ru: "rep (nodes s) g u"
    using own_rep [OF o] by simp_all
  have zc: "ptr u \<noteq> p" using own_distinct [OF o] np by (intro ptr_neq; auto)+
  obtain s1 where s1: "rb_rotateRight s p = Some s1" "own s1 (plug fs (Nd u g cg (Nd c z RB_RED (Nd b p RB_RED a))))"
    "same_but (set (inorder (plug fs (Nd u g cg (Nd (Nd c z RB_RED b) p RB_RED a))))) s s1"
    using own_rotr [of s "RF u g cg # fs" c z RB_RED b p RB_RED a] o by auto
  obtain s2 where s2: "insert_loop s1 p = Some s2" "own s2 (plug fs (Nd (Nd u g RB_RED c) z RB_BLACK (Nd b p RB_RED a)))"
    "same_but (set (inorder (plug fs (Nd u g cg (Nd c z RB_RED (Nd b p RB_RED a)))))) s1 s2"
    using loop_RR [of s1 fs u g cg c z b p RB_RED a] s1(2) u by auto
  have "insert_loop s z = insert_loop s1 p"
    using nz np ng zc uncle_black [OF ru] u s1(1) by (subst insert_loop.simps) simp
  then show ?thesis using s1(3) s2 by (auto simp: same_but_def)
qed

lemma loop_recolor_L:
  assumes o: "own s (plug fs (Nd t g cg (Nd ul u RB_RED ur)))"
    and t: "t = Nd (Nd a z cz b) p RB_RED c \<or> t = Nd a p RB_RED (Nd b z cz c)"
    and t': "t' = (case t of Nd l p c r \<Rightarrow> Nd l p RB_BLACK r | Tip \<Rightarrow> Tip)"
  shows "\<exists>s'. insert_loop s z = insert_loop s' g \<and> own s' (plug fs (Nd t' g RB_RED (Nd ul u RB_BLACK ur))) \<and>
    same_but (set (inorder (plug fs (Nd t g cg (Nd ul u RB_RED ur))))) s s'"
proof -
  obtain l r where tp: "t = Nd l p RB_RED r" and tp': "t' = Nd l p RB_BLACK r" using t t' by auto
  have nz: "z \<noteq> NULL" "map_option parent (nodes s z) = Some p"
    and np: "p \<noteq> NULL" "nodes s p = Some \<lparr>parent = g, left = ptr l, right = ptr r, color = RB_RED\<rparr>"
    and ng: "g \<noteq> NULL" "nodes s g = Some \<lparr>parent = cptr fs, left = p, right = u, color = cg\<rparr>"
    and nu: "u \<noteq> NULL" "nodes s u = Some \<lparr>parent = g, left = ptr ul, right = ptr ur, color = RB_RED\<rparr>"
    using own_rep [OF o] t by (auto simp: tp)
  obtain s1 where s1: "set_color s p RB_BLACK = Some s1" "own s1 (plug fs (Nd t' g cg (Nd ul u RB_RED ur)))"
    "same_but (set (inorder (plug fs (Nd t g cg (Nd ul u RB_RED ur))))) s s1"
    using own_color [of s "LF g cg (Nd ul u RB_RED ur) # fs" l p RB_RED r RB_BLACK] o tp tp' by auto
  obtain s2 where s2: "set_color s1 u RB_BLACK = Some s2" "own s2 (plug fs (Nd t' g cg (Nd ul u RB_BLACK ur)))"
    "same_but (set (inorder (plug fs (Nd t' g cg (Nd ul u RB_RED ur))))) s1 s2"
    using own_color [of s1 "RF t' g cg # fs" ul u RB_RED ur RB_BLACK] s1(2) by auto
  obtain s3 where s3: "set_color s2 g RB_RED = Some s3" "own s3 (plug fs (Nd t' g RB_RED (Nd ul u RB_BLACK ur)))"
    "same_but (set (inorder (plug fs (Nd t' g cg (Nd ul u RB_BLACK ur))))) s2 s3"
    using own_color [OF s2(2)] by blast
  have "insert_loop s z = insert_loop s3 g"
    using nz np ng nu s1(1) s2(1) s3(1) by (subst insert_loop.simps) auto
  then show ?thesis using s1(3) s2(3) s3 tp tp' by (auto simp: same_but_def)
qed

lemma loop_recolor_R:
  assumes o: "own s (plug fs (Nd (Nd ul u RB_RED ur) g cg t))"
    and t: "t = Nd (Nd a z cz b) p RB_RED c \<or> t = Nd a p RB_RED (Nd b z cz c)"
    and t': "t' = (case t of Nd l p c r \<Rightarrow> Nd l p RB_BLACK r | Tip \<Rightarrow> Tip)"
  shows "\<exists>s'. insert_loop s z = insert_loop s' g \<and> own s' (plug fs (Nd (Nd ul u RB_BLACK ur) g RB_RED t')) \<and>
    same_but (set (inorder (plug fs (Nd (Nd ul u RB_RED ur) g cg t)))) s s'"
proof -
  obtain l r where tp: "t = Nd l p RB_RED r" and tp': "t' = Nd l p RB_BLACK r" using t t' by auto
  have nz: "z \<noteq> NULL" "map_option parent (nodes s z) = Some p"
    and np: "p \<noteq> NULL" "nodes s p = Some \<lparr>parent = g, left = ptr l, right = ptr r, color = RB_RED\<rparr>"
    and ng: "g \<noteq> NULL" "nodes s g = Some \<lparr>parent = cptr fs, left = u, right = p, color = cg\<rparr>"
    and nu: "u \<noteq> NULL" "nodes s u = Some \<lparr>parent = g, left = ptr ul, right = ptr ur, color = RB_RED\<rparr>"
    using own_rep [OF o] t by (auto simp: tp)
  have up: "p \<noteq> u" using own_distinct [OF o] by (auto simp: tp)
  obtain s1 where s1: "set_color s p RB_BLACK = Some s1" "own s1 (plug fs (Nd (Nd ul u RB_RED ur) g cg t'))"
    "same_but (set (inorder (plug fs (Nd (Nd ul u RB_RED ur) g cg t)))) s s1"
    using own_color [of s "RF (Nd ul u RB_RED ur) g cg # fs" l p RB_RED r RB_BLACK] o tp tp' by auto
  obtain s2 where s2: "set_color s1 u RB_BLACK = Some s2" "own s2 (plug fs (Nd (Nd ul u RB_BLACK ur) g cg t'))"
    "same_but (set (inorder (plug fs (Nd (Nd ul u RB_RED ur) g cg t')))) s1 s2"
    using own_color [of s1 "LF g cg t' # fs" ul u RB_RED ur RB_BLACK] s1(2) by auto
  obtain s3 where s3: "set_color s2 g RB_RED = Some s3" "own s3 (plug fs (Nd (Nd ul u RB_BLACK ur) g RB_RED t'))"
    "same_but (set (inorder (plug fs (Nd (Nd ul u RB_BLACK ur) g cg t')))) s2 s3"
    using own_color [OF s2(2)] by blast
  have "insert_loop s z = insert_loop s3 g"
    using nz np ng nu up s1(1) s2(1) s3(1) by (subst insert_loop.simps) auto
  then show ?thesis using s1(3) s2(3) s3 tp tp' by (auto simp: same_but_def)
qed


text \<open>One round at a red parent: either the grandparent is the new node, or the loop is over.\<close>

lemma insert_loop_round:
  assumes o: "own s (plug (f # g # fs) t)" and t: "t \<noteq> Tip" "col t = RB_RED" and f: "fcol f = RB_RED"
    and i: "invc (plug (f # g # fs) Tip)" "invc t" "invh (plug (f # g # fs) t)"
  shows "\<exists>s' t'. own s' (plug fs t') \<and> same_but (set (inorder (plug (f # g # fs) t))) s s' \<and>
     inorder t' = inorder (plug1 g (plug1 f t)) \<and> invc t' \<and> invh t' \<and> bh t' = bh (plug1 g (plug1 f t)) \<and> t' \<noteq> Tip \<and>
     ((col t' = RB_RED \<and> insert_loop s (ptr t) = insert_loop s' (ptr t')) \<or>
      (col t' = RB_BLACK \<and> insert_loop s (ptr t) = Some s'))"
proof -
  obtain a z b where tz: "t = Nd a z RB_RED b" using t by (cases t) auto
  have c: "invc (plug1 g (plug1 f Tip))" using i(1) invc_sub by force
  have h: "invh (plug1 g (plug1 f t))" using i(3) invh_sub by force
  show ?thesis
  proof (cases g)
    case (LF y cg u)
    note G = LF
    have cg: "cg = RB_BLACK" using c f by (cases f) (auto simp: G intro: rbcolor_t.exhaust)
    show ?thesis
    proof (cases "col u = RB_RED")
      case True
      then obtain ul uu ur where u: "u = Nd ul uu RB_RED ur" by (cases u) auto
      let ?t' = "case plug1 f t of Nd l p c r \<Rightarrow> Nd l p RB_BLACK r | Tip \<Rightarrow> Tip"
      have "\<exists>s'. insert_loop s z = insert_loop s' y \<and> own s' (plug fs (Nd ?t' y RB_RED (Nd ul uu RB_BLACK ur))) \<and>
        same_but (set (inorder (plug (f # g # fs) t))) s s'"
      proof (cases f)
        case (LF p cp d)
        show ?thesis
          using loop_recolor_L [of s fs "Nd (Nd a z RB_RED b) p RB_RED d" y cg ul uu ur a z RB_RED b p d, OF _ _ refl] o f
          by (auto simp: G LF tz u)
      next
        case (RF d p cp)
        show ?thesis
          using loop_recolor_L [of s fs "Nd d p RB_RED (Nd a z RB_RED b)" y cg ul uu ur d z RB_RED a p b, OF _ _ refl] o f
          by (auto simp: G RF tz u)
      qed
      then obtain s' where "insert_loop s z = insert_loop s' y" "own s' (plug fs (Nd ?t' y RB_RED (Nd ul uu RB_BLACK ur)))"
        "same_but (set (inorder (plug (f # g # fs) t))) s s'" by blast
      moreover have "inorder (Nd ?t' y RB_RED (Nd ul uu RB_BLACK ur)) = inorder (plug1 g (plug1 f t))"
        "invc (Nd ?t' y RB_RED (Nd ul uu RB_BLACK ur))" "invh (Nd ?t' y RB_RED (Nd ul uu RB_BLACK ur))"
        "bh (Nd ?t' y RB_RED (Nd ul uu RB_BLACK ur)) = bh (plug1 g (plug1 f t))"
        using c h i(2) f cg by (cases f; auto simp: G u tz)+
      ultimately show ?thesis by (intro exI [of _ s'] exI [of _ "Nd ?t' y RB_RED (Nd ul uu RB_BLACK ur)"]) (auto simp: tz)
    next
      case False
      then have ub: "col u = RB_BLACK" by simp
      show ?thesis
      proof (cases f)
        case (LF p cp d)
        obtain s' where "insert_loop s z = Some s'" "own s' (plug fs (Nd t p RB_BLACK (Nd d y RB_RED u)))"
          "same_but (set (inorder (plug (f # g # fs) t))) s s'"
          using loop_LL [of s fs a z RB_RED b p d y cg u] ub o f by (auto simp: G LF tz)
        then show ?thesis using c h i(2) f cg ub
          by (intro exI [of _ s'] exI [of _ "Nd t p RB_BLACK (Nd d y RB_RED u)"]) (auto simp: G LF tz)
      next
        case (RF d p cp)
        obtain s' where "insert_loop s z = Some s'" "own s' (plug fs (Nd (Nd d p RB_RED a) z RB_BLACK (Nd b y RB_RED u)))"
          "same_but (set (inorder (plug (f # g # fs) t))) s s'"
          using loop_LR [of s fs d p a z b y cg u] ub o f by (auto simp: G RF tz)
        then show ?thesis using c h i(2) f cg ub
          by (intro exI [of _ s'] exI [of _ "Nd (Nd d p RB_RED a) z RB_BLACK (Nd b y RB_RED u)"]) (auto simp: G RF tz)
      qed
    qed
  next
    case (RF u y cg)
    note G = RF
    have cg: "cg = RB_BLACK" using c f by (cases f) (auto simp: G intro: rbcolor_t.exhaust)
    show ?thesis
    proof (cases "col u = RB_RED")
      case True
      then obtain ul uu ur where u: "u = Nd ul uu RB_RED ur" by (cases u) auto
      let ?t' = "case plug1 f t of Nd l p c r \<Rightarrow> Nd l p RB_BLACK r | Tip \<Rightarrow> Tip"
      have "\<exists>s'. insert_loop s z = insert_loop s' y \<and> own s' (plug fs (Nd (Nd ul uu RB_BLACK ur) y RB_RED ?t')) \<and>
        same_but (set (inorder (plug (f # g # fs) t))) s s'"
      proof (cases f)
        case (LF p cp d)
        show ?thesis
          using loop_recolor_R [of s fs ul uu ur y cg "Nd (Nd a z RB_RED b) p RB_RED d" a z RB_RED b p d, OF _ _ refl] o f
          by (auto simp: G LF tz u)
      next
        case (RF d p cp)
        show ?thesis
          using loop_recolor_R [of s fs ul uu ur y cg "Nd d p RB_RED (Nd a z RB_RED b)" d z RB_RED a p b, OF _ _ refl] o f
          by (auto simp: G RF tz u)
      qed
      then obtain s' where "insert_loop s z = insert_loop s' y" "own s' (plug fs (Nd (Nd ul uu RB_BLACK ur) y RB_RED ?t'))"
        "same_but (set (inorder (plug (f # g # fs) t))) s s'" by blast
      moreover have "inorder (Nd (Nd ul uu RB_BLACK ur) y RB_RED ?t') = inorder (plug1 g (plug1 f t))"
        "invc (Nd (Nd ul uu RB_BLACK ur) y RB_RED ?t')" "invh (Nd (Nd ul uu RB_BLACK ur) y RB_RED ?t')"
        "bh (Nd (Nd ul uu RB_BLACK ur) y RB_RED ?t') = bh (plug1 g (plug1 f t))"
        using c h i(2) f cg by (cases f; auto simp: G u tz)+
      ultimately show ?thesis by (intro exI [of _ s'] exI [of _ "Nd (Nd ul uu RB_BLACK ur) y RB_RED ?t'"]) (auto simp: tz)
    next
      case False
      then have ub: "col u = RB_BLACK" by simp
      show ?thesis
      proof (cases f)
        case (RF d p cp)
        obtain s' where "insert_loop s z = Some s'" "own s' (plug fs (Nd (Nd u y RB_RED d) p RB_BLACK t))"
          "same_but (set (inorder (plug (f # g # fs) t))) s s'"
          using loop_RR [of s fs u y cg d p a z RB_RED b] ub o f by (auto simp: G RF tz)
        then show ?thesis using c h i(2) f cg ub
          by (intro exI [of _ s'] exI [of _ "Nd (Nd u y RB_RED d) p RB_BLACK t"]) (auto simp: G RF tz)
      next
        case (LF p cp d)
        obtain s' where "insert_loop s z = Some s'" "own s' (plug fs (Nd (Nd u y RB_RED a) z RB_BLACK (Nd b p RB_RED d)))"
          "same_but (set (inorder (plug (f # g # fs) t))) s s'"
          using loop_RL [of s fs u y cg a z b p d] ub o f by (auto simp: G LF tz)
        then show ?thesis using c h i(2) f cg ub
          by (intro exI [of _ s'] exI [of _ "Nd (Nd u y RB_RED a) z RB_BLACK (Nd b p RB_RED d)"]) (auto simp: G LF tz)
      qed
    qed
  qed
qed

lemma insert_loop_ok:
  assumes "own s (plug fs t)" "t \<noteq> Tip" "col t = RB_RED" "invc (plug fs Tip)" "invc t" "invh (plug fs t)"
    and "fs \<noteq> [] \<Longrightarrow> fcol (last fs) = RB_BLACK"
  shows "\<exists>s' T'. insert_loop s (ptr t) = Some s' \<and> own s' T' \<and> inorder T' = inorder (plug fs t) \<and> T' \<noteq> Tip \<and>
    invc T' \<and> invh T' \<and> same_but (set (inorder (plug fs t))) s s'"
  using assms
proof (induction "length fs" arbitrary: fs t s rule: less_induct)
  case less
  obtain a z b where tz: "t = Nd a z RB_RED b" using less.prems(2,3) by (cases t) auto
  have stop: ?case if "fs = [] \<or> fcol (hd fs) = RB_BLACK"
  proof -
    have "invc (plug fs t)"
    proof (cases fs)
      case Nil
      then show ?thesis using less.prems by simp
    next
      case (Cons f gs)
      have "invc (plug1 f Tip)" using less.prems(4) invc_sub Cons by force
      then have "invc (plug1 f t)" using less.prems(5) that Cons by (cases f) auto
      then show ?thesis using invc_repl [of gs "plug1 f Tip" "plug1 f t"] less.prems(4) Cons by (cases f) auto
    qed
    moreover have "plug fs t \<noteq> Tip"
    proof (cases fs)
      case (Cons f gs)
      show ?thesis using less.prems(1) by (metis Cons Un_iff append_is_Nil_conv inorder.simps(1) inorder_plug tz inorder.simps(2) list.distinct(1))
    qed (simp add: tz)
    ultimately show ?thesis using insert_loop_exit [of s fs a z RB_RED b] less.prems that
      by (intro exI [of _ s] exI [of _ "plug fs t"]) (simp add: tz)
  qed
  show ?case
  proof (cases "fs = [] \<or> fcol (hd fs) = RB_BLACK")
    case True
    then show ?thesis by (rule stop)
  next
    case False
    then obtain f g gs where fs: "fs = f # g # gs" and f: "fcol f = RB_RED"
      using less.prems(7) by (cases fs rule: remdups_adj.cases) auto
    obtain s' t' where r: "own s' (plug gs t')" "same_but (set (inorder (plug fs t))) s s'"
      "inorder t' = inorder (plug1 g (plug1 f t))" "invc t'" "invh t'" "bh t' = bh (plug1 g (plug1 f t))" "t' \<noteq> Tip"
      "(col t' = RB_RED \<and> insert_loop s (ptr t) = insert_loop s' (ptr t')) \<or>
       (col t' = RB_BLACK \<and> insert_loop s (ptr t) = Some s')"
      using insert_loop_round [of s f g gs t] less.prems f fs by auto
    have ih: "invc (plug gs Tip)" "invh (plug gs t')" "inorder (plug gs t') = inorder (plug fs t)"
      using less.prems(4,6) r(3,5,6) invc_repl [of gs "plug1 g (plug1 f Tip)" Tip]
        invh_repl [of gs "plug1 g (plug1 f t)" t'] inorder_plug [of gs "plug1 g (plug1 f t)"]
      by (simp_all add: fs)
    from r(8) show ?thesis
    proof
      assume red: "col t' = RB_RED \<and> insert_loop s (ptr t) = insert_loop s' (ptr t')"
      have "gs \<noteq> [] \<Longrightarrow> fcol (last gs) = RB_BLACK" using less.prems(7) by (simp add: fs)
      then show ?thesis using less.hyps [of gs s' t'] red r ih by (auto simp: fs intro: same_but_trans)
    next
      assume black: "col t' = RB_BLACK \<and> insert_loop s (ptr t) = Some s'"
      have "invc (plug gs t')" using invc_repl [of gs Tip t'] ih(1) r(4) black by simp
      moreover have "plug gs t' \<noteq> Tip" using r(7) ih(3)
        by (metis append_is_Nil_conv inorder.simps inorder_plug list.distinct(1) ptree.exhaust)
      ultimately show ?thesis using black r ih by auto
    qed
  qed
qed


lemma insert_balance_ok:
  assumes "own s (plug fs t)" "t \<noteq> Tip" "col t = RB_RED" "invc (plug fs Tip)" "invc t" "invh (plug fs t)"
    and "fs \<noteq> [] \<Longrightarrow> fcol (last fs) = RB_BLACK"
  shows "\<exists>s' T'. lib_rbInsertBalance s (ptr t) = Some s' \<and> own s' T' \<and> inorder T' = inorder (plug fs t) \<and>
    rbt T' \<and> same_but (set (inorder (plug fs t))) s s'"
proof -
  obtain s1 T1 where 1: "insert_loop s (ptr t) = Some s1" "own s1 T1" "inorder T1 = inorder (plug fs t)" "T1 \<noteq> Tip"
    "invc T1" "invh T1" "same_but (set (inorder (plug fs t))) s s1"
    using insert_loop_ok [OF assms] by blast
  obtain l x c r where T1: "T1 = Nd l x c r" using 1(4) by (cases T1) auto
  obtain s2 where 2: "set_color s1 x RB_BLACK = Some s2" "own s2 (Nd l x RB_BLACK r)" "same_but (set (inorder T1)) s1 s2"
    using own_color [of s1 "[]" l x c r RB_BLACK] 1(2) T1 by auto
  have "root s1 = x" using 1(2) T1 by (simp add: own_def tree_at_def)
  then show ?thesis using 1 2 T1
    by (intro exI [of _ s2] exI [of _ "Nd l x RB_BLACK r"]) (auto simp: lib_rbInsertBalance_def rbt_def same_but_def)
qed

end

subsection \<open>The order\<close>

locale rb_order =
  fixes cmp :: rbcomp_t and key :: "addr \<Rightarrow> int" and A :: "addr set"
  assumes cmp_less: "a \<in> A \<Longrightarrow> b \<in> A \<Longrightarrow> cmp a b < 0 \<longleftrightarrow> key a < key b"
    and cmp_eq: "a \<in> A \<Longrightarrow> b \<in> A \<Longrightarrow> cmp a b = 0 \<longleftrightarrow> key a = key b"
begin

lemma cmp_greater: "a \<in> A \<Longrightarrow> b \<in> A \<Longrightarrow> cmp a b > 0 \<longleftrightarrow> key b < key a"
  using cmp_less [of a b] cmp_eq [of a b] by linarith

lemma bst_key:
  assumes "set (inorder t) \<subseteq> A"
  shows "bst cmp t \<longleftrightarrow> sorted_wrt (<) (map key (inorder t))"
proof -
  have "sorted_wrt (\<lambda>a b. cmp a b < 0) xs \<longleftrightarrow> sorted_wrt (\<lambda>a b. key a < key b) xs" if "set xs \<subseteq> A" for xs
    using that cmp_less by (induction xs) auto
  then show ?thesis using assms by (simp add: bst_def sorted_wrt_map)
qed

lemma find_ok:
  assumes "rep h p t" "set (inorder t) \<subseteq> A" "node \<in> A" "sorted_wrt (<) (map key (inorder t))"
  shows "lib_rbFindEx h (ptr t) node cmp =
    Some (case find (\<lambda>a. key a = key node) (inorder t) of None \<Rightarrow> NULL | Some a \<Rightarrow> a)"
  using assms
proof (induction t arbitrary: p)
  case Tip
  then show ?case by (subst lib_rbFindEx.simps) simp
next
  case (Nd l x c r)
  have x: "x \<in> A" using Nd.prems by simp
  have none: "find (\<lambda>a. key a = key node) xs = None" if "\<forall>a \<in> set xs. key a \<noteq> key node" for xs
    using that by (simp add: find_None_iff)
  have app: "find P (xs @ ys) = (case find P xs of None \<Rightarrow> find P ys | Some a \<Rightarrow> Some a)" for P :: "addr \<Rightarrow> bool" and xs ys
    by (induction xs) auto
  consider "key x = key node" | "key node < key x" | "key x < key node" by linarith
  then show ?case
  proof cases
    case 1
    then have "find (\<lambda>a. key a = key node) (inorder l) = None" using Nd.prems by (intro none) (auto simp: sorted_wrt_append)
    then show ?thesis using 1 Nd.prems cmp_eq [OF x Nd.prems(3)] by (subst lib_rbFindEx.simps) (simp add: app)
  next
    case 2
    then have "find (\<lambda>a. key a = key node) (inorder r) = None" using Nd.prems by (intro none) (auto simp: sorted_wrt_append)
    then show ?thesis
      using 2 Nd.prems Nd.IH(1) [of x] cmp_eq [OF x Nd.prems(3)] cmp_greater [OF x Nd.prems(3)]
      by (subst lib_rbFindEx.simps) (auto simp: app sorted_wrt_append split: option.splits)
  next
    case 3
    then have "find (\<lambda>a. key a = key node) (inorder l) = None" using Nd.prems by (intro none) (auto simp: sorted_wrt_append)
    then show ?thesis
      using 3 Nd.prems Nd.IH(2) [of x] cmp_eq [OF x Nd.prems(3)] cmp_greater [OF x Nd.prems(3)]
      by (subst lib_rbFindEx.simps) (auto simp: app sorted_wrt_append)
  qed
qed

lemma descend_ok:
  assumes "rep h (cptr fs) t" "set (inorder t) \<subseteq> A" "z \<in> A" "sorted_wrt (<) (map key (inorder t))"
  shows "(\<exists>y \<in> set (inorder t). key y = key z \<and> insert_descend cmp h z (cptr fs) (ptr t) c = Some (Inl y)) \<or>
    (\<exists>gs c'. insert_descend cmp h z (cptr fs) (ptr t) c = Some (Inr (cptr (gs @ fs), c')) \<and> plug gs Tip = t \<and>
       (\<forall>a \<in> set (before gs). key a < key z) \<and> (\<forall>a \<in> set (behind gs). key z < key a) \<and>
       (case gs of [] \<Rightarrow> c' = c | LF x k r # _ \<Rightarrow> c' > 0 | RF l x k # _ \<Rightarrow> \<not> c' > 0))"
  using assms
proof (induction t arbitrary: fs c)
  case Tip
  have "insert_descend cmp h z (cptr fs) (ptr Tip) c = Some (Inr (cptr ([] @ fs), c))"
    by (subst insert_descend.simps) simp
  then show ?case by (intro disjI2 exI [of _ "[]"] exI [of _ c]) simp
next
  case (Nd l x k r)
  have x: "x \<in> A" "x \<noteq> NULL" "h x = Some \<lparr>parent = cptr fs, left = ptr l, right = ptr r, color = k\<rparr>"
    using Nd.prems by simp_all
  have app: "before (gs @ hs) = before hs @ before gs" "behind (gs @ hs) = behind gs @ behind hs"
    "plug (gs @ hs) t = plug hs (plug gs t)" for gs hs t
    by (induction gs arbitrary: t) simp_all
  consider "key x = key z" | "key z < key x" | "key x < key z" by linarith
  then show ?case
  proof cases
    case 1
    then have "insert_descend cmp h z (cptr fs) (ptr (Nd l x k r)) c = Some (Inl x)"
      using x cmp_eq [OF x(1) Nd.prems(3)] by (subst insert_descend.simps) simp
    then show ?thesis using 1 by simp
  next
    case 2
    then have e: "insert_descend cmp h z (cptr fs) (ptr (Nd l x k r)) c = insert_descend cmp h z x (ptr l) (cmp x z)"
      using x cmp_eq [OF x(1) Nd.prems(3)] cmp_greater [OF x(1) Nd.prems(3)] by (subst insert_descend.simps) auto
    have "sorted_wrt (<) (map key (inorder l))" "\<forall>a \<in> set (inorder r). key z < key a"
      using Nd.prems(4) 2 by (auto simp: sorted_wrt_append)
    then show ?thesis
      using Nd.IH(1) [of "LF x k r # fs" "cmp x z"] Nd.prems cmp_greater [OF x(1) Nd.prems(3)] 2 unfolding e
    proof (simp, elim disjE bexE exE conjE, goal_cases)
      case (1 y)
      then show ?case by blast
    next
      case (2 gs c')
      then show ?case
        by (intro disjI2 exI [of _ "gs @ [LF x k r]"] exI [of _ c'])
          (auto simp: app split: list.splits frame.splits)
    qed
  next
    case 3
    then have e: "insert_descend cmp h z (cptr fs) (ptr (Nd l x k r)) c = insert_descend cmp h z x (ptr r) (cmp x z)"
      using x cmp_eq [OF x(1) Nd.prems(3)] cmp_greater [OF x(1) Nd.prems(3)] by (subst insert_descend.simps) auto
    have "sorted_wrt (<) (map key (inorder r))" "\<forall>a \<in> set (inorder l). key a < key z"
      using Nd.prems(4) 3 by (auto simp: sorted_wrt_append)
    then show ?thesis
      using Nd.IH(2) [of "RF l x k # fs" "cmp x z"] Nd.prems cmp_greater [OF x(1) Nd.prems(3)] 3 unfolding e
    proof (simp, elim disjE bexE exE conjE, goal_cases)
      case (1 y)
      then show ?case by blast
    next
      case (2 gs c')
      then show ?case
        by (intro disjI2 exI [of _ "gs @ [RF l x k]"] exI [of _ c'])
          (auto simp: app split: list.splits frame.splits)
    qed
  qed
qed

end


subsection \<open>Insertion\<close>

locale rb_map = rb_order cmp key A + rb_user cmp aug J
  for cmp :: rbcomp_t and key :: "addr \<Rightarrow> int" and A :: "addr set"
    and aug :: "'u rbaugment_t option" and J :: "ptree \<Rightarrow> 'u \<Rightarrow> bool" +
  fixes comparer :: "'u \<Rightarrow> rbcomp_t"
  assumes comparer: "J t u \<Longrightarrow> comparer u = cmp"
begin

lemma own_cmp: "own s T \<Longrightarrow> comparer (udata s) = cmp"
  using comparer by (auto simp: own_def)


text \<open>The tree as its clients know it: a well-formed search tree of nodes of \<open>A\<close> in memory.\<close>

definition holds :: "'u rbtree_t \<Rightarrow> addr list \<Rightarrow> bool" where
  "holds s xs \<longleftrightarrow> (\<exists>T. own s T \<and> rbt T \<and> inorder T = xs) \<and> compare s = comparer \<and> set xs \<subseteq> A \<and>
     sorted_wrt (<) (map key xs)"

lemma lib_rbFind_holds:
  assumes "holds s xs" "node \<in> A"
  shows "lib_rbFind s node = Some (case find (\<lambda>a. key a = key node) xs of None \<Rightarrow> NULL | Some a \<Rightarrow> a)"
proof -
  obtain T where T: "own s T" "inorder T = xs" "set xs \<subseteq> A" "sorted_wrt (<) (map key xs)" "compare s = comparer"
    using assms(1) by (auto simp: holds_def)
  then show ?thesis using find_ok [of "nodes s" NULL T node] assms(2) own_cmp [OF T(1)] by (auto simp: lib_rbFind_def own_def tree_at_def)
qed

lemma lib_rbInsert_found:
  assumes "holds s xs" "z \<in> A" "y \<in> set xs" "key y = key z"
  shows "lib_rbInsert s z = Some (y, s)"
proof -
  obtain T where T: "own s T" "inorder T = xs" "set xs \<subseteq> A" "sorted_wrt (<) (map key xs)" "compare s = comparer"
    using assms(1) by (auto simp: holds_def)
  have r: "rep (nodes s) (cptr []) T" "root s = ptr T" using T(1) by (simp_all add: own_def tree_at_def)
  have d: "distinct (map key xs)" using T(4) strict_sorted_iff by blast
  have inj: "a = y" if "a \<in> set xs" "key a = key z" for a
    using d that assms(3,4) by (metis distinct_map inj_onD)
  have "set (inorder T) \<subseteq> A" "sorted_wrt (<) (map key (inorder T))" using T by auto
  from descend_ok [OF r(1) this(1) assms(2) this(2), of 0] show ?thesis
  proof (elim disjE bexE exE conjE)
    fix y' assume "y' \<in> set (inorder T)" "key y' = key z"
      "insert_descend cmp (nodes s) z (cptr []) (ptr T) 0 = Some (Inl y')"
    then show ?thesis using inj T r own_cmp [OF T(1)] by (simp add: lib_rbInsert_def)
  next
    fix gs c' assume g: "plug gs Tip = T" "\<forall>a \<in> set (before gs). key a < key z" "\<forall>a \<in> set (behind gs). key z < key a"
    have "y \<in> set (before gs) \<union> set (behind gs)" using assms(3) T(2) g(1) by auto
    then show ?thesis using g(2,3) assms(4) by auto
  qed
qed

lemma lib_rbInsert_new:
  assumes h: "holds s xs" and z: "z \<in> A" "z \<noteq> NULL" "nodes s z \<noteq> None" and new: "key z \<notin> key ` set xs"
  shows "\<exists>s' as bs. lib_rbInsert s z = Some (NULL, s') \<and> xs = as @ bs \<and> holds s' (as @ z # bs) \<and>
    same_but (insert z (set xs)) s s'"
proof -
  obtain T where T: "own s T" "rbt T" "inorder T = xs" "set xs \<subseteq> A" "sorted_wrt (<) (map key xs)" "compare s = comparer"
    using h by (auto simp: holds_def)
  have r: "rep (nodes s) (cptr []) T" "root s = ptr T" using T(1) by (simp_all add: own_def tree_at_def)
  obtain gs c where g: "insert_descend cmp (nodes s) z (cptr []) (ptr T) 0 = Some (Inr (cptr (gs @ []), c))"
    "plug gs Tip = T" "\<forall>a \<in> set (before gs). key a < key z" "\<forall>a \<in> set (behind gs). key z < key a"
    "case gs of [] \<Rightarrow> c = 0 | LF x k r # _ \<Rightarrow> c > 0 | RF l x k # _ \<Rightarrow> \<not> c > 0"
  proof -
    have "\<forall>y \<in> set (inorder T). key y \<noteq> key z" using T(3) new by (metis image_eqI)
    moreover have "set (inorder T) \<subseteq> A" "sorted_wrt (<) (map key (inorder T))" using T by auto
    ultimately show thesis using descend_ok [OF r(1) _ z(1), of 0] that by metis
  qed
  have zT: "z \<notin> set (inorder (plug gs Tip))" using new T(3) g(2) by auto
  have xs: "xs = before gs @ behind gs" using T(3) g(2) by auto
  obtain s1 where s1: "tree_at s1 (plug gs (Nd Tip z RB_RED Tip))" "udata s1 = udata s"
    "same_but (insert z (set (inorder (plug gs Tip)))) s s1"
    "do {
       s \<leftarrow> set_parent s z (cptr gs);
       s \<leftarrow> (if cptr gs = NULL then Some (s\<lparr>root := z\<rparr>)
         else if c > 0 then set_left s (cptr gs) z
         else set_right s (cptr gs) z);
       s \<leftarrow> set_left s z NULL;
       s \<leftarrow> set_right s z NULL;
       set_color s z RB_RED } = Some s1"
    using attach_links [of s gs z c] T(1) z(2,3) zT g(2,5)
    by (auto simp: own_def split: list.splits frame.splits)
  have "lib_rbInsert s z = do {
       s \<leftarrow> (do {
         s \<leftarrow> set_parent s z (cptr gs);
         s \<leftarrow> (if cptr gs = NULL then Some (s\<lparr>root := z\<rparr>)
           else if c > 0 then set_left s (cptr gs) z
           else set_right s (cptr gs) z);
         s \<leftarrow> set_left s z NULL;
         s \<leftarrow> set_right s z NULL;
         set_color s z RB_RED });
       s \<leftarrow> rb_augment s z;
       s \<leftarrow> lib_rbInsertBalance s z;
       Some (NULL, s) }"
    using g(1) r(2) T(6) own_cmp [OF T(1)] by (simp add: lib_rbInsert_def Option.bind_assoc)
  then have ins: "lib_rbInsert s z = do { s \<leftarrow> rb_augment s1 z; s \<leftarrow> lib_rbInsertBalance s z; Some (NULL, s) }"
    unfolding s1(4) by simp
  have sort: "sorted_wrt (<) (map key (before gs @ z # behind gs))"
    using T(5) g(3,4) by (auto simp: xs sorted_wrt_append)
  have sub: "set (before gs @ z # behind gs) \<subseteq> A" using T(4) z(1) by (auto simp: xs)
  have b: "bst cmp (plug gs (Nd Tip z RB_RED Tip))"
    using sort sub bst_key [of "plug gs (Nd Tip z RB_RED Tip)"] by simp
  have a1: "augment s1 = aug" using s1(3) T(1) by (simp add: same_but_def own_def)
  have J1: "J (plug gs Tip) (udata s1)" using T(1) s1(2) g(2) by (simp add: own_def)
  obtain s2 where s2: "augs s1 [z] = Some s2" "J (plug gs (Nd Tip z RB_RED Tip)) (udata s2)"
    using attach [OF s1(1) a1 J1 b] by blast
  note n2 = augs_nodes [OF s2(1)]
  have o2: "own s2 (plug gs (Nd Tip z RB_RED Tip))" using s1(1) s2(2) n2 a1 by (simp add: own_def tree_at_def)
  have inv: "invc (plug gs Tip)" "invh (plug gs (Nd Tip z RB_RED Tip))"
    "gs \<noteq> [] \<Longrightarrow> fcol (last gs) = RB_BLACK"
    using T(2) g(2) invh_repl [of gs Tip "Nd Tip z RB_RED Tip"] last_black [of gs Tip] by (auto simp: rbt_def)
  obtain s3 T3 where s3: "lib_rbInsertBalance s2 z = Some s3" "own s3 T3"
    "inorder T3 = before gs @ z # behind gs" "rbt T3" "same_but (set (before gs @ z # behind gs)) s2 s3"
    using insert_balance_ok [OF o2 _ _ inv(1) _ inv(2,3)] by auto
  have "lib_rbInsert s z = Some (NULL, s3)" using ins s2(1) s3(1) by (auto split: bind_splits)
  moreover have "holds s3 (before gs @ z # behind gs)"
    using s3 n2 s1(3) T(6) sub sort by (auto simp: holds_def same_but_def)
  moreover have "same_but (insert z (set xs)) s s3"
    using s1(3) n2 s3(5) by (auto simp: same_but_def xs)
  ultimately show ?thesis using xs by blast
qed

end

end
