(* ===== verification/RBRemove.thy ===== *)
theory RBRemove
  imports RBTree
begin

section \<open>Red-black trees: traversal and removal\<close>

text \<open>
  The walks over a tree (\<open>lib_rbMinimum\<close>, \<open>lib_rbMaximum\<close>, \<open>lib_rbNext\<close>, \<open>lib_rbPrev\<close>) and \<open>lib_rbRemove\<close> with the
  repair of the black heights, on the definitions of theory RBTree.
\<close>

subsection \<open>Traversal\<close>

lemma go_left_ok: "rep h p t \<Longrightarrow> t \<noteq> Tip \<Longrightarrow> go_left h (ptr t) = Some (hd (inorder t))"
proof (induction t arbitrary: p)
  case (Nd l x c r)
  then show ?case by (subst go_left.simps) (cases l; auto simp: hd_append)
qed simp

lemma go_right_ok: "rep h p t \<Longrightarrow> t \<noteq> Tip \<Longrightarrow> go_right h (ptr t) = Some (last (inorder t))"
proof (induction t arbitrary: p)
  case (Nd l x c r)
  then show ?case by (subst go_right.simps) (cases r; auto)
qed simp

lemma minimum_ok: "rep h p t \<Longrightarrow> lib_rbMinimum h (ptr t) = Some (if t = Tip then NULL else hd (inorder t))"
  by (auto simp: lib_rbMinimum_def rep_ptr go_left_ok)

lemma maximum_ok: "rep h p t \<Longrightarrow> lib_rbMaximum h (ptr t) = Some (if t = Tip then NULL else last (inorder t))"
  by (auto simp: lib_rbMaximum_def rep_ptr go_right_ok)

lemma rep_root: "rep h p t \<Longrightarrow> t \<noteq> Tip \<Longrightarrow> \<exists>n. h (ptr t) = Some n \<and> parent n = p"
  by (cases t) auto

lemma climb_right_ok:
  assumes "rep h (cptr fs) t" "t \<noteq> Tip" "repc h fs (ptr t)" "distinct (inorder (plug fs t))"
  shows "climb_right h (ptr t) = Some (if behind fs = [] then NULL else hd (behind fs))"
  using assms
proof (induction fs arbitrary: t)
  case Nil
  then show ?case using rep_root [of h NULL t] by (subst climb_right.simps) auto
next
  case (Cons f fs)
  obtain n where n: "h (ptr t) = Some n" "parent n = faddr f" using rep_root [OF Cons.prems(1,2)] by auto
  have t0: "ptr t \<noteq> NULL" using Cons.prems(1,2) rep_ptr by blast
  show ?case
  proof (cases f)
    case (LF x c r)
    have "ptr r \<noteq> ptr t" using Cons.prems(4) ptr_in [of t] ptr_in [of r] t0 by (auto simp: LF)
    then show ?thesis using n Cons.prems by (subst climb_right.simps) (auto simp: LF)
  next
    case (RF l x c)
    have "climb_right h x = Some (if behind fs = [] then NULL else hd (behind fs))"
      using Cons.IH [of "Nd l x c t"] Cons.prems by (simp add: RF)
    then show ?thesis using n Cons.prems by (subst climb_right.simps) (auto simp: RF)
  qed
qed

lemma climb_left_ok:
  assumes "rep h (cptr fs) t" "t \<noteq> Tip" "repc h fs (ptr t)" "distinct (inorder (plug fs t))"
  shows "climb_left h (ptr t) = Some (if before fs = [] then NULL else last (before fs))"
  using assms
proof (induction fs arbitrary: t)
  case Nil
  then show ?case using rep_root [of h NULL t] by (subst climb_left.simps) auto
next
  case (Cons f fs)
  obtain n where n: "h (ptr t) = Some n" "parent n = faddr f" using rep_root [OF Cons.prems(1,2)] by auto
  have t0: "ptr t \<noteq> NULL" using Cons.prems(1,2) rep_ptr by blast
  show ?case
  proof (cases f)
    case (RF l x c)
    have "ptr l \<noteq> ptr t" using Cons.prems(4) ptr_in [of t] ptr_in [of l] t0 by (auto simp: RF)
    then show ?thesis using n Cons.prems by (subst climb_left.simps) (auto simp: RF)
  next
    case (LF x c r)
    have "climb_left h x = Some (if before fs = [] then NULL else last (before fs))"
      using Cons.IH [of "Nd t x c r"] Cons.prems by (simp add: LF)
    then show ?thesis using n Cons.prems by (subst climb_left.simps) (auto simp: LF)
  qed
qed

lemma focus: "x \<in> set (inorder T) \<Longrightarrow> \<exists>fs l c r. T = plug fs (Nd l x c r)"
proof (induction T)
  case (Nd l y c r)
  have app: "plug (gs @ hs) t = plug hs (plug gs t)" for gs hs t
    by (induction gs arbitrary: t) simp_all
  consider "x = y" | "x \<in> set (inorder l)" | "x \<in> set (inorder r)" using Nd.prems by auto
  then show ?case
  proof cases
    case 1
    then show ?thesis by (intro exI [of _ "[]"]) auto
  next
    case 2
    then obtain fs l' c' r' where "l = plug fs (Nd l' x c' r')" using Nd.IH(1) by auto
    then have "Nd l y c r = plug (fs @ [LF y c r]) (Nd l' x c' r')" by (simp add: app)
    then show ?thesis by blast
  next
    case 3
    then obtain fs l' c' r' where "r = plug fs (Nd l' x c' r')" using Nd.IH(2) by auto
    then have "Nd l y c r = plug (fs @ [RF l y c]) (Nd l' x c' r')" by (simp add: app)
    then show ?thesis by blast
  qed
qed simp

lemma split_unique: "as @ x # bs = cs @ x # ds \<Longrightarrow> distinct (as @ x # bs) \<Longrightarrow> as = cs \<and> bs = ds"
  by (metis append_Cons_eq_iff distinct_append not_distinct_conv_prefix distinct.simps(2) Int_iff empty_iff list.set_intros(1))

lemma next_prev:
  assumes "tree_at s T" "inorder T = as @ x # bs"
  shows "lib_rbNext (nodes s) x = Some (if bs = [] then NULL else hd bs)"
    and "lib_rbPrev (nodes s) x = Some (if as = [] then NULL else last as)"
proof -
  obtain fs l c r where T: "T = plug fs (Nd l x c r)" using focus [of x T] assms(2) by auto
  have t: "rep (nodes s) (cptr fs) (Nd l x c r)" "repc (nodes s) fs x" "distinct (inorder (plug fs (Nd l x c r)))"
    using assms(1) by (simp_all add: T tree_at_plug)
  have e: "as = before fs @ inorder l" "bs = inorder r @ behind fs"
  proof -
    have q: "as @ x # bs = (before fs @ inorder l) @ x # inorder r @ behind fs" using assms(2) by (simp add: T)
    have d: "distinct (as @ x # bs)" using t(3) assms(2) by (simp only: T)
    show "as = before fs @ inorder l" "bs = inorder r @ behind fs" using split_unique [OF q d] by simp_all
  qed
  have n: "nodes s x = Some \<lparr>parent = cptr fs, left = ptr l, right = ptr r, color = c\<rparr>"
    and l: "rep (nodes s) x l" and r: "rep (nodes s) x r" using t(1) by simp_all
  have ne: "t \<noteq> Tip \<Longrightarrow> inorder t \<noteq> []" for t by (cases t) auto
  show "lib_rbNext (nodes s) x = Some (if bs = [] then NULL else hd bs)"
    using climb_right_ok [OF t(1)] t minimum_ok [OF r] n rep_ptr [OF r] ne [of r]
    by (auto simp: lib_rbNext_def e)
  show "lib_rbPrev (nodes s) x = Some (if as = [] then NULL else last as)"
    using climb_left_ok [OF t(1)] t maximum_ok [OF l] n rep_ptr [OF l] ne [of l]
    by (auto simp: lib_rbPrev_def e)
qed


subsection \<open>Removal: the loop\<close>

lemma root_in: "fs \<noteq> [] \<Longrightarrow> ptr (plug fs t) \<in> set (before fs) \<union> set (behind fs)"
proof (induction fs arbitrary: t)
  case (Cons f fs)
  show ?case
  proof (cases "fs = []")
    case True
    then show ?thesis by (cases f) auto
  next
    case False
    then show ?thesis using Cons.IH [of "plug1 f t"] by auto
  qed
qed simp

lemma black_ok: "rep h p t \<Longrightarrow> black h (ptr t) = Some (col t = RB_BLACK)"
  by (cases t) (auto simp: black_def)

text \<open>The place the loop works at: the subtree \<open>t\<close>, or the local node \<open>nil\<close> where there is none.\<close>

definition hole :: "addr \<Rightarrow> 'u rbtree_t \<Rightarrow> frame list \<Rightarrow> ptree \<Rightarrow> addr \<Rightarrow> bool" where
  "hole nil s fs t x \<longleftrightarrow> nil \<noteq> NULL \<and> nil \<notin> set (inorder (plug fs t)) \<and>
     (if t = Tip then x = nil \<and> nodes s nil = Some \<lparr>parent = cptr fs, left = NULL, right = NULL, color = RB_BLACK\<rparr>
      else x = ptr t)"

lemma hole_mono:
  "hole nil s fs t x \<Longrightarrow> same_but (set (inorder (plug fs t))) s s' \<Longrightarrow> cptr fs' = cptr fs \<Longrightarrow>
     set (inorder (plug fs' t)) = set (inorder (plug fs t)) \<Longrightarrow> hole nil s' fs' t x"
  by (auto simp: hole_def same_but_def)

primrec paint :: "ptree \<Rightarrow> ptree" where
  "paint Tip = Tip"
| "paint (Nd l x c r) = Nd l x RB_BLACK r"

context rb_user
begin

lemma hole_node:
  assumes "own s (plug fs t)" "hole nil s fs t x"
  shows "\<exists>n. nodes s x = Some n \<and> parent n = cptr fs \<and> color n = col t" "x \<noteq> NULL"
    "x \<notin> set (before fs)" "x \<notin> set (behind fs)"
proof -
  have r: "rep (nodes s) (cptr fs) t" "distinct (before fs @ inorder t @ behind fs)"
    using own_rep [OF assms(1)] own_distinct [OF assms(1)] .
  show "\<exists>n. nodes s x = Some n \<and> parent n = cptr fs \<and> color n = col t"
    using assms(2) r by (cases t) (auto simp: hole_def)
  show "x \<noteq> NULL" using assms(2) r by (cases t) (auto simp: hole_def)
  show "x \<notin> set (before fs)" "x \<notin> set (behind fs)" using assms(2) r by (cases t; auto simp: hole_def)+
qed

lemma hole_not_root: "own s (plug fs t) \<Longrightarrow> hole nil s fs t x \<Longrightarrow> fs \<noteq> [] \<Longrightarrow> x \<noteq> root s"
  using root_in [of fs t] hole_node(3,4) [of s fs t nil x] by (auto simp: own_def tree_at_def)

lemma remove_loop_root: "remove_loop nil s (root s) = Some (s, root s)"
  by (subst remove_loop.simps) simp

lemma remove_loop_exit:
  assumes "own s (plug fs t)" "t \<noteq> Tip" "fs = [] \<or> col t = RB_RED"
  shows "remove_loop nil s (ptr t) = Some (s, ptr t)"
  using assms own_rep [OF assms(1)] by (subst remove_loop.simps) (cases t; auto simp: own_def tree_at_def)

lemma remove_L_reads:
  assumes "own s (plug (LF p cp (Nd a w cw b) # gs) t)" "hole nil s (LF p cp (Nd a w cw b) # gs) t x"
  shows "x \<noteq> root s" "\<exists>n. nodes s x = Some n \<and> parent n = p \<and> color n = col t"
    "nodes s p = Some \<lparr>parent = cptr gs, left = ptr t, right = w, color = cp\<rparr>" "x = ptr t \<or> (x = nil \<and> ptr t = NULL)"
    "w \<noteq> NULL" "nodes s w = Some \<lparr>parent = p, left = ptr a, right = ptr b, color = cw\<rparr>"
    "black (nodes s) (ptr a) = Some (col a = RB_BLACK)" "black (nodes s) (ptr b) = Some (col b = RB_BLACK)"
proof -
  note r = own_rep [of s gs "Nd t p cp (Nd a w cw b)"]
  have o: "own s (plug gs (Nd t p cp (Nd a w cw b)))" using assms(1) by simp
  show "x \<noteq> root s" using hole_not_root [OF assms] by simp
  show "\<exists>n. nodes s x = Some n \<and> parent n = p \<and> color n = col t" using hole_node(1) [OF assms] by simp
  show "nodes s p = Some \<lparr>parent = cptr gs, left = ptr t, right = w, color = cp\<rparr>" "w \<noteq> NULL"
    "nodes s w = Some \<lparr>parent = p, left = ptr a, right = ptr b, color = cw\<rparr>"
    using own_rep [OF o] by simp_all
  show "x = ptr t \<or> (x = nil \<and> ptr t = NULL)" using assms(2) by (cases t) (auto simp: hole_def)
  show "black (nodes s) (ptr a) = Some (col a = RB_BLACK)" "black (nodes s) (ptr b) = Some (col b = RB_BLACK)"
    using own_rep [OF o] black_ok by auto
qed

lemma remove_L4:
  assumes o: "own s (plug (LF p cp (Nd a w RB_BLACK (Nd bl y RB_RED br)) # gs) t)"
    and h: "hole nil s (LF p cp (Nd a w RB_BLACK (Nd bl y RB_RED br)) # gs) t x" and t: "col t = RB_BLACK"
  shows "\<exists>s'. remove_loop nil s x = Some (s', root s') \<and>
    own s' (plug gs (Nd (Nd t p RB_BLACK a) w cp (Nd bl y RB_BLACK br))) \<and>
    same_but (set (inorder (plug (LF p cp (Nd a w RB_BLACK (Nd bl y RB_RED br)) # gs) t))) s s'"
proof -
  note R = remove_L_reads [OF o h]
  obtain s1 where s1: "set_color s w cp = Some s1" "own s1 (plug gs (Nd t p cp (Nd a w cp (Nd bl y RB_RED br))))"
    "same_but (set (inorder (plug (LF p cp (Nd a w RB_BLACK (Nd bl y RB_RED br)) # gs) t))) s s1"
    using own_color [of s "RF t p cp # gs" a w RB_BLACK "Nd bl y RB_RED br" cp] o by auto
  obtain s2 where s2: "set_color s1 p RB_BLACK = Some s2" "own s2 (plug gs (Nd t p RB_BLACK (Nd a w cp (Nd bl y RB_RED br))))"
    "same_but (set (inorder (plug gs (Nd t p cp (Nd a w cp (Nd bl y RB_RED br)))))) s1 s2"
    using own_color [OF s1(2)] by blast
  obtain s3 where s3: "set_color s2 y RB_BLACK = Some s3" "own s3 (plug gs (Nd t p RB_BLACK (Nd a w cp (Nd bl y RB_BLACK br))))"
    "same_but (set (inorder (plug gs (Nd t p RB_BLACK (Nd a w cp (Nd bl y RB_RED br)))))) s2 s3"
    using own_color [of s2 "RF a w cp # RF t p RB_BLACK # gs" bl y RB_RED br RB_BLACK] s2(2) by auto
  obtain s4 where s4: "rb_rotateLeft s3 p = Some s4" "own s4 (plug gs (Nd (Nd t p RB_BLACK a) w cp (Nd bl y RB_BLACK br)))"
    "same_but (set (inorder (plug gs (Nd t p RB_BLACK (Nd a w cp (Nd bl y RB_BLACK br)))))) s3 s4"
    using own_rotl [OF s3(2)] by blast
  have "remove_loop nil s x = Some (s4, root s4)"
    using R t s1(1) s2(1) s3(1) s4(1)
    by (auto simp: remove_loop.simps [of nil s x] remove_loop_root)
  then show ?thesis using s1(3) s2(3) s3(3) s4 by (auto simp: same_but_def)
qed

lemma remove_L3:
  assumes o: "own s (plug (LF p cp (Nd (Nd al y RB_RED ar) w RB_BLACK b) # gs) t)"
    and h: "hole nil s (LF p cp (Nd (Nd al y RB_RED ar) w RB_BLACK b) # gs) t x"
    and t: "col t = RB_BLACK" and b: "col b = RB_BLACK"
  shows "\<exists>s'. remove_loop nil s x = Some (s', root s') \<and>
    own s' (plug gs (Nd (Nd t p RB_BLACK al) y cp (Nd ar w RB_BLACK b))) \<and>
    same_but (set (inorder (plug (LF p cp (Nd (Nd al y RB_RED ar) w RB_BLACK b) # gs) t))) s s'"
proof -
  note R = remove_L_reads [OF o h]
  obtain s1 where s1: "set_color s y RB_BLACK = Some s1" "own s1 (plug gs (Nd t p cp (Nd (Nd al y RB_BLACK ar) w RB_BLACK b)))"
    "same_but (set (inorder (plug (LF p cp (Nd (Nd al y RB_RED ar) w RB_BLACK b) # gs) t))) s s1"
    using own_color [of s "LF w RB_BLACK b # RF t p cp # gs" al y RB_RED ar RB_BLACK] o by auto
  obtain s2 where s2: "set_color s1 w RB_RED = Some s2" "own s2 (plug gs (Nd t p cp (Nd (Nd al y RB_BLACK ar) w RB_RED b)))"
    "same_but (set (inorder (plug gs (Nd t p cp (Nd (Nd al y RB_BLACK ar) w RB_BLACK b))))) s1 s2"
    using own_color [of s1 "RF t p cp # gs" "Nd al y RB_BLACK ar" w RB_BLACK b RB_RED] s1(2) by auto
  obtain s3 where s3: "rb_rotateRight s2 w = Some s3" "own s3 (plug gs (Nd t p cp (Nd al y RB_BLACK (Nd ar w RB_RED b))))"
    "same_but (set (inorder (plug gs (Nd t p cp (Nd (Nd al y RB_BLACK ar) w RB_RED b))))) s2 s3"
    using own_rotr [of s2 "RF t p cp # gs" al y RB_BLACK ar w RB_RED b] s2(2) by auto
  have h3: "hole nil s3 (LF p cp (Nd al y RB_BLACK (Nd ar w RB_RED b)) # gs) t x"
    using s1(3) s2(3) s3(3) by (intro hole_mono [OF h]) (auto simp: same_but_def)
  obtain s4 where s4: "remove_loop nil s3 x = Some (s4, root s4)"
    "own s4 (plug gs (Nd (Nd t p RB_BLACK al) y cp (Nd ar w RB_BLACK b)))"
    "same_but (set (inorder (plug (LF p cp (Nd al y RB_BLACK (Nd ar w RB_RED b)) # gs) t))) s3 s4"
    using remove_L4 [of s3 p cp al y ar w b gs t nil x] s3(2) h3 t by auto
  have rd: "\<exists>n. nodes s3 x = Some n \<and> parent n = p" "nodes s3 p \<noteq> None"
    using remove_L_reads(2,3) [OF _ h3] s3(2) by auto
  have "remove_loop nil s x = remove_loop nil s3 x"
    using R t b s1(1) s2(1) s3(1) rd by (auto simp: remove_loop.simps [of nil s x])
  then show ?thesis using s1(3) s2(3) s3(3) s4 by (auto simp: same_but_def)
qed

lemma remove_L2:
  assumes o: "own s (plug (LF p cp (Nd a w RB_BLACK b) # gs) t)"
    and h: "hole nil s (LF p cp (Nd a w RB_BLACK b) # gs) t x"
    and t: "col t = RB_BLACK" and b: "col a = RB_BLACK" "col b = RB_BLACK"
  shows "\<exists>s'. remove_loop nil s x = remove_loop nil s' p \<and> own s' (plug gs (Nd t p cp (Nd a w RB_RED b))) \<and>
    same_but (set (inorder (plug (LF p cp (Nd a w RB_BLACK b) # gs) t))) s s'"
proof -
  note R = remove_L_reads [OF o h]
  obtain s1 where s1: "set_color s w RB_RED = Some s1" "own s1 (plug gs (Nd t p cp (Nd a w RB_RED b)))"
    "same_but (set (inorder (plug (LF p cp (Nd a w RB_BLACK b) # gs) t))) s s1"
    using own_color [of s "RF t p cp # gs" a w RB_BLACK b RB_RED] o by auto
  have h1: "hole nil s1 (LF p cp (Nd a w RB_RED b) # gs) t x"
    using s1(3) by (intro hole_mono [OF h]) (auto simp: same_but_def)
  have "\<exists>n. nodes s1 x = Some n \<and> parent n = p"
    using remove_L_reads(2) [OF _ h1] s1(2) by auto
  then have "remove_loop nil s x = remove_loop nil s1 p"
    using R t b s1(1) by (auto simp: remove_loop.simps [of nil s x])
  then show ?thesis using s1 by auto
qed

lemma remove_L1:
  assumes o: "own s (plug (LF p RB_BLACK (Nd a w RB_RED b) # gs) t)"
    and h: "hole nil s (LF p RB_BLACK (Nd a w RB_RED b) # gs) t x"
    and t: "col t = RB_BLACK" and a: "a \<noteq> Tip" "col a = RB_BLACK"
  shows "\<exists>s'. remove_loop nil s x = remove_loop nil s' x \<and> own s' (plug (LF p RB_RED a # LF w RB_BLACK b # gs) t) \<and>
    hole nil s' (LF p RB_RED a # LF w RB_BLACK b # gs) t x \<and>
    same_but (set (inorder (plug (LF p RB_BLACK (Nd a w RB_RED b) # gs) t))) s s'"
proof -
  note R = remove_L_reads [OF o h]
  obtain al y ar where y: "a = Nd al y RB_BLACK ar" using a by (cases a) auto
  obtain s1 where s1: "set_color s w RB_BLACK = Some s1" "own s1 (plug gs (Nd t p RB_BLACK (Nd a w RB_BLACK b)))"
    "same_but (set (inorder (plug (LF p RB_BLACK (Nd a w RB_RED b) # gs) t))) s s1"
    using own_color [of s "RF t p RB_BLACK # gs" a w RB_RED b RB_BLACK] o by auto
  obtain s2 where s2: "set_color s1 p RB_RED = Some s2" "own s2 (plug gs (Nd t p RB_RED (Nd a w RB_BLACK b)))"
    "same_but (set (inorder (plug gs (Nd t p RB_BLACK (Nd a w RB_BLACK b))))) s1 s2"
    using own_color [OF s1(2)] by blast
  obtain s3 where s3: "rb_rotateLeft s2 p = Some s3" "own s3 (plug gs (Nd (Nd t p RB_RED a) w RB_BLACK b))"
    "same_but (set (inorder (plug gs (Nd t p RB_RED (Nd a w RB_BLACK b))))) s2 s3"
    using own_rotl [OF s2(2)] by blast
  have h3: "hole nil s3 (LF p RB_RED a # LF w RB_BLACK b # gs) t x"
    using s1(3) s2(3) s3(3) by (intro hole_mono [OF h]) (auto simp: same_but_def)
  have o3: "own s3 (plug (LF p RB_RED (Nd al y RB_BLACK ar) # LF w RB_BLACK b # gs) t)" using s3(2) by (simp add: y)
  note R3 = remove_L_reads [OF o3 h3 [unfolded y]]
  have "remove_loop nil s x = remove_loop nil s3 x"
    using R R3 t s1(1) s2(1) s3(1)
    by (auto simp: remove_loop.simps [of nil s x] remove_loop.simps [of nil s3 x])
  then show ?thesis using s1(3) s2(3) s3 h3 by (auto simp: same_but_def)
qed

lemma remove_R_reads:
  assumes "own s (plug (RF (Nd b w cw a) p cp # gs) t)" "hole nil s (RF (Nd b w cw a) p cp # gs) t x"
  shows "x \<noteq> root s" "\<exists>n. nodes s x = Some n \<and> parent n = p \<and> color n = col t"
    "nodes s p = Some \<lparr>parent = cptr gs, left = w, right = ptr t, color = cp\<rparr>" "x \<noteq> w"
    "w \<noteq> NULL" "nodes s w = Some \<lparr>parent = p, left = ptr b, right = ptr a, color = cw\<rparr>"
    "black (nodes s) (ptr a) = Some (col a = RB_BLACK)" "black (nodes s) (ptr b) = Some (col b = RB_BLACK)"
proof -
  note r = own_rep [of s gs "Nd (Nd b w cw a) p cp t"]
  have o: "own s (plug gs (Nd (Nd b w cw a) p cp t))" using assms(1) by simp
  show "x \<noteq> root s" using hole_not_root [OF assms] by simp
  show "\<exists>n. nodes s x = Some n \<and> parent n = p \<and> color n = col t" using hole_node(1) [OF assms] by simp
  show "nodes s p = Some \<lparr>parent = cptr gs, left = w, right = ptr t, color = cp\<rparr>" "w \<noteq> NULL"
    "nodes s w = Some \<lparr>parent = p, left = ptr b, right = ptr a, color = cw\<rparr>"
    using own_rep [OF o] by simp_all
  show "x \<noteq> w" using hole_node(3) [OF assms] by auto
  show "black (nodes s) (ptr a) = Some (col a = RB_BLACK)" "black (nodes s) (ptr b) = Some (col b = RB_BLACK)"
    using own_rep [OF o] black_ok by auto
qed

lemma remove_R4:
  assumes o: "own s (plug (RF (Nd (Nd br y RB_RED bl) w RB_BLACK a) p cp # gs) t)"
    and h: "hole nil s (RF (Nd (Nd br y RB_RED bl) w RB_BLACK a) p cp # gs) t x" and t: "col t = RB_BLACK"
  shows "\<exists>s'. remove_loop nil s x = Some (s', root s') \<and>
    own s' (plug gs (Nd (Nd br y RB_BLACK bl) w cp (Nd a p RB_BLACK t))) \<and>
    same_but (set (inorder (plug (RF (Nd (Nd br y RB_RED bl) w RB_BLACK a) p cp # gs) t))) s s'"
proof -
  note R = remove_R_reads [OF o h]
  obtain s1 where s1: "set_color s w cp = Some s1" "own s1 (plug gs (Nd (Nd (Nd br y RB_RED bl) w cp a) p cp t))"
    "same_but (set (inorder (plug (RF (Nd (Nd br y RB_RED bl) w RB_BLACK a) p cp # gs) t))) s s1"
    using own_color [of s "LF p cp t # gs" "Nd br y RB_RED bl" w RB_BLACK a cp] o by auto
  obtain s2 where s2: "set_color s1 p RB_BLACK = Some s2" "own s2 (plug gs (Nd (Nd (Nd br y RB_RED bl) w cp a) p RB_BLACK t))"
    "same_but (set (inorder (plug gs (Nd (Nd (Nd br y RB_RED bl) w cp a) p cp t)))) s1 s2"
    using own_color [OF s1(2)] by blast
  obtain s3 where s3: "set_color s2 y RB_BLACK = Some s3" "own s3 (plug gs (Nd (Nd (Nd br y RB_BLACK bl) w cp a) p RB_BLACK t))"
    "same_but (set (inorder (plug gs (Nd (Nd (Nd br y RB_RED bl) w cp a) p RB_BLACK t)))) s2 s3"
    using own_color [of s2 "LF w cp a # LF p RB_BLACK t # gs" br y RB_RED bl RB_BLACK] s2(2) by auto
  obtain s4 where s4: "rb_rotateRight s3 p = Some s4" "own s4 (plug gs (Nd (Nd br y RB_BLACK bl) w cp (Nd a p RB_BLACK t)))"
    "same_but (set (inorder (plug gs (Nd (Nd (Nd br y RB_BLACK bl) w cp a) p RB_BLACK t)))) s3 s4"
    using own_rotr [OF s3(2)] by blast
  have "remove_loop nil s x = Some (s4, root s4)"
    using R t s1(1) s2(1) s3(1) s4(1)
    by (auto simp: remove_loop.simps [of nil s x] remove_loop_root)
  then show ?thesis using s1(3) s2(3) s3(3) s4 by (auto simp: same_but_def)
qed

lemma remove_R3:
  assumes o: "own s (plug (RF (Nd b w RB_BLACK (Nd ar y RB_RED al)) p cp # gs) t)"
    and h: "hole nil s (RF (Nd b w RB_BLACK (Nd ar y RB_RED al)) p cp # gs) t x"
    and t: "col t = RB_BLACK" and b: "col b = RB_BLACK"
  shows "\<exists>s'. remove_loop nil s x = Some (s', root s') \<and>
    own s' (plug gs (Nd (Nd b w RB_BLACK ar) y cp (Nd al p RB_BLACK t))) \<and>
    same_but (set (inorder (plug (RF (Nd b w RB_BLACK (Nd ar y RB_RED al)) p cp # gs) t))) s s'"
proof -
  note R = remove_R_reads [OF o h]
  obtain s1 where s1: "set_color s y RB_BLACK = Some s1" "own s1 (plug gs (Nd (Nd b w RB_BLACK (Nd ar y RB_BLACK al)) p cp t))"
    "same_but (set (inorder (plug (RF (Nd b w RB_BLACK (Nd ar y RB_RED al)) p cp # gs) t))) s s1"
    using own_color [of s "RF b w RB_BLACK # LF p cp t # gs" ar y RB_RED al RB_BLACK] o by auto
  obtain s2 where s2: "set_color s1 w RB_RED = Some s2" "own s2 (plug gs (Nd (Nd b w RB_RED (Nd ar y RB_BLACK al)) p cp t))"
    "same_but (set (inorder (plug gs (Nd (Nd b w RB_BLACK (Nd ar y RB_BLACK al)) p cp t)))) s1 s2"
    using own_color [of s1 "LF p cp t # gs" b w RB_BLACK "Nd ar y RB_BLACK al" RB_RED] s1(2) by auto
  obtain s3 where s3: "rb_rotateLeft s2 w = Some s3" "own s3 (plug gs (Nd (Nd (Nd b w RB_RED ar) y RB_BLACK al) p cp t))"
    "same_but (set (inorder (plug gs (Nd (Nd b w RB_RED (Nd ar y RB_BLACK al)) p cp t)))) s2 s3"
    using own_rotl [of s2 "LF p cp t # gs" b w RB_RED ar y RB_BLACK al] s2(2) by auto
  have h3: "hole nil s3 (RF (Nd (Nd b w RB_RED ar) y RB_BLACK al) p cp # gs) t x"
    using s1(3) s2(3) s3(3) by (intro hole_mono [OF h]) (auto simp: same_but_def)
  obtain s4 where s4: "remove_loop nil s3 x = Some (s4, root s4)"
    "own s4 (plug gs (Nd (Nd b w RB_BLACK ar) y cp (Nd al p RB_BLACK t)))"
    "same_but (set (inorder (plug (RF (Nd (Nd b w RB_RED ar) y RB_BLACK al) p cp # gs) t))) s3 s4"
    using remove_R4 [of s3 b w ar y al p cp gs t nil x] s3(2) h3 t by auto
  have rd: "\<exists>n. nodes s3 x = Some n \<and> parent n = p" "nodes s3 p \<noteq> None"
    using remove_R_reads(2,3) [OF _ h3] s3(2) by auto
  have "remove_loop nil s x = remove_loop nil s3 x"
    using R t b s1(1) s2(1) s3(1) rd by (auto simp: remove_loop.simps [of nil s x])
  then show ?thesis using s1(3) s2(3) s3(3) s4 by (auto simp: same_but_def)
qed

lemma remove_R2:
  assumes o: "own s (plug (RF (Nd b w RB_BLACK a) p cp # gs) t)"
    and h: "hole nil s (RF (Nd b w RB_BLACK a) p cp # gs) t x"
    and t: "col t = RB_BLACK" and b: "col a = RB_BLACK" "col b = RB_BLACK"
  shows "\<exists>s'. remove_loop nil s x = remove_loop nil s' p \<and> own s' (plug gs (Nd (Nd b w RB_RED a) p cp t)) \<and>
    same_but (set (inorder (plug (RF (Nd b w RB_BLACK a) p cp # gs) t))) s s'"
proof -
  note R = remove_R_reads [OF o h]
  obtain s1 where s1: "set_color s w RB_RED = Some s1" "own s1 (plug gs (Nd (Nd b w RB_RED a) p cp t))"
    "same_but (set (inorder (plug (RF (Nd b w RB_BLACK a) p cp # gs) t))) s s1"
    using own_color [of s "LF p cp t # gs" b w RB_BLACK a RB_RED] o by auto
  have h1: "hole nil s1 (RF (Nd b w RB_RED a) p cp # gs) t x"
    using s1(3) by (intro hole_mono [OF h]) (auto simp: same_but_def)
  have "\<exists>n. nodes s1 x = Some n \<and> parent n = p"
    using remove_R_reads(2) [OF _ h1] s1(2) by auto
  then have "remove_loop nil s x = remove_loop nil s1 p"
    using R t b s1(1) by (auto simp: remove_loop.simps [of nil s x])
  then show ?thesis using s1 by auto
qed

lemma remove_R1:
  assumes o: "own s (plug (RF (Nd b w RB_RED a) p RB_BLACK # gs) t)"
    and h: "hole nil s (RF (Nd b w RB_RED a) p RB_BLACK # gs) t x"
    and t: "col t = RB_BLACK" and a: "a \<noteq> Tip" "col a = RB_BLACK"
  shows "\<exists>s'. remove_loop nil s x = remove_loop nil s' x \<and> own s' (plug (RF a p RB_RED # RF b w RB_BLACK # gs) t) \<and>
    hole nil s' (RF a p RB_RED # RF b w RB_BLACK # gs) t x \<and>
    same_but (set (inorder (plug (RF (Nd b w RB_RED a) p RB_BLACK # gs) t))) s s'"
proof -
  note R = remove_R_reads [OF o h]
  obtain al y ar where y: "a = Nd ar y RB_BLACK al" using a by (cases a) auto
  obtain s1 where s1: "set_color s w RB_BLACK = Some s1" "own s1 (plug gs (Nd (Nd b w RB_BLACK a) p RB_BLACK t))"
    "same_but (set (inorder (plug (RF (Nd b w RB_RED a) p RB_BLACK # gs) t))) s s1"
    using own_color [of s "LF p RB_BLACK t # gs" b w RB_RED a RB_BLACK] o by auto
  obtain s2 where s2: "set_color s1 p RB_RED = Some s2" "own s2 (plug gs (Nd (Nd b w RB_BLACK a) p RB_RED t))"
    "same_but (set (inorder (plug gs (Nd (Nd b w RB_BLACK a) p RB_BLACK t)))) s1 s2"
    using own_color [OF s1(2)] by blast
  obtain s3 where s3: "rb_rotateRight s2 p = Some s3" "own s3 (plug gs (Nd b w RB_BLACK (Nd a p RB_RED t)))"
    "same_but (set (inorder (plug gs (Nd (Nd b w RB_BLACK a) p RB_RED t)))) s2 s3"
    using own_rotr [OF s2(2)] by blast
  have h3: "hole nil s3 (RF a p RB_RED # RF b w RB_BLACK # gs) t x"
    using s1(3) s2(3) s3(3) by (intro hole_mono [OF h]) (auto simp: same_but_def)
  have o3: "own s3 (plug (RF (Nd ar y RB_BLACK al) p RB_RED # RF b w RB_BLACK # gs) t)" using s3(2) by (simp add: y)
  note R3 = remove_R_reads [OF o3 h3 [unfolded y]]
  have "remove_loop nil s x = remove_loop nil s3 x"
    using R R3 t s1(1) s2(1) s3(1)
    by (auto simp: remove_loop.simps [of nil s x] remove_loop.simps [of nil s3 x])
  then show ?thesis using s1(3) s2(3) s3 h3 by (auto simp: same_but_def)
qed


lemma exit_ok:
  assumes "own s (plug fs t)" "t \<noteq> Tip" "fs = [] \<or> col t = RB_RED" "invc (plug fs Tip)" "invc (paint t)" "invh t"
    and "invh (plug fs (Nd t d RB_BLACK t))" "fs \<noteq> [] \<Longrightarrow> fcol (last fs) = RB_BLACK"
  shows "\<exists>s' T'. do { (s, x) \<leftarrow> remove_loop nil s (ptr t); set_color s x RB_BLACK } = Some s' \<and> own s' T' \<and>
    inorder T' = inorder (plug fs t) \<and> rbt T' \<and> same_but (set (inorder (plug fs t))) s s'"
proof -
  obtain l x c r where t: "t = Nd l x c r" using assms(2) by (cases t) auto
  obtain s' where s': "set_color s x RB_BLACK = Some s'" "own s' (plug fs (Nd l x RB_BLACK r))"
    "same_but (set (inorder (plug fs t))) s s'"
    using own_color [of s fs l x c r RB_BLACK] assms(1) by (auto simp: t)
  have h: "fs = [] \<or> invh (plug fs (Nd l x RB_BLACK r))"
    using assms(3,6) invh_repl [OF assms(7), of "Nd l x RB_BLACK r"] by (auto simp: t)
  have "invh (plug fs (Nd l x RB_BLACK r))" using h assms(6) by (auto simp: t)
  moreover have "invc (plug fs (Nd l x RB_BLACK r))" using invc_repl [OF assms(4)] assms(5) by (simp add: t)
  moreover have "col (plug fs (Nd l x RB_BLACK r)) = RB_BLACK"
    using last_black [of fs "Nd l x RB_BLACK r"] assms(8) by (cases "fs = []") auto
  ultimately show ?thesis using s' remove_loop_exit [OF assms(1,2,3), of nil]
    by (intro exI [of _ s'] exI [of _ "plug fs (Nd l x RB_BLACK r)"]) (simp add: t rbt_def)
qed

lemma finish_ok:
  assumes "remove_loop nil s0 x = Some (s, root s)" "own s T" "rbt T" "T \<noteq> Tip"
  shows "\<exists>s'. do { (s, x) \<leftarrow> remove_loop nil s0 x; set_color s x RB_BLACK } = Some s' \<and> own s' T \<and>
    same_but (set (inorder T)) s s'"
proof -
  obtain l y r where T: "T = Nd l y RB_BLACK r" using assms(3,4) by (cases T) (auto simp: rbt_def)
  have "root s = y" using assms(2) by (simp add: own_def tree_at_def T)
  then show ?thesis using own_color [of s "[]" l y RB_BLACK r RB_BLACK] assms(1,2) by (auto simp: T)
qed

lemma remove_round:
  assumes o: "own s (plug (f # gs) t)" and h: "hole nil s (f # gs) t x" and t: "col t = RB_BLACK"
    and w: "f = LF p cp (Nd a w RB_BLACK b) \<or> f = RF (Nd a w RB_BLACK b) p cp"
    and inv: "invc (Nd a w RB_BLACK b)" "invc t" "invh (plug1 f (Nd t d RB_BLACK t))"
  shows "\<exists>s' t'. own s' (plug gs t') \<and> t' \<noteq> Tip \<and> inorder t' = inorder (plug1 f t) \<and> col t' = cp \<and> invh t' \<and>
    same_but (set (inorder (plug (f # gs) t))) s s' \<and>
    ((remove_loop nil s x = remove_loop nil s' (ptr t') \<and> invc (paint t') \<and> bh t' + 1 = bh (plug1 f (Nd t d RB_BLACK t))) \<or>
     (remove_loop nil s x = Some (s', root s') \<and> invc t' \<and> bh t' = bh (plug1 f (Nd t d RB_BLACK t))))"
  using w
proof
  assume f: "f = LF p cp (Nd a w RB_BLACK b)"
  note i = inv [unfolded f, simplified]
  consider (r) "col b = RB_RED" | (l) "col a = RB_RED" "col b = RB_BLACK" | (n) "col a = RB_BLACK" "col b = RB_BLACK"
    by (metis not_red)
  then show ?thesis
  proof cases
    case r
    then obtain bl y br where b: "b = Nd bl y RB_RED br" by (cases b) auto
    obtain s' where "remove_loop nil s x = Some (s', root s')"
      "own s' (plug gs (Nd (Nd t p RB_BLACK a) w cp (Nd bl y RB_BLACK br)))" "same_but (set (inorder (plug (f # gs) t))) s s'"
      using remove_L4 [of s p cp a w bl y br gs t nil x] o h t by (auto simp: f b)
    then show ?thesis using i t
      by (intro exI [of _ s'] exI [of _ "Nd (Nd t p RB_BLACK a) w cp (Nd bl y RB_BLACK br)"]) (auto simp: f b)
  next
    case l
    then obtain al y ar where a: "a = Nd al y RB_RED ar" by (cases a) auto
    obtain s' where "remove_loop nil s x = Some (s', root s')"
      "own s' (plug gs (Nd (Nd t p RB_BLACK al) y cp (Nd ar w RB_BLACK b)))" "same_but (set (inorder (plug (f # gs) t))) s s'"
      using remove_L3 [of s p cp al y ar w b gs t nil x] o h t l(2) by (auto simp: f a)
    then show ?thesis using i t
      by (intro exI [of _ s'] exI [of _ "Nd (Nd t p RB_BLACK al) y cp (Nd ar w RB_BLACK b)"]) (auto simp: f a)
  next
    case n
    obtain s' where "remove_loop nil s x = remove_loop nil s' p" "own s' (plug gs (Nd t p cp (Nd a w RB_RED b)))"
      "same_but (set (inorder (plug (f # gs) t))) s s'"
      using remove_L2 [of s p cp a w b gs t nil x] o h t n by (auto simp: f)
    then show ?thesis using i t n
      by (intro exI [of _ s'] exI [of _ "Nd t p cp (Nd a w RB_RED b)"]) (auto simp: f)
  qed
next
  assume f: "f = RF (Nd a w RB_BLACK b) p cp"
  note i = inv [unfolded f, simplified]
  consider (l) "col a = RB_RED" | (r) "col b = RB_RED" "col a = RB_BLACK" | (n) "col a = RB_BLACK" "col b = RB_BLACK"
    by (metis not_red)
  then show ?thesis
  proof cases
    case l
    then obtain al y ar where a: "a = Nd al y RB_RED ar" by (cases a) auto
    obtain s' where "remove_loop nil s x = Some (s', root s')"
      "own s' (plug gs (Nd (Nd al y RB_BLACK ar) w cp (Nd b p RB_BLACK t)))" "same_but (set (inorder (plug (f # gs) t))) s s'"
      using remove_R4 [of s al y ar w b p cp gs t nil x] o h t by (auto simp: f a)
    then show ?thesis using i t
      by (intro exI [of _ s'] exI [of _ "Nd (Nd al y RB_BLACK ar) w cp (Nd b p RB_BLACK t)"]) (auto simp: f a)
  next
    case r
    then obtain bl y br where b: "b = Nd bl y RB_RED br" by (cases b) auto
    obtain s' where "remove_loop nil s x = Some (s', root s')"
      "own s' (plug gs (Nd (Nd a w RB_BLACK bl) y cp (Nd br p RB_BLACK t)))" "same_but (set (inorder (plug (f # gs) t))) s s'"
      using remove_R3 [of s a w bl y br p cp gs t nil x] o h t r(2) by (auto simp: f b)
    then show ?thesis using i t
      by (intro exI [of _ s'] exI [of _ "Nd (Nd a w RB_BLACK bl) y cp (Nd br p RB_BLACK t)"]) (auto simp: f b)
  next
    case n
    obtain s' where "remove_loop nil s x = remove_loop nil s' p" "own s' (plug gs (Nd (Nd a w RB_RED b) p cp t))"
      "same_but (set (inorder (plug (f # gs) t))) s s'"
      using remove_R2 [of s a w b p cp gs t nil x] o h t n by (auto simp: f)
    then show ?thesis using i t n
      by (intro exI [of _ s'] exI [of _ "Nd (Nd a w RB_RED b) p cp t"]) (auto simp: f)
  qed
qed


lemma remove_black:
  assumes o: "own s (plug (f # gs) t)" and h: "hole nil s (f # gs) t x" and t: "col t = RB_BLACK"
    and w: "f = LF p cp (Nd a w RB_BLACK b) \<or> f = RF (Nd a w RB_BLACK b) p cp"
    and inv: "invc (plug (f # gs) Tip)" "invc t" "invh (plug (f # gs) (Nd t d RB_BLACK t))" "fcol (last (f # gs)) = RB_BLACK"
    and IH: "\<And>s' t'. \<lbrakk>cp = RB_BLACK; own s' (plug gs t'); t' \<noteq> Tip; ptr t' \<noteq> NULL; hole nil s' gs t' (ptr t');
        invc (plug gs Tip); invc (paint t'); invh t'; invh (plug gs (Nd t' d RB_BLACK t'))\<rbrakk> \<Longrightarrow>
      \<exists>s'' T'. do { (s, x) \<leftarrow> remove_loop nil s' (ptr t'); set_color s x RB_BLACK } = Some s'' \<and> own s'' T' \<and>
        inorder T' = inorder (plug gs t') \<and> rbt T' \<and> same_but (set (inorder (plug gs t'))) s' s''"
  shows "\<exists>s' T'. do { (s, x) \<leftarrow> remove_loop nil s x; set_color s x RB_BLACK } = Some s' \<and> own s' T' \<and>
    inorder T' = inorder (plug (f # gs) t) \<and> rbt T' \<and> same_but (set (inorder (plug (f # gs) t))) s s'"
proof -
  have c: "invc (plug1 f Tip)" "invc (plug gs Tip)"
    using inv(1) invc_sub [of gs "plug1 f Tip"] invc_repl [of gs "plug1 f Tip" Tip] by simp_all
  have hh: "invh (plug1 f (Nd t d RB_BLACK t))" using inv(3) invh_sub [of gs] by simp
  have sib: "invc (Nd a w RB_BLACK b)" using c(1) w by auto
  obtain s' t' where r: "own s' (plug gs t')" "t' \<noteq> Tip" "inorder t' = inorder (plug1 f t)" "col t' = cp" "invh t'"
    "same_but (set (inorder (plug (f # gs) t))) s s'"
    "(remove_loop nil s x = remove_loop nil s' (ptr t') \<and> invc (paint t') \<and> bh t' + 1 = bh (plug1 f (Nd t d RB_BLACK t))) \<or>
     (remove_loop nil s x = Some (s', root s') \<and> invc t' \<and> bh t' = bh (plug1 f (Nd t d RB_BLACK t)))"
    using remove_round [OF o h t w sib inv(2) hh] by blast
  have ino: "inorder (plug gs t') = inorder (plug (f # gs) t)" using r(3) by simp
  have nil: "hole nil s' gs t' (ptr t')" using h r(2) ino unfolding hole_def by simp
  have p0: "ptr t' \<noteq> NULL" using own_rep [OF r(1)] r(2) by (cases t') auto
  have lastf: "gs \<noteq> [] \<Longrightarrow> fcol (last gs) = RB_BLACK" "gs = [] \<Longrightarrow> fcol f = RB_BLACK" using inv(4) by auto
  have cpf: "fcol f = cp" using w by auto
  from r(7) show ?thesis
  proof (elim disjE conjE)
    assume A: "remove_loop nil s x = remove_loop nil s' (ptr t')" "invc (paint t')"
      "bh t' + 1 = bh (plug1 f (Nd t d RB_BLACK t))"
    have h': "invh (plug gs (Nd t' d RB_BLACK t'))"
      using invh_repl [of gs "plug1 f (Nd t d RB_BLACK t)" "Nd t' d RB_BLACK t'"] inv(3) A(3) r(5) by simp
    have "\<exists>s'' T'. do { (s, x) \<leftarrow> remove_loop nil s' (ptr t'); set_color s x RB_BLACK } = Some s'' \<and> own s'' T' \<and>
      inorder T' = inorder (plug gs t') \<and> rbt T' \<and> same_but (set (inorder (plug gs t'))) s' s''"
    proof (cases "cp = RB_BLACK")
      case True
      then show ?thesis using IH [of s' t'] r(1,2,5) p0 nil c(2) A(2) h' by blast
    next
      case False
      then show ?thesis using exit_ok [OF r(1,2) _ c(2) A(2) r(5) h' lastf(1)] r(4) by auto
    qed
    then show ?thesis using A(1) ino r(6) by (metis same_but_trans)
  next
    assume B: "remove_loop nil s x = Some (s', root s')" "invc t'" "bh t' = bh (plug1 f (Nd t d RB_BLACK t))"
    have "invh (plug gs t')" using invh_repl [of gs "plug1 f (Nd t d RB_BLACK t)" t'] inv(3) B(3) r(5) by simp
    moreover have "invc (plug gs t')"
      using invc_repl [of gs "plug1 f Tip" t'] inv(1) B(2) r(4) cpf by (cases f) auto
    moreover have "col (plug gs t') = RB_BLACK"
      using last_black [of gs t'] lastf r(4) cpf by (cases "gs = []") auto
    ultimately have rb: "rbt (plug gs t')" by (simp add: rbt_def)
    have ne: "plug gs t' \<noteq> Tip" using r(2) by (metis append_is_Nil_conv inorder.simps inorder_plug list.distinct(1) ptree.exhaust)
    obtain s'' where "do { (s, x) \<leftarrow> remove_loop nil s x; set_color s x RB_BLACK } = Some s''" "own s'' (plug gs t')"
      "same_but (set (inorder (plug gs t'))) s' s''"
      using finish_ok [OF B(1) r(1) rb ne] by blast
    then show ?thesis using rb ino r(6) by (metis same_but_trans)
  qed
qed

lemma remove_loop_ok:
  assumes "own s (plug fs t)" "hole nil s fs t x" "fs \<noteq> [] \<or> t \<noteq> Tip" "invc (plug fs Tip)" "invc (paint t)" "invh t"
    and "invh (plug fs (Nd t d RB_BLACK t))" "fs \<noteq> [] \<Longrightarrow> fcol (last fs) = RB_BLACK"
  shows "\<exists>s' T'. do { (s, x) \<leftarrow> remove_loop nil s x; set_color s x RB_BLACK } = Some s' \<and> own s' T' \<and>
    inorder T' = inorder (plug fs t) \<and> rbt T' \<and> same_but (set (inorder (plug fs t))) s s'"
  using assms
proof (induction fs arbitrary: s t x)
  case Nil
  then have "x = ptr t" by (auto simp: hole_def)
  then show ?case using exit_ok [OF Nil.prems(1) _ _ Nil.prems(4-7)] Nil.prems(3) by auto
next
  case (Cons f gs)
  note IH = Cons.IH
  show ?case
  proof (cases "col t = RB_RED")
    case True
    then have "t \<noteq> Tip" by auto
    then have "t \<noteq> Tip" "x = ptr t" using Cons.prems(2) by (simp_all add: hole_def)
    then show ?thesis using exit_ok [OF Cons.prems(1) _ _ Cons.prems(4-8)] True by auto
  next
    case False
    then have t: "col t = RB_BLACK" "invc t" using Cons.prems(5) by (cases t; auto)+
    have hh: "invh (plug1 f (Nd t d RB_BLACK t))" using Cons.prems(7) invh_sub [of gs] by simp
    have c: "invc (plug1 f Tip)" using Cons.prems(4) invc_sub [of gs "plug1 f Tip"] by simp
    obtain p cp a w cw b where f: "f = LF p cp (Nd a w cw b) \<or> f = RF (Nd a w cw b) p cp"
    proof (cases f)
      case (LF p cp sib)
      then show ?thesis using hh that by (cases sib) auto
    next
      case (RF sib p cp)
      then show ?thesis using hh that by (cases sib) auto
    qed
    have last: "fcol (last (f # gs)) = RB_BLACK" using Cons.prems(8) by simp
    have IHg: "\<exists>s'' T'. do { (s, x) \<leftarrow> remove_loop nil s' (ptr t'); set_color s x RB_BLACK } = Some s'' \<and> own s'' T' \<and>
        inorder T' = inorder (plug gs t') \<and> rbt T' \<and> same_but (set (inorder (plug gs t'))) s' s''"
      if "own s' (plug gs t')" "t' \<noteq> Tip" "hole nil s' gs t' (ptr t')"
        "invc (plug gs Tip)" "invc (paint t')" "invh t'" "invh (plug gs (Nd t' d RB_BLACK t'))" for s' t'
      using IH [of s' t' "ptr t'"] that last by (cases gs) auto
    show ?thesis
    proof (cases "cw = RB_BLACK")
      case True
      show ?thesis
        using f IHg unfolding True
        by (intro remove_black [OF Cons.prems(1,2) t(1) _ Cons.prems(4) t(2) Cons.prems(7) last]) auto
    next
      case False
      then have red: "cw = RB_RED" by simp
      have cp: "cp = RB_BLACK" using c f red by (cases cp) auto
      from f show ?thesis
      proof
        assume F: "f = LF p cp (Nd a w cw b)"
        have a: "a \<noteq> Tip" "col a = RB_BLACK" using hh c red by (auto simp: F)
        obtain a1 y a2 where y: "a = Nd a1 y RB_BLACK a2" using a by (cases a) auto
        obtain s' where s': "remove_loop nil s x = remove_loop nil s' x" "own s' (plug (LF p RB_RED a # LF w RB_BLACK b # gs) t)"
          "hole nil s' (LF p RB_RED a # LF w RB_BLACK b # gs) t x" "same_but (set (inorder (plug (f # gs) t))) s s'"
          using remove_L1 [of s p a w b gs t nil x] Cons.prems(1,2) t(1) a unfolding F red cp by blast
        have i: "invc (plug (LF p RB_RED a # LF w RB_BLACK b # gs) Tip)"
          using invc_repl [of gs "plug1 f Tip" "plug1 (LF w RB_BLACK b) (plug1 (LF p RB_RED a) Tip)"] Cons.prems(4) c a red
          by (simp add: F)
        have j: "invh (plug (LF p RB_RED a # LF w RB_BLACK b # gs) (Nd t d RB_BLACK t))"
          using invh_repl [of gs "plug1 f (Nd t d RB_BLACK t)" "plug1 (LF w RB_BLACK b) (plug1 (LF p RB_RED a) (Nd t d RB_BLACK t))"]
            Cons.prems(7) hh by (auto simp: F red cp)
        have l: "fcol (last (LF p RB_RED a # LF w RB_BLACK b # gs)) = RB_BLACK" using last by (cases gs) auto
        have "\<exists>s'' T'. do { (s, x) \<leftarrow> remove_loop nil s' x; set_color s x RB_BLACK } = Some s'' \<and> own s'' T' \<and>
          inorder T' = inorder (plug (LF p RB_RED a # LF w RB_BLACK b # gs) t) \<and> rbt T' \<and>
          same_but (set (inorder (plug (LF p RB_RED a # LF w RB_BLACK b # gs) t))) s' s''"
          using y by (intro remove_black [OF s'(2,3) t(1) _ i t(2) j l]) auto
        moreover have "inorder (plug (LF p RB_RED a # LF w RB_BLACK b # gs) t) = inorder (plug (f # gs) t)" by (simp add: F)
        ultimately show ?thesis using s'(1,4) by (metis same_but_trans)
      next
        assume F: "f = RF (Nd a w cw b) p cp"
        have b: "b \<noteq> Tip" "col b = RB_BLACK" using hh c red by (auto simp: F)
        obtain a1 y a2 where y: "b = Nd a1 y RB_BLACK a2" using b by (cases b) auto
        obtain s' where s': "remove_loop nil s x = remove_loop nil s' x" "own s' (plug (RF b p RB_RED # RF a w RB_BLACK # gs) t)"
          "hole nil s' (RF b p RB_RED # RF a w RB_BLACK # gs) t x" "same_but (set (inorder (plug (f # gs) t))) s s'"
          using remove_R1 [of s a w b p gs t nil x] Cons.prems(1,2) t(1) b unfolding F red cp by blast
        have i: "invc (plug (RF b p RB_RED # RF a w RB_BLACK # gs) Tip)"
          using invc_repl [of gs "plug1 f Tip" "plug1 (RF a w RB_BLACK) (plug1 (RF b p RB_RED) Tip)"] Cons.prems(4) c b red
          by (simp add: F)
        have j: "invh (plug (RF b p RB_RED # RF a w RB_BLACK # gs) (Nd t d RB_BLACK t))"
          using invh_repl [of gs "plug1 f (Nd t d RB_BLACK t)" "plug1 (RF a w RB_BLACK) (plug1 (RF b p RB_RED) (Nd t d RB_BLACK t))"]
            Cons.prems(7) hh by (auto simp: F red cp)
        have l: "fcol (last (RF b p RB_RED # RF a w RB_BLACK # gs)) = RB_BLACK" using last by (cases gs) auto
        have "\<exists>s'' T'. do { (s, x) \<leftarrow> remove_loop nil s' x; set_color s x RB_BLACK } = Some s'' \<and> own s'' T' \<and>
          inorder T' = inorder (plug (RF b p RB_RED # RF a w RB_BLACK # gs) t) \<and> rbt T' \<and>
          same_but (set (inorder (plug (RF b p RB_RED # RF a w RB_BLACK # gs) t))) s' s''"
          using y by (intro remove_black [OF s'(2,3) t(1) _ i t(2) j l]) auto
        moreover have "inorder (plug (RF b p RB_RED # RF a w RB_BLACK # gs) t) = inorder (plug (f # gs) t)" by (simp add: F)
        ultimately show ?thesis using s'(1,4) by (metis same_but_trans)
      qed
    qed
  qed
qed

end


subsection \<open>Removal: taking the node out\<close>

text \<open>What becomes of the links does not depend on the caller's data: a run without callback does the same.\<close>

definition bare :: "'u rbaugment_t option \<Rightarrow> 'u rbtree_t \<Rightarrow> 'u rbtree_t \<Rightarrow> bool" where
  "bare g s t \<longleftrightarrow> augment s = g \<and> root t = root s \<and> nodes t = nodes s \<and> compare t = compare s \<and> augment t = None"

definition follows :: "('a \<Rightarrow> 'b \<Rightarrow> bool) \<Rightarrow> 'a option \<Rightarrow> 'b option \<Rightarrow> bool" where
  "follows R X Y \<longleftrightarrow> (\<forall>a. X = Some a \<longrightarrow> (\<exists>b. Y = Some b \<and> R a b))"

lemma follows_bind [intro]:
  "follows R X Y \<Longrightarrow> (\<And>a b. R a b \<Longrightarrow> follows Q (F a) (G b)) \<Longrightarrow> follows Q (X \<bind> F) (Y \<bind> G)"
  unfolding follows_def by (cases X; cases Y) auto

lemma follows_Some [intro]: "R a b \<Longrightarrow> follows R (Some a) (Some b)"
  by (simp add: follows_def)

lemma follows_if [intro]:
  "c = c' \<Longrightarrow> (c' \<Longrightarrow> follows R X Y) \<Longrightarrow> (\<not> c' \<Longrightarrow> follows R X' Y') \<Longrightarrow> follows R (if c then X else X') (if c' then Y else Y')"
  by simp

lemma follows_same: "bare g s t \<Longrightarrow> F (nodes s) = G (nodes t) \<Longrightarrow> follows (=) (F (nodes s)) (G (nodes t))"
  by (simp add: follows_def)

lemma bare_node: "bare g s t \<Longrightarrow> follows (=) (nodes s p) (nodes t p)"
  by (simp add: bare_def follows_def)

lemma bare_root: "bare g s t \<Longrightarrow> bare g (s\<lparr>root := v\<rparr>) (t\<lparr>root := v\<rparr>)"
  by (simp add: bare_def)

lemma bare_set:
  assumes "bare g s t"
  shows "follows (bare g) (set_left s p v) (set_left t p v)" "follows (bare g) (set_right s p v) (set_right t p v)"
    "follows (bare g) (set_parent s p v) (set_parent t p v)" "follows (bare g) (set_color s p k) (set_color t p k)"
  using assms by (auto simp: bare_def follows_def set_defs split: option.splits)

lemma bare_augment: "bare g s t \<Longrightarrow> follows (bare g) (rb_augment s p) (rb_augment t p)"
  by (auto simp: bare_def follows_def rb_augment_def split: option.splits)

lemma bare_walk:
  "bare g s t \<Longrightarrow> follows (=) (lib_rbMinimum (nodes s) p) (lib_rbMinimum (nodes t) p)"
  "bare g s t \<Longrightarrow> follows (=) (lib_rbMaximum (nodes s) p) (lib_rbMaximum (nodes t) p)"
  by (simp_all add: bare_def follows_def)

lemma bare_transplant: "bare g s t \<Longrightarrow> follows (bare g) (rb_transplant s u v) (rb_transplant t u v)"
  unfolding rb_transplant_def
  by (intro follows_bind [where R = "bare g"] follows_bind [where R = "(=)"] follows_if follows_Some
      bare_node bare_root bare_set bare_augment; simp add: bare_node bare_root bare_set bare_augment)


lemma follows_eq: "follows (=) X Y \<Longrightarrow> (\<And>a. follows Q (F a) (G a)) \<Longrightarrow> follows Q (X \<bind> F) (Y \<bind> G)"
  by (rule follows_bind [where R = "(=)"]) auto

lemma follows_pair:
  "follows (\<lambda>a b. bare g (fst a) (fst b) \<and> snd a = snd b) X Y \<Longrightarrow> (\<And>s t p. bare g s t \<Longrightarrow> follows Q (F s p) (G t p)) \<Longrightarrow>
     follows Q (X \<bind> (\<lambda>(s, p). F s p)) (Y \<bind> (\<lambda>(s, p). G s p))"
  by (rule follows_bind [where R = "\<lambda>a b. bare g (fst a) (fst b) \<and> snd a = snd b"]) auto

lemma bare_unlink: "bare g s t \<Longrightarrow> follows (\<lambda>a b. bare g (fst a) (fst b) \<and> snd a = snd b) (rb_unlink s z) (rb_unlink t z)"
  unfolding rb_unlink_def
  apply (rule follows_eq, erule bare_node)
  apply (rule follows_if [OF refl])
   apply (rule follows_bind [where R = "bare g"], erule bare_transplant)
   apply (rule follows_Some, simp)
  apply (rule follows_if [OF refl])
   apply (rule follows_bind [where R = "bare g"], erule bare_transplant)
   apply (rule follows_Some, simp)
  apply (rule follows_eq, erule bare_walk)
  apply (rule follows_eq, erule bare_node)
  apply (rule follows_pair)
   apply (rule follows_if [OF refl])
    apply (rule follows_Some, simp)
   apply (rule follows_bind [where R = "bare g"], erule bare_transplant)
   apply (rule follows_eq, erule bare_node)
   apply (rule follows_bind [where R = "bare g"], erule bare_set)
   apply (rule follows_bind [where R = "bare g"], erule bare_set)
   apply (rule follows_Some, simp)
  apply (rule follows_bind [where R = "bare g"], erule bare_transplant)
  apply (rule follows_eq, erule bare_node)
  apply (rule follows_bind [where R = "bare g"], erule bare_set)
  apply (rule follows_bind [where R = "bare g"], erule bare_set)
  apply (rule follows_eq, erule bare_node)
  apply (rule follows_bind [where R = "bare g"], erule bare_set)
  apply (rule follows_eq, erule bare_node)
  apply (rule follows_eq, erule bare_walk)
  apply (rule follows_bind [where R = "bare g"], erule bare_augment)
  apply (rule follows_eq, erule bare_node)
  apply (rule follows_eq, erule bare_walk)
  apply (rule follows_bind [where R = "bare g"], erule bare_augment)
  apply (rule follows_Some, simp)
  done

subsection \<open>Removal: the links\<close>

lemma rb_augment_None [simp]: "augment s = None \<Longrightarrow> rb_augment s p = Some s"
  by (simp add: rb_augment_def)

lemma transplant_child:
  assumes "tree_at s (plug fs (Nd l u c r))" "augment s = None" "(l = Tip \<and> t = r) \<or> (r = Tip \<and> t = l)"
  shows "\<exists>s'. rb_transplant s u (ptr t) = Some s' \<and> tree_at s' (plug fs t) \<and> augment s' = None \<and> udata s' = udata s \<and> nodes s' u = nodes s u \<and>
    same_but (set (inorder (plug fs (Nd l u c r)))) s s'"
proof -
  have T: "root s = ptr (plug fs (Nd l u c r))" "rep (nodes s) (cptr fs) (Nd l u c r)" "repc (nodes s) fs u"
    "distinct (before fs @ inorder (Nd l u c r) @ behind fs)"
    using assms(1) by (simp_all add: tree_at_plug)
  show ?thesis
  proof (cases fs)
    case Nil
    show ?thesis using T assms(2,3)
      by (cases t) (auto simp: Nil rb_transplant_def set_defs tree_at_def same_but_def)
  next
    case (Cons f gs)
    have R: "root s = ptr (plug (f # gs) t)"
      using T(1) Cons ptr_plug_Cons [of f gs] by metis
    show ?thesis
    proof (cases f)
      case (LF g cg w)
      show ?thesis using T R assms(2,3)
        by (cases t) (auto simp: Cons LF rb_transplant_def set_defs tree_at_plug same_but_def fun_upd_twist)
    next
      case (RF w g cg)
      have "ptr w \<noteq> u" using T(4) T(2) by (intro ptr_neq) (auto simp: Cons RF)
      then show ?thesis using T R assms(2,3)
        by (cases t) (auto simp: Cons RF rb_transplant_def set_defs tree_at_plug same_but_def fun_upd_twist)
    qed
  qed
qed


text \<open>\<open>y\<close> with its right subtree takes the place of \<open>z\<close>.\<close>

lemma place_links:
  assumes root: "root s = ptr (plug fs (Nd l z cz Tip))" and aug: "augment s = None" and l: "l \<noteq> Tip"
    and z: "z \<noteq> NULL" "nodes s z = Some nz" "parent nz = cptr fs" "left nz = ptr l" "color nz = cz"
    and y: "y \<noteq> NULL" "nodes s y = Some ny" "right ny = ptr r" and r: "rep (nodes s) y r"
    and reps: "repc (nodes s) fs z" "rep (nodes s) z l"
    and dist: "distinct (before fs @ inorder l @ z # y # inorder r @ behind fs)"
  shows "\<exists>s'. do {
      s \<leftarrow> rb_transplant s z y;
      nz \<leftarrow> nodes s z;
      s \<leftarrow> set_left s y (left nz);
      s \<leftarrow> set_parent s (left nz) y;
      nz \<leftarrow> nodes s z;
      set_color s y (color nz) } = Some s' \<and> tree_at s' (plug fs (Nd l y cz r)) \<and> augment s' = None \<and> udata s' = udata s \<and>
    same_but (set (before fs @ inorder l @ y # inorder r @ behind fs)) s s'"
proof -
  obtain ll lx lc lr where lx: "l = Nd ll lx lc lr" using l by (cases l) auto
  show ?thesis
  proof (cases fs)
    case Nil
    show ?thesis using assms
      by (auto simp: Nil lx rb_transplant_def set_defs tree_at_def same_but_def fun_upd_twist)
  next
    case (Cons f gs)
    have R: "root s = ptr (plug (f # gs) (Nd l y cz r))"
      using root Cons ptr_plug_Cons [of f gs] by metis
    show ?thesis
    proof (cases f)
      case (LF g cg w)
      show ?thesis using assms R
        by (auto simp: Cons LF lx rb_transplant_def set_defs tree_at_plug same_but_def fun_upd_twist)
    next
      case (RF w g cg)
      have "ptr w \<noteq> z" using dist z(1) by (intro ptr_neq) (auto simp: Cons RF)
      then show ?thesis using assms R
        by (auto simp: Cons RF lx rb_transplant_def set_defs tree_at_plug same_but_def fun_upd_twist)
    qed
  qed
qed


text \<open>The first node of a subtree with the way back to the root of the subtree.\<close>

primrec min_at :: "ptree \<Rightarrow> frame list \<Rightarrow> frame list \<times> addr \<times> rbcolor_t \<times> ptree" where
  "min_at Tip ys = (ys, NULL, RB_BLACK, Tip)"
| "min_at (Nd l y c r) ys = (if l = Tip then (ys, y, c, r) else min_at l (LF y c r # ys))"

definition unlinked :: "frame list \<Rightarrow> ptree \<Rightarrow> rbcolor_t \<Rightarrow> ptree \<Rightarrow> frame list \<times> ptree \<times> rbcolor_t" where
  "unlinked fs l c r =
     (if l = Tip then (fs, r, c) else if r = Tip then (fs, l, c)
      else case min_at r [] of (ys, y, cy, t) \<Rightarrow> (ys @ RF l y c # fs, t, cy))"

lemma plug_append [simp]: "plug (gs @ hs) t = plug hs (plug gs t)"
  by (induction gs arbitrary: t) simp_all

lemma before_append [simp]: "before (gs @ hs) = before hs @ before gs"
  by (induction gs) simp_all

lemma behind_append [simp]: "behind (gs @ hs) = behind gs @ behind hs"
  by (induction gs) simp_all

lemma min_at_ok: "t \<noteq> Tip \<Longrightarrow> min_at t ys = (zs, y, c, r) \<Longrightarrow>
    plug zs (Nd Tip y c r) = plug ys t \<and> before zs = before ys \<and> (\<exists>us. zs = us @ ys) \<and> y = hd (inorder t)"
proof (induction t arbitrary: ys)
  case (Nd l x k d)
  show ?case
  proof (cases "l = Tip")
    case False
    have "inorder l \<noteq> []" using False by (cases l) auto
    then show ?thesis using Nd.IH(1) [OF False, of "LF x k d # ys"] Nd.prems False by (auto simp: hd_append)
  qed (use Nd.prems in auto)
qed simp

lemma walks_ok:
  assumes "tree_at s (plug fs (Nd l y c r))" "augment s = None"
  shows "do {
      ny \<leftarrow> nodes s y;
      t \<leftarrow> lib_rbMaximum (nodes s) (left ny);
      s \<leftarrow> rb_augment s t;
      ny \<leftarrow> nodes s y;
      t \<leftarrow> lib_rbMinimum (nodes s) (right ny);
      s \<leftarrow> rb_augment s t;
      Some (s, k) } = Some (s, k)"
  using assms minimum_ok [of "nodes s" y r] maximum_ok [of "nodes s" y l] by (auto simp: tree_at_plug)

lemma unlink_bare:
  assumes T: "tree_at s (plug fs (Nd l z cz r))" and a: "augment s = None" and u: "unlinked fs l cz r = (fs', t, c)"
  shows "\<exists>s'. rb_unlink s z = Some (s', c, cptr fs', ptr t) \<and> tree_at s' (plug fs' t) \<and> udata s' = udata s \<and>
    same_but (set (inorder (plug fs (Nd l z cz r)))) s s'"
proof -
  have nz: "nodes s z = Some \<lparr>parent = cptr fs, left = ptr l, right = ptr r, color = cz\<rparr>" "z \<noteq> NULL"
    and rl: "rep (nodes s) z l" and rr: "rep (nodes s) z r" and rf: "repc (nodes s) fs z"
    and rt: "root s = ptr (plug fs (Nd l z cz r))" and d: "distinct (inorder (plug fs (Nd l z cz r)))"
    using T by (simp_all add: tree_at_plug)
  consider "l = Tip" | "l \<noteq> Tip" "r = Tip" | "l \<noteq> Tip" "r \<noteq> Tip" by blast
  then show ?thesis
  proof cases
    case 1
    then show ?thesis using transplant_child [OF T a, of r] nz u by (auto simp: rb_unlink_def unlinked_def)
  next
    case 2
    then show ?thesis using transplant_child [OF T a, of l] nz u rep_ptr [OF rl]
      by (auto simp: rb_unlink_def unlinked_def)
  next
    case 3
    obtain ys y cy yr where m: "min_at r [] = (ys, y, cy, yr)" by (cases "min_at r []") auto
    have my: "plug ys (Nd Tip y cy yr) = r" "before ys = []" "y = hd (inorder r)" using min_at_ok [OF 3(2) m] by auto
    have f': "fs' = ys @ RF l y cz # fs" "t = yr" "c = cy" using u 3 m by (simp_all add: unlinked_def)
    have T1: "tree_at s (plug (ys @ RF l z cz # fs) (Nd Tip y cy yr))" using T my(1) by simp
    have ny: "nodes s y = Some \<lparr>parent = cptr (ys @ RF l z cz # fs), left = NULL, right = ptr yr, color = cy\<rparr>" "y \<noteq> NULL"
      using T1 unfolding tree_at_plug by simp_all
    have ne: "ptr l \<noteq> NULL" "ptr r \<noteq> NULL" using 3 rep_ptr [OF rl] rep_ptr [OF rr] by auto
    have min: "lib_rbMinimum (nodes s) (ptr r) = Some y" using minimum_ok [OF rr] 3 my(3) by simp
    have dy: "distinct (before fs @ inorder l @ z # y # inorder yr @ behind ys @ behind fs)"
      using d unfolding inorder_plug my(1) [symmetric] by (simp add: my(2))
    have "\<exists>s2 r'. plug ys yr = r' \<and> (do {
        (s, p) \<leftarrow> (if cptr (ys @ RF l z cz # fs) = z then Some (s, y)
          else do {
            s \<leftarrow> rb_transplant s y (ptr yr);
            nz \<leftarrow> nodes s z;
            s \<leftarrow> set_right s y (right nz);
            s \<leftarrow> set_parent s (right nz) y;
            Some (s, cptr (ys @ RF l z cz # fs)) });
        Some (s, p) }) = Some (s2, cptr fs') \<and>
      root s2 = ptr (plug fs (Nd l z cz Tip)) \<and> augment s2 = None \<and> udata s2 = udata s \<and>
      (\<exists>nz. nodes s2 z = Some nz \<and> parent nz = cptr fs \<and> left nz = ptr l \<and> color nz = cz) \<and>
      (\<exists>ny. nodes s2 y = Some ny \<and> right ny = ptr r') \<and> rep (nodes s2) y r' \<and> repc (nodes s2) fs z \<and> rep (nodes s2) z l \<and>
      distinct (before fs @ inorder l @ z # y # inorder r' @ behind fs) \<and>
      set (before fs @ inorder l @ y # inorder r' @ behind fs) \<subseteq> set (inorder (plug fs (Nd l z cz r))) \<and>
      same_but (set (inorder (plug fs (Nd l z cz r)))) s s2"
    proof (cases ys)
      case Nil
      have rt': "root s = ptr (plug fs (Nd l z cz Tip))" using rt ptr_plug [of "Nd l z cz r" "Nd l z cz Tip" fs] by simp
      have rep_yr: "rep (nodes s) y yr" using rr unfolding my(1) [symmetric] Nil by simp
      show ?thesis
        using rt' a nz ny rl rf dy rep_yr unfolding my(1) [symmetric]
        by (intro exI [of _ s] exI [of _ yr]) (auto simp: Nil f')
    next
      case (Cons f ys')
      have q: "faddr f \<noteq> z" "faddr f \<in> set (behind ys)"
        using dy my(2) by (auto simp: Cons split: frame.splits)
      obtain s1 where s1: "rb_transplant s y (ptr yr) = Some s1" "tree_at s1 (plug (ys @ RF l z cz # fs) yr)" "augment s1 = None"
        "udata s1 = udata s"
        "nodes s1 y = nodes s y" "same_but (set (inorder (plug fs (Nd l z cz r)))) s s1"
        using transplant_child [OF T1 a, of yr] my(1) by auto
      have r1: "plug ys yr \<noteq> Tip" using q(2)
        by (metis append_is_Nil_conv empty_iff inorder.simps(1) inorder_plug list.set(1))
      then obtain ra rx rc rb where r': "plug ys yr = Nd ra rx rc rb" by (cases "plug ys yr") auto
      have t1: "tree_at s1 (plug fs (Nd l z cz (Nd ra rx rc rb)))" using s1(2) r' by simp
      have i1: "inorder (Nd ra rx rc rb) = inorder yr @ behind ys" using my(2) r' [symmetric] by simp
      have d1: "distinct (before fs @ inorder l @ z # y # inorder (Nd ra rx rc rb) @ behind fs)"
        using dy unfolding i1 by simp
      have rt1: "root s1 = ptr (plug fs (Nd l z cz Tip))"
        using t1 ptr_plug [of "Nd l z cz (Nd ra rx rc rb)" "Nd l z cz Tip" fs] by (simp add: tree_at_def)
      have sub: "set (before fs @ inorder l @ y # inorder (Nd ra rx rc rb) @ behind fs) \<subseteq> set (inorder (plug fs (Nd l z cz r)))"
        unfolding i1 my(1) [symmetric] by (auto simp: my(2))
      let ?py = "cptr (ys @ RF l z cz # fs)"
      let ?h = "(nodes s1)(y \<mapsto> \<lparr>parent = ?py, left = NULL, right = rx, color = cy\<rparr>,
        rx \<mapsto> \<lparr>parent = y, left = ptr ra, right = ptr rb, color = rc\<rparr>)"
      let ?s2 = "s1\<lparr>nodes := ?h\<rparr>"
      have n1: "nodes s1 z = Some \<lparr>parent = cptr fs, left = ptr l, right = rx, color = cz\<rparr>" "rep (nodes s1) z l"
        "nodes s1 rx = Some \<lparr>parent = z, left = ptr ra, right = ptr rb, color = rc\<rparr>" "rep (nodes s1) rx ra"
        "rep (nodes s1) rx rb" "repc (nodes s1) fs z" "rx \<noteq> NULL"
        using t1 by (simp_all add: tree_at_plug)
      have nn: "z \<noteq> y" "z \<noteq> rx" "y \<noteq> rx" using d1 by auto
      have py: "?py = faddr f" "?py = cptr fs'" "?py \<noteq> z" using q by (simp_all add: Cons f')
      have "rep ?h y (Nd ra rx rc rb)" "repc ?h fs z" "rep ?h z l" using n1 d1 by auto
      moreover have "?h z = Some \<lparr>parent = cptr fs, left = ptr l, right = rx, color = cz\<rparr>" using n1(1) nn by simp
      moreover have "?h y = Some \<lparr>parent = ?py, left = NULL, right = rx, color = cy\<rparr>" using nn by simp
      moreover have "same_but (set (inorder (plug fs (Nd l z cz r)))) s ?s2"
        using s1(6) sub by (auto simp: same_but_def)
      moreover have "(do {
        (s, p) \<leftarrow> (if ?py = z then Some (s, y)
          else do {
            s \<leftarrow> rb_transplant s y (ptr yr);
            nz \<leftarrow> nodes s z;
            s \<leftarrow> set_right s y (right nz);
            s \<leftarrow> set_parent s (right nz) y;
            Some (s, ?py) });
        Some (s, p) }) = Some (?s2, cptr fs')"
        using s1(1,5) n1 nn ny(1) py by (simp add: set_defs)
      ultimately show ?thesis
        unfolding r' using rt1 s1(3,4) d1 sub by (intro exI [of _ ?s2] exI [of _ "Nd ra rx rc rb"]) (simp del: fun_upd_apply)
    qed
    then obtain s2 r' nz2 ny2 where S: "plug ys yr = r'" "(do {
        (s, p) \<leftarrow> (if cptr (ys @ RF l z cz # fs) = z then Some (s, y)
          else do {
            s \<leftarrow> rb_transplant s y (ptr yr);
            nz \<leftarrow> nodes s z;
            s \<leftarrow> set_right s y (right nz);
            s \<leftarrow> set_parent s (right nz) y;
            Some (s, cptr (ys @ RF l z cz # fs)) });
        Some (s, p) }) = Some (s2, cptr fs')"
      "root s2 = ptr (plug fs (Nd l z cz Tip))" "augment s2 = None" "udata s2 = udata s"
      "nodes s2 z = Some nz2" "parent nz2 = cptr fs" "left nz2 = ptr l" "color nz2 = cz"
      "nodes s2 y = Some ny2" "right ny2 = ptr r'" "rep (nodes s2) y r'" "repc (nodes s2) fs z" "rep (nodes s2) z l"
      "distinct (before fs @ inorder l @ z # y # inorder r' @ behind fs)"
      "set (before fs @ inorder l @ y # inorder r' @ behind fs) \<subseteq> set (inorder (plug fs (Nd l z cz r)))"
      "same_but (set (inorder (plug fs (Nd l z cz r)))) s s2" by blast
    obtain s3 where s3: "do {
        s \<leftarrow> rb_transplant s2 z y;
        nz \<leftarrow> nodes s z;
        s \<leftarrow> set_left s y (left nz);
        s \<leftarrow> set_parent s (left nz) y;
        nz \<leftarrow> nodes s z;
        set_color s y (color nz) } = Some s3" "tree_at s3 (plug fs (Nd l y cz r'))" "augment s3 = None"
      "udata s3 = udata s2"
      "same_but (set (before fs @ inorder l @ y # inorder r' @ behind fs)) s2 s3"
      using place_links [OF S(3,4) 3(1) nz(2) S(6-9) ny(2) S(10-15)] by blast
    have "rb_unlink s z = do {
        (s, p) \<leftarrow> (do {
          (s, p) \<leftarrow> (if cptr (ys @ RF l z cz # fs) = z then Some (s, y)
            else do {
              s \<leftarrow> rb_transplant s y (ptr yr);
              nz \<leftarrow> nodes s z;
              s \<leftarrow> set_right s y (right nz);
              s \<leftarrow> set_parent s (right nz) y;
              Some (s, cptr (ys @ RF l z cz # fs)) });
          Some (s, p) });
        s \<leftarrow> (do {
          s \<leftarrow> rb_transplant s z y;
          nz \<leftarrow> nodes s z;
          s \<leftarrow> set_left s y (left nz);
          s \<leftarrow> set_parent s (left nz) y;
          nz \<leftarrow> nodes s z;
          set_color s y (color nz) });
        ny \<leftarrow> nodes s y;
        t \<leftarrow> lib_rbMaximum (nodes s) (left ny);
        s \<leftarrow> rb_augment s t;
        ny \<leftarrow> nodes s y;
        t \<leftarrow> lib_rbMinimum (nodes s) (right ny);
        s \<leftarrow> rb_augment s t;
        Some (s, cy, p, ptr yr) }"
      using nz ne min ny by (simp add: rb_unlink_def Option.bind_assoc case_prod_unfold)
    then have "rb_unlink s z = Some (s3, cy, cptr fs', ptr yr)"
      by (simp only: S(2) Option.bind.simps prod.case s3(1) walks_ok [OF s3(2,3)])
    moreover have "tree_at s3 (plug fs' t)" using s3(2) S(1) by (simp add: f')
    moreover have "same_but (set (inorder (plug fs (Nd l z cz r)))) s s3"
      using S(16,17) s3(5) by (auto simp: same_but_def)
    ultimately show ?thesis using S(5) s3(4) by (auto simp: f')
  qed
qed


lemma cptr_eq_Nil: "rep h (cptr fs) t \<Longrightarrow> repc h fs (ptr t) \<Longrightarrow> cptr fs = NULL \<Longrightarrow> fs = []"
  by (cases fs) auto

lemma unlinked_inv:
  assumes T: "rbt (plug fs (Nd l z cz r))" and u: "unlinked fs l cz r = (fs', t, c)"
  shows "invc (plug fs' Tip)" "invc t" "invh t" "fs' \<noteq> [] \<Longrightarrow> fcol (last fs') = RB_BLACK"
    and "c = RB_BLACK \<Longrightarrow> invh (plug fs' (Nd t d RB_BLACK t))"
    and "c = RB_RED \<Longrightarrow> rbt (plug fs' t)"
proof -
  have leaf: "invc (plug gs Tip) \<and> invc a \<and> invh a \<and> (gs \<noteq> [] \<longrightarrow> fcol (last gs) = RB_BLACK) \<and>
      (k = RB_BLACK \<longrightarrow> invh (plug gs (Nd a d RB_BLACK a))) \<and> (k = RB_RED \<longrightarrow> rbt (plug gs a))"
    if r: "rbt (plug gs (Nd b y k e))" and a: "(b = Tip \<and> a = e) \<or> (e = Tip \<and> a = b)" for gs a b y k e
  proof -
    have i: "invc (plug gs (Nd b y k e))" "invh (plug gs (Nd b y k e))" "col (plug gs (Nd b y k e)) = RB_BLACK"
      using r by (simp_all add: rbt_def)
    have s: "invc (Nd b y k e)" "invh (Nd b y k e)" using i(1,2) invc_sub invh_sub by blast+
    have l: "gs \<noteq> [] \<Longrightarrow> fcol (last gs) = RB_BLACK" using last_black [of gs "Nd b y k e"] i(3) by simp
    have "invh (plug gs (Nd a d RB_BLACK a))" if "k = RB_BLACK"
      using invh_repl [OF i(2), of "Nd a d RB_BLACK a"] s(2) a that by auto
    moreover have "rbt (plug gs a)" if "k = RB_RED"
    proof -
      have "gs \<noteq> []" using i(3) that by auto
      then have "col (plug gs a) = RB_BLACK" using last_black [of gs a] l by simp
      moreover have "invh (plug gs a)" using invh_repl [OF i(2), of a] s(2) a that by auto
      moreover have "invc (plug gs a)" using invc_repl [OF i(1), of a] s(1) a that by auto
      ultimately show ?thesis by (simp add: rbt_def)
    qed
    ultimately show ?thesis using invc_repl [OF i(1), of Tip] s a l by auto
  qed
  have "invc (plug fs' Tip) \<and> invc t \<and> invh t \<and> (fs' \<noteq> [] \<longrightarrow> fcol (last fs') = RB_BLACK) \<and>
      (c = RB_BLACK \<longrightarrow> invh (plug fs' (Nd t d RB_BLACK t))) \<and> (c = RB_RED \<longrightarrow> rbt (plug fs' t))"
  proof (cases "l = Tip \<or> r = Tip")
    case True
    then show ?thesis using leaf [of fs l z cz r t] T u by (auto simp: unlinked_def split: if_splits)
  next
    case False
    then have ne: "l \<noteq> Tip" "r \<noteq> Tip" by auto
    obtain ys y cy yr where m: "min_at r [] = (ys, y, cy, yr)" by (cases "min_at r []") auto
    have my: "plug ys (Nd Tip y cy yr) = r" using min_at_ok [OF ne(2) m] by (metis plug.simps(1))
    have f': "fs' = ys @ RF l y cz # fs" "t = yr" "c = cy" using u ne m by (simp_all add: unlinked_def)
    have i: "invc (plug fs (Nd l z cz r))" "invh (plug fs (Nd l z cz r))" "col (plug fs (Nd l z cz r)) = RB_BLACK"
      using T by (simp_all add: rbt_def)
    have s: "invc (Nd l z cz r)" "invh (Nd l z cz r)" using i(1,2) invc_sub invh_sub by blast+
    have "invc (plug fs (Nd l y cz r))" "invh (plug fs (Nd l y cz r))"
      using invc_repl [OF i(1), of "Nd l y cz r"] invh_repl [OF i(2), of "Nd l y cz r"] s by auto
    moreover have "col (plug fs (Nd l y cz r)) = RB_BLACK"
      using last_black [of fs "Nd l y cz r"] last_black [of fs "Nd l z cz r"] i(3) by (cases "fs = []") auto
    ultimately have "rbt (plug fs' (Nd Tip y cy yr))" by (simp add: rbt_def f' my)
    then show ?thesis using leaf [of fs' Tip y cy yr yr] f' by simp
  qed
  then show "invc (plug fs' Tip)" "invc t" "invh t" "fs' \<noteq> [] \<Longrightarrow> fcol (last fs') = RB_BLACK"
    "c = RB_BLACK \<Longrightarrow> invh (plug fs' (Nd t d RB_BLACK t))" "c = RB_RED \<Longrightarrow> rbt (plug fs' t)" by auto
qed

lemma unlinked_inorder:
  assumes "unlinked fs l cz r = (fs', t, c)"
  shows "inorder (plug fs' t) = before fs @ inorder l @ inorder r @ behind fs"
proof -
  obtain ys y cy yr where m: "min_at r [] = (ys, y, cy, yr)" by (cases "min_at r []") auto
  show ?thesis
  proof (cases "l = Tip \<or> r = Tip")
    case False
    then have "plug ys (Nd Tip y cy yr) = r" "before ys = []" using min_at_ok [OF _ m] by auto
    then show ?thesis using assms m False by (auto simp: unlinked_def)
  qed (use assms in \<open>auto simp: unlinked_def split: if_splits\<close>)
qed

context rb_user
begin

lemma own_other:
  assumes "own s T" "a \<notin> set (inorder T)"
  shows "own (s\<lparr>nodes := (nodes s)(a := v)\<rparr>) T"
  using assms by (simp add: own_def tree_at_def)

lemma remove_balance_ok:
  assumes o: "own s (plug fs t)" and nil: "nil \<noteq> NULL" "nil \<notin> set (inorder (plug fs t))" "nodes s nil = None"
    and inv: "invc (plug fs Tip)" "invc t" "invh t" "invh (plug fs (Nd t d RB_BLACK t))"
    and l: "fs \<noteq> [] \<Longrightarrow> fcol (last fs) = RB_BLACK"
  shows "\<exists>s' T'. lib_rbRemoveBalance nil s (cptr fs) (ptr t) = Some s' \<and> own s' T' \<and> inorder T' = inorder (plug fs t) \<and>
    rbt T' \<and> same_but (set (inorder (plug fs t))) s s'"
proof -
  let ?s = "s\<lparr>nodes := (nodes s)(nil \<mapsto> \<lparr>parent = cptr fs, left = NULL, right = NULL, color = RB_BLACK\<rparr>)\<rparr>"
  let ?x = "if ptr t = NULL then nil else ptr t"
  have o1: "own ?s (plug fs t)" using own_other [OF o nil(2)] .
  have t0: "ptr t = NULL \<longleftrightarrow> t = Tip" using rep_ptr [OF own_rep [OF o]] .
  show ?thesis
  proof (cases "fs = [] \<and> t = Tip")
    case True
    have s': "s\<lparr>nodes := (nodes s)(nil := None)\<rparr> = s" using nil(3) by (simp add: fun_upd_idem)
    have "root s = NULL" using o True by (simp add: own_def tree_at_def)
    then have "lib_rbRemoveBalance nil s (cptr fs) (ptr t) = Some s"
      using True s' by (simp add: lib_rbRemoveBalance_def)
    then show ?thesis using o True by (intro exI [of _ s] exI [of _ Tip]) (simp add: rbt_def)
  next
    case False
    have h: "hole nil ?s fs t ?x" using nil t0 by (auto simp: hole_def)
    have p: "invc (paint t)" using inv(2) by (cases t) auto
    obtain s1 T1 where 1: "do { (s, x) \<leftarrow> remove_loop nil ?s ?x; set_color s x RB_BLACK } = Some s1" "own s1 T1"
      "inorder T1 = inorder (plug fs t)" "rbt T1" "same_but (set (inorder (plug fs t))) ?s s1"
      using remove_loop_ok [OF o1 h _ inv(1) p inv(3,4) l] False by auto
    let ?s' = "s1\<lparr>nodes := (nodes s1)(nil := None)\<rparr>"
    have "root s = ptr (plug fs t)" using o by (simp add: own_def tree_at_def)
    moreover have "plug fs t \<noteq> Tip" using False
      by (metis (no_types, opaque_lifting) Un_empty empty_set inorder.simps(1) inorder_plug root_in empty_iff set_append
          append_is_Nil_conv list.distinct(1) inorder.simps(2) ptree.exhaust plug.simps(1))
    ultimately have "root s \<noteq> NULL" using rep_ptr o by (auto simp: own_def tree_at_def)
    then have "lib_rbRemoveBalance nil s (cptr fs) (ptr t) = Some ?s'"
      using 1(1) by (simp add: lib_rbRemoveBalance_def Let_def)
    moreover have "own ?s' T1" using own_other [OF 1(2)] 1(3) nil(2) by simp
    moreover have "same_but (set (inorder (plug fs t))) s ?s'"
      using 1(5) nil(3) by (auto simp: same_but_def)
    ultimately show ?thesis using 1(3,4) by blast
  qed
qed

end

locale rb_removable = rb_map cmp key A aug J comparer
  for cmp :: rbcomp_t and key :: "addr \<Rightarrow> int" and A :: "addr set"
    and aug :: "'u rbaugment_t option" and J :: "ptree \<Rightarrow> 'u \<Rightarrow> bool" and comparer :: "'u \<Rightarrow> rbcomp_t" +
  assumes unlink: "\<lbrakk>own s (plug fs (Nd l z c r)); rbt (plug fs (Nd l z c r)); unlinked fs l c r = (fs', t, k)\<rbrakk>
    \<Longrightarrow> \<exists>s' v. rb_unlink s z = Some (s', v) \<and> J (plug fs' t) (udata s')"
begin

lemma unlink_ok:
  assumes o: "own s (plug fs (Nd l z c r))" and "rbt (plug fs (Nd l z c r))" and u: "unlinked fs l c r = (fs', t, k)"
  shows "\<exists>s'. rb_unlink s z = Some (s', k, cptr fs', ptr t) \<and> own s' (plug fs' t) \<and>
    same_but (set (inorder (plug fs (Nd l z c r)))) s s'"
proof -
  let ?s = "s\<lparr>augment := None\<rparr>"
  obtain s' v where s': "rb_unlink s z = Some (s', v)" "J (plug fs' t) (udata s')" using unlink [OF assms] by blast
  have "tree_at ?s (plug fs (Nd l z c r))" using o by (simp add: own_def tree_at_def)
  then obtain t' where t': "rb_unlink ?s z = Some (t', k, cptr fs', ptr t)" "tree_at t' (plug fs' t)"
    "same_but (set (inorder (plug fs (Nd l z c r)))) ?s t'"
    using unlink_bare [OF _ _ u] by fastforce
  have "bare aug s ?s" using o by (simp add: bare_def own_def)
  then have "bare aug s' t' \<and> v = (k, cptr fs', ptr t)"
    using bare_unlink [of aug s ?s z] s'(1) t'(1) by (auto simp: follows_def)
  then show ?thesis using s' t' o by (auto simp: bare_def own_def tree_at_def same_but_def)
qed

lemma lib_rbRemove_holds:
  assumes h: "holds s (as @ z # bs)" and nil: "nil \<noteq> NULL" "nodes s nil = None"
  shows "\<exists>s'. lib_rbRemove nil s z = Some s' \<and> holds s' (as @ bs) \<and> same_but (set (as @ z # bs)) s s'"
proof -
  obtain T where T: "own s T" "rbt T" "inorder T = as @ z # bs" "set (as @ z # bs) \<subseteq> A"
    "sorted_wrt (<) (map key (as @ z # bs))" "compare s = comparer"
    using h by (auto simp: holds_def)
  obtain fs l c r where f: "T = plug fs (Nd l z c r)" using focus [of z T] T(3) by auto
  have o: "own s (plug fs (Nd l z c r))" using T(1) f by simp
  have d: "distinct (as @ z # bs)" using T(1,3) by (simp add: own_def tree_at_def)
  have ab: "as = before fs @ inorder l" "bs = inorder r @ behind fs"
  proof -
    have q: "as @ z # bs = (before fs @ inorder l) @ z # inorder r @ behind fs" using T(3) f by simp
    show "as = before fs @ inorder l" "bs = inorder r @ behind fs" using split_unique [OF q d] by simp_all
  qed
  obtain fs' t k where u: "unlinked fs l c r = (fs', t, k)" by (cases "unlinked fs l c r") auto
  note v = unlinked_inv [OF T(2) [unfolded f] u]
  obtain s1 where s1: "rb_unlink s z = Some (s1, k, cptr fs', ptr t)" "own s1 (plug fs' t)"
    "same_but (set (as @ z # bs)) s s1"
    using unlink_ok [OF o T(2) [unfolded f] u, folded f, unfolded T(3)] by blast
  have i1: "inorder (plug fs' t) = as @ bs" using unlinked_inorder [OF u] ab by simp
  have nT: "nil \<notin> set (as @ z # bs)"
    using T(1,3) nil(2) rep_mapped [of "nodes s" NULL T nil] by (auto simp: own_def tree_at_def)
  have n1: "nodes s1 nil = None" "nil \<notin> set (inorder (plug fs' t))" using s1(3) nil(2) nT i1 by (auto simp: same_but_def)
  have srt: "sorted_wrt (<) (map key (as @ bs))" "set (as @ bs) \<subseteq> A" using T(4,5) by (auto simp: sorted_wrt_append)
  have sub: "set (as @ bs) \<subseteq> set (as @ z # bs)" by auto
  show ?thesis
  proof (cases "k = RB_BLACK")
    case True
    obtain s2 T2 where 2: "lib_rbRemoveBalance nil s1 (cptr fs') (ptr t) = Some s2" "own s2 T2" "inorder T2 = as @ bs" "rbt T2"
      "same_but (set (as @ bs)) s1 s2"
      using remove_balance_ok [OF s1(2) nil(1) n1(2,1) v(1-3) v(5) [OF True] v(4), unfolded i1] by blast
    have "lib_rbRemove nil s z = Some s2" using s1(1) 2(1) True by (simp add: lib_rbRemove_def)
    moreover have "holds s2 (as @ bs)" using 2 srt T(6) s1(3) by (auto simp: holds_def same_but_def)
    moreover have "same_but (set (as @ z # bs)) s s2" using s1(3) 2(5) sub by (auto simp: same_but_def)
    ultimately show ?thesis by blast
  next
    case False
    then have red: "k = RB_RED" by simp
    then have "lib_rbRemove nil s z = Some s1" using s1(1) by (simp add: lib_rbRemove_def)
    moreover have "holds s1 (as @ bs)" using v(6) [OF red] s1(2,3) i1 srt T(6) by (auto simp: holds_def same_but_def)
    ultimately show ?thesis using s1(3) by blast
  qed
qed

end

end
