(* ===== verification/RBClients.thy ===== *)
theory RBClients
  imports RBRemove
begin

section \<open>Red-black trees without callback, and the per-thread error numbers of errno/errno.c\<close>

text \<open>
  The contract of sys/rb.c for a tree whose nodes carry no maintained data, stated over the functions of the code,
  and its first client: the tree of the threads' error numbers, for the targets without thread-local storage.
\<close>

subsection \<open>Trees without callback\<close>

definition search_tree :: "('u \<Rightarrow> rbcomp_t) \<Rightarrow> (addr \<Rightarrow> int) \<Rightarrow> 'u rbtree_t \<Rightarrow> addr list \<Rightarrow> bool" where
  "search_tree C key s xs \<longleftrightarrow> (\<exists>T. tree_at s T \<and> rbt T \<and> inorder T = xs) \<and> compare s = C \<and> augment s = None \<and>
     sorted_wrt (<) (map key xs)"

lemma augs_None [simp]: "augment s = None \<Longrightarrow> augs s ps = Some s"
  by (induction ps) simp_all

lemma plain_user: "rb_user cmp None (\<lambda>t v. v = u)"
  by unfold_locales (auto simp del: augs.simps)

lemma plain_own: "rb_user.own None (\<lambda>t v. v = u) s T \<longleftrightarrow> tree_at s T \<and> augment s = None \<and> udata s = u"
  by (simp add: rb_user.own_def [OF plain_user])

lemma plain_map: "rb_order (C u) key A \<Longrightarrow> rb_map (C u) key A None (\<lambda>t v. v = u) C"
  by (intro rb_map.intro plain_user rb_map_axioms.intro) simp_all

lemma plain_removable:
  assumes "rb_order (C u) key A"
  shows "rb_removable (C u) key A None (\<lambda>t v. v = u) C"
proof (rule rb_removable.intro [OF plain_map [of C u key A, OF assms]], unfold_locales)
  fix s :: "'a rbtree_t" and fs l z c r fs' t k
  assume "rb_user.own None (\<lambda>t v. v = u) s (plug fs (Nd l z c r))" and e: "unlinked fs l c r = (fs', t, k)"
  then have "tree_at s (plug fs (Nd l z c r))" "augment s = None" "udata s = u"
    by (simp_all only: plain_own)
  then show "\<exists>s' v. rb_unlink s z = Some (s', v) \<and> udata s' = u" using unlink_bare [OF _ _ e] by fastforce
qed

text \<open>The contract of the locales, for the tree in state \<open>s\<close>.\<close>

lemma plain_holds:
  assumes "rb_order (C (udata s)) key A" "set xs \<subseteq> A"
  shows "rb_map.holds key A None (\<lambda>t v. v = udata s) C s' xs \<longleftrightarrow> search_tree C key s' xs \<and> udata s' = udata s"
  using assms(2) by (auto simp: rb_map.holds_def [OF plain_map [of C "udata s" key A, OF assms(1)]] plain_own search_tree_def)

lemma plain_insert:
  assumes o: "rb_order (C (udata s)) key A" and st: "search_tree C key s xs" and A: "set xs \<subseteq> A" "z \<in> A"
  shows "y \<in> set xs \<Longrightarrow> key y = key z \<Longrightarrow> lib_rbInsert s z = Some (y, s)"
    and "z \<noteq> NULL \<Longrightarrow> nodes s z \<noteq> None \<Longrightarrow> key z \<notin> key ` set xs \<Longrightarrow>
      \<exists>s' as bs. lib_rbInsert s z = Some (NULL, s') \<and> xs = as @ bs \<and> search_tree C key s' (as @ z # bs) \<and>
        udata s' = udata s \<and> same_but (insert z (set xs)) s s'"
proof -
  note M = plain_map [of C "udata s" key A, OF o]
  have h: "rb_map.holds key A None (\<lambda>t v. v = udata s) C s xs"
    using plain_holds [of C s key A xs s, OF o A(1)] st by simp
  show "y \<in> set xs \<Longrightarrow> key y = key z \<Longrightarrow> lib_rbInsert s z = Some (y, s)"
    by (rule rb_map.lib_rbInsert_found [OF M h A(2)])
  assume z: "z \<noteq> NULL" "nodes s z \<noteq> None" "key z \<notin> key ` set xs"
  obtain s' as bs where r: "lib_rbInsert s z = Some (NULL, s')" "xs = as @ bs"
    "rb_map.holds key A None (\<lambda>t v. v = udata s) C s' (as @ z # bs)" "same_but (insert z (set xs)) s s'"
    using rb_map.lib_rbInsert_new [OF M h A(2) z] by blast
  have "set (as @ z # bs) \<subseteq> A" using A r(2) by auto
  then have "search_tree C key s' (as @ z # bs) \<and> udata s' = udata s" using plain_holds [of C s key A, OF o] r(3) by simp
  then show "\<exists>s' as bs. lib_rbInsert s z = Some (NULL, s') \<and> xs = as @ bs \<and> search_tree C key s' (as @ z # bs) \<and>
      udata s' = udata s \<and> same_but (insert z (set xs)) s s'"
    using r(1,2,4) by blast
qed

lemma plain_remove:
  assumes o: "rb_order (C (udata s)) key A" and st: "search_tree C key s (as @ z # bs)" and A: "set (as @ z # bs) \<subseteq> A"
    and nil: "nil \<noteq> NULL" "nodes s nil = None"
  shows "\<exists>s'. lib_rbRemove nil s z = Some s' \<and> search_tree C key s' (as @ bs) \<and> udata s' = udata s \<and>
    same_but (set (as @ z # bs)) s s'"
proof -
  have h: "rb_map.holds key A None (\<lambda>t v. v = udata s) C s (as @ z # bs)"
    using plain_holds [of C s key A "as @ z # bs" s, OF o A] st by simp
  have A': "set (as @ bs) \<subseteq> A" using A by auto
  show ?thesis
    using rb_removable.lib_rbRemove_holds [OF plain_removable [of C "udata s" key A, OF o] h nil]
      plain_holds [of C s key A "as @ bs", OF o A'] by blast
qed

lemma plain_find:
  assumes o: "rb_order (C (udata s)) key A" and st: "search_tree C key s xs" and A: "set xs \<subseteq> A" "node \<in> A"
  shows "lib_rbFind s node = Some (case find (\<lambda>a. key a = key node) xs of None \<Rightarrow> NULL | Some a \<Rightarrow> a)"
proof -
  have "rb_map.holds key A None (\<lambda>t v. v = udata s) C s xs"
    using plain_holds [of C s key A xs s, OF o A(1)] st by simp
  then show ?thesis by (rule rb_map.lib_rbFind_holds [OF plain_map [of C "udata s" key A, OF o] _ A(2)])
qed

subsection \<open>The error numbers of the threads\<close>

record errno_cell =
  errno_no :: int
  errno_tid :: int

type_synonym errno_tree = "(addr \<Rightarrow> errno_cell) rbtree_t"

definition errno_cmp :: "(addr \<Rightarrow> errno_cell) \<Rightarrow> rbcomp_t" where
  "errno_cmp u n1 n2 =
     (if errno_tid (u n1) < errno_tid (u n2) then 1 else 0) - (if errno_tid (u n1) > errno_tid (u n2) then 1 else 0)"

definition errno_init :: "errno_tree \<Rightarrow> errno_tree" where
  "errno_init s = lib_rbInit s errno_cmp None"

text \<open>\<open>tid\<close> is what \<open>gettid\<close> returns to the calling thread.\<close>

definition errno_new :: "int \<Rightarrow> errno_tree \<Rightarrow> addr \<Rightarrow> errno_tree option" where
  "errno_new tid s e = do {
     let s = s\<lparr>udata := (udata s)(e := \<lparr>errno_no = 0, errno_tid = tid\<rparr>)\<rparr>;
     (y, s) \<leftarrow> lib_rbInsert s e;
     Some s }"

definition errno_remove :: "addr \<Rightarrow> errno_tree \<Rightarrow> addr \<Rightarrow> errno_tree option" where
  "errno_remove nil s e = lib_rbRemove nil s e"

text \<open>\<open>r\<close> is the local variable with the key; the result is the cell, or \<open>NULL\<close> for the global one.\<close>

definition errno_location :: "int \<Rightarrow> addr \<Rightarrow> errno_tree \<Rightarrow> addr option" where
  "errno_location tid r s =
     (let s = s\<lparr>udata := (udata s)(r := (udata s r)\<lparr>errno_tid := tid\<rparr>)\<rparr> in lib_rbFind s r)"

definition errno_key :: "(addr \<Rightarrow> errno_cell) \<Rightarrow> addr \<Rightarrow> int" where
  "errno_key u a = - errno_tid (u a)"

interpretation errno_order: rb_order "errno_cmp u" "errno_key u" UNIV for u
  by unfold_locales (auto simp: errno_cmp_def errno_key_def)

interpretation errno_map: rb_removable "errno_cmp u" "errno_key u" UNIV None "\<lambda>t v. v = u" errno_cmp for u
  by (rule plain_removable [of errno_cmp u, OF errno_order.rb_order_axioms])

text \<open>The cells of the registered threads.\<close>

definition cells_of :: "errno_tree \<Rightarrow> addr set \<Rightarrow> bool" where
  "cells_of s es \<longleftrightarrow> (\<exists>xs. search_tree errno_cmp (errno_key (udata s)) s xs \<and> set xs = es)"

lemma search_tree_upd:
  assumes "search_tree C key s xs" "\<forall>a \<in> set xs. key' a = key a"
  shows "search_tree C key' (s\<lparr>udata := u\<rparr>) xs"
proof -
  have m: "map key' xs = map key xs" using assms(2) by simp
  show ?thesis using assms(1) unfolding search_tree_def m by (simp add: tree_at_def)
qed

lemma errno_location_cell:
  assumes "cells_of s es" "r \<notin> es"
  shows "e \<in> es \<Longrightarrow> errno_tid (udata s e) = t \<Longrightarrow> errno_location t r s = Some e"
    and "t \<notin> (\<lambda>e. errno_tid (udata s e)) ` es \<Longrightarrow> errno_location t r s = Some NULL"
proof -
  let ?s = "s\<lparr>udata := (udata s)(r := (udata s r)\<lparr>errno_tid := t\<rparr>)\<rparr>"
  obtain xs where xs: "search_tree errno_cmp (errno_key (udata s)) s xs" "set xs = es"
    using assms(1) by (auto simp: cells_of_def)
  have st: "search_tree errno_cmp (errno_key (udata ?s)) ?s xs"
    using xs assms(2) by (intro search_tree_upd [OF xs(1)]) (auto simp: errno_key_def)
  have f: "errno_location t r s = Some (case find (\<lambda>a. errno_key (udata ?s) a = - t) xs of None \<Rightarrow> NULL | Some a \<Rightarrow> a)"
    using plain_find [OF errno_order.rb_order_axioms st, of r] by (simp add: errno_location_def errno_key_def)
  have k: "errno_key (udata ?s) a = - t \<longleftrightarrow> errno_tid (udata s a) = t" if "a \<in> set xs" for a
    using that xs(2) assms(2) by (auto simp: errno_key_def)
  have d: "distinct (map (errno_key (udata s)) xs)" using xs(1) strict_sorted_iff by (auto simp: search_tree_def)
  show "errno_location t r s = Some e" if e: "e \<in> es" "errno_tid (udata s e) = t"
  proof -
    obtain a where a: "find (\<lambda>a. errno_key (udata ?s) a = - t) xs = Some a"
      using e k [of e] xs(2) by (cases "find (\<lambda>a. errno_key (udata ?s) a = - t) xs") (auto simp: find_None_iff)
    then have "a \<in> set xs" "errno_key (udata ?s) a = - t" by (auto simp: find_Some_iff)
    then have "errno_tid (udata s a) = t" "a \<in> set xs" using k [of a] by auto
    then have "a = e" using d e xs(2) by (auto simp: errno_key_def distinct_map inj_on_def)
    then show ?thesis using f a by simp
  qed
  show "errno_location t r s = Some NULL" if "t \<notin> (\<lambda>e. errno_tid (udata s e)) ` es"
  proof -
    have "find (\<lambda>a. errno_key (udata ?s) a = - t) xs = None"
      unfolding find_None_iff using that xs(2) k by (auto simp: image_iff)
    then show ?thesis using f by simp
  qed
qed

lemma errno_new_ok:
  assumes "cells_of s es" "e \<notin> es" "e \<noteq> NULL" "nodes s e \<noteq> None" "t \<notin> (\<lambda>e. errno_tid (udata s e)) ` es"
  shows "\<exists>s'. errno_new t s e = Some s' \<and> cells_of s' (insert e es) \<and>
    udata s' = (udata s)(e := \<lparr>errno_no = 0, errno_tid = t\<rparr>)"
proof -
  let ?s = "s\<lparr>udata := (udata s)(e := \<lparr>errno_no = 0, errno_tid = t\<rparr>)\<rparr>"
  obtain xs where xs: "search_tree errno_cmp (errno_key (udata s)) s xs" "set xs = es"
    using assms(1) by (auto simp: cells_of_def)
  have st: "search_tree errno_cmp (errno_key (udata ?s)) ?s xs"
    using xs assms(2) by (intro search_tree_upd [OF xs(1)]) (auto simp: errno_key_def)
  have "errno_key (udata ?s) e \<notin> errno_key (udata ?s) ` set xs"
    using assms(2,5) xs(2) by (auto simp: errno_key_def image_iff)
  then obtain s' as bs where "lib_rbInsert ?s e = Some (NULL, s')" "xs = as @ bs"
    "search_tree errno_cmp (errno_key (udata ?s)) s' (as @ e # bs)" "udata s' = udata ?s"
    using plain_insert(2) [OF errno_order.rb_order_axioms st, of e] assms(3,4) by auto
  then show ?thesis using xs(2) by (auto simp: errno_new_def cells_of_def)
qed


lemma errno_remove_ok:
  assumes "cells_of s es" "e \<in> es" "nil \<noteq> NULL" "nodes s nil = None"
  shows "\<exists>s'. errno_remove nil s e = Some s' \<and> cells_of s' (es - {e}) \<and> udata s' = udata s"
proof -
  obtain xs where xs: "search_tree errno_cmp (errno_key (udata s)) s xs" "set xs = es"
    using assms(1) by (auto simp: cells_of_def)
  obtain as bs where ab: "xs = as @ e # bs" using assms(2) xs(2) by (auto simp: in_set_conv_decomp)
  have "distinct xs" using xs(1) by (auto simp: search_tree_def tree_at_def)
  then have "set (as @ bs) = es - {e}" using xs(2) ab by auto
  moreover obtain s' where "lib_rbRemove nil s e = Some s'" "search_tree errno_cmp (errno_key (udata s)) s' (as @ bs)"
    "udata s' = udata s"
    using plain_remove [OF errno_order.rb_order_axioms xs(1) [unfolded ab] _ assms(3,4)] by auto
  ultimately show ?thesis unfolding errno_remove_def cells_of_def by metis
qed

subsection \<open>The depth of a tree\<close>

lemma bh_size: "invh t \<Longrightarrow> invc t \<Longrightarrow> 2 ^ bh t \<le> length (inorder t) + 1"
proof (induction t)
  case (Nd l x c r)
  then have "2 ^ bh l \<le> length (inorder l) + 1" "2 ^ bh l \<le> length (inorder r) + 1" by auto
  then show ?case by auto
qed simp

lemma depth_bh:
  "invh (plug fs t) \<Longrightarrow> invc (plug fs t) \<Longrightarrow>
     length fs + 2 * bh t + (if col t = RB_RED then 1 else 0) \<le> 2 * bh (plug fs t) + (if col (plug fs t) = RB_RED then 1 else 0)"
proof (induction fs arbitrary: t)
  case (Cons f fs)
  have h: "invh (plug1 f t)" and c: "invc (plug1 f t)" using Cons.prems invh_sub invc_sub by force+
  have "1 + 2 * bh t + (if col t = RB_RED then 1 else 0) \<le> 2 * bh (plug1 f t) + (if col (plug1 f t) = RB_RED then 1 else 0)"
    using h c by (cases f) auto
  then show ?case using Cons.IH [of "plug1 f t"] Cons.prems by simp
qed simp

subsection \<open>Properties\<close>

text \<open>
  C13. Insertion, for any comparison that orders the nodes by a key, into a tree without callback: if a node of the tree
  has the key of the new one, that node is returned and nothing changes; otherwise the call returns \<open>NULL\<close> and
  the result is again a red-black search tree, its nodes in order being those of before with the new one
  in its place. The call returns in every case, no node outside the tree is written, and the loop ends.
\<close>

theorem rb_insert_ok:
  assumes "rb_order (C (udata s)) key A" "search_tree C key s xs" "set xs \<subseteq> A" "z \<in> A" "z \<noteq> NULL" "nodes s z \<noteq> None"
  shows "(\<exists>y. y \<in> set xs \<and> key y = key z \<and> lib_rbInsert s z = Some (y, s)) \<or>
    (key z \<notin> key ` set xs \<and>
      (\<exists>s' as bs. lib_rbInsert s z = Some (NULL, s') \<and> xs = as @ bs \<and> search_tree C key s' (as @ z # bs) \<and>
        udata s' = udata s \<and> same_but (insert z (set xs)) s s'))"
proof (cases "key z \<in> key ` set xs")
  case True
  then obtain y where "y \<in> set xs" "key y = key z" by auto
  then show ?thesis using plain_insert(1) [OF assms(1-4)] by blast
next
  case False
  then show ?thesis using plain_insert(2) [OF assms(1-4) assms(5,6)] by blast
qed

definition example_tree :: errno_tree where
  "example_tree = \<lparr>root = 16, compare = errno_cmp, augment = None,
     nodes = [16 \<mapsto> \<lparr>parent = NULL, left = 24, right = NULL, color = RB_BLACK\<rparr>,
       24 \<mapsto> \<lparr>parent = 16, left = NULL, right = NULL, color = RB_RED\<rparr>,
       32 \<mapsto> \<lparr>parent = 8, left = 8, right = 8, color = RB_BLACK\<rparr>],
     udata = (\<lambda>a. \<lparr>errno_no = 0, errno_tid = (if a = 16 then 5 else if a = 24 then 7 else 6)\<rparr>)\<rparr>"

lemma example_search_tree: "search_tree errno_cmp (errno_key (udata example_tree)) example_tree [24, 16]"
proof -
  have "tree_at example_tree (Nd (Nd Tip 24 RB_RED Tip) 16 RB_BLACK Tip) \<and> rbt (Nd (Nd Tip 24 RB_RED Tip) 16 RB_BLACK Tip) \<and>
    inorder (Nd (Nd Tip 24 RB_RED Tip) 16 RB_BLACK Tip) = [24, 16]"
    by (simp add: example_tree_def tree_at_def rbt_def)
  then show ?thesis by (auto simp: search_tree_def example_tree_def errno_key_def)
qed

theorem rb_insert_ok_witness:
  "\<exists>s'. lib_rbInsert example_tree 32 = Some (NULL, s') \<and> search_tree errno_cmp (errno_key (udata example_tree)) s' [24, 32, 16]"
proof -
  have k: "errno_key (udata example_tree) 32 \<notin> errno_key (udata example_tree) ` set [24, 16]"
    by (simp add: example_tree_def errno_key_def)
  have "nodes example_tree 32 \<noteq> None" by (simp add: example_tree_def)
  then obtain s' as bs where r: "lib_rbInsert example_tree 32 = Some (NULL, s')" "[24, 16] = as @ bs"
    "search_tree errno_cmp (errno_key (udata example_tree)) s' (as @ 32 # bs)"
    using rb_insert_ok [of errno_cmp example_tree "errno_key (udata example_tree)" UNIV "[24, 16]" 32,
        OF errno_order.rb_order_axioms example_search_tree] k by auto
  then have "sorted_wrt (<) (map (errno_key (udata example_tree)) (as @ 32 # bs))" by (simp add: search_tree_def)
  then have "as = [24]" using r(2) by (cases as rule: remdups_adj.cases) (auto simp: errno_key_def example_tree_def)
  then show ?thesis using r by auto
qed

text \<open>
  C14. Removal of any node of such a tree returns, takes the node out of the sequence and nothing else, and leaves a
  red-black search tree; no node outside the tree is written, and the local node that stands for a missing child is gone.
\<close>

theorem rb_remove_ok:
  assumes "rb_order (C (udata s)) key A" "search_tree C key s (as @ z # bs)" "set (as @ z # bs) \<subseteq> A"
    and "nil \<noteq> NULL" "nodes s nil = None"
  shows "\<exists>s'. lib_rbRemove nil s z = Some s' \<and> search_tree C key s' (as @ bs) \<and> udata s' = udata s \<and>
    same_but (set (as @ z # bs)) s s'"
  by (rule plain_remove [OF assms])

theorem rb_remove_ok_witness:
  "\<exists>s'. lib_rbRemove 40 example_tree 16 = Some s' \<and> search_tree errno_cmp (errno_key (udata example_tree)) s' [24]"
proof -
  have "nodes example_tree 40 = None" by (simp add: example_tree_def)
  then show ?thesis
    using rb_remove_ok [of errno_cmp example_tree "errno_key (udata example_tree)" UNIV "[24]" 16 "[]" 40,
        OF errno_order.rb_order_axioms] example_search_tree by auto
qed

text \<open>
  C16. \<open>lib_rbNext\<close> and \<open>lib_rbPrev\<close> return the neighbours of a node in the order of the tree, and \<open>NULL\<close> at the
  two ends, whatever the shape and the colours.
\<close>

theorem rb_next_prev_ok:
  assumes "tree_at s T" "inorder T = as @ x # bs"
  shows "lib_rbNext (nodes s) x = Some (if bs = [] then NULL else hd bs) \<and>
    lib_rbPrev (nodes s) x = Some (if as = [] then NULL else last as)"
  using next_prev [OF assms] by simp

theorem rb_next_prev_ok_witness:
  "lib_rbNext (nodes example_tree) 24 = Some 16 \<and> lib_rbPrev (nodes example_tree) 24 = Some NULL"
proof -
  have "tree_at example_tree (Nd (Nd Tip 24 RB_RED Tip) 16 RB_BLACK Tip)"
    by (simp add: example_tree_def tree_at_def)
  then show ?thesis using rb_next_prev_ok [of example_tree _ "[]" 24 "[16]"] by fastforce
qed



text \<open>
  C15. A thread that registers its cell finds it from then on, with the error number 0, and the other threads find
  what they found before: the cells of the threads that are registered, or the global one.
\<close>

theorem errno_own_cell:
  assumes "cells_of s es" "e \<notin> es" "e \<noteq> NULL" "nodes s e \<noteq> None" "t \<notin> (\<lambda>e. errno_tid (udata s e)) ` es"
  shows "\<exists>s'. errno_new t s e = Some s' \<and> cells_of s' (insert e es) \<and> errno_no (udata s' e) = 0 \<and>
    (\<forall>t' r. r \<notin> insert e es \<longrightarrow> errno_location t' r s' = (if t' = t then Some e else errno_location t' r s))"
proof -
  obtain s' where s': "errno_new t s e = Some s'" "cells_of s' (insert e es)"
    "udata s' = (udata s)(e := \<lparr>errno_no = 0, errno_tid = t\<rparr>)"
    using errno_new_ok [OF assms] by blast
  have "errno_location t' r s' = (if t' = t then Some e else errno_location t' r s)" if r: "r \<notin> insert e es" for t' r
  proof (cases "t' = t")
    case True
    then show ?thesis using errno_location_cell(1) [OF s'(2) r, of e t] s'(3) by simp
  next
    case False
    show ?thesis
    proof (cases "t' \<in> (\<lambda>e. errno_tid (udata s e)) ` es")
      case True
      then obtain a where a: "a \<in> es" "errno_tid (udata s a) = t'" by auto
      then have "errno_tid (udata s' a) = t'" using s'(3) assms(2) by auto
      then show ?thesis using False errno_location_cell(1) [OF s'(2) r, of a t'] errno_location_cell(1) [OF assms(1), of r a t'] a r
        by simp
    next
      case none: False
      have "t' \<notin> (\<lambda>e. errno_tid (udata s' e)) ` insert e es" using none False s'(3) assms(2) by auto
      then show ?thesis using False errno_location_cell(2) [OF s'(2) r] errno_location_cell(2) [OF assms(1) _ none] r by simp
    qed
  qed
  then show ?thesis using s' by auto
qed

theorem errno_own_cell_witness:
  "\<exists>s'. errno_new 6 example_tree 32 = Some s' \<and> errno_location 6 48 s' = Some 32 \<and>
    errno_location 7 48 s' = errno_location 7 48 example_tree"
proof -
  have "cells_of example_tree {24, 16}" using example_search_tree by (auto simp: cells_of_def)
  moreover have "nodes example_tree 32 \<noteq> None" "(6::int) \<notin> (\<lambda>e. errno_tid (udata example_tree e)) ` {24, 16}"
    by (simp_all add: example_tree_def)
  ultimately obtain s' where "errno_new 6 example_tree 32 = Some s'"
    "\<forall>t' r. r \<notin> insert 32 {24, 16} \<longrightarrow> errno_location t' r s' = (if t' = 6 then Some 32 else errno_location t' r example_tree)"
    using errno_own_cell [of example_tree "{24, 16}" 32 6] by auto
  then show ?thesis by auto
qed

end
