(* ===== verification/Semaphore.thy ===== *)
theory Semaphore
  imports CMem "HOL-Library.Signed_Division"
begin

section \<open>Semaphores: posix/sem.c and pthread/sem_unnamed.c\<close>

text \<open>
  An unnamed semaphore is a counter and a pipe. The threads that use it run concurrently: every
  atomic access to the counter and every system call on the pipe is one step of one thread, and the
  steps of different threads interleave in any order. A call in progress is a program counter with
  the local variables that are live there; \<open>sem_exec\<close> is the code between two such points.
  What the kernel answers (poll, read, write, the clock) is an argument of the step;
  \<open>pipe_law\<close> says which answers an open pipe can give. A signal handler that interrupts a thread is
  one more thread, that runs while the other one makes no step.
\<close>

subsection \<open>The code\<close>

definition SEM_VALUE_MAX :: int where "SEM_VALUE_MAX = INT_MAX"
definition SEM_FOREVER :: int where "SEM_FOREVER = - 1"

record timespec =
  tv_sec :: int
  tv_nsec :: int

text \<open>The counter, and the number of bytes in the pipe.\<close>

record sem =
  val :: int
  tokens :: nat

text \<open>\<open>now\<close>: what the clock reads, \<open>None\<close> where it cannot be read.\<close>

definition sem_remaining :: "timespec option \<Rightarrow> timespec \<Rightarrow> int option" where
  "sem_remaining now abstime =
     (case now of None \<Rightarrow> Some 0
      | Some now \<Rightarrow>
          let d = (tv_sec abstime - tv_sec now) * 1000;
              ms = d + (tv_nsec abstime - tv_nsec now + 999999) sdiv 1000000
          in if LONG_MIN \<le> d \<and> d \<le> LONG_MAX \<and> LONG_MIN \<le> ms \<and> ms \<le> LONG_MAX
             then Some (if ms \<le> 0 then 0 else if ms > 2147483647 then 2147483647 else ms) else None)"

text \<open>Who called \<open>sem_token\<close>: the waiting call itself, or \<open>sem_cancel\<close>.\<close>

datatype caller = In_take "timespec option" | In_cancel

datatype pc =
    Idle
  | Post_load
  | Post_cas int "errno option"
  | Post_write "errno option"
  | Take_sub "timespec option"
  | Take_wait timespec
  | Take_recheck timespec
  | Token_poll caller int
  | Token_read caller int
  | Cancel_load errno
  | Cancel_cas int errno
  | Try_load
  | Try_cas int

text \<open>The value a call returns: \<open>None\<close> is 0, \<open>Some e\<close> is -1 with \<open>errno = e\<close>.\<close>

datatype outcome = Next pc | Return "errno option"

text \<open>
  What a system call answers. \<open>Got\<close>: one byte was read or written. \<open>Nothing\<close>: poll timed out, or
  read found the end of the file. \<open>Now\<close>: the time of day.
\<close>

datatype answer = Go | Readable | Got | Nothing | Fail errno | Now "timespec option"

text \<open>The end of \<open>sem_token\<close> with an error, in either caller.\<close>

definition token_failed :: "caller \<Rightarrow> errno \<Rightarrow> outcome" where
  "token_failed c err =
     (case c of
        In_take None \<Rightarrow> Next (Cancel_load err)
      | In_take (Some ts) \<Rightarrow> if err \<noteq> ETIMEDOUT then Next (Cancel_load err) else Next (Take_recheck ts)
      | In_cancel \<Rightarrow> if err = EINTR then Next (Token_poll In_cancel SEM_FOREVER) else Return (Some err))"

text \<open>A compare-and-swap: on failure the value found goes to the caller.\<close>

definition cas :: "int \<Rightarrow> int \<Rightarrow> sem \<Rightarrow> sem \<times> int option" where
  "cas old new s = (if val s = old then (s\<lparr>val := new\<rparr>, None) else (s, Some (val s)))"

text \<open>
  One step of a thread: its answer from the kernel, the semaphore and its \<open>errno\<close> before and after.
  Steps on memory need no answer; one that does not fit the point the thread is at gives no step.
\<close>

definition sem_exec :: "answer \<Rightarrow> pc \<Rightarrow> sem \<Rightarrow> errno option \<Rightarrow> (sem \<times> errno option \<times> outcome) option" where
  "sem_exec a p s e =
     (case p of
        Idle \<Rightarrow> None
      | Post_load \<Rightarrow> Some (s, e, Next (Post_cas (val s) e))
      | Post_cas old err \<Rightarrow>
          if old = SEM_VALUE_MAX then Some (s, Some EOVERFLOW, Return (Some EOVERFLOW))
          else (case cas old (old + 1) s of
              (s, Some old) \<Rightarrow> Some (s, e, Next (Post_cas old err))
            | (s, None) \<Rightarrow> if old < 0 then Some (s, e, Next (Post_write err)) else Some (s, err, Return None))
      | Post_write err \<Rightarrow>
          (case a of
             Got \<Rightarrow> Some (s\<lparr>tokens := tokens s + 1\<rparr>, err, Return None)
           | Fail x \<Rightarrow> if x = EINTR then Some (s, Some x, Next (Post_write err))
                       else Some (s, Some EINVAL, Return (Some EINVAL))
           | _ \<Rightarrow> None)
      | Take_sub abstime \<Rightarrow>
          let old = val s; s = s\<lparr>val := cast_int (old - 1)\<rparr> in
          if old > 0 then Some (s, e, Return None)
          else (case abstime of
              None \<Rightarrow> Some (s, e, Next (Token_poll (In_take None) SEM_FOREVER))
            | Some ts \<Rightarrow>
                if tv_nsec ts < 0 \<or> tv_nsec ts \<ge> 1000000000 then Some (s, e, Next (Cancel_load EINVAL))
                else Some (s, e, Next (Take_wait ts)))
      | Take_wait ts \<Rightarrow>
          (case a of
             Now t \<Rightarrow> map_option (\<lambda>tm. (s, e, Next (Token_poll (In_take (Some ts)) tm))) (sem_remaining t ts)
           | _ \<Rightarrow> None)
      | Take_recheck ts \<Rightarrow>
          (case a of
             Now t \<Rightarrow> map_option (\<lambda>tm. (s, e, Next (if tm = 0 then Cancel_load ETIMEDOUT else Take_wait ts)))
                        (sem_remaining t ts)
           | _ \<Rightarrow> None)
      | Token_poll c tm \<Rightarrow>
          (case a of
             Readable \<Rightarrow> Some (s, e, Next (Token_read c tm))
           | Nothing \<Rightarrow> Some (s, e, token_failed c ETIMEDOUT)
           | Fail x \<Rightarrow> Some (s, Some x, token_failed c x)
           | _ \<Rightarrow> None)
      | Token_read c tm \<Rightarrow>
          (case a of
             Got \<Rightarrow> Some (s\<lparr>tokens := tokens s - 1\<rparr>, e, Return None)
           | Nothing \<Rightarrow> Some (s, e, token_failed c EINVAL)
           | Fail x \<Rightarrow>
               if x = EAGAIN then
                 if tm \<noteq> SEM_FOREVER then Some (s, Some x, token_failed c ETIMEDOUT)
                 else Some (s, Some x, Next (Token_poll c tm))
               else Some (s, Some x, token_failed c x)
           | _ \<Rightarrow> None)
      | Cancel_load err \<Rightarrow> Some (s, e, Next (Cancel_cas (val s) err))
      | Cancel_cas old err \<Rightarrow>
          if old < 0 then
            (case cas old (old + 1) s of
               (s, Some old) \<Rightarrow> Some (s, e, Next (Cancel_cas old err))
             | (s, None) \<Rightarrow> Some (s, Some err, Return (Some err)))
          else Some (s, e, Next (Token_poll In_cancel SEM_FOREVER))
      | Try_load \<Rightarrow> Some (s, e, Next (Try_cas (val s)))
      | Try_cas old \<Rightarrow>
          if old > 0 then
            (case cas old (old - 1) s of
               (s, Some old) \<Rightarrow> Some (s, e, Next (Try_cas old))
             | (s, None) \<Rightarrow> Some (s, e, Return None))
          else Some (s, Some EAGAIN, Return (Some EAGAIN)))"

text \<open>\<open>pipe_ok\<close>, \<open>nonblock_ok\<close>: \<open>pipe2\<close> and \<open>fcntl\<close> succeed.\<close>

definition sem_unnamedInit :: "bool \<Rightarrow> bool \<Rightarrow> nat \<Rightarrow> errno + sem" where
  "sem_unnamedInit pipe_ok nonblock_ok v =
     (if \<not> pipe_ok then Inl ENOSPC
      else if \<not> nonblock_ok then Inl ENOSPC
      else Inr \<lparr>val = cast_int (int v), tokens = 0\<rparr>)"

definition sem_unnamedGetValue :: "sem \<Rightarrow> int" where
  "sem_unnamedGetValue s = (if val s < 0 then 0 else val s)"

text \<open>The starting points of the three calls.\<close>

datatype request = Post | Take "timespec option" | Try_wait

fun start :: "request \<Rightarrow> pc" where
  "start Post = Post_load"
| "start (Take abstime) = Take_sub abstime"
| "start Try_wait = Try_load"

text \<open>
  What the kernel promises of a pipe that stays open, its read end not blocking. Polling finds it
  readable exactly where there is a byte, gives up only with a limit, and otherwise fails only for a
  signal; a read takes a byte or finds none; a write of one byte succeeds or is interrupted.
\<close>

definition pipe_law :: "nat \<Rightarrow> pc \<Rightarrow> answer \<Rightarrow> bool" where
  "pipe_law n p a =
     (case p of
        Token_poll c tm \<Rightarrow>
          (case a of Readable \<Rightarrow> n > 0 | Nothing \<Rightarrow> tm \<noteq> SEM_FOREVER | Fail x \<Rightarrow> x = EINTR | _ \<Rightarrow> True)
      | Token_read c tm \<Rightarrow>
          (case a of Got \<Rightarrow> n > 0 | Nothing \<Rightarrow> False | Fail x \<Rightarrow> x = EAGAIN \<and> n = 0 | _ \<Rightarrow> True)
      | Post_write err \<Rightarrow> (case a of Fail x \<Rightarrow> x = EINTR | _ \<Rightarrow> True)
      | _ \<Rightarrow> True)"

text \<open>
  All threads of the process, each with its \<open>errno\<close>. The last two components only count: calls of
  post, and calls of a wait or a trywait, that have returned 0.
\<close>

record sys =
  sem :: sem
  threads :: "(pc \<times> errno option) list"
  posts :: nat
  wins :: nat

definition is_post :: "pc \<Rightarrow> bool" where
  "is_post p = (case p of Post_load \<Rightarrow> True | Post_cas old err \<Rightarrow> True | Post_write err \<Rightarrow> True | _ \<Rightarrow> False)"

definition returned :: "pc \<Rightarrow> errno option \<Rightarrow> sys \<Rightarrow> sys" where
  "returned p r y =
     (if r \<noteq> None then y
      else if is_post p then y\<lparr>posts := posts y + 1\<rparr> else y\<lparr>wins := wins y + 1\<rparr>)"

inductive sem_step :: "sys \<Rightarrow> sys \<Rightarrow> bool" where
  call: "\<lbrakk>i < length (threads y); threads y ! i = (Idle, e)\<rbrakk>
    \<Longrightarrow> sem_step y (y\<lparr>threads := (threads y)[i := (start req, e)]\<rparr>)"
| inner: "\<lbrakk>i < length (threads y); threads y ! i = (p, e); pipe_law (tokens (sem y)) p a;
      sem_exec a p (sem y) e = Some (s, e', Next p')\<rbrakk>
    \<Longrightarrow> sem_step y (y\<lparr>sem := s, threads := (threads y)[i := (p', e')]\<rparr>)"
| return: "\<lbrakk>i < length (threads y); threads y ! i = (p, e); pipe_law (tokens (sem y)) p a;
      sem_exec a p (sem y) e = Some (s, e', Return r)\<rbrakk>
    \<Longrightarrow> sem_step y (returned p r (y\<lparr>sem := s, threads := (threads y)[i := (Idle, e')]\<rparr>))"

inductive_cases sem_stepE: "sem_step y y'"

definition sys_init :: "nat \<Rightarrow> nat \<Rightarrow> sys" where
  "sys_init v n = \<lparr>sem = \<lparr>val = cast_int (int v), tokens = 0\<rparr>, threads = replicate n (Idle, None), posts = 0, wins = 0\<rparr>"

definition reachable :: "nat \<Rightarrow> nat \<Rightarrow> sys \<Rightarrow> bool" where
  "reachable v n y \<longleftrightarrow> sem_step\<^sup>*\<^sup>* (sys_init v n) y"


subsection \<open>The invariant\<close>

declare cast_int_id [simp]

text \<open>
  A thread is waiting from the moment it has taken itself off the counter without a unit until it has
  a token or has put itself back. A thread is posting while it still owes a token.
\<close>

definition waits :: "pc \<Rightarrow> bool" where
  "waits p = (case p of Take_wait ts \<Rightarrow> True | Take_recheck ts \<Rightarrow> True | Token_poll c tm \<Rightarrow> True
     | Token_read c tm \<Rightarrow> True | Cancel_load err \<Rightarrow> True | Cancel_cas old err \<Rightarrow> True | _ \<Rightarrow> False)"

definition owes :: "pc \<Rightarrow> bool" where
  "owes p = (case p of Post_write err \<Rightarrow> True | _ \<Rightarrow> False)"

lemma waits_simps [simp]:
  "waits (Take_wait ts)" "waits (Take_recheck ts)" "waits (Token_poll c tm)" "waits (Token_read c tm)"
  "waits (Cancel_load x)" "waits (Cancel_cas old x)" "\<not> waits Idle" "\<not> waits Post_load"
  "\<not> waits (Post_cas old err)" "\<not> waits (Post_write err)" "\<not> waits (Take_sub abstime)"
  "\<not> waits Try_load" "\<not> waits (Try_cas old)"
  by (simp_all add: waits_def)

lemma owes_simps [simp]:
  "owes (Post_write err)" "\<not> owes (Take_wait ts)" "\<not> owes (Take_recheck ts)" "\<not> owes (Token_poll c tm)"
  "\<not> owes (Token_read c tm)" "\<not> owes (Cancel_load x)" "\<not> owes (Cancel_cas old x)" "\<not> owes Idle"
  "\<not> owes Post_load" "\<not> owes (Post_cas old err)" "\<not> owes (Take_sub abstime)"
  "\<not> owes Try_load" "\<not> owes (Try_cas old)"
  by (simp_all add: owes_def)

lemma is_post_simps [simp]:
  "is_post Post_load" "is_post (Post_cas old err)" "is_post (Post_write err)" "\<not> is_post (Take_wait ts)"
  "\<not> is_post (Take_recheck ts)" "\<not> is_post (Token_poll c tm)" "\<not> is_post (Token_read c tm)"
  "\<not> is_post (Cancel_load x)" "\<not> is_post (Cancel_cas old x)" "\<not> is_post Idle" "\<not> is_post (Take_sub abstime)"
  "\<not> is_post Try_load" "\<not> is_post (Try_cas old)"
  by (simp_all add: is_post_def)

lemma start_simps [simp]: "\<not> waits (start req)" "\<not> owes (start req)"
  by (cases req; simp)+

definition then_pc :: "outcome \<Rightarrow> pc" where
  "then_pc out = (case out of Next p \<Rightarrow> p | Return r \<Rightarrow> Idle)"

lemma then_pc_simps [simp]: "then_pc (Next p) = p" "then_pc (Return r) = Idle"
  by (simp_all add: then_pc_def)

lemma token_failed_next:
  assumes "c = In_cancel \<longrightarrow> x = EINTR"
  shows "\<exists>p. token_failed c x = Next p \<and> waits p"
  using assms by (auto simp: token_failed_def split: caller.split option.split)

lemma waits_not_owes: "waits p \<Longrightarrow> \<not> owes p"
  by (cases p) simp_all

text \<open>The point a thread can be at: no limit is set where \<open>sem_cancel\<close> waits.\<close>

definition pc_ok :: "pc \<Rightarrow> bool" where
  "pc_ok p = (case p of Token_poll c tm \<Rightarrow> c = In_cancel \<longrightarrow> tm = SEM_FOREVER
     | Token_read c tm \<Rightarrow> c = In_cancel \<longrightarrow> tm = SEM_FOREVER | _ \<Rightarrow> True)"

lemma sem_exec_ok:
  assumes "sem_exec a p s e = Some (s', e', out)" and "pc_ok p"
  shows "pc_ok (then_pc out)"
  using assms
  by (auto simp: sem_exec_def pc_ok_def token_failed_def cas_def Let_def
      split: pc.splits if_splits option.splits answer.splits caller.splits)

text \<open>What one step does to the balance of units and waiting threads.\<close>

definition gap :: "sem \<Rightarrow> pc \<Rightarrow> int" where
  "gap s p = of_bool (waits p) - max 0 (- val s) - int (tokens s) - of_bool (owes p)"

definition units :: "sem \<Rightarrow> int" where
  "units s = int (tokens s) + max 0 (val s)"

definition won :: "pc \<Rightarrow> outcome \<Rightarrow> bool" where
  "won p out \<longleftrightarrow> out = Return None \<and> \<not> is_post p"

definition posted :: "pc \<Rightarrow> outcome \<Rightarrow> bool" where
  "posted p out \<longleftrightarrow> out = Return None \<and> is_post p"

definition in_range :: "sem \<Rightarrow> pc \<Rightarrow> bool" where
  "in_range s p \<longleftrightarrow> INT_MIN \<le> val s \<and> val s \<le> SEM_VALUE_MAX \<and>
     ((\<exists>abstime. p = Take_sub abstime) \<longrightarrow> INT_MIN < val s)"

lemma sem_exec_balance:
  assumes ex: "sem_exec a p s e = Some (s', e', out)" and ok: "pc_ok p" and law: "pipe_law (tokens s) p a"
    and range: "in_range s p"
  shows "gap s' (then_pc out) = gap s p \<and> units s' + of_bool (won p out) = units s + of_bool (posted p out) \<and>
    val s' \<le> SEM_VALUE_MAX"
proof (cases p)
  case (Token_poll c tm)
  then have "c = In_cancel \<longrightarrow> (case a of Fail x \<Rightarrow> x = EINTR | Nothing \<Rightarrow> False | _ \<Rightarrow> True)"
    using law ok by (auto simp: pipe_law_def pc_ok_def split: answer.splits)
  then have "s' = s \<and> (\<exists>p'. out = Next p' \<and> waits p')"
    using ex Token_poll token_failed_next [of c] by (auto simp: sem_exec_def split: answer.splits)
  then show ?thesis
    using Token_poll range by (auto simp: gap_def won_def posted_def in_range_def waits_not_owes)
next
  case (Token_read c tm)
  then have "c = In_cancel \<longrightarrow> tm = SEM_FOREVER" "a = Got \<longrightarrow> tokens s > 0" "a \<noteq> Nothing"
    "\<And>x. a = Fail x \<Longrightarrow> x = EAGAIN"
    using law ok by (auto simp: pipe_law_def pc_ok_def split: answer.splits)
  then show ?thesis
    using ex Token_read range token_failed_next [of c ETIMEDOUT]
    by (auto simp: waits_not_owes sem_exec_def gap_def units_def won_def posted_def in_range_def split: answer.splits if_splits)
qed (use ex law range in \<open>auto simp: sem_exec_def gap_def units_def won_def posted_def in_range_def cas_def Let_def
  pipe_law_def SEM_VALUE_MAX_def INT_MAX_def INT_MIN_def split: if_splits option.splits answer.splits\<close>)


text \<open>How many threads are at a point of a kind.\<close>

definition threads_at :: "(pc \<Rightarrow> bool) \<Rightarrow> sys \<Rightarrow> nat" where
  "threads_at P y = length (filter (\<lambda>t. P (fst t)) (threads y))"

lemma filter_update_length:
  assumes "i < length xs"
  shows "length (filter P (xs[i := x])) + of_bool (P (xs ! i)) = length (filter P xs) + of_bool (P x)"
proof -
  have "xs = take i xs @ xs ! i # drop (Suc i) xs" using assms by (rule id_take_nth_drop)
  then have "length (filter P xs) = length (filter P (take i xs @ xs ! i # drop (Suc i) xs))" by simp
  with assms show ?thesis by (simp add: upd_conv_take_nth_drop)
qed

lemma threads_at_update:
  assumes "i < length (threads y)" and "threads y ! i = (p, e)" and "threads y' = (threads y)[i := (p', e')]"
  shows "int (threads_at P y') = int (threads_at P y) + of_bool (P p') - of_bool (P p)"
  using filter_update_length [OF assms(1), of "\<lambda>t. P (fst t)" "(p', e')"] assms(2,3)
  by (auto simp: threads_at_def)

text \<open>
  The invariant: units are neither made nor lost, and the threads that wait are those the counter
  counts, those a token is in the pipe for and those a token is owed to.
\<close>

definition sys_inv :: "nat \<Rightarrow> nat \<Rightarrow> sys \<Rightarrow> bool" where
  "sys_inv v n y \<longleftrightarrow>
     int (threads_at waits y) = max 0 (- val (sem y)) + int (tokens (sem y)) + int (threads_at owes y) \<and>
     int (wins y) + int (tokens (sem y)) + max 0 (val (sem y)) = int v + int (posts y) \<and>
     val (sem y) \<le> SEM_VALUE_MAX \<and> length (threads y) = n \<and> (\<forall>t \<in> set (threads y). pc_ok (fst t))"

lemma threads_at_le:
  assumes "i < length (threads y)" and "\<not> P (fst (threads y ! i))"
  shows "threads_at P y < length (threads y)"
  unfolding threads_at_def using assms by (meson length_filter_less nth_mem)

lemma sys_inv_range:
  assumes "sys_inv v n y" and "int n \<le> 2 ^ 31" and "i < n" and "threads y ! i = (p, e)"
  shows "in_range (sem y) p"
proof -
  have len: "length (threads y) = n" using assms(1) by (simp add: sys_inv_def)
  have w: "- val (sem y) \<le> int (threads_at waits y)" using assms(1) by (simp add: sys_inv_def)
  have "threads_at waits y \<le> n" unfolding threads_at_def using len by (metis length_filter_le)
  moreover have "threads_at waits y < n" if "p = Take_sub abstime" for abstime
    using threads_at_le [of i y waits] that assms(3,4) len by simp
  ultimately show ?thesis
    using w assms(1,2) unfolding in_range_def sys_inv_def INT_MIN_def
    by (auto intro: order.strict_trans2)
qed

lemma sys_inv_exec:
  assumes inv: "sys_inv v n y" and n: "int n \<le> 2 ^ 31" and i: "i < length (threads y)"
    and p: "threads y ! i = (p, e)" and law: "pipe_law (tokens (sem y)) p a"
    and ex: "sem_exec a p (sem y) e = Some (s, e', out)"
    and y': "sem y' = s" "threads y' = (threads y)[i := (then_pc out, e')]"
      "int (posts y') = int (posts y) + of_bool (posted p out)" "int (wins y') = int (wins y) + of_bool (won p out)"
  shows "sys_inv v n y'"
proof -
  have ok: "pc_ok p" using inv i p by (metis fst_conv nth_mem sys_inv_def)
  have len: "length (threads y) = n" using inv by (simp add: sys_inv_def)
  have range: "in_range (sem y) p" using sys_inv_range [OF inv n _ p] i len by simp
  note b = sem_exec_balance [OF ex ok law range]
  have oks: "\<forall>t \<in> set (threads y'). pc_ok (fst t)"
    using inv sem_exec_ok [OF ex ok] set_update_subset_insert [of "threads y" i "(then_pc out, e')"] y'(2)
    by (auto simp: sys_inv_def)
  have w: "int (threads_at waits y') = int (threads_at waits y) + of_bool (waits (then_pc out)) - of_bool (waits p)"
    and o: "int (threads_at owes y') = int (threads_at owes y) + of_bool (owes (then_pc out)) - of_bool (owes p)"
    using threads_at_update [OF i p y'(2)] by blast+
  have g: "gap s (then_pc out) = gap (sem y) p"
    and u: "units s + of_bool (won p out) = units (sem y) + of_bool (posted p out)" and m: "val s \<le> SEM_VALUE_MAX"
    using b by simp_all
  have 1: "int (threads_at waits y') = max 0 (- val s) + int (tokens s) + int (threads_at owes y')"
    using inv w o g by (simp add: sys_inv_def gap_def)
  have 2: "int (wins y') + int (tokens s) + max 0 (val s) = int v + int (posts y')"
    using inv u y'(3,4) by (simp add: sys_inv_def units_def)
  from 1 2 m oks len show ?thesis by (simp add: sys_inv_def y'(1,2))
qed

lemma sys_inv_step:
  assumes "sem_step y y'" and inv: "sys_inv v n y" and n: "int n \<le> 2 ^ 31"
  shows "sys_inv v n y'"
  using assms(1)
proof (cases rule: sem_step.cases)
  case (call i e req)
  have "pc_ok (start req)" by (cases req) (simp_all add: pc_ok_def)
  moreover have "int (threads_at waits y') = int (threads_at waits y)" "int (threads_at owes y') = int (threads_at owes y)"
    using threads_at_update [OF call(2,3), of y' "start req" e] call(1) by simp_all
  moreover have "set (threads y') \<subseteq> insert (start req, e) (set (threads y))"
    using call(1) set_update_subset_insert by simp
  ultimately show ?thesis using inv call(1) by (auto simp: sys_inv_def)
next
  case (inner i p e a s e' p')
  show ?thesis
    by (rule sys_inv_exec [OF inv n inner(2-5)]) (simp_all add: inner(1) posted_def won_def)
next
  case (return i p e a s e' r)
  show ?thesis
    by (rule sys_inv_exec [OF inv n return(2-5)]) (simp_all add: return(1) posted_def won_def returned_def)
qed

lemma sys_inv_init:
  assumes "int v \<le> SEM_VALUE_MAX"
  shows "sys_inv v n (sys_init v n)"
  using assms by (simp add: sys_inv_def sys_init_def threads_at_def SEM_VALUE_MAX_def INT_MIN_def pc_ok_def)

lemma reachable_inv:
  assumes "reachable v n y" and "int v \<le> SEM_VALUE_MAX" and "int n \<le> 2 ^ 31"
  shows "sys_inv v n y"
  using assms(1) unfolding reachable_def
  by (induction rule: rtranclp_induct) (auto intro: sys_inv_step sys_inv_init assms(2,3))


subsection \<open>What the semaphore guarantees\<close>

text \<open>A schedule: which thread moves, and whether it starts a call or gets an answer.\<close>

datatype move = Call request | Step answer

fun sys_move :: "nat \<Rightarrow> move \<Rightarrow> sys \<Rightarrow> sys option" where
  "sys_move i (Call req) y =
     (if i < length (threads y) \<and> fst (threads y ! i) = Idle
      then Some (y\<lparr>threads := (threads y)[i := (start req, snd (threads y ! i))]\<rparr>) else None)"
| "sys_move i (Step a) y =
     (if i < length (threads y) \<and> pipe_law (tokens (sem y)) (fst (threads y ! i)) a
      then case sem_exec a (fst (threads y ! i)) (sem y) (snd (threads y ! i)) of
             None \<Rightarrow> None
           | Some (s, e, Next p) \<Rightarrow> Some (y\<lparr>sem := s, threads := (threads y)[i := (p, e)]\<rparr>)
           | Some (s, e, Return r) \<Rightarrow>
               Some (returned (fst (threads y ! i)) r (y\<lparr>sem := s, threads := (threads y)[i := (Idle, e)]\<rparr>))
      else None)"

fun sys_run :: "(nat \<times> move) list \<Rightarrow> sys \<Rightarrow> sys option" where
  "sys_run [] y = Some y"
| "sys_run ((i, m) # ms) y = (case sys_move i m y of None \<Rightarrow> None | Some y \<Rightarrow> sys_run ms y)"

lemma sys_move_step: "sys_move i m y = Some y' \<Longrightarrow> sem_step y y'"
proof (cases m)
  case (Call req)
  assume "sys_move i m y = Some y'"
  with Call have i: "i < length (threads y)" "fst (threads y ! i) = Idle"
    and y': "y' = y\<lparr>threads := (threads y)[i := (start req, snd (threads y ! i))]\<rparr>"
    by (auto split: if_splits)
  from i(2) have "threads y ! i = (Idle, snd (threads y ! i))" by (metis prod.collapse)
  from sem_step.call [OF i(1) this] show ?thesis by (simp only: y')
next
  case (Step a)
  assume "sys_move i m y = Some y'"
  with Step obtain s e out where i: "i < length (threads y)"
    and law: "pipe_law (tokens (sem y)) (fst (threads y ! i)) a"
    and ex: "sem_exec a (fst (threads y ! i)) (sem y) (snd (threads y ! i)) = Some (s, e, out)"
    and y': "y' = (case out of Next p \<Rightarrow> y\<lparr>sem := s, threads := (threads y)[i := (p, e)]\<rparr>
       | Return r \<Rightarrow> returned (fst (threads y ! i)) r (y\<lparr>sem := s, threads := (threads y)[i := (Idle, e)]\<rparr>))"
    by (auto split: if_splits option.splits outcome.splits)
  have t: "threads y ! i = (fst (threads y ! i), snd (threads y ! i))" by simp
  show ?thesis
    using sem_step.inner [OF i t law] sem_step.return [OF i t law] ex y' by (cases out) auto
qed

lemma sys_run_steps: "sys_run ms y = Some y' \<Longrightarrow> sem_step\<^sup>*\<^sup>* y y'"
  by (induction ms y rule: sys_run.induct)
    (auto split: option.splits intro: converse_rtranclp_into_rtranclp sys_move_step)

text \<open>
  C20. Units are conserved under every interleaving of posts, waits with and without a deadline,
  trywaits, timeouts, signals and cancellations: the calls that have returned with a unit, the units
  left in the counter and the tokens in the pipe are together the initial value plus the posts that
  have returned. So no more calls succeed than units were supplied.
\<close>

theorem sem_conserves_units:
  assumes "reachable v n y" and "int v \<le> SEM_VALUE_MAX" and "int n \<le> 2 ^ 31"
  shows "int (wins y) + int (tokens (sem y)) + max 0 (val (sem y)) = int v + int (posts y) \<and>
    wins y \<le> v + posts y \<and>
    sem_unnamedGetValue (sem y) = int v + int (posts y) - int (wins y) - int (tokens (sem y))"
  using reachable_inv [OF assms] by (auto simp: sys_inv_def sem_unnamedGetValue_def max_def split: if_splits)

definition one_post :: "(nat \<times> move) list" where
  "one_post = [(0, Call Post), (0, Step Go), (0, Step Go)]"

lemma reachable_run: "sys_run ms (sys_init v n) = Some y \<Longrightarrow> reachable v n y"
  using sys_run_steps by (simp add: reachable_def)

definition posted_sys :: sys where
  "posted_sys = \<lparr>sem = \<lparr>val = 1, tokens = 0\<rparr>, threads = [(Idle, None)], posts = 1, wins = 0\<rparr>"

lemma posted_sys_reachable: "reachable 0 1 posted_sys"
  by (rule reachable_run [of one_post])
    (simp add: one_post_def sys_init_def posted_sys_def sem_exec_def pipe_law_def cas_def cast_int_def
      SEM_VALUE_MAX_def INT_MAX_def returned_def)

theorem sem_conserves_units_witness:
  "sem_unnamedGetValue (sem posted_sys) = int 0 + int (posts posted_sys) - int (wins posted_sys) - int (tokens (sem posted_sys))"
  using sem_conserves_units [OF posted_sys_reachable] by (simp add: SEM_VALUE_MAX_def INT_MAX_def)

text \<open>A poster that owes a token can always deliver it, and a thread that polls can take one.\<close>

lemma token_taken:
  assumes "i < length (threads y)" and "threads y ! i = (Token_poll c tm, e)" and "0 < tokens (sem y)"
  shows "\<exists>y'. sem_step\<^sup>*\<^sup>* y y' \<and> wins y' = wins y + 1 \<and> posts y' = posts y \<and>
    threads y' = (threads y)[i := (Idle, e)]"
proof -
  have "\<exists>y'. sys_run [(i, Step Readable), (i, Step Got)] y = Some y' \<and> wins y' = wins y + 1 \<and>
      posts y' = posts y \<and> threads y' = (threads y)[i := (Idle, e)]"
    using assms by (simp add: sem_exec_def pipe_law_def returned_def)
  then show ?thesis using sys_run_steps by blast
qed

lemma token_delivered:
  assumes "j < length (threads y)" and "threads y ! j = (Post_write err, e)"
  shows "\<exists>y'. sem_step\<^sup>*\<^sup>* y y' \<and> wins y' = wins y \<and> posts y' = posts y + 1 \<and>
    threads y' = (threads y)[j := (Idle, err)] \<and> 0 < tokens (sem y')"
proof -
  have "\<exists>y'. sys_run [(j, Step Got)] y = Some y' \<and> wins y' = wins y \<and> posts y' = posts y + 1 \<and>
      threads y' = (threads y)[j := (Idle, err)] \<and> 0 < tokens (sem y')"
    using assms by (simp add: sem_exec_def pipe_law_def returned_def)
  then show ?thesis using sys_run_steps by blast
qed

lemma threads_at_pos:
  assumes "0 < threads_at owes y"
  obtains j err e where "j < length (threads y)" and "threads y ! j = (Post_write err, e)"
proof -
  from assms obtain t where "t \<in> set (threads y)" "owes (fst t)"
    by (auto simp: threads_at_def filter_empty_conv)
  moreover have "\<exists>err. p = Post_write err" if "owes p" for p
    using that by (cases p) simp_all
  ultimately show ?thesis using that by (metis in_set_conv_nth prod.collapse)
qed

text \<open>
  C21. No wakeup is lost: as long as a unit is left, a thread that waits for a token can get it - a
  token is in the pipe, or some poster has yet to write one and can - and then its call returns 0.
\<close>

theorem sem_no_lost_wakeup:
  assumes "reachable v n y" and "int v \<le> SEM_VALUE_MAX" and "int n \<le> 2 ^ 31"
    and "i < n" and "threads y ! i = (Token_poll c tm, e)" and "wins y < v + posts y"
  shows "\<exists>y'. sem_step\<^sup>*\<^sup>* y y' \<and> wins y' = wins y + 1 \<and> posts y' \<le> posts y + 1 \<and> threads y' ! i = (Idle, e)"
proof -
  note inv = reachable_inv [OF assms(1-3)]
  have i: "i < length (threads y)" using inv assms(4) by (simp add: sys_inv_def)
  show ?thesis
  proof (cases "0 < tokens (sem y)")
    case True
    from token_taken [OF i assms(5) this] i show ?thesis by auto
  next
    case False
    have "(Token_poll c tm, e) \<in> set (threads y)" using i assms(5) nth_mem by metis
    then have "0 < threads_at waits y" by (force simp: threads_at_def filter_empty_conv)
    then have "0 < threads_at owes y" using inv assms(6) False by (auto simp: sys_inv_def max_def split: if_splits)
    then obtain j err e' where j: "j < length (threads y)" "threads y ! j = (Post_write err, e')"
      by (rule threads_at_pos)
    from token_delivered [OF j] obtain y1 where y1: "sem_step\<^sup>*\<^sup>* y y1" "wins y1 = wins y" "posts y1 = posts y + 1"
      "threads y1 = (threads y)[j := (Idle, err)]" "0 < tokens (sem y1)" by blast
    have "i \<noteq> j" using j assms(5) by auto
    with i y1(4) assms(5) have i1: "i < length (threads y1)" "threads y1 ! i = (Token_poll c tm, e)" by simp_all
    from token_taken [OF i1 y1(5)] obtain y2 where "sem_step\<^sup>*\<^sup>* y1 y2" "wins y2 = wins y1 + 1"
      "posts y2 = posts y1" "threads y2 = (threads y1)[i := (Idle, e)]" by blast
    with y1 i1(1) show ?thesis by (intro exI [of _ y2]) (auto intro: rtranclp_trans)
  qed
qed

definition released_sys :: sys where
  "released_sys = \<lparr>sem = \<lparr>val = 0, tokens = 1\<rparr>,
     threads = [(Token_poll (In_take None) SEM_FOREVER, None), (Idle, None)], posts = 1, wins = 0\<rparr>"

lemmas sem_run_simps = sys_init_def sem_exec_def pipe_law_def cas_def cast_int_def SEM_VALUE_MAX_def INT_MAX_def
  returned_def SEM_FOREVER_def token_failed_def sem_remaining_def LONG_MIN_def LONG_MAX_def

lemma released_sys_reachable: "reachable 0 2 released_sys"
  by (rule reachable_run [of "[(0, Call (Take None)), (0, Step Go), (1, Call Post), (1, Step Go), (1, Step Go), (1, Step Got)]"])
    (simp add: released_sys_def sem_run_simps numeral_2_eq_2)

theorem sem_no_lost_wakeup_witness:
  "\<exists>y'. sem_step\<^sup>*\<^sup>* released_sys y' \<and> wins y' = wins released_sys + 1 \<and> posts y' \<le> posts released_sys + 1 \<and>
     threads y' ! 0 = (Idle, None)"
  by (rule sem_no_lost_wakeup [OF released_sys_reachable, of 0 "In_take None" SEM_FOREVER])
    (simp_all add: released_sys_def SEM_VALUE_MAX_def INT_MAX_def)

definition starved_sys :: sys where
  "starved_sys = \<lparr>sem = \<lparr>val = -1, tokens = 0\<rparr>,
     threads = [(Token_poll In_cancel SEM_FOREVER, None), (Idle, None), (Idle, None)], posts = 1, wins = 1\<rparr>"

definition deadline :: timespec where "deadline = \<lparr>tv_sec = 100, tv_nsec = 0\<rparr>"

definition starving_run :: "(nat \<times> move) list" where
  "starving_run =
     [(0, Call (Take (Some deadline))), (0, Step Go), (0, Step (Now (Some \<lparr>tv_sec = 99, tv_nsec = 0\<rparr>))),
      (1, Call Post), (1, Step Go), (1, Step Go),
      (0, Step Nothing), (0, Step (Now (Some \<lparr>tv_sec = 100, tv_nsec = 0\<rparr>))), (0, Step Go), (0, Step Go),
      (2, Call (Take None)), (2, Step Go), (1, Step Got), (2, Step Readable), (2, Step Got)]"

lemma starved_sys_reachable: "reachable 0 3 starved_sys"
proof (rule reachable_run)
  show "sys_run starving_run (sys_init 0 3) = Some starved_sys" by code_simp
qed


definition undisturbed_post :: "nat \<Rightarrow> sys \<Rightarrow> (nat \<times> move) list" where
  "undisturbed_post i y =
     [(i, Call Post), (i, Step Go), (i, Step Go)] @ (if val (sem y) < 0 then [(i, Step Got)] else [])"




text \<open>
  The time left until a deadline is never too short, so that a wait does not give up early, and never
  two milliseconds too long. (A deadline too far away makes the product overflow.)
\<close>

definition nanoseconds :: "timespec \<Rightarrow> int" where
  "nanoseconds t = tv_sec t * 1000000000 + tv_nsec t"

definition timespecValid :: "timespec option \<Rightarrow> bool" where
  "timespecValid ts = (case ts of None \<Rightarrow> False | Some t \<Rightarrow> tv_nsec t \<ge> 0 \<and> tv_nsec t < 1000 * 1000 * 1000)"

lemma sdiv_million:
  fixes x :: int
  assumes "- 1000000000 < x" and "x < 1000000000"
  shows "x \<le> ((x + 999999) sdiv 1000000) * 1000000" and "((x + 999999) sdiv 1000000) * 1000000 < x + 2000000"
    and "- 1000 \<le> (x + 999999) sdiv 1000000" and "(x + 999999) sdiv 1000000 \<le> 1001"
  using assms by (auto simp: signed_divide_int_def sgn_if split: if_splits)

text \<open>
  For a deadline within 280,000 years of now the time left is in the range of the argument of poll;
  it is zero only when the deadline has passed, and otherwise not shorter than the true time, unless
  cut to the largest timeout, and less than two milliseconds longer.
\<close>

theorem sem_remaining_never_short:
  assumes "timespecValid (Some now)" and "timespecValid (Some ts)"
    and "\<bar>tv_sec ts - tv_sec now\<bar> \<le> 9000000000000000"
  shows "\<exists>r. sem_remaining (Some now) ts = Some r \<and> 0 \<le> r \<and> r \<le> 2147483647 \<and>
    (nanoseconds ts - nanoseconds now \<le> r * 1000000 \<or> r = 2147483647) \<and>
    (r * 1000000 < nanoseconds ts - nanoseconds now + 2000000 \<or> r = 0)"
proof -
  let ?d = "tv_sec ts - tv_sec now" and ?x = "tv_nsec ts - tv_nsec now"
  let ?q = "(?x + 999999) sdiv 1000000"
  have x: "- 1000000000 < ?x" "?x < 1000000000" using assms(1,2) by (simp_all add: timespecValid_def)
  note q = sdiv_million [OF x]
  have fits: "LONG_MIN \<le> ?d * 1000" "?d * 1000 \<le> LONG_MAX" "LONG_MIN \<le> ?d * 1000 + ?q" "?d * 1000 + ?q \<le> LONG_MAX"
    using assms(3) q(3,4) unfolding LONG_MIN_def LONG_MAX_def abs_le_iff by (simp_all add: algebra_simps)
  have ns: "nanoseconds ts - nanoseconds now = ?d * 1000000000 + ?x" by (simp add: nanoseconds_def)
  have r: "sem_remaining (Some now) ts =
      Some (if ?d * 1000 + ?q \<le> 0 then 0 else if ?d * 1000 + ?q > 2147483647 then 2147483647 else ?d * 1000 + ?q)"
    using fits by (simp add: sem_remaining_def Let_def)
  show ?thesis unfolding r ns using q(1,2) by auto
qed

theorem sem_remaining_never_short_witness:
  "\<exists>r. sem_remaining (Some \<lparr>tv_sec = 7, tv_nsec = 999999999\<rparr>) \<lparr>tv_sec = 8, tv_nsec = 1\<rparr> = Some r \<and> 0 \<le> r \<and>
    r \<le> 2147483647 \<and> (2 \<le> r * 1000000 \<or> r = 2147483647) \<and> (r * 1000000 < 2000002 \<or> r = 0)"
  using sem_remaining_never_short [of "\<lparr>tv_sec = 7, tv_nsec = 999999999\<rparr>" "\<lparr>tv_sec = 8, tv_nsec = 1\<rparr>"]
  by (simp add: timespecValid_def nanoseconds_def)


subsection \<open>The interface: posix/sem.c\<close>

definition SEMAPHORE_PATH :: "byte list" where "SEMAPHORE_PATH = str ''/dev/posix/sem/''"
definition SEMCTL_PATH :: "byte list" where "SEMCTL_PATH = str ''/dev/posix/semctl''"
definition NAME_MAX :: nat where "NAME_MAX = 256"
definition SEM_PATH_SIZE :: nat where "SEM_PATH_SIZE = length SEMAPHORE_PATH + 1 + NAME_MAX"

definition sem_path :: "byte list \<Rightarrow> errno + byte list" where
  "sem_path name =
     (let name = (case name of [] \<Rightarrow> [] | c # cs \<Rightarrow> if c = of_char (CHR ''/'') then cs else c # cs) in
      if name = [] \<or> of_char (CHR ''/'') \<in> set name then Inl EINVAL
      else let path = SEMAPHORE_PATH @ name in
        if length path \<ge> SEM_PATH_SIZE then Inl ENAMETOOLONG else Inr path)"

text \<open>
  The kernel, the file system and the semaphore server, over a state of their own. \<open>k_lookup\<close>: the object
  a path names; \<open>k_send\<close>: the result of sending a message and the error in the reply; \<open>k_open\<close>.
\<close>

datatype sem_msg = MtCreate int u32 "byte list" | MtDestroy

record ('k, 'o) kernel =
  k_lookup :: "byte list \<Rightarrow> 'k \<Rightarrow> (errno + 'o) \<times> 'k"
  k_send :: "'o \<Rightarrow> sem_msg \<Rightarrow> 'k \<Rightarrow> errno option \<times> errno option \<times> 'k"
  k_open :: "byte list \<Rightarrow> 'k \<Rightarrow> (errno + int) \<times> 'k"
  k_umask :: "'k \<Rightarrow> u32"

definition sem_create :: "('k, 'o) kernel \<Rightarrow> byte list \<Rightarrow> int \<Rightarrow> u32 \<Rightarrow> 'k \<Rightarrow> errno option \<times> 'k" where
  "sem_create K name v mode k =
     (case k_lookup K SEMCTL_PATH k of
        (Inl e, k) \<Rightarrow> (Some e, k)
      | (Inr semctl, k) \<Rightarrow>
          (case k_send K semctl (MtCreate (cast_int v) (mode AND NOT (k_umask K k)) name) k of
             (Some e, _, k) \<Rightarrow> (Some e, k)
           | (None, err, k) \<Rightarrow> (err, k)))"

text \<open>A semaphore as the interface sees it; \<open>Other\<close>: the type is neither of the two.\<close>

datatype sem_t = Named int | Unnamed | Other

record oflags =
  O_CREAT :: bool
  O_EXCL :: bool

text \<open>\<open>room\<close>: the allocation succeeds. Where it fails the descriptor is closed, the third component.\<close>

definition sem_open ::
  "('k, 'o) kernel \<Rightarrow> bool \<Rightarrow> byte list option \<Rightarrow> oflags \<Rightarrow> u32 \<Rightarrow> int \<Rightarrow> 'k \<Rightarrow> (errno + sem_t) \<times> 'k \<times> int option" where
  "sem_open K room name oflag amode avalue k =
     (case name of
        None \<Rightarrow> (Inl EINVAL, k, None)
      | Some name \<Rightarrow>
        (case sem_path name of
           Inl e \<Rightarrow> (Inl e, k, None)
         | Inr path \<Rightarrow>
             let mode = (if O_CREAT oflag then amode else 0);
                 v = (if O_CREAT oflag then avalue else 0)
             in if v > SEM_VALUE_MAX then (Inl EINVAL, k, None)
             else
               (case (if O_CREAT oflag \<and> O_EXCL oflag then sem_create K name v mode k else (None, k)) of
                  (Some e, k) \<Rightarrow> (Inl e, k, None)
                | (None, k) \<Rightarrow>
                    let finish = (\<lambda>r k. case r of
                           Inl e \<Rightarrow> (Inl e, k, None)
                         | Inr fd \<Rightarrow> if room then (Inr (Named fd), k, None) else (Inl ENOMEM, k, Some fd))
                    in case k_open K path k of
                      (Inl e, k) \<Rightarrow>
                        if O_CREAT oflag \<and> \<not> O_EXCL oflag then
                          (case sem_create K name v mode k of
                             (err, k) \<Rightarrow>
                               if err \<noteq> None \<and> err \<noteq> Some EEXIST then (Inl (the err), k, None)
                               else case k_open K path k of (r, k) \<Rightarrow> finish r k)
                        else finish (Inl e) k
                    | (Inr fd, k) \<Rightarrow> finish (Inr fd) k)))"

text \<open>
  The operations hand over to the server for a named semaphore, and to the code above for an unnamed
  one: the request a call makes, with the clock a deadline is read on.
\<close>

datatype ioctl_req = SEM_DOWN | SEM_DOWN_TRY | SEM_DOWN_TIMEOUT clock_ph timespec | SEM_UP | SEM_GETVALUE
and clock_ph = PH_CLOCK_REALTIME | PH_CLOCK_MONOTONIC

datatype clockid = CLOCK_MONOTONIC | CLOCK_MONOTONIC_RAW | CLOCK_REALTIME | CLOCK_OTHER

datatype dispatch = Fails errno | Ioctl int ioctl_req | Starts clockid request

definition sem_wait :: "sem_t option \<Rightarrow> dispatch" where
  "sem_wait sm = (case sm of None \<Rightarrow> Fails EINVAL | Some (Named fd) \<Rightarrow> Ioctl fd SEM_DOWN
     | Some Unnamed \<Rightarrow> Starts CLOCK_REALTIME (Take None) | Some Other \<Rightarrow> Fails EINVAL)"

definition sem_trywait :: "sem_t option \<Rightarrow> dispatch" where
  "sem_trywait sm = (case sm of None \<Rightarrow> Fails EINVAL | Some (Named fd) \<Rightarrow> Ioctl fd SEM_DOWN_TRY
     | Some Unnamed \<Rightarrow> Starts CLOCK_REALTIME Try_wait | Some Other \<Rightarrow> Fails EINVAL)"

definition sem_clockwait :: "sem_t option \<Rightarrow> clockid \<Rightarrow> timespec option \<Rightarrow> dispatch" where
  "sem_clockwait sm clock abstime =
     (case sm of None \<Rightarrow> Fails EINVAL
      | Some sm \<Rightarrow>
        (case (case clock of
             CLOCK_REALTIME \<Rightarrow> Some (clock, PH_CLOCK_REALTIME)
           | CLOCK_MONOTONIC \<Rightarrow> Some (CLOCK_MONOTONIC, PH_CLOCK_MONOTONIC)
           | CLOCK_MONOTONIC_RAW \<Rightarrow> Some (CLOCK_MONOTONIC, PH_CLOCK_MONOTONIC)
           | CLOCK_OTHER \<Rightarrow> None) of
           None \<Rightarrow> Fails EINVAL
         | Some (clock, ph) \<Rightarrow>
             if sm = Unnamed then Starts clock (Take abstime)
             else (case sm of
                Named fd \<Rightarrow> if \<not> timespecValid abstime then Fails EINVAL
                            else Ioctl fd (SEM_DOWN_TIMEOUT ph (the abstime))
              | _ \<Rightarrow> Fails EINVAL)))"

definition sem_timedwait :: "sem_t option \<Rightarrow> timespec option \<Rightarrow> dispatch" where
  "sem_timedwait sm abstime = sem_clockwait sm CLOCK_REALTIME abstime"

definition sem_post :: "sem_t option \<Rightarrow> dispatch" where
  "sem_post sm = (case sm of None \<Rightarrow> Fails EINVAL | Some (Named fd) \<Rightarrow> Ioctl fd SEM_UP
     | Some Unnamed \<Rightarrow> Starts CLOCK_REALTIME Post | Some Other \<Rightarrow> Fails EINVAL)"

text \<open>
  \<open>server\<close>: the answer of the server, \<open>s\<close> the state of an unnamed semaphore. The second component is
  what is stored in \<open>*value\<close>, where the pointer is not NULL.
\<close>

definition sem_getvalue :: "sem_t option \<Rightarrow> bool \<Rightarrow> (int \<Rightarrow> errno + u32) \<Rightarrow> sem \<Rightarrow> errno option \<times> int option" where
  "sem_getvalue sm null server s =
     (case sm of
        None \<Rightarrow> (Some EINVAL, None)
      | Some (Named fd) \<Rightarrow>
          (case server fd of Inl e \<Rightarrow> (Some e, None)
           | Inr v \<Rightarrow> (None, if null then None else Some (sint v)))
      | Some Unnamed \<Rightarrow> if null then (None, None) else (None, Some (sem_unnamedGetValue s))
      | Some Other \<Rightarrow> (Some EINVAL, None))"

text \<open>\<open>closed\<close>: what closing the descriptor answers. The result says whether the object is freed.\<close>

definition sem_close :: "sem_t option \<Rightarrow> (int \<Rightarrow> errno option) \<Rightarrow> errno option \<times> bool" where
  "sem_close sm closed =
     (case sm of Some (Named fd) \<Rightarrow> (closed fd, True) | _ \<Rightarrow> (Some EINVAL, False))"

definition sem_init :: "bool \<Rightarrow> bool \<Rightarrow> bool \<Rightarrow> int \<Rightarrow> nat \<Rightarrow> errno + sem" where
  "sem_init null pipe_ok nonblock_ok pshared v =
     (if pshared \<noteq> 0 then Inl ENOSYS
      else if null then Inl EINVAL
      else if int v > SEM_VALUE_MAX then Inl EINVAL
      else sem_unnamedInit pipe_ok nonblock_ok v)"

text \<open>A destroyed semaphore has no pipe any more: no state is left.\<close>

definition sem_unnamedDestroy :: "sem \<Rightarrow> sem option" where
  "sem_unnamedDestroy s = None"

definition sem_destroy :: "sem_t option \<Rightarrow> sem \<Rightarrow> errno option \<times> sem option" where
  "sem_destroy sm s =
     (case sm of Some Unnamed \<Rightarrow> (None, sem_unnamedDestroy s) | _ \<Rightarrow> (Some EINVAL, Some s))"

definition sem_unlink :: "('k, 'o) kernel \<Rightarrow> byte list option \<Rightarrow> 'k \<Rightarrow> errno option \<times> 'k" where
  "sem_unlink K name k =
     (case name of
        None \<Rightarrow> (Some EINVAL, k)
      | Some name \<Rightarrow>
        (case sem_path name of
           Inl e \<Rightarrow> (Some e, k)
         | Inr path \<Rightarrow>
           (case k_lookup K path k of
              (Inl _, k) \<Rightarrow> (Some ENOENT, k)
            | (Inr ob, k) \<Rightarrow>
              (case k_send K ob MtDestroy k of
                 (Some e, _, k) \<Rightarrow> (Some e, k)
               | (None, err, k) \<Rightarrow> (err, k)))))"


text \<open>
  What the semaphore server promises a client that no other process gets in the way of: creating adds
  the name, or reports that it exists; opening finds exactly the names there are.
\<close>

definition sem_server :: "('k, 'o) kernel \<Rightarrow> ('k \<Rightarrow> byte list set) \<Rightarrow> bool" where
  "sem_server K names \<longleftrightarrow>
     (\<exists>ctl. (\<forall>k. k_lookup K SEMCTL_PATH k = (Inr ctl, k)) \<and>
        (\<forall>v m name path k. sem_path name = Inr path \<longrightarrow>
           (if path \<in> names k then k_send K ctl (MtCreate v m name) k = (None, Some EEXIST, k)
            else (\<exists>k'. k_send K ctl (MtCreate v m name) k = (None, None, k') \<and> names k' = insert path (names k))))) \<and>
     (\<forall>path k. \<exists>fd. k_open K path k = (if path \<in> names k then Inr fd else Inl ENOENT, k))"

lemma sem_create_server:
  assumes server: "sem_server K names" and path: "sem_path name = Inr path"
  shows "path \<in> names k \<Longrightarrow> sem_create K name v mode k = (Some EEXIST, k)"
    and "path \<notin> names k \<Longrightarrow> \<exists>k'. sem_create K name v mode k = (None, k') \<and> names k' = insert path (names k)"
proof -
  from server obtain ctl where lookup: "\<And>k. k_lookup K SEMCTL_PATH k = (Inr ctl, k)"
    and send: "\<And>v m k. (if path \<in> names k then k_send K ctl (MtCreate v m name) k = (None, Some EEXIST, k)
        else (\<exists>k'. k_send K ctl (MtCreate v m name) k = (None, None, k') \<and> names k' = insert path (names k)))"
    unfolding sem_server_def using path by blast
  show "sem_create K name v mode k = (Some EEXIST, k)" if "path \<in> names k"
    using lookup [of k] send [of k] that by (simp add: sem_create_def)
  show "\<exists>k'. sem_create K name v mode k = (None, k') \<and> names k' = insert path (names k)" if "path \<notin> names k"
    using lookup [of k] send [of k "cast_int v" "mode AND NOT (k_umask K k)"] that by (auto simp: sem_create_def)
qed

lemma k_open_server:
  assumes "sem_server K names"
  shows "path \<in> names k \<Longrightarrow> \<exists>fd. k_open K path k = (Inr fd, k)"
    and "path \<notin> names k \<Longrightarrow> k_open K path k = (Inl ENOENT, k)"
proof -
  from assms obtain fd where fd: "k_open K path k = (if path \<in> names k then Inr fd else Inl ENOENT, k)"
    unfolding sem_server_def by blast
  show "\<exists>fd. k_open K path k = (Inr fd, k)" if "path \<in> names k" using fd that by simp
  show "k_open K path k = (Inl ENOENT, k)" if "path \<notin> names k" using fd that by simp
qed

text \<open>
  The four ways to open a named semaphore: without \<open>O_CREAT\<close> it must exist; with \<open>O_CREAT\<close> alone
  it is created where it does not; with \<open>O_EXCL\<close> as well it must not exist. A failure creates nothing.
\<close>

theorem sem_open_modes:
  assumes "sem_server K names" and "sem_path name = Inr path" and "0 \<le> v" and "v \<le> SEM_VALUE_MAX"
  shows "\<exists>fd k'. sem_open K True (Some name) fl mode v k =
      ((if O_CREAT fl \<and> O_EXCL fl \<and> path \<in> names k then Inl EEXIST
        else if \<not> O_CREAT fl \<and> path \<notin> names k then Inl ENOENT
        else Inr (Named fd)), k', None) \<and>
    names k' = (if O_CREAT fl then insert path (names k) else names k)"
proof -
  have nv: "\<not> SEM_VALUE_MAX < v" "\<not> SEM_VALUE_MAX < 0" using assms(4) by (simp_all add: SEM_VALUE_MAX_def INT_MAX_def)
  show ?thesis
  proof (cases "path \<in> names k")
  case True
  then have ins: "insert path (names k) = names k" by blast
  from k_open_server(1) [OF assms(1) True] obtain fd where "k_open K path k = (Inr fd, k)" by blast
  note facts = this sem_create_server(1) [OF assms(1,2) True] assms(2-4)
  show ?thesis
    by (cases "O_CREAT fl"; cases "O_EXCL fl") (simp_all add: sem_open_def facts True ins nv)
next
  case False
  note enoent = k_open_server(2) [OF assms(1) False]
  from sem_create_server(2) [OF assms(1,2) False, of v mode] obtain k' where
    k': "sem_create K name v mode k = (None, k')" "names k' = insert path (names k)" by blast
  then have "path \<in> names k'" by simp
  from k_open_server(1) [OF assms(1) this] obtain fd where "k_open K path k' = (Inr fd, k')" by blast
  with False k' assms(2) nv enoent show ?thesis
    by (cases "O_CREAT fl"; cases "O_EXCL fl") (simp_all add: sem_open_def)
  qed
qed

text \<open>A server over the list of the names there are.\<close>

definition list_server :: "(byte list list, unit) kernel" where
  "list_server = \<lparr>k_lookup = \<lambda>path k. (Inr (), k),
     k_send = \<lambda>u m k. (case m of
        MtCreate v mode name \<Rightarrow>
          (case sem_path name of Inl e \<Rightarrow> (None, Some e, k)
           | Inr path \<Rightarrow> if path \<in> set k then (None, Some EEXIST, k) else (None, None, path # k))
      | MtDestroy \<Rightarrow> (None, None, k)),
     k_open = \<lambda>path k. (if path \<in> set k then Inr 3 else Inl ENOENT, k),
     k_umask = \<lambda>k. 0\<rparr>"

theorem sem_open_modes_witness:
  "\<exists>fd k'. sem_open list_server True (Some (str ''/a'')) \<lparr>O_CREAT = True, O_EXCL = True\<rparr> 0 1 [] =
     (Inr (Named fd), k', None) \<and> set k' = {str ''/dev/posix/sem/a''}"
proof -
  have "sem_server list_server set"
    by (auto simp: sem_server_def list_server_def)
  moreover have "sem_path (str ''/a'') = Inr (str ''/dev/posix/sem/a'')" by code_simp
  ultimately show ?thesis
    using sem_open_modes [of list_server set "str ''/a''" "str ''/dev/posix/sem/a''" 1
        "\<lparr>O_CREAT = True, O_EXCL = True\<rparr>" 0 "[]"]
    by (simp add: SEM_VALUE_MAX_def INT_MAX_def)
qed

end
