(* ===== verification/Barrier.thy ===== *)
theory Barrier
  imports CMem
begin

section \<open>Barriers: pthread/barrier.c\<close>

text \<open>
  A barrier is a mutex, a condition variable and four counters. Every access to the counters is made
  under the mutex, so the code between taking it and giving it up, or going to sleep on the condition,
  is one step of the model. A thread asleep on the condition is woken by a broadcast or for no reason,
  and has to take the mutex again before it goes on. The counters are \<open>unsigned int\<close>. The kernel's
  mutex and condition variable are parameters of \<open>pthread_barrier_init\<close>: the error they return, if any.
\<close>

subsection \<open>Attributes\<close>

datatype pshared = PTHREAD_PROCESS_PRIVATE | PTHREAD_PROCESS_SHARED | PSHARED_BAD

text \<open>\<open>attr\<close>: the object, \<open>None\<close> for NULL. A result \<open>None\<close> for the error is 0.\<close>

definition pthread_barrierattr_init :: "pshared option \<Rightarrow> pshared option \<times> errno option" where
  "pthread_barrierattr_init attr =
     (case attr of None \<Rightarrow> (None, Some EINVAL) | Some _ \<Rightarrow> (Some PTHREAD_PROCESS_PRIVATE, None))"

definition pthread_barrierattr_destroy :: "pshared option \<Rightarrow> errno option" where
  "pthread_barrierattr_destroy attr = (if attr = None then Some EINVAL else None)"

definition pthread_barrierattr_getpshared :: "pshared option \<Rightarrow> bool \<Rightarrow> errno + pshared" where
  "pthread_barrierattr_getpshared attr out_null =
     (case attr of None \<Rightarrow> Inl EINVAL | Some p \<Rightarrow> if out_null then Inl EINVAL else Inr p)"

definition pthread_barrierattr_setpshared :: "pshared option \<Rightarrow> pshared \<Rightarrow> pshared option \<times> errno option" where
  "pthread_barrierattr_setpshared attr pshared =
     (if attr = None \<or> pshared \<noteq> PTHREAD_PROCESS_PRIVATE \<and> pshared \<noteq> PTHREAD_PROCESS_SHARED then (attr, Some EINVAL)
      else if pshared = PTHREAD_PROCESS_SHARED then (attr, Some ENOTSUP)
      else (Some pshared, None))"

subsection \<open>The barrier\<close>

record barrier =
  b_count :: "32 word"
  b_waiting :: "32 word"
  b_inside :: "32 word"
  b_generation :: "32 word"

text \<open>\<open>given\<close>: the barrier is not NULL; \<open>attr\<close>: \<open>None\<close> for NULL; the errors of the kernel objects.\<close>

definition pthread_barrier_init ::
  "bool \<Rightarrow> pshared option \<Rightarrow> 32 word \<Rightarrow> errno option \<Rightarrow> errno option \<Rightarrow> errno + barrier" where
  "pthread_barrier_init given attr count mutex cond =
     (if \<not> given \<or> count = 0 then Inl EINVAL
      else if attr \<noteq> None \<and> attr \<noteq> Some PTHREAD_PROCESS_PRIVATE then Inl ENOTSUP
      else case mutex of Some e \<Rightarrow> Inl e | None \<Rightarrow>
        (case cond of Some e \<Rightarrow> Inl e | None \<Rightarrow>
          Inr \<lparr>b_count = count, b_waiting = 0, b_inside = 0, b_generation = 0\<rparr>))"

text \<open>
  The parts of \<open>pthread_barrier_wait\<close> under the mutex: the arrival, with the generation to sleep in,
  or \<open>None\<close> and a broadcast where the round is complete; and the way out, with whether it broadcasts.
\<close>

definition barrier_arrive :: "barrier \<Rightarrow> barrier \<times> 32 word option" where
  "barrier_arrive b =
     (let b = b\<lparr>b_inside := b_inside b + 1\<rparr>;
          generation = b_generation b;
          b = b\<lparr>b_waiting := b_waiting b + 1\<rparr>
      in if b_waiting b = b_count b then
           (b\<lparr>b_generation := b_generation b + 1, b_waiting := 0\<rparr>, None)
         else (b, Some generation))"

definition barrier_leave :: "barrier \<Rightarrow> barrier \<times> bool" where
  "barrier_leave b = (let b = b\<lparr>b_inside := b_inside b - 1\<rparr> in (b, b_inside b = 0))"

definition PTHREAD_BARRIER_SERIAL_THREAD :: int where "PTHREAD_BARRIER_SERIAL_THREAD = -1"

text \<open>
  Where a thread is: outside, asleep in \<open>pthread_barrier_wait\<close> or woken there, or the same in
  \<open>pthread_barrier_destroy\<close>. A call is numbered by the calls that arrived before it.
\<close>

datatype bpc = Out | Asleep "32 word" nat | Ready "32 word" nat | DAsleep | DReady

record bstate =
  bar :: barrier
  bpcs :: "nat \<Rightarrow> bpc"
  arrivals :: nat
  returned :: "(nat \<times> int) list"
  destroyed :: bool

definition wake :: "bpc \<Rightarrow> bpc" where
  "wake p = (case p of Asleep g n \<Rightarrow> Ready g n | DAsleep \<Rightarrow> DReady | _ \<Rightarrow> p)"

definition broadcast :: "bstate \<Rightarrow> bstate" where
  "broadcast s = s\<lparr>bpcs := (\<lambda>t. wake (bpcs s t))\<rparr>"

definition leave :: "nat \<Rightarrow> nat \<Rightarrow> int \<Rightarrow> bstate \<Rightarrow> bstate" where
  "leave t n ret s =
     (let (b, bcast) = barrier_leave (bar s);
          s = s\<lparr>bar := b, bpcs := (bpcs s)(t := Out), returned := (n, ret) # returned s\<rparr>
      in if bcast then broadcast s else s)"

definition sleep_or_leave :: "nat \<Rightarrow> 32 word \<Rightarrow> nat \<Rightarrow> bstate \<Rightarrow> bstate" where
  "sleep_or_leave t generation n s =
     (if generation = b_generation (bar s) then s\<lparr>bpcs := (bpcs s)(t := Asleep generation n)\<rparr>
      else leave t n 0 s)"

definition destroy_or_sleep :: "nat \<Rightarrow> bstate \<Rightarrow> bstate" where
  "destroy_or_sleep t s =
     (if b_inside (bar s) \<noteq> 0 then s\<lparr>bpcs := (bpcs s)(t := DAsleep)\<rparr>
      else s\<lparr>bpcs := (bpcs s)(t := Out), destroyed := True\<rparr>)"

text \<open>
  The steps of thread \<open>t\<close>: it calls \<open>pthread_barrier_wait\<close>, wakes for no reason, goes on after a
  wake-up, or calls \<open>pthread_barrier_destroy\<close> (which leaves everything as it is where it returns
  EBUSY). A step is \<open>None\<close> where the thread is not there, and on a destroyed barrier.
\<close>

datatype bact = Arrive nat | Spurious nat | Resume nat | Destroy nat

fun bexec :: "bact \<Rightarrow> bstate \<Rightarrow> bstate option" where
  "bexec (Arrive t) s =
     (if destroyed s \<or> bpcs s t \<noteq> Out then None
      else
        let n = arrivals s; (b, sleep) = barrier_arrive (bar s); s = s\<lparr>bar := b, arrivals := n + 1\<rparr>
        in case sleep of
             None \<Rightarrow> Some (leave t n PTHREAD_BARRIER_SERIAL_THREAD (broadcast s))
           | Some generation \<Rightarrow> Some (sleep_or_leave t generation n s))"
| "bexec (Spurious t) s =
     (case bpcs s t of
        Asleep g n \<Rightarrow> Some (s\<lparr>bpcs := (bpcs s)(t := Ready g n)\<rparr>)
      | DAsleep \<Rightarrow> Some (s\<lparr>bpcs := (bpcs s)(t := DReady)\<rparr>)
      | _ \<Rightarrow> None)"
| "bexec (Resume t) s =
     (if destroyed s then None
      else case bpcs s t of
        Ready g n \<Rightarrow> Some (sleep_or_leave t g n s)
      | DReady \<Rightarrow> Some (destroy_or_sleep t s)
      | _ \<Rightarrow> None)"
| "bexec (Destroy t) s =
     (if destroyed s \<or> bpcs s t \<noteq> Out then None
      else if b_waiting (bar s) \<noteq> 0 then Some s
      else Some (destroy_or_sleep t s))"

fun brun :: "bact list \<Rightarrow> bstate \<Rightarrow> bstate option" where
  "brun [] s = Some s"
| "brun (a # as) s = Option.bind (bexec a s) (brun as)"

fun actor :: "bact \<Rightarrow> nat" where
  "actor (Arrive t) = t"
| "actor (Spurious t) = t"
| "actor (Resume t) = t"
| "actor (Destroy t) = t"

definition bstart :: "barrier \<Rightarrow> bstate" where
  "bstart b = \<lparr>bar = b, bpcs = (\<lambda>_. Out), arrivals = 0, returned = [], destroyed = False\<rparr>"

subsection \<open>The invariant\<close>

text \<open>
  The counters are images of two numbers without a bound: the calls that arrived and those inside. A
  thread sleeps in the current generation only; every call that returned belongs to a round that is
  complete, and returned what its place in the round asks for. \<open>k\<close> counts the call that holds the
  mutex.
\<close>

definition number :: "bpc \<Rightarrow> nat option" where
  "number p = (case p of Asleep _ n \<Rightarrow> Some n | Ready _ n \<Rightarrow> Some n | _ \<Rightarrow> None)"

definition inside_set :: "bstate \<Rightarrow> nat set" where
  "inside_set s = {t. number (bpcs s t) \<noteq> None}"

definition round_result :: "nat \<Rightarrow> nat \<Rightarrow> int" where
  "round_result c n = (if Suc n mod c = 0 then PTHREAD_BARRIER_SERIAL_THREAD else 0)"

definition counters :: "nat \<Rightarrow> nat \<Rightarrow> bstate \<Rightarrow> bool" where
  "counters c k s \<longleftrightarrow> bar s = \<lparr>b_count = of_nat c, b_waiting = of_nat (arrivals s mod c),
     b_inside = of_nat (card (inside_set s) + k), b_generation = of_nat (arrivals s div c)\<rparr>"

definition pcs_ok :: "nat \<Rightarrow> nat \<Rightarrow> nat \<Rightarrow> bstate \<Rightarrow> bool" where
  "pcs_ok N c k s \<longleftrightarrow>
     (\<forall>t. (N \<le> t \<longrightarrow> bpcs s t = Out) \<and> (bpcs s t = DAsleep \<longrightarrow> card (inside_set s) + k \<noteq> 0)) \<and>
     (\<forall>t g n. bpcs s t = Asleep g n \<or> bpcs s t = Ready g n \<longrightarrow> g = of_nat (n div c)) \<and>
     (\<forall>t g n. bpcs s t = Asleep g n \<longrightarrow> g = b_generation (bar s))"

definition calls_ok :: "nat \<Rightarrow> bstate \<Rightarrow> bool" where
  "calls_ok c s \<longleftrightarrow>
     (\<forall>t n. number (bpcs s t) = Some n \<longrightarrow> n < arrivals s \<and> Suc n mod c \<noteq> 0 \<and> n \<notin> fst ` set (returned s)) \<and>
     (\<forall>t u n. number (bpcs s t) = Some n \<and> number (bpcs s u) = Some n \<longrightarrow> t = u) \<and>
     distinct (map fst (returned s)) \<and>
     (\<forall>n r. (n, r) \<in> set (returned s) \<longrightarrow> (n div c + 1) * c \<le> arrivals s \<and> r = round_result c n)"

definition binv :: "nat \<Rightarrow> nat \<Rightarrow> nat \<Rightarrow> bstate \<Rightarrow> bool" where
  "binv N c k s \<longleftrightarrow> 0 < c \<and> c < 2 ^ 32 \<and> N < 2 ^ 32 \<and> counters c k s \<and> pcs_ok N c k s \<and> calls_ok c s \<and>
     (destroyed s \<longrightarrow> inside_set s = {})"

text \<open>The call number \<open>n\<close> of thread \<open>t\<close> holds the mutex.\<close>

definition busy :: "nat \<Rightarrow> nat \<Rightarrow> nat \<Rightarrow> nat \<Rightarrow> bstate \<Rightarrow> bool" where
  "busy N c t n s \<longleftrightarrow> binv N c 1 s \<and> t < N \<and> bpcs s t = Out \<and> \<not> destroyed s \<and> n < arrivals s \<and>
     n \<notin> fst ` set (returned s) \<and> (\<forall>u. number (bpcs s u) \<noteq> Some n)"

lemma number_simps [simp]:
  "number Out = None" "number (Asleep g n) = Some n" "number (Ready g n) = Some n" "number DAsleep = None" "number DReady = None"
  by (simp_all add: number_def)

lemma number_wake [simp]: "number (wake p) = number p"
  by (simp add: wake_def number_def split: bpc.split)

lemma wake_simps [simp]: "wake p \<noteq> Asleep g n" "wake p \<noteq> DAsleep" "wake p = Out \<longleftrightarrow> p = Out"
    "wake p = Ready g n \<longleftrightarrow> p = Asleep g n \<or> p = Ready g n"
  by (cases p; auto simp: wake_def)+

lemma unat_of_nat32: "m < 2 ^ 32 \<Longrightarrow> unat (of_nat m :: 32 word) = m"
  by (simp add: unsigned_of_nat take_bit_nat_eq_self)

lemma of_nat_inj32: "m < 2 ^ 32 \<Longrightarrow> n < 2 ^ 32 \<Longrightarrow> (of_nat m :: 32 word) = of_nat n \<longleftrightarrow> m = n"
  by (metis unat_of_nat32)

lemma of_nat_zero32: "m < 2 ^ 32 \<Longrightarrow> (of_nat m :: 32 word) = 0 \<longleftrightarrow> m = 0"
  using of_nat_inj32 [of m 0] by simp

lemma inside_sub: "pcs_ok N c k s \<Longrightarrow> inside_set s \<subseteq> {..<N}"
  by (auto simp: pcs_ok_def inside_set_def) (metis linorder_not_less number_simps(1) option.distinct(1))

lemma inside_card:
  assumes "pcs_ok N c k s"
  shows "finite (inside_set s)" and "card (inside_set s) \<le> N" and "t < N \<Longrightarrow> t \<notin> inside_set s \<Longrightarrow> card (inside_set s) < N"
proof -
  have sub: "inside_set s \<subseteq> {..<N}" by (rule inside_sub [OF assms])
  then show fin: "finite (inside_set s)" by (rule finite_subset) simp
  show "card (inside_set s) \<le> N" using card_mono [OF _ sub] by simp
  show "card (inside_set s) < N" if "t < N" "t \<notin> inside_set s"
    using psubset_card_mono [of "{..<N}" "inside_set s"] sub that by auto
qed

lemma inside_upd:
  "inside_set (s\<lparr>bpcs := (bpcs s)(t := p)\<rparr>) = (if number p = None then inside_set s - {t} else insert t (inside_set s))"
  by (auto simp: inside_set_def)

lemma inside_broadcast [simp]: "inside_set (broadcast s) = inside_set s"
  by (simp add: inside_set_def broadcast_def)

lemma binv_broadcast: "binv N c k s \<Longrightarrow> binv N c k (broadcast s)"
  by (simp add: binv_def counters_def pcs_ok_def calls_ok_def) (simp add: broadcast_def)

lemma leave_inv:
  assumes "busy N c t n s" and "(n div c + 1) * c \<le> arrivals s"
  shows "binv N c 0 (leave t n (round_result c n) s)"
proof -
  have b: "0 < c" "c < 2 ^ 32" "N < 2 ^ 32" "counters c 1 s" "pcs_ok N c 1 s" "calls_ok c s" "t < N" "bpcs s t = Out" "\<not> destroyed s"
    "n < arrivals s" "n \<notin> fst ` set (returned s)" "\<forall>u. number (bpcs s u) \<noteq> Some n"
    using assms(1) by (simp_all add: busy_def binv_def)
  have "t \<notin> inside_set s" using b(8) by (simp add: inside_set_def)
  then have "card (inside_set s) < N" by (rule inside_card(3) [OF b(5) b(7)])
  then have card: "card (inside_set s) < 2 ^ 32" using b(3) by simp
  define b' where "b' = (bar s)\<lparr>b_inside := of_nat (card (inside_set s))\<rparr>"
  have bl: "barrier_leave (bar s) = (b', card (inside_set s) = 0)"
    using b(4) of_nat_zero32 [OF card] by (simp add: barrier_leave_def counters_def b'_def)
  define s1 where "s1 = s\<lparr>bar := b', bpcs := (bpcs s)(t := Out), returned := (n, round_result c n) # returned s\<rparr>"
  have f: "bpcs s1 = bpcs s" "arrivals s1 = arrivals s" "returned s1 = (n, round_result c n) # returned s" "destroyed s1 = destroyed s"
    "bar s1 = b'" using b(8) by (auto simp: s1_def)
  have i: "inside_set s1 = inside_set s" by (simp add: inside_set_def f)
  have cnt: "counters c 0 s1" using b(4) by (simp add: counters_def f i b'_def)
  have calls: "calls_ok c s1" using b(6,10-12) assms(2) by (auto simp: calls_ok_def f)
  have gen: "b_generation b' = b_generation (bar s)" by (simp add: b'_def)
  show ?thesis
  proof (cases "card (inside_set s) = 0")
    case False
    have "pcs_ok N c 0 s1" using b(5) False unfolding pcs_ok_def f i gen by simp
    then have "binv N c 0 s1" using b cnt calls by (simp add: binv_def f)
    then show ?thesis using False by (simp add: leave_def bl s1_def)
  next
    case True
    have "pcs_ok N c 0 (broadcast s1)"
      using b(5) unfolding pcs_ok_def inside_broadcast i by (simp add: broadcast_def f)
    moreover have "counters c 0 (broadcast s1)" "calls_ok c (broadcast s1)"
      using cnt calls by (simp_all add: counters_def calls_ok_def) (simp_all add: broadcast_def)
    ultimately have "binv N c 0 (broadcast s1)" using b by (simp add: binv_def) (simp add: broadcast_def f)
    then show ?thesis using True by (simp add: leave_def bl s1_def)
  qed
qed

lemma sleep_inv:
  assumes "busy N c t n s" and "g = of_nat (n div c)" and "g = b_generation (bar s)" and "Suc n mod c \<noteq> 0"
  shows "binv N c 0 (s\<lparr>bpcs := (bpcs s)(t := Asleep g n)\<rparr>)"
proof -
  let ?s = "s\<lparr>bpcs := (bpcs s)(t := Asleep g n)\<rparr>"
  have b: "0 < c" "c < 2 ^ 32" "N < 2 ^ 32" "counters c 1 s" "pcs_ok N c 1 s" "calls_ok c s" "t < N" "bpcs s t = Out" "\<not> destroyed s"
    "n < arrivals s" "n \<notin> fst ` set (returned s)" "\<forall>u. number (bpcs s u) \<noteq> Some n"
    using assms(1) by (simp_all add: busy_def binv_def)
  have t: "t \<notin> inside_set s" using b(8) by (simp add: inside_set_def)
  have i: "card (inside_set ?s) = card (inside_set s) + 1"
    unfolding inside_upd using t inside_card(1) [OF b(5)] by simp
  have "counters c 0 ?s" using b(4) by (simp add: counters_def i)
  moreover have "pcs_ok N c 0 ?s" using b(5,7) assms(2,3) unfolding pcs_ok_def i by auto
  moreover have "calls_ok c ?s" using b(6,10-12) assms(4) unfolding calls_ok_def by auto
  ultimately show ?thesis using b by (simp add: binv_def)
qed

lemma sleep_or_leave_inv:
  assumes "busy N c t n s" and "g = of_nat (n div c)" and "Suc n mod c \<noteq> 0"
  shows "binv N c 0 (sleep_or_leave t g n s)"
proof (cases "g = b_generation (bar s)")
  case True
  with sleep_inv [OF assms(1,2) True assms(3)] show ?thesis by (simp add: sleep_or_leave_def)
next
  case False
  have c: "0 < c" "b_generation (bar s) = of_nat (arrivals s div c)" "n < arrivals s"
    using assms(1) by (simp_all add: busy_def binv_def counters_def)
  have "n div c \<noteq> arrivals s div c" using False assms(2) c(2) by auto
  moreover have "n div c \<le> arrivals s div c" using c(3) by (intro div_le_mono) simp
  ultimately have "n div c + 1 \<le> arrivals s div c" by simp
  then have "(n div c + 1) * c \<le> arrivals s div c * c" by (rule mult_le_mono1)
  also have "\<dots> \<le> arrivals s" by simp
  finally have le: "(n div c + 1) * c \<le> arrivals s" .
  have "round_result c n = 0" using assms(3) by (simp add: round_result_def)
  with False leave_inv [OF assms(1) le] show ?thesis by (simp add: sleep_or_leave_def)
qed

text \<open>The steps.\<close>

lemma Suc_div_mod:
  assumes "0 < (c :: nat)"
  shows "Suc (n mod c) = c \<longleftrightarrow> Suc n mod c = 0" and "Suc n mod c \<noteq> 0 \<Longrightarrow> Suc n div c = n div c \<and> Suc n mod c = Suc (n mod c)"
    and "Suc n mod c = 0 \<Longrightarrow> Suc n div c = Suc (n div c) \<and> (n div c + 1) * c = Suc n"
proof -
  show *: "Suc (n mod c) = c \<longleftrightarrow> Suc n mod c = 0" using assms by (auto simp: mod_Suc)
  show "Suc n div c = n div c \<and> Suc n mod c = Suc (n mod c)" if "Suc n mod c \<noteq> 0"
    using that by (simp add: mod_Suc div_Suc split: if_splits)
  show "Suc n div c = Suc (n div c) \<and> (n div c + 1) * c = Suc n" if "Suc n mod c = 0"
  proof -
    have "Suc n div c = Suc (n div c)" using that by (simp add: div_Suc)
    moreover have "Suc n div c * c = Suc n" using that by (simp add: mod_0_imp_dvd)
    ultimately show ?thesis by simp
  qed
qed

lemma arrive_inv:
  assumes "binv N c 0 s" and "t < N" and "bexec (Arrive t) s = Some s'"
  shows "binv N c 0 s'"
proof -
  have b: "0 < c" "c < 2 ^ 32" "N < 2 ^ 32" "counters c 0 s" "pcs_ok N c 0 s" "calls_ok c s"
    using assms(1) by (simp_all add: binv_def)
  have out: "\<not> destroyed s" "bpcs s t = Out" using assms(3) by (auto split: if_splits)
  define n where "n = arrivals s"
  note m = Suc_div_mod [OF b(1), of n]
  have bar: "bar s = \<lparr>b_count = of_nat c, b_waiting = of_nat (n mod c), b_inside = of_nat (card (inside_set s)),
      b_generation = of_nat (n div c)\<rparr>"
    using b(4) by (simp add: counters_def n_def)
  have le: "Suc (n mod c) \<le> c" using b(1) by (simp add: Suc_leI)
  then have lt: "Suc (n mod c) < 2 ^ 32" using b(2) by simp
  have full: "(of_nat (n mod c) + 1 :: 32 word) = of_nat c \<longleftrightarrow> Suc n mod c = 0"
    using of_nat_inj32 [OF lt b(2)] m(1) by (simp add: add.commute)
  define b' where "b' = \<lparr>b_count = of_nat c, b_waiting = of_nat (Suc n mod c), b_inside = of_nat (card (inside_set s) + 1),
      b_generation = of_nat (Suc n div c)\<rparr>"
  have ar: "barrier_arrive (bar s) = (b', if Suc n mod c = 0 then None else Some (of_nat (n div c)))"
  proof (cases "Suc n mod c = 0")
    case True
    then show ?thesis using full m(3) by (simp add: barrier_arrive_def bar b'_def add.commute)
  next
    case False
    then show ?thesis using full m(2) by (simp add: barrier_arrive_def bar b'_def add.commute)
  qed
  define s1 where "s1 = s\<lparr>bar := b', arrivals := n + 1\<rparr>"
  have f: "bpcs s1 = bpcs s" "arrivals s1 = Suc n" "returned s1 = returned s" "destroyed s1 = destroyed s" "bar s1 = b'"
    by (simp_all add: s1_def)
  have i: "inside_set s1 = inside_set s" by (simp add: inside_set_def f)
  have cnt: "counters c 1 s1" by (simp add: counters_def f i b'_def)
  have calls: "calls_ok c s1"
    using b(6) unfolding calls_ok_def f n_def [symmetric] by (meson le_SucI less_SucI)
  have fresh: "n \<notin> fst ` set (returned s)" "\<forall>u. number (bpcs s u) \<noteq> Some n"
  proof -
    show "n \<notin> fst ` set (returned s)"
    proof
      assume "n \<in> fst ` set (returned s)"
      then obtain r where "(n, r) \<in> set (returned s)" by auto
      then have "(n div c + 1) * c \<le> n" using b(6) by (simp add: calls_ok_def n_def)
      moreover have "n < (n div c + 1) * c" using dividend_less_div_times [OF b(1), of n] by simp
      ultimately show False by simp
    qed
    show "\<forall>u. number (bpcs s u) \<noteq> Some n" using b(6) by (auto simp: calls_ok_def n_def)
  qed
  show ?thesis
  proof (cases "Suc n mod c = 0")
    case True
    have "s' = leave t n PTHREAD_BARRIER_SERIAL_THREAD (broadcast s1)"
      using assms(3) out ar True by (simp add: Let_def n_def [symmetric] s1_def)
    moreover have "pcs_ok N c 1 (broadcast s1)"
      using b(5) unfolding pcs_ok_def by (simp add: broadcast_def f)
    moreover have "counters c 1 (broadcast s1)" "calls_ok c (broadcast s1)"
      using cnt calls by (simp_all add: counters_def calls_ok_def) (simp_all add: broadcast_def)
    ultimately have "busy N c t n (broadcast s1)" "s' = leave t n (round_result c n) (broadcast s1)"
      using b out fresh assms(2) True by (simp_all add: busy_def binv_def round_result_def) (simp_all add: broadcast_def f)
    moreover have "(n div c + 1) * c \<le> arrivals (broadcast s1)" using m(3) True by (simp add: broadcast_def f)
    ultimately show ?thesis using leave_inv by simp
  next
    case False
    have "s' = sleep_or_leave t (of_nat (n div c)) n s1"
      using assms(3) out ar False by (simp add: Let_def n_def [symmetric] s1_def)
    moreover have "pcs_ok N c 1 s1"
      using b(5) m(2) [OF False] unfolding pcs_ok_def f by (simp add: bar b'_def)
    then have "busy N c t n s1" using b cnt calls out fresh assms(2) by (simp add: busy_def binv_def f)
    ultimately show ?thesis using sleep_or_leave_inv False by simp
  qed
qed

lemma resume_busy:
  assumes "binv N c 0 s" and "bpcs s t = Ready g n" and "\<not> destroyed s"
  shows "busy N c t n (s\<lparr>bpcs := (bpcs s)(t := Out)\<rparr>)" and "g = of_nat (n div c)" and "Suc n mod c \<noteq> 0"
proof -
  let ?s = "s\<lparr>bpcs := (bpcs s)(t := Out)\<rparr>"
  have b: "0 < c" "c < 2 ^ 32" "N < 2 ^ 32" "counters c 0 s" "pcs_ok N c 0 s" "calls_ok c s"
    using assms(1) by (simp_all add: binv_def)
  show "g = of_nat (n div c)" using b(5) assms(2) by (simp add: pcs_ok_def)
  have num: "number (bpcs s t) = Some n" by (simp add: assms(2))
  show "Suc n mod c \<noteq> 0" using b(6) num by (auto simp: calls_ok_def)
  have t: "t \<in> inside_set s" by (simp add: inside_set_def num)
  then have "t < N" using inside_sub [OF b(5)] by auto
  have "card (inside_set s) > 0" using t inside_card(1) [OF b(5)] card_gt_0_iff by blast
  then have i: "card (inside_set ?s) + 1 = card (inside_set s)" unfolding inside_upd using t by simp
  have "counters c 1 ?s" using b(4) i by (simp add: counters_def)
  moreover have "pcs_ok N c 1 ?s" using b(5) unfolding pcs_ok_def by auto
  moreover have "calls_ok c ?s" using b(6) unfolding calls_ok_def by auto
  moreover have "n < arrivals s" "n \<notin> fst ` set (returned s)" using b(6) num unfolding calls_ok_def by blast+
  moreover have "number (bpcs ?s u) \<noteq> Some n" for u
    using b(6) num unfolding calls_ok_def by (cases "u = t") auto
  ultimately show "busy N c t n ?s" using b assms(3) \<open>t < N\<close> by (simp add: busy_def binv_def)
qed

lemma sleep_or_leave_out: "sleep_or_leave t g n (s\<lparr>bpcs := (bpcs s)(t := Out)\<rparr>) = sleep_or_leave t g n s"
  by (simp add: sleep_or_leave_def leave_def)

lemma destroy_inv:
  assumes "binv N c 0 s" and "bpcs s t = Out \<or> bpcs s t = DReady" and "t < N"
  shows "binv N c 0 (destroy_or_sleep t s)"
proof -
  have b: "0 < c" "c < 2 ^ 32" "N < 2 ^ 32" "counters c 0 s" "pcs_ok N c 0 s" "calls_ok c s" "destroyed s \<longrightarrow> inside_set s = {}"
    using assms(1) by (simp_all add: binv_def)
  have "card (inside_set s) < 2 ^ 32" using inside_card(2) [OF b(5)] b(3) by simp
  then have z: "b_inside (bar s) = 0 \<longleftrightarrow> card (inside_set s) = 0" using b(4) of_nat_zero32 by (simp add: counters_def)
  have t: "t \<notin> inside_set s" using assms(2) by (auto simp: inside_set_def)
  have i: "inside_set (s\<lparr>bpcs := (bpcs s)(t := p)\<rparr>) = inside_set s" if "number p = None" for p
    unfolding inside_upd using that t by simp
  have calls: "calls_ok c (s\<lparr>bpcs := (bpcs s)(t := p)\<rparr>)" if "number p = None" for p
  proof -
    have "number (((bpcs s)(t := p)) u) = number (bpcs s u)" for u using that assms(2) by auto
    then show ?thesis using b(6) unfolding calls_ok_def by (simp del: fun_upd_apply)
  qed
  show ?thesis
  proof (cases "b_inside (bar s) = 0")
    case False
    have "pcs_ok N c 0 (s\<lparr>bpcs := (bpcs s)(t := DAsleep)\<rparr>)"
      using b(5) z False assms(3) unfolding pcs_ok_def i [of DAsleep, simplified] by auto
    moreover have "counters c 0 (s\<lparr>bpcs := (bpcs s)(t := DAsleep)\<rparr>)" using b(4) by (simp add: counters_def i)
    ultimately show ?thesis using False b calls [of DAsleep] by (simp add: destroy_or_sleep_def binv_def i)
  next
    case True
    let ?s = "s\<lparr>bpcs := (bpcs s)(t := Out), destroyed := True\<rparr>"
    have ie: "inside_set ?s = inside_set s"
    proof -
      have "inside_set ?s = inside_set (s\<lparr>bpcs := (bpcs s)(t := Out)\<rparr>)" unfolding inside_set_def by simp
      also have "\<dots> = inside_set s" by (rule i) simp
      finally show ?thesis .
    qed
    have ins: "inside_set s = {}" using z True inside_card(1) [OF b(5)] by simp
    have "pcs_ok N c 0 ?s" using b(5) unfolding pcs_ok_def ie by auto
    moreover have "counters c 0 ?s" using b(4) by (simp add: counters_def ie)
    moreover have "calls_ok c ?s" using calls [of Out, OF number_simps(1)] unfolding calls_ok_def by (simp del: fun_upd_apply)
    ultimately show ?thesis using True b ins by (simp add: destroy_or_sleep_def binv_def ie)
  qed
qed

lemma spurious_inv:
  assumes "binv N c 0 s" and "bexec (Spurious t) s = Some s'"
  shows "binv N c 0 s'"
proof -
  define p where "p = wake (bpcs s t)"
  have s': "s' = s\<lparr>bpcs := (bpcs s)(t := p)\<rparr>" and p: "bpcs s t \<noteq> Out"
    using assms(2) by (auto simp: p_def wake_def split: bpc.splits)
  have b: "0 < c" "c < 2 ^ 32" "N < 2 ^ 32" "counters c 0 s" "pcs_ok N c 0 s" "calls_ok c s" "destroyed s \<longrightarrow> inside_set s = {}"
    using assms(1) by (simp_all add: binv_def)
  have num: "number (((bpcs s)(t := p)) u) = number (bpcs s u)" for u by (simp add: p_def)
  have i: "inside_set s' = inside_set s" unfolding s' inside_set_def by (simp add: num del: fun_upd_apply)
  have "counters c 0 s'" using b(4) by (simp add: counters_def i) (simp add: s')
  moreover have "calls_ok c s'" using b(6) unfolding calls_ok_def s' by (simp add: num del: fun_upd_apply)
  moreover have "pcs_ok N c 0 s'" using b(5) p unfolding pcs_ok_def i by (auto simp: s' p_def)
  ultimately show ?thesis using b by (simp add: binv_def i) (simp add: s')
qed

lemma bexec_inv:
  assumes "binv N c 0 s" and "actor a < N" and "bexec a s = Some s'"
  shows "binv N c 0 s'"
proof (cases a)
  case (Arrive t)
  then show ?thesis using arrive_inv [OF assms(1), of t s'] assms(2,3) by simp
next
  case (Spurious t)
  then show ?thesis using spurious_inv [OF assms(1), of t s'] assms(3) by simp
next
  case (Resume t)
  show ?thesis
  proof (cases "bpcs s t")
    case (Ready g n)
    then have d: "\<not> destroyed s" and s': "s' = sleep_or_leave t g n s"
      using Resume assms(3) by (auto split: if_splits)
    note r = resume_busy [OF assms(1) Ready d]
    from sleep_or_leave_inv [OF r] show ?thesis by (simp add: sleep_or_leave_out s')
  next
    case DReady
    then show ?thesis using Resume assms destroy_inv [OF assms(1), of t] by (simp split: if_splits)
  qed (use Resume assms(3) in \<open>simp_all split: if_splits\<close>)
next
  case (Destroy t)
  then show ?thesis using assms destroy_inv [OF assms(1), of t] by (auto split: if_splits)
qed

lemma brun_inv:
  "binv N c 0 s \<Longrightarrow> list_all (\<lambda>a. actor a < N) acts \<Longrightarrow> brun acts s = Some s' \<Longrightarrow> binv N c 0 s'"
  by (induction acts arbitrary: s) (auto simp: bind_eq_Some_conv intro: bexec_inv)

lemma bstart_inv:
  assumes "pthread_barrier_init True attr count None None = Inr b" and "N < 2 ^ 32"
  shows "binv N (unat count) 0 (bstart b)"
proof -
  have b: "count \<noteq> 0" "b = \<lparr>b_count = count, b_waiting = 0, b_inside = 0, b_generation = 0\<rparr>"
    using assms(1) by (auto simp: pthread_barrier_init_def split: if_splits)
  have c: "0 < unat count" "unat count < 2 ^ 32" using b(1) unsigned_less [of count] by (simp_all add: unat_gt_0)
  have "inside_set (bstart b) = {}" by (simp add: inside_set_def bstart_def)
  then show ?thesis using assms(2) c
    by (simp add: binv_def counters_def pcs_ok_def calls_ok_def bstart_def b(2))
qed

subsection \<open>What a barrier promises\<close>

text \<open>
  C18. Whatever up to 2^32 - 1 threads do on a barrier, in whatever order they get the mutex and however
  often they wake for no reason: a call returns only when the round it arrived in is complete (the
  round of the call number n is n div count), the last to arrive in each round, and no other, returns
  PTHREAD_BARRIER_SERIAL_THREAD, and no call returns twice. The counters may wrap around.
\<close>

theorem barrier_rounds:
  assumes "pthread_barrier_init True attr count None None = Inr b" and "N < 2 ^ 32"
    and "list_all (\<lambda>a. actor a < N) acts" and "brun acts (bstart b) = Some s"
  shows "distinct (map fst (returned s)) \<and>
    (\<forall>n r. (n, r) \<in> set (returned s) \<longrightarrow> (n div unat count + 1) * unat count \<le> arrivals s \<and>
       r = (if Suc n mod unat count = 0 then PTHREAD_BARRIER_SERIAL_THREAD else 0))"
proof -
  have "binv N (unat count) 0 s" by (rule brun_inv [OF bstart_inv [OF assms(1,2)] assms(3,4)])
  then have "calls_ok (unat count) s" by (simp add: binv_def)
  then show ?thesis unfolding calls_ok_def round_result_def by blast
qed

definition sample_round :: "bact list" where
  "sample_round = [Arrive 0, Spurious 0, Arrive 1, Arrive 1, Resume 0, Arrive 2]"

lemma sample_round_run:
  "\<exists>s. brun sample_round (bstart \<lparr>b_count = 2, b_waiting = 0, b_inside = 0, b_generation = 0\<rparr>) = Some s \<and>
    returned s = [(3, -1), (0, 0), (1, -1)] \<and> arrivals s = 4"
  by (simp add: sample_round_def bstart_def barrier_arrive_def sleep_or_leave_def leave_def barrier_leave_def
      broadcast_def wake_def PTHREAD_BARRIER_SERIAL_THREAD_def Let_def)

theorem barrier_rounds_witness:
  "\<exists>b s. pthread_barrier_init True None 2 None None = Inr b \<and> brun sample_round (bstart b) = Some s \<and>
    distinct (map fst (returned s)) \<and> returned s = [(3, -1), (0, 0), (1, -1)]"
proof -
  let ?b = "\<lparr>b_count = 2, b_waiting = 0, b_inside = 0, b_generation = 0\<rparr>"
  have b: "pthread_barrier_init True None 2 None None = Inr ?b" by (simp add: pthread_barrier_init_def)
  obtain s where s: "brun sample_round (bstart ?b) = Some s" "returned s = [(3, -1), (0, 0), (1, -1)]"
    using sample_round_run by blast
  have "distinct (map fst (returned s))"
    using barrier_rounds [OF b, of 3 sample_round s] s(1) by (simp add: sample_round_def)
  with b s show ?thesis by blast
qed

text \<open>
  C19. No wake-up is lost: a thread sleeps in \<open>pthread_barrier_wait\<close> only while the round of its call
  is incomplete; woken or not, once that round is complete its next step returns 0. A thread sleeps in
  \<open>pthread_barrier_destroy\<close> only while a call is inside, and when it returns 0 none is. The generation
  must not come round: fewer than 2^32 rounds.
\<close>

theorem barrier_no_lost_wakeup:
  assumes "pthread_barrier_init True attr count None None = Inr b" and "N < 2 ^ 32"
    and "list_all (\<lambda>a. actor a < N) acts" and "brun acts (bstart b) = Some s" and "arrivals s div unat count < 2 ^ 32"
  shows "(\<forall>t g n. bpcs s t = Asleep g n \<longrightarrow> n div unat count = arrivals s div unat count) \<and>
    (\<forall>t g n. bpcs s t = Ready g n \<and> n div unat count < arrivals s div unat count \<longrightarrow>
       (\<exists>s'. bexec (Resume t) s = Some s' \<and> bpcs s' t = Out \<and> (n, 0) \<in> set (returned s'))) \<and>
    (\<forall>t. bpcs s t = DAsleep \<longrightarrow> (\<exists>u. number (bpcs s u) \<noteq> None)) \<and>
    (destroyed s \<longrightarrow> (\<forall>u. number (bpcs s u) = None))"
proof -
  let ?c = "unat count"
  have i: "binv N ?c 0 s" by (rule brun_inv [OF bstart_inv [OF assms(1,2)] assms(3,4)])
  then have b: "counters ?c 0 s" "pcs_ok N ?c 0 s" "calls_ok ?c s" "destroyed s \<Longrightarrow> inside_set s = {}"
    by (simp_all add: binv_def)
  have gen: "b_generation (bar s) = of_nat (arrivals s div ?c)" using b(1) by (simp add: counters_def)
  have dest: "destroyed s \<longrightarrow> (\<forall>u. number (bpcs s u) = None)" using b(4) by (auto simp: inside_set_def)
  show ?thesis
  proof (intro conjI allI impI)
    fix t g n assume t: "bpcs s t = Asleep g n"
    then have g: "(of_nat (n div ?c) :: 32 word) = of_nat (arrivals s div ?c)"
      using b(2) gen unfolding pcs_ok_def by metis
    have "n < arrivals s" using b(3) t unfolding calls_ok_def by (metis number_simps(2))
    then have "n div ?c \<le> arrivals s div ?c" by (intro div_le_mono) simp
    then have "n div ?c < 2 ^ 32" using assms(5) by simp
    with g show "n div ?c = arrivals s div ?c" by (simp only: of_nat_inj32 [OF _ assms(5)])
  next
    fix t g n assume t: "bpcs s t = Ready g n \<and> n div ?c < arrivals s div ?c"
    then have r: "bpcs s t = Ready g n" by simp
    have d: "\<not> destroyed s" using dest r by (metis number_simps(3) option.distinct(1))
    have "g = of_nat (n div ?c)" by (rule resume_busy(2) [OF i r d])
    moreover have "n div ?c < 2 ^ 32" "n div ?c \<noteq> arrivals s div ?c" using t assms(5) by simp_all
    ultimately have "g \<noteq> b_generation (bar s)" unfolding gen by (simp only: of_nat_inj32 [OF _ assms(5)] not_False_eq_True)
    then have "bexec (Resume t) s = Some (leave t n 0 s)" using r d by (simp add: sleep_or_leave_def)
    moreover have "bpcs (leave t n 0 s) t = Out" "(n, 0) \<in> set (returned (leave t n 0 s))"
      by (simp_all add: leave_def broadcast_def wake_def Let_def split: prod.split)
    ultimately show "\<exists>s'. bexec (Resume t) s = Some s' \<and> bpcs s' t = Out \<and> (n, 0) \<in> set (returned s')" by blast
  next
    fix t assume "bpcs s t = DAsleep"
    then have "card (inside_set s) \<noteq> 0" using b(2) by (simp add: pcs_ok_def)
    then have "inside_set s \<noteq> {}" by auto
    then show "\<exists>u. number (bpcs s u) \<noteq> None" by (auto simp: inside_set_def)
  next
    fix u assume "destroyed s"
    with dest show "number (bpcs s u) = None" by simp
  qed
qed

definition sample_destroy :: "bact list" where
  "sample_destroy = [Arrive 0, Arrive 1, Destroy 1, Resume 0, Resume 1]"

theorem barrier_no_lost_wakeup_witness:
  "\<exists>b s. pthread_barrier_init True None 2 None None = Inr b \<and> brun sample_destroy (bstart b) = Some s \<and>
    destroyed s \<and> list_all (\<lambda>u. number (bpcs s u) = None) [0, 1, 2]"
proof -
  let ?b = "\<lparr>b_count = 2, b_waiting = 0, b_inside = 0, b_generation = 0\<rparr>"
  have b: "pthread_barrier_init True None 2 None None = Inr ?b" by (simp add: pthread_barrier_init_def)
  obtain s where s: "brun sample_destroy (bstart ?b) = Some s" "destroyed s" "arrivals s = 2"
    by (simp add: sample_destroy_def bstart_def barrier_arrive_def sleep_or_leave_def leave_def barrier_leave_def
      broadcast_def wake_def destroy_or_sleep_def PTHREAD_BARRIER_SERIAL_THREAD_def Let_def)
  have "destroyed s \<longrightarrow> (\<forall>u. number (bpcs s u) = None)"
    using barrier_no_lost_wakeup [OF b, of 3 sample_destroy s] s by (simp add: sample_destroy_def)
  with b s show ?thesis by (intro exI [of _ ?b] exI [of _ s]) simp
qed

end
