(* ===== verification/Inet.thy ===== *)
theory Inet
  imports StrNum
begin

section \<open>Internet addresses: net/inet_pton.c, inet_ntop.c, inet_aton.c, inet_addr.c, inet_ntoa.c\<close>

text \<open>
  The text forms of IPv4 and IPv6 addresses. An address in memory is in network order: 4 or 16 bytes.
  The eight 16-bit members of an IPv6 address are pairs of bytes, as they lie in memory; the target
  is little endian, so that \<open>htons\<close> puts the high byte first. A parser returns \<open>None\<close> inside its
  result for a return value of 0; the outer \<open>None\<close> is an access outside of an object, as everywhere.
\<close>

type_synonym hextet = "byte \<times> byte"

subsection \<open>From text: inet_pton\<close>

definition htonl :: "u32 \<Rightarrow> byte list" where
  "htonl a = [ucast (drop_bit 24 a), ucast (drop_bit 16 a), ucast (drop_bit 8 a), ucast a]"

definition htons :: "u64 \<Rightarrow> hextet" where
  "htons v = (ucast (drop_bit 8 v), ucast v)"

text \<open>The loop of \<open>inet_pton4\<close>, with the number of rounds left.\<close>

primrec pton4_loop :: "nat \<Rightarrow> mem \<Rightarrow> addr \<Rightarrow> u32 \<Rightarrow> u32 option option" where
  "pton4_loop 0 m src addr4 = Some (Some addr4)"
| "pton4_loop (Suc n) m src addr4 = do {
     c \<leftarrow> m src;
     if isdigit (byte_int c) = 0 then Some None
     else do {
       r \<leftarrow> strtoul m src True 10;
       endptr \<leftarrow> endp r;
       if endptr = src \<or> endptr - src > 3 \<or> val r > 255 then Some None
       else do {
         c \<leftarrow> m endptr;
         if c \<noteq> 46 \<and> n > 0 \<or> c \<noteq> 0 \<and> n = 0 then Some None
         else pton4_loop n m (endptr + 1) (push_bit 8 addr4 OR ucast (val r)) } } }"

definition inet_pton4 :: "mem \<Rightarrow> addr \<Rightarrow> byte list option option" where
  "inet_pton4 m src = do {
     r \<leftarrow> pton4_loop 4 m src 0;
     Some (map_option htonl r) }"

partial_function (option) xdigits_end :: "mem \<Rightarrow> addr \<Rightarrow> addr option" where
  "xdigits_end m p = do {
     c \<leftarrow> m p; if isxdigit (byte_int c) \<noteq> 0 then xdigits_end m (p + 1) else Some p }"

definition n_hextets :: int where "n_hextets = 8"

text \<open>Copying four bytes over the members \<open>idx\<close> and \<open>idx + 1\<close>; there have to be two.\<close>

definition copy_addr4 :: "hextet list \<Rightarrow> int \<Rightarrow> byte list \<Rightarrow> hextet list option" where
  "copy_addr4 addr6 idx b =
     (if 0 \<le> idx \<and> nat idx + 2 \<le> length addr6
      then Some (addr6[nat idx := (b ! 0, b ! 1), nat idx + 1 := (b ! 2, b ! 3)]) else None)"

text \<open>The main loop returns \<open>idx\<close>, \<open>z\<close> and \<open>addr6\<close>.\<close>

partial_function (option) pton6_loop ::
  "mem \<Rightarrow> addr \<Rightarrow> addr \<Rightarrow> int \<Rightarrow> int \<Rightarrow> hextet list \<Rightarrow> (int \<times> int \<times> hextet list) option option" where
  "pton6_loop m src ptr idx z addr6 = do {
     c \<leftarrow> m ptr;
     if c = 0 then Some (Some (idx, z, addr6))
     else if idx > n_hextets - 1 then Some None
     else do {
       endptr \<leftarrow> xdigits_end m ptr;
       e \<leftarrow> m endptr;
       if ptr = endptr \<and> e = 58 then
         if z \<noteq> -1 then Some None
         else if ptr \<noteq> src then pton6_loop m src (endptr + 1) idx idx addr6
         else do {
           e1 \<leftarrow> m (endptr + 1);
           if e1 = 58 then pton6_loop m src (endptr + 2) idx idx addr6 else Some None }
       else if e = 58 \<or> e = 0 then
         if endptr - ptr > 4 then Some None
         else do {
           r \<leftarrow> strtoul m ptr False 16;
           if val r > 0xFFFF then Some None
           else pton6_loop m src (if e = 58 then endptr + 1 else endptr) (idx + 1) z
                  (addr6[nat idx := htons (val r)]) }
       else if e = 46 then do {
         r \<leftarrow> inet_pton4 m ptr;
         case r of None \<Rightarrow> Some None
         | Some addr4 \<Rightarrow> do {
             addr6 \<leftarrow> copy_addr4 addr6 idx addr4;
             Some (Some (idx + 2, z, addr6)) } }
       else Some None } }"

text \<open>Reading a member of the local address.\<close>

definition member :: "hextet list \<Rightarrow> int \<Rightarrow> hextet option" where
  "member hs i = (if 0 \<le> i \<and> nat i < length hs then Some (hs ! nat i) else None)"

definition fill_hextet :: "hextet list \<Rightarrow> int \<Rightarrow> int \<Rightarrow> int \<Rightarrow> hextet option" where
  "fill_hextet addr6 idx z i =
     (if i \<ge> z \<and> i < n_hextets - idx + z then Some (0, 0)
      else if i < n_hextets - idx + z then member addr6 i
      else member addr6 (i - (n_hextets - idx)))"

fun collect :: "('a \<Rightarrow> 'b option) \<Rightarrow> 'a list \<Rightarrow> 'b list option" where
  "collect f [] = Some []"
| "collect f (x # xs) = do { y \<leftarrow> f x; ys \<leftarrow> collect f xs; Some (y # ys) }"

definition bytes_of :: "hextet list \<Rightarrow> byte list" where
  "bytes_of hs = concat (map (\<lambda>(hi, lo). [hi, lo]) hs)"

definition inet_pton6 :: "mem \<Rightarrow> addr \<Rightarrow> byte list option option" where
  "inet_pton6 m src = do {
     r \<leftarrow> pton6_loop m src src 0 (-1) (replicate 8 (0, 0));
     case r of None \<Rightarrow> Some None
     | Some (idx, z, addr6) \<Rightarrow>
         if idx < n_hextets \<and> z = -1 then Some None
         else if idx = n_hextets \<and> z \<noteq> -1 then Some None
         else do {
           hs \<leftarrow> collect (fill_hextet addr6 idx z) [0..n_hextets - 1];
           Some (Some (bytes_of hs)) } }"

datatype family = AF_INET | AF_INET6 | AF_OTHER

text \<open>The result, the bytes stored through \<open>dst\<close> and the value of \<open>errno\<close> where it is set.\<close>

definition inet_pton :: "mem \<Rightarrow> family \<Rightarrow> addr \<Rightarrow> addr \<Rightarrow> (int \<times> byte list option \<times> errno option) option" where
  "inet_pton m af src dst =
     (if src = NULL \<or> dst = NULL then Some (0, None, None)
      else case af of
        AF_INET \<Rightarrow> do { r \<leftarrow> inet_pton4 m src; Some (if r = None then 0 else 1, r, None) }
      | AF_INET6 \<Rightarrow> do { r \<leftarrow> inet_pton6 m src; Some (if r = None then 0 else 1, r, None) }
      | AF_OTHER \<Rightarrow> Some (-1, None, Some EAFNOSUPPORT))"


subsection \<open>To text: inet_ntop\<close>

definition INET_ADDRSTRLEN :: nat where "INET_ADDRSTRLEN = 16"
definition INET6_ADDRSTRLEN :: nat where "INET6_ADDRSTRLEN = 46"

text \<open>Hexadecimal numerals as \<open>printf\<close> with \<open>%x\<close> writes them, and \<open>snprintf\<close> of a ready text.\<close>

definition xchar :: "nat \<Rightarrow> byte" where
  "xchar d = of_nat (if d < 10 then 48 + d else 87 + d)"

fun hexs :: "nat \<Rightarrow> byte list" where
  "hexs n = (if n < 16 then [xchar n] else hexs (n div 16) @ [xchar (n mod 16)])"

declare hexs.simps [simp del]

definition snprintf :: "mem \<Rightarrow> addr \<Rightarrow> nat \<Rightarrow> byte list \<Rightarrow> (mem \<times> nat) option" where
  "snprintf m p n t =
     (if n = 0 then Some (m, length t)
      else map_option (\<lambda>m. (m, length t)) (store_bytes m p (take (n - 1) t @ [0])))"

definition dotted :: "byte list \<Rightarrow> byte list" where
  "dotted b = dec (unat (b ! 0)) @ [46] @ dec (unat (b ! 1)) @ [46] @ dec (unat (b ! 2)) @ [46] @ dec (unat (b ! 3))"

text \<open>The memory after the call, the result and the error.\<close>

definition inet_ntop4 :: "mem \<Rightarrow> addr \<Rightarrow> addr \<Rightarrow> nat \<Rightarrow> (mem \<times> addr \<times> errno option) option" where
  "inet_ntop4 m src dst sz =
     (if sz < INET_ADDRSTRLEN then Some (m, NULL, Some ENOSPC)
      else do {
        b \<leftarrow> load_bytes m src 4;
        (m, n) \<leftarrow> snprintf m dst sz (dotted b);
        Some (m, dst, None) })"

definition V4MAPPED :: "byte list \<Rightarrow> bool" where
  "V4MAPPED b \<longleftrightarrow> take 12 b = replicate 10 0 @ [255, 255]"

definition V4COMPAT :: "byte list \<Rightarrow> bool" where
  "V4COMPAT b \<longleftrightarrow> take 12 b = replicate 12 0 \<and> drop 12 b \<noteq> [0, 0, 0, 1] \<and> drop 12 b \<noteq> [0, 0, 0, 0]"

definition hextet :: "byte list \<Rightarrow> int \<Rightarrow> hextet" where
  "hextet b i = (b ! nat (2 * i), b ! nat (2 * i + 1))"

definition ntohs :: "hextet \<Rightarrow> nat" where
  "ntohs h = unat (fst h) * 256 + unat (snd h)"

text \<open>One round of the search: \<open>tmp_idx\<close>, \<open>tmp_len\<close>, \<open>zero_idx\<close>, \<open>zero_len\<close>.\<close>

definition zero_step :: "byte list \<Rightarrow> int \<Rightarrow> int \<times> int \<times> int \<times> int \<Rightarrow> int \<times> int \<times> int \<times> int" where
  "zero_step b i = (\<lambda>(tmp_idx, tmp_len, zero_idx, zero_len).
     (let (tmp_idx, tmp_len) =
            (if hextet b i = (0, 0) then
               if tmp_idx = -1 then (i, 1) else (tmp_idx, tmp_len + 1)
             else (tmp_idx, tmp_len))
      in if tmp_idx \<noteq> -1 \<and> (hextet b i \<noteq> (0, 0) \<or> i = n_hextets - 1) then
           (let (zero_idx, zero_len) =
                  (if tmp_len > 1 \<and> tmp_len > zero_len then (tmp_idx, tmp_len) else (zero_idx, zero_len))
            in (-1, tmp_len, zero_idx, zero_len))
         else (tmp_idx, tmp_len, zero_idx, zero_len)))"

definition longest_zeros :: "byte list \<Rightarrow> int \<times> int" where
  "longest_zeros b = (case fold (zero_step b) [0..n_hextets - 1] (-1, 0, -1, 0) of
     (tmp_idx, tmp_len, zero_idx, zero_len) \<Rightarrow> (zero_idx, zero_len))"

partial_function (option) ntop6_loop ::
  "byte list \<Rightarrow> int \<Rightarrow> int \<Rightarrow> mem \<Rightarrow> int \<Rightarrow> addr \<Rightarrow> (mem \<times> addr) option" where
  "ntop6_loop b zero_idx zero_len m i dst_ptr =
     (if i < n_hextets then do {
        (m, dst_ptr) \<leftarrow> (if i \<noteq> 0 then do { m \<leftarrow> store m dst_ptr 58; Some (m, dst_ptr + 1) } else Some (m, dst_ptr));
        if i = zero_idx then ntop6_loop b zero_idx zero_len m (i + zero_len) dst_ptr
        else do {
          (m, n) \<leftarrow> snprintf m dst_ptr 5 (hexs (ntohs (hextet b i)));
          ntop6_loop b zero_idx zero_len m (i + 1) (dst_ptr + n) } }
      else Some (m, dst_ptr))"

definition inet_ntop6 :: "mem \<Rightarrow> addr \<Rightarrow> addr \<Rightarrow> nat \<Rightarrow> (mem \<times> addr \<times> errno option) option" where
  "inet_ntop6 m src dst sz =
     (if sz < INET6_ADDRSTRLEN then Some (m, NULL, Some ENOSPC)
      else do {
        m \<leftarrow> memset m dst 0 sz;
        b \<leftarrow> load_bytes m src 16;
        if V4MAPPED b \<or> V4COMPAT b then do {
          (m, n) \<leftarrow> snprintf m dst INET6_ADDRSTRLEN
             (str ''::'' @ (if hextet b 5 = (255, 255) then str ''ffff:'' else []) @ dotted (drop 12 b));
          Some (m, dst, None) }
        else do {
          let (zero_idx, zero_len) = longest_zeros b;
          (m, dst_ptr, i) \<leftarrow> (if zero_idx = 0 then do { m \<leftarrow> store m dst 58; Some (m, dst + 1, zero_len) }
                             else Some (m, dst, 0));
          (m, dst_ptr) \<leftarrow> ntop6_loop b zero_idx zero_len m i dst_ptr;
          m \<leftarrow> (if zero_idx + zero_len = n_hextets then store m dst_ptr 58 else Some m);
          Some (m, dst, None) } })"

definition inet_ntop :: "mem \<Rightarrow> family \<Rightarrow> addr \<Rightarrow> addr \<Rightarrow> nat \<Rightarrow> (mem \<times> addr \<times> errno option) option" where
  "inet_ntop m af src dst sz =
     (if dst = NULL \<or> src = NULL then Some (m, NULL, None)
      else case af of
        AF_INET \<Rightarrow> inet_ntop4 m src dst sz
      | AF_INET6 \<Rightarrow> inet_ntop6 m src dst sz
      | AF_OTHER \<Rightarrow> Some (m, NULL, Some EAFNOSUPPORT))"

text \<open>\<open>inet_ntoa\<close> writes to a static buffer of 18 bytes, at \<open>buf\<close>.\<close>

definition inet_ntoa :: "mem \<Rightarrow> addr \<Rightarrow> byte list \<Rightarrow> (mem \<times> addr) option" where
  "inet_ntoa m buf b = do {
     (m, n) \<leftarrow> snprintf m buf 18 (dotted b);
     Some (m, buf) }"


subsection \<open>The older parser: inet_aton\<close>

text \<open>
  The loop returns \<open>val\<close>, the parts read (the last of them \<open>val\<close>) and \<open>parts_cnt\<close>. A part is what \<open>strtoul\<close> returns,
  cut to 32 bits.
\<close>

partial_function (option) aton_loop :: "mem \<Rightarrow> addr \<Rightarrow> u32 list \<Rightarrow> (u32 list) option option" where
  "aton_loop m c parts = do {
     r \<leftarrow> strtoul m c True 0;
     endptr \<leftarrow> endp r;
     if endptr = c then Some None
     else do {
       let parts = parts @ [ucast (val r)];
       e \<leftarrow> m endptr;
       if e = 46 then
         if length parts - 1 \<ge> 3 then Some None else aton_loop m (endptr + 1) parts
       else if e = 0 then Some (Some parts)
       else if isspace (byte_int e) \<noteq> 0 then Some (Some parts)
       else Some None } }"

definition aton_parts :: "u32 list \<Rightarrow> u32 option" where
  "aton_parts parts =
     (case parts of
        [v] \<Rightarrow> Some v
      | [p0, v] \<Rightarrow> if v > 0x00ffffff \<or> p0 > 0xff then None else Some (v OR push_bit 24 p0)
      | [p0, p1, v] \<Rightarrow>
          if v > 0x0000ffff \<or> p0 > 0xff \<or> p1 > 0xff then None
          else Some (v OR (push_bit 24 p0 OR push_bit 16 p1))
      | [p0, p1, p2, v] \<Rightarrow>
          if v > 0xff \<or> p0 > 0xff \<or> p1 > 0xff \<or> p2 > 0xff then None
          else Some (v OR (push_bit 24 p0 OR push_bit 16 p1 OR push_bit 8 p2))
      | _ \<Rightarrow> None)"

definition inet_aton :: "mem \<Rightarrow> addr \<Rightarrow> byte list option option" where
  "inet_aton m cp = do {
     r \<leftarrow> aton_loop m cp [];
     Some (case r of None \<Rightarrow> None | Some parts \<Rightarrow> map_option htonl (aton_parts parts)) }"

definition INADDR_NONE :: "byte list" where "INADDR_NONE = [255, 255, 255, 255]"

definition inet_addr :: "mem \<Rightarrow> addr \<Rightarrow> byte list option" where
  "inet_addr m cp = do {
     r \<leftarrow> inet_aton m cp;
     Some (case r of Some s_addr \<Rightarrow> s_addr | None \<Rightarrow> INADDR_NONE) }"


subsection \<open>Reading one number\<close>

lemma digit_not_special:
  assumes "digit_of c < 36"
  shows "isspace (uint c) = 0" and "c \<noteq> 45" and "c \<noteq> 43" and "c \<noteq> 46" and "c \<noteq> 58" and "c \<noteq> 0"
proof -
  have "48 \<le> unat c" using assms by (auto simp: digit_of_def Let_def split: if_splits)
  then have "48 \<le> uint c" unfolding uint_nat by linarith
  then show "isspace (uint c) = 0" using isspace_iff [of "uint c"] by auto
qed (use assms in \<open>auto simp: digit_of_def\<close>)

lemma digit_x: "c = 0x78 \<or> c = 0x58 \<Longrightarrow> digit_of c = 33"
  by (auto simp: digit_of_def)

lemma hd0_append [simp]: "hd0 (xs @ ys) = (if xs = [] then hd0 ys else hd xs)"
  by (cases xs) (simp_all add: hd0_def)

lemma takeWhile_stop: "\<forall>c \<in> set ds. P c \<Longrightarrow> \<not> P (hd0 r) \<or> r = [] \<Longrightarrow> takeWhile P (ds @ r) = ds"
proof (induction ds)
  case Nil
  then show ?case by (cases r) (auto simp: hd0_def)
next
  case (Cons c ds)
  then show ?case by simp
qed

text \<open>\<open>stops b r\<close>: a number in base \<open>b\<close> ends before \<open>r\<close>.\<close>

definition stops :: "nat \<Rightarrow> byte list \<Rightarrow> bool" where
  "stops b r \<longleftrightarrow> b \<le> digit_of (hd0 r) \<and> (b = 16 \<longrightarrow> hd0 r \<noteq> 0x78 \<and> hd0 r \<noteq> 0x58)"

lemma stops_simps [simp]: "b \<le> 36 \<Longrightarrow> stops b []" "b \<le> 36 \<Longrightarrow> stops b (58 # r)" "b \<le> 36 \<Longrightarrow> stops b (46 # r)"
  by (simp_all add: stops_def hd0_def digit_of_def)

lemma subject_digits:
  assumes ds: "ds \<noteq> []" "\<forall>c \<in> set ds. digit_of c < b" and b: "b = 10 \<or> b = 16" and r: "stops b r"
  shows "subject (int b) (ds @ r) = (False, int b, ds @ r)"
proof -
  have hd: "digit_of (hd ds) < 36" using ds b hd_in_set [OF ds(1)] by fastforce
  note ns = digit_not_special [OF hd]
  have 1: "dropWhile (\<lambda>c. isspace (uint c) \<noteq> 0) (ds @ r) = ds @ r"
    using ds(1) ns(1) by (cases ds) auto
  have 2: "hd0 (tl (ds @ r)) \<noteq> 0x78" "hd0 (tl (ds @ r)) \<noteq> 0x58" if "b = 16"
  proof -
    have "digit_of (hd0 (tl (ds @ r))) < b \<or> hd0 (tl (ds @ r)) = hd0 r"
      using ds by (cases ds) auto
    then show "hd0 (tl (ds @ r)) \<noteq> 0x78" "hd0 (tl (ds @ r)) \<noteq> 0x58"
      using r that digit_x [of "hd0 (tl (ds @ r))"] by (auto simp: stops_def)
  qed
  show ?thesis
    using ds(1) b ns(2,3) 2 unfolding subject_def 1 Let_def by auto
qed

lemma horner_less: "\<forall>d \<in> set ds. d < b \<Longrightarrow> 0 < b \<Longrightarrow> horner b v ds < (v + 1) * b ^ length ds"
proof (induction ds arbitrary: v)
  case Nil
  then show ?case by (simp add: horner_def)
next
  case (Cons d ds)
  have "horner b v (d # ds) = horner b (v * b + d) ds" by (simp add: horner_def)
  also have "\<dots> < (v * b + d + 1) * b ^ length ds" using Cons by simp
  also have "\<dots> \<le> (v + 1) * b * b ^ length ds"
    using Cons.prems by (intro mult_right_mono) (auto simp: algebra_simps)
  finally show ?case by (simp add: algebra_simps)
qed

lemma strtoul_digits:
  assumes m: "cstr m p (ds @ r)" and len: "length (ds @ r) < 2 ^ 31" and ds: "ds \<noteq> []" "\<forall>c \<in> set ds. digit_of c < b"
    and b: "b = 10 \<or> b = 16" and r: "stops b r"
  shows "strtoul m p want (int b) = Some \<lparr>val = (if horner b 0 (map digit_of ds) > unat ULONG_MAX then ULONG_MAX
       else of_nat (horner b 0 (map digit_of ds))),
     err = (if horner b 0 (map digit_of ds) > unat ULONG_MAX then Some ERANGE else None),
     endp = (if want then Some (p + length ds) else None)\<rparr>"
proof -
  have "takeWhile (\<lambda>c. digit_of c < b) (ds @ r) = ds"
    using ds(2) r by (intro takeWhile_stop) (auto simp: stops_def)
  then have "digits b (ds @ r) = map digit_of ds" by (simp add: digits_def)
  then show ?thesis
    using ds(1) b unfolding strtoul_def strtoul_common_spec [OF m len] conv_spec_def subject_digits [OF ds b r] Let_def
    by (auto simp: conv_limit_def)
qed

text \<open>A value that does not fit 64 bits is beyond every limit that the callers test.\<close>

lemma limit_test:
  fixes v :: nat and k :: u64
  assumes "unat k < unat ULONG_MAX"
  shows "(if v > unat ULONG_MAX then ULONG_MAX else of_nat v) > k \<longleftrightarrow> v > unat k"
proof (cases "v > unat ULONG_MAX")
  case True
  with assms show ?thesis by (simp add: word_less_nat_alt)
next
  case False
  have "unat ULONG_MAX = 2 ^ 64 - 1" unfolding ULONG_MAX_def by (simp add: unsigned_minus_1_eq_mask mask_eq_exp_minus_1)
  with False have "unat (of_nat v :: u64) = v" by (intro unat_of_nat_small) simp
  with False show ?thesis by (simp add: word_less_nat_alt)
qed


subsection \<open>IPv4\<close>

text \<open>
  The grammar: four fields of one to three digits with values up to 255, with dots between them.
\<close>

definition field_val :: "byte list \<Rightarrow> nat" where
  "field_val f = horner 10 0 (map digit_of f)"

definition octet :: "byte list \<Rightarrow> bool" where
  "octet f \<longleftrightarrow> f \<noteq> [] \<and> length f \<le> 3 \<and> list_all (\<lambda>c. digit_of c < 10) f \<and> field_val f \<le> 255"

fun join :: "byte \<Rightarrow> byte list list \<Rightarrow> byte list" where
  "join sep [] = []"
| "join sep [f] = f"
| "join sep (f # fs) = f @ sep # join sep fs"

lemma join_Cons: "fs \<noteq> [] \<Longrightarrow> join sep (f # fs) = f @ sep # join sep fs"
  by (cases fs) simp_all

text \<open>The fields of a text, from the left.\<close>

fun octets :: "nat \<Rightarrow> byte list \<Rightarrow> byte list list option" where
  "octets 0 s = Some []"
| "octets (Suc n) s =
     (let f = takeWhile (\<lambda>c. digit_of c < 10) s; r = dropWhile (\<lambda>c. digit_of c < 10) s in
      if \<not> octet f then None
      else if n = 0 then if r = [] then Some [f] else None
      else if hd0 r = 46 then map_option (Cons f) (octets n (tl r)) else None)"

declare octets.simps(2) [simp del]

lemma digit_46: "\<not> digit_of (46 :: byte) < 10"
  by (simp add: digit_of_def)

lemma octets_iff: "octets (Suc n) s = Some fs \<longleftrightarrow> length fs = Suc n \<and> list_all octet fs \<and> s = join 46 fs"
proof (induction n arbitrary: s fs)
  case 0
  have all: "s = takeWhile (\<lambda>c. digit_of c < 10) s \<longleftrightarrow> (\<forall>c \<in> set s. digit_of c < 10)"
    by (metis takeWhile_eq_all_conv)
  show ?case
  proof
    assume "octets (Suc 0) s = Some fs"
    then show "length fs = Suc 0 \<and> list_all octet fs \<and> s = join 46 fs"
      using all by (auto simp: octets.simps(2) Let_def dropWhile_eq_Nil_conv split: if_splits)
  next
    assume "length fs = Suc 0 \<and> list_all octet fs \<and> s = join 46 fs"
    then obtain f where f: "fs = [f]" "octet f" "s = f" by (cases fs) auto
    have d: "\<forall>c \<in> set f. digit_of c < 10" using f(2) by (simp add: octet_def list_all_iff)
    then have tw: "takeWhile (\<lambda>c. digit_of c < 10) s = f" using f(3) takeWhile_eq_all_conv by blast
    have dw: "dropWhile (\<lambda>c. digit_of c < 10) s = []" using d f(3) by (simp add: dropWhile_eq_Nil_conv)
    show "octets (Suc 0) s = Some fs" unfolding octets.simps Let_def tw dw using f(1,2) by simp
  qed
next
  case (Suc n)
  let ?f = "takeWhile (\<lambda>c. digit_of c < 10) s" and ?r = "dropWhile (\<lambda>c. digit_of c < 10) s"
  show ?case
  proof
    assume "octets (Suc (Suc n)) s = Some fs"
    then obtain gs where gs: "octets (Suc n) (tl ?r) = Some gs" "fs = ?f # gs" "octet ?f" "hd0 ?r = 46"
      by (auto simp: octets.simps(2) [of "Suc n"] Let_def split: if_splits)
    from gs(4) have "?r = 46 # tl ?r" by (cases ?r) (auto simp: hd0_def)
    moreover have g: "length gs = Suc n" "list_all octet gs" "tl ?r = join 46 gs" using Suc.IH gs(1) by auto
    moreover have "s = ?f @ ?r" by simp
    ultimately have "s = join 46 (?f # gs)" using join_Cons [of gs 46 ?f] by (metis length_0_conv nat.distinct(1))
    with g gs(2,3) show "length fs = Suc (Suc n) \<and> list_all octet fs \<and> s = join 46 fs" by simp
  next
    assume *: "length fs = Suc (Suc n) \<and> list_all octet fs \<and> s = join 46 fs"
    then obtain f gs where fs: "fs = f # gs" "length gs = Suc n" by (cases fs) auto
    with * have s: "s = f @ 46 # join 46 gs" "octet f" "list_all octet gs" by (cases gs; auto)+
    have "\<forall>c \<in> set f. digit_of c < 10" using s(2) by (simp add: octet_def list_all_iff)
    then have "?f = f" "?r = 46 # join 46 gs"
      using digit_46 unfolding s(1) by (simp_all add: takeWhile_append2 dropWhile_append2)
    moreover have "octets (Suc n) (join 46 gs) = Some gs" using Suc.IH fs(2) s(3) by blast
    ultimately show "octets (Suc (Suc n)) s = Some fs"
      using s(2) fs(1) by (simp add: octets.simps(2) [of "Suc n"] hd0_def)
  qed
qed

lemma octets4_iff: "octets 4 s = Some fs \<longleftrightarrow> length fs = 4 \<and> list_all octet fs \<and> s = join 46 fs"
proof -
  have "Suc 3 = (4 :: nat)" by simp
  from octets_iff [of 3 s fs, unfolded this] show ?thesis .
qed

lemma isdigit_digit_of: "isdigit (uint c) = 0 \<longleftrightarrow> 10 \<le> digit_of c" for c :: byte
proof -
  have "48 \<le> uint c \<and> uint c \<le> 57 \<longleftrightarrow> 48 \<le> unat c \<and> unat c \<le> 57" unfolding uint_nat by linarith
  moreover have "digit_of c < 10 \<longleftrightarrow> 48 \<le> unat c \<and> unat c \<le> 57" by (auto simp: digit_of_def Let_def)
  ultimately show ?thesis using isdigit_iff [of "uint c"] by linarith
qed

lemma hd0_zero: "0 \<notin> set r \<Longrightarrow> hd0 r = 0 \<longleftrightarrow> r = []"
  by (cases r) (auto simp: hd0_def)

lemma of_nat_val:
  "(ucast (if v > unat ULONG_MAX then ULONG_MAX else of_nat v :: u64) :: u32) = of_nat v" if "v \<le> 255"
proof -
  have "\<not> v > unat ULONG_MAX" using that by (simp add: ULONG_MAX_def unsigned_minus_1_eq_mask mask_eq_exp_minus_1)
  then show ?thesis using that by (simp add: unsigned_ucast_eq word_unat_eq_iff unsigned_of_nat take_bit_nat_eq_self)
qed

lemma pton4_round:
  assumes m: "cstr m p s" and len: "length s < 2 ^ 31"
  defines "f \<equiv> takeWhile (\<lambda>c. digit_of c < 10) s" and "r \<equiv> dropWhile (\<lambda>c. digit_of c < 10) s"
  shows "pton4_loop (Suc n) m p a =
    (if \<not> octet f then Some None
     else if hd0 r \<noteq> 46 \<and> n > 0 \<or> r \<noteq> [] \<and> n = 0 then Some None
     else pton4_loop n m (p + length f + 1) (push_bit 8 a OR of_nat (field_val f)))"
proof -
  have s: "s = f @ r" by (simp add: f_def r_def)
  have f: "\<forall>c \<in> set f. digit_of c < 10" unfolding f_def using set_takeWhileD by fast
  have c0: "m p = Some (hd0 s)" using m by (rule cstr_hd0)
  have r: "stops 10 r"
  proof (cases r)
    case (Cons c cs)
    then show ?thesis using hd_dropWhile [of "\<lambda>c. digit_of c < 10" s] by (simp add: r_def stops_def hd0_def)
  qed simp
  show ?thesis
  proof (cases "f = []")
    case True
    then have "10 \<le> digit_of (hd0 s)" using r s by (simp add: stops_def)
    with True c0 show ?thesis by (simp add: octet_def isdigit_digit_of)
  next
    case False
    then have "digit_of (hd0 s) < 10" using f s by simp
    then have d: "isdigit (uint (hd0 s)) \<noteq> 0" using isdigit_digit_of [of "hd0 s"] by simp
    define v where "v = field_val f"
    have conv: "strtoul m p True 10 = Some \<lparr>val = (if v > unat ULONG_MAX then ULONG_MAX else of_nat v),
        err = (if v > unat ULONG_MAX then Some ERANGE else None), endp = Some (p + length f)\<rparr>"
      using strtoul_digits [of m p f r 10 True] m len False f r unfolding s v_def field_val_def by simp
    have mr: "m (p + length f) = Some (hd0 r)"
      using m unfolding s cstr_append by (auto intro: cstr_hd0)
    have r0: "hd0 r = 0 \<longleftrightarrow> r = []" using cstr_nonzero [OF m] s by (intro hd0_zero) simp
    have lim: "(if v > unat ULONG_MAX then ULONG_MAX else of_nat v) > (255 :: u64) \<longleftrightarrow> v > 255"
      using limit_test [of 255 v] by (simp add: ULONG_MAX_def unsigned_minus_1_eq_mask mask_eq_exp_minus_1)
    have oct: "octet f \<longleftrightarrow> length f \<le> 3 \<and> v \<le> 255" using False f by (auto simp: octet_def list_all_iff v_def)
    show ?thesis
      using False d lim by (auto simp: c0 conv mr r0 oct of_nat_val v_def [symmetric] algebra_simps)
  qed
qed

lemma pton4_loop_spec:
  assumes "cstr m p s" and "length s < 2 ^ 31"
  shows "pton4_loop (Suc n) m p a = Some (map_option (\<lambda>fs. foldl (\<lambda>a f. push_bit 8 a OR of_nat (field_val f)) a fs)
    (octets (Suc n) s))"
  using assms
proof (induction n arbitrary: p s a)
  case 0
  show ?case unfolding pton4_round [OF 0] by (simp add: octets.simps(2) [of 0] Let_def)
next
  case (Suc n)
  let ?f = "takeWhile (\<lambda>c. digit_of c < 10) s" and ?r = "dropWhile (\<lambda>c. digit_of c < 10) s"
  show ?case
  proof (cases "hd0 ?r = 46")
    case True
    then have r: "?r = 46 # tl ?r" by (cases ?r) (auto simp: hd0_def)
    have "s = ?f @ 46 # tl ?r" using r by (metis takeWhile_dropWhile_id)
    with Suc.prems have "cstr m (p + length ?f + 1) (tl ?r)" "length (tl ?r) < 2 ^ 31"
      by (metis Suc_eq_plus1 add_Suc_right cstr.simps(2) cstr_append, metis length_tl less_imp_diff_less
          length_dropWhile_le order_le_less_trans)
    note IH = Suc.IH [OF this]
    show ?thesis unfolding pton4_round [OF Suc.prems] IH using True
      by (simp add: octets.simps(2) [of "Suc n"] Let_def option.map_comp comp_def del: pton4_loop.simps)
  next
    case False
    then show ?thesis unfolding pton4_round [OF Suc.prems] by (simp add: octets.simps(2) [of "Suc n"] Let_def)
  qed
qed

lemma byte_no_bit [simp]: "\<not> bit (x :: byte) (8 + n)" "\<not> bit x (16 + n)" "\<not> bit x (24 + n)"
  using bit_imp_le_length [of x "8 + n"] bit_imp_le_length [of x "16 + n"] bit_imp_le_length [of x "24 + n"]
  by auto

lemma htonl_bytes:
  fixes x0 x1 x2 x3 :: byte
  shows "htonl (push_bit 8 (push_bit 8 (push_bit 8 (push_bit 8 0 OR ucast x0) OR ucast x1) OR ucast x2) OR ucast x3) = [x0, x1, x2, x3]"
  by (auto simp: htonl_def bit_simps intro!: bit_eqI)

lemma octet_byte: "octet f \<Longrightarrow> (of_nat (field_val f) :: u32) = ucast (of_nat (field_val f) :: byte)"
  by (simp add: octet_def word_unat_eq_iff unsigned_ucast_eq unsigned_of_nat take_bit_nat_eq_self)

lemma inet_pton4_spec:
  assumes "cstr m p s" and "length s < 2 ^ 31"
  shows "inet_pton4 m p = Some (map_option (map (\<lambda>f. of_nat (field_val f))) (octets 4 s))"
proof -
  have len: "length fs = 4 \<and> list_all octet fs" if "octets 4 s = Some fs" for fs
    using that by (simp only: octets4_iff)
  have "htonl (foldl (\<lambda>a f. push_bit 8 a OR of_nat (field_val f)) 0 fs) = map (\<lambda>f. of_nat (field_val f)) fs"
    if oct: "octets 4 s = Some fs" for fs
  proof -
    from len [OF oct] obtain f0 f1 f2 f3 where fs: "fs = [f0, f1, f2, f3]"
      by (auto simp: numeral_eq_Suc length_Suc_conv)
    with len [OF oct] have "octet f0" "octet f1" "octet f2" "octet f3" by simp_all
    note bytes = this [THEN octet_byte]
    show ?thesis using htonl_bytes [of "of_nat (field_val f0)" "of_nat (field_val f1)" "of_nat (field_val f2)"
        "of_nat (field_val f3)"] by (simp add: fs bytes)
  qed
  then show ?thesis
    using pton4_loop_spec [OF assms, of 3 0] by (auto simp: inet_pton4_def numeral_eq_Suc option.map_comp
        comp_def intro!: option.map_cong0 cong: option.map_cong_simp split: option.split)
qed


lemma dec_octet: "n \<le> 255 \<Longrightarrow> octet (dec n)"
proof -
  assume n: "n \<le> 255"
  have "digit_of c < 10" if "c \<in> set (dec n)" for c
    using dec_bytes [OF that] by (auto simp: digit_of_def)
  moreover have "length (dec n) \<le> 3" using dec_length [of n 2] n by simp
  ultimately show ?thesis using n by (simp add: octet_def field_val_def dec_nonempty list_all_iff dec_horner)
qed

lemma field_val_dec [simp]: "field_val (dec n) = n"
  by (simp add: field_val_def dec_horner)

lemma dotted_join: "length b = 4 \<Longrightarrow> dotted b = join 46 (map (\<lambda>x. dec (unat x)) b)"
  by (auto simp: numeral_eq_Suc length_Suc_conv dotted_def)

lemma byte_le: "unat (x :: byte) \<le> 255"
  using unsigned_less [of x, where ?'a = nat] by simp

lemma octets_dotted:
  assumes "length b = 4"
  shows "octets 4 (dotted b) = Some (map (\<lambda>x. dec (unat x)) b)"
  unfolding octets4_iff using assms dotted_join [OF assms] by (simp add: list_all_iff dec_octet byte_le)

lemma length_dotted:
  assumes "length b = 4"
  shows "length (dotted b) \<le> 15"
proof -
  have "length (dec (unat x)) \<le> 3" for x :: byte
    using dec_length [of "unat x" 2] byte_le [of x] by simp
  note this [of "b ! 0"] this [of "b ! 1"] this [of "b ! 2"] this [of "b ! 3"]
  then show ?thesis by (simp add: dotted_def)
qed

lemma dec_no_zero: "0 \<notin> set (dec n)"
  using dec_bytes [of 0 n] by auto

lemma dotted_no_zero: "0 \<notin> set (dotted b)"
  by (simp add: dotted_def dec_no_zero)

lemma pton4_dotted:
  assumes "cstr m p (dotted b)" and "length b = 4"
  shows "inet_pton4 m p = Some (Some b)"
proof -
  have "length (dotted b) < 2 ^ 31" using length_dotted [OF assms(2)] by simp
  from inet_pton4_spec [OF assms(1) this] octets_dotted [OF assms(2)] show ?thesis
    by (simp add: comp_def)
qed

text \<open>
  C32. \<open>inet_pton\<close> accepts for IPv4 exactly the texts of the grammar - four fields of one to three digits,
  each at most 255, with single dots between them and nothing else - and delivers the values of the
  fields as bytes in network order; on every other text it returns 0 and stores nothing.
\<close>

theorem inet_pton4_accepts:
  assumes "cstr m src s" and "length s < 2 ^ 31" and "src \<noteq> NULL" and "dst \<noteq> NULL"
  shows "(inet_pton m AF_INET src dst = Some (1, Some b, None) \<longleftrightarrow>
      (\<exists>fs. length fs = 4 \<and> list_all octet fs \<and> s = join 46 fs \<and> b = map (\<lambda>f. of_nat (field_val f)) fs)) \<and>
    (inet_pton m AF_INET src dst = Some (0, None, None) \<longleftrightarrow>
      \<not> (\<exists>fs. length fs = 4 \<and> list_all octet fs \<and> s = join 46 fs))"
proof (cases "octets 4 s")
  case None
  then have "\<not> (\<exists>fs. length fs = 4 \<and> list_all octet fs \<and> s = join 46 fs)"
    unfolding octets4_iff [symmetric] by simp
  moreover have "inet_pton m AF_INET src dst = Some (0, None, None)"
    using None assms(3,4) inet_pton4_spec [OF assms(1,2)] by (simp add: inet_pton_def)
  ultimately show ?thesis by auto
next
  case (Some fs)
  then have uniq: "length gs = 4 \<and> list_all octet gs \<and> s = join 46 gs \<longleftrightarrow> gs = fs" for gs
    unfolding octets4_iff [symmetric] by auto
  have "inet_pton4 m src = Some (Some (map (\<lambda>f. of_nat (field_val f)) fs))"
    unfolding inet_pton4_spec [OF assms(1,2)] Some by simp
  then have r: "inet_pton m AF_INET src dst = Some (1, Some (map (\<lambda>f. of_nat (field_val f)) fs), None)"
    unfolding inet_pton_def using assms(3,4) by simp
  have "(\<exists>gs. length gs = 4 \<and> list_all octet gs \<and> s = join 46 gs \<and> b = map (\<lambda>f. of_nat (field_val f)) gs) \<longleftrightarrow>
      b = map (\<lambda>f. of_nat (field_val f)) fs"
  proof
    assume "\<exists>gs. length gs = 4 \<and> list_all octet gs \<and> s = join 46 gs \<and> b = map (\<lambda>f. of_nat (field_val f)) gs"
    then obtain gs where "length gs = 4 \<and> list_all octet gs \<and> s = join 46 gs" "b = map (\<lambda>f. of_nat (field_val f)) gs"
      by (elim exE conjE) (rule that, intro conjI)
    then show "b = map (\<lambda>f. of_nat (field_val f)) fs" unfolding uniq by simp
  next
    assume "b = map (\<lambda>f. of_nat (field_val f)) fs"
    then show "\<exists>gs. length gs = 4 \<and> list_all octet gs \<and> s = join 46 gs \<and> b = map (\<lambda>f. of_nat (field_val f)) gs"
      using uniq [of fs, THEN iffD2, OF refl] by (intro exI [of _ fs]) (elim conjE, intro conjI)
  qed
  moreover have "\<exists>gs. length gs = 4 \<and> list_all octet gs \<and> s = join 46 gs"
    using uniq [of fs, THEN iffD2, OF refl] by (rule exI)
  ultimately show ?thesis unfolding r by (simp add: eq_commute)
qed

theorem inet_pton4_accepts_witness:
  "inet_pton (image_at 1 (str ''1.02.3.255'' @ [0])) AF_INET 1 1 = Some (1, Some [1, 2, 3, 255], None)"
proof -
  let ?fs = "[str ''1'', str ''02'', str ''3'', str ''255'']"
  have "cstr (image_at 1 (str ''1.02.3.255'' @ [0])) 1 (str ''1.02.3.255'')" by code_simp
  moreover have "length (str ''1.02.3.255'') < 2 ^ 31" by (simp add: str_def)
  moreover have "length ?fs = 4" "list_all octet ?fs" "str ''1.02.3.255'' = join 46 ?fs"
      "[1, 2, 3, 255] = map (\<lambda>f. of_nat (field_val f) :: byte) ?fs"
    by code_simp+
  ultimately show ?thesis
    by (intro inet_pton4_accepts [THEN conjunct1, THEN iffD2]) (auto intro!: exI [of _ ?fs])
qed


subsection \<open>IPv6: the parser\<close>

lemma isxdigit_digit_of: "isxdigit (uint c) \<noteq> 0 \<longleftrightarrow> digit_of c < 16" for c :: byte
proof -
  have "isxdigit (uint c) \<noteq> 0 \<longleftrightarrow> 48 \<le> unat c \<and> unat c \<le> 57 \<or> 97 \<le> unat c \<and> unat c \<le> 102 \<or> 65 \<le> unat c \<and> unat c \<le> 70"
  proof -
    have "a \<le> uint c \<and> uint c \<le> b \<longleftrightarrow> nat a \<le> unat c \<and> unat c \<le> nat b" if "0 \<le> a" "0 \<le> b" for a b
      using that unfolding uint_nat by linarith
    from this [of 48 57] this [of 97 102] this [of 65 70] show ?thesis
      by (simp add: isxdigit_def isxdigit_inline_def)
  qed
  then show ?thesis by (auto simp: digit_of_def Let_def)
qed

lemma xdigits_end_spec:
  assumes "cstr m p (ds @ r)" and "\<forall>c \<in> set ds. digit_of c < 16" and "16 \<le> digit_of (hd0 r)"
  shows "xdigits_end m p = Some (p + length ds)"
  using assms
proof (induction ds arbitrary: p)
  case Nil
  then have "m p = Some (hd0 r)" using cstr_hd0 [of m p r] by simp
  with Nil.prems(3) isxdigit_digit_of [of "hd0 r"] show ?case by (subst xdigits_end.simps) simp
next
  case (Cons c ds)
  then have "xdigits_end m (Suc p) = Some (Suc p + length ds)" by simp
  with Cons.prems isxdigit_digit_of [of c] show ?case by (subst xdigits_end.simps) simp
qed

lemma unat_xchar: "d < 16 \<Longrightarrow> unat (xchar d) = (if d < 10 then 48 + d else 87 + d)"
  unfolding xchar_def by (intro unat_of_nat_small) simp

lemma digit_of_xchar: "d < 16 \<Longrightarrow> digit_of (xchar d) = d"
  by (simp add: digit_of_def Let_def unat_xchar)

lemma hexs_digits: "c \<in> set (hexs n) \<Longrightarrow> digit_of c < 16"
proof (induction n rule: hexs.induct)
  case (1 n)
  then show ?case by (cases "n < 16") (auto simp: hexs.simps [of n] digit_of_xchar)
qed

lemma hexs_nonempty [simp]: "hexs n \<noteq> []"
  by (subst hexs.simps) simp

lemma hexs_horner: "horner 16 0 (map digit_of (hexs n)) = n"
proof (induction n rule: hexs.induct)
  case (1 n)
  then show ?case by (cases "n < 16") (simp_all add: hexs.simps [of n] horner_def digit_of_xchar)
qed

lemma hexs_length: "n < 16 ^ Suc k \<Longrightarrow> length (hexs n) \<le> Suc k"
proof (induction k arbitrary: n)
  case 0
  then show ?case by (subst hexs.simps) simp
next
  case (Suc k)
  then have "n div 16 < 16 ^ Suc k" by simp
  with Suc.IH show ?case by (subst hexs.simps) auto
qed

lemma hexs_no_zero: "0 \<notin> set (hexs n)"
  using hexs_digits [of 0 n] by (auto simp: digit_of_def)

definition hx :: "hextet \<Rightarrow> byte list" where
  "hx h = hexs (ntohs h)"

lemma ntohs_less: "ntohs h < 65536"
  using byte_le [of "fst h"] byte_le [of "snd h"] unfolding ntohs_def by simp

lemma hx_length: "length (hx h) \<le> 4"
  using hexs_length [of "ntohs h" 3] ntohs_less [of h] by (simp add: hx_def)

lemma hx_nonempty [simp]: "hx h \<noteq> []"
  by (simp add: hx_def)

lemma hx_no_zero [simp]: "0 \<notin> set (hx h)"
  by (simp add: hx_def hexs_no_zero)

lemma htons_ntohs: "htons (of_nat (ntohs h)) = h"
proof (cases h)
  case (Pair hi lo)
  define w where "w = (of_nat (ntohs h) :: u64)"
  have v: "unat w = unat hi * 256 + unat lo"
    using ntohs_less [of h] unfolding w_def by (subst unat_of_nat_small) (simp_all add: Pair ntohs_def)
  have "unat (ucast (drop_bit 8 w) :: byte) = unat hi"
    using byte_le [of hi] byte_le [of lo] by (simp add: unat_ucast_mod unat_drop_bit v)
  moreover have "unat (ucast w :: byte) = unat lo"
    using byte_le [of lo] by (simp add: unat_ucast_mod v)
  ultimately show ?thesis unfolding w_def [symmetric] by (simp add: htons_def Pair word_unat_eq_iff)
qed

text \<open>One round of the main loop on a hexadecimal member.\<close>

lemma pton6_member:
  assumes m: "cstr m p (hx h @ r)" and len: "length (hx h @ r) < 2 ^ 31" and r: "r = [] \<or> hd0 r = 58"
    and idx: "idx \<le> 7"
  shows "pton6_loop m src p idx z addr6 =
    pton6_loop m src (p + length (hx h) + (if r = [] then 0 else 1)) (idx + 1) z (addr6[nat idx := h])"
proof -
  have ds: "\<forall>c \<in> set (hx h). digit_of c < 16" using hexs_digits by (auto simp: hx_def)
  have stop: "stops 16 r" using r by (auto simp: stops_def hd0_def digit_of_def split: list.splits)
  have e: "xdigits_end m p = Some (p + length (hx h))"
    using m ds stop by (intro xdigits_end_spec) (auto simp: stops_def)
  have me: "m (p + length (hx h)) = Some (hd0 r)" using m unfolding cstr_append by (auto intro: cstr_hd0)
  have e01: "hd0 r = (if r = [] then 0 else 58)" using r by (auto simp: hd0_def)
  have mp: "m p = Some (hd (hx h))" using cstr_hd0 [OF m] by simp
  have nz: "hd (hx h) \<noteq> 0" using hx_no_zero [of h] hd_in_set [OF hx_nonempty [of h]] by metis
  have v: "horner 16 0 (map digit_of (hx h)) = ntohs h" by (simp add: hx_def hexs_horner)
  have small: "ntohs h \<le> 65535" using ntohs_less [of h] by simp
  have big: "unat ULONG_MAX = 18446744073709551615"
    by (simp add: ULONG_MAX_def unsigned_minus_1_eq_mask mask_eq_exp_minus_1)
  have conv: "strtoul m p False 16 = Some \<lparr>val = of_nat (ntohs h), err = None, endp = None\<rparr>"
    using strtoul_digits [of m p "hx h" r 16 False] m len ds stop small unfolding v big by simp
  have lim: "\<not> of_nat (ntohs h) > (65535 :: u64)"
    using limit_test [of 65535 "ntohs h"] small by (simp add: big)
  have ne: "p + length (hx h) \<noteq> p" by simp
  show ?thesis
    using hx_length [of h] idx nz lim
    by (subst pton6_loop.simps) (simp add: n_hextets_def mp e me e01 conv htons_ntohs)
qed


definition overlay :: "hextet list \<Rightarrow> nat \<Rightarrow> hextet list \<Rightarrow> hextet list" where
  "overlay addr6 idx hs = take idx addr6 @ hs @ drop (idx + length hs) addr6"

lemma overlay_Nil [simp]: "overlay addr6 idx [] = addr6"
  by (simp add: overlay_def)

lemma overlay_Cons:
  "idx < length addr6 \<Longrightarrow> overlay (addr6[idx := h]) (Suc idx) hs = overlay addr6 idx (h # hs)"
  by (simp add: overlay_def take_Suc_conv_app_nth take_update_cancel)

lemma overlay_overlay:
  "idx + length hs \<le> length addr6 \<Longrightarrow> overlay (overlay addr6 idx hs) (idx + length hs) gs = overlay addr6 idx (hs @ gs)"
  by (simp add: overlay_def add.commute add.left_commute)

lemma overlay_length: "idx + length hs \<le> length addr6 \<Longrightarrow> length (overlay addr6 idx hs) = length addr6"
  by (simp add: overlay_def)

definition members :: "hextet list \<Rightarrow> byte list" where
  "members hs = concat (map (\<lambda>h. hx h @ [58]) hs)"

lemma members_simps [simp]: "members [] = []" "members (h # hs) = hx h @ 58 # members hs"
  "members (hs @ gs) = members hs @ members gs"
  by (simp_all add: members_def)

lemma join_snoc: "join 58 (map hx (hs @ [h])) = members hs @ hx h"
proof (induction hs)
  case (Cons g hs)
  then show ?case using join_Cons [of "map hx (hs @ [h])" 58 "hx g"] by simp
qed simp

lemma pton6_members:
  assumes "cstr m p (members hs @ r)" and "length (members hs @ r) < 2 ^ 31" and "idx + length hs \<le> 8"
    and "length addr6 = 8"
  shows "pton6_loop m src p (int idx) z addr6 =
    pton6_loop m src (p + length (members hs)) (int (idx + length hs)) z (overlay addr6 idx hs)"
  using assms
proof (induction hs arbitrary: p idx addr6)
  case (Cons h hs)
  let ?r = "58 # members hs @ r"
  have m: "cstr m p (hx h @ ?r)" and len: "length (hx h @ ?r) < 2 ^ 31" using Cons.prems(1,2) by simp_all
  have "pton6_loop m src p (int idx) z addr6 =
      pton6_loop m src (p + length (hx h) + 1) (int (Suc idx)) z (addr6[idx := h])"
    using pton6_member [OF m len, of "int idx" src z addr6] Cons.prems(3) by (simp add: hd0_def add.commute)
  also have "\<dots> = pton6_loop m src (p + length (hx h) + 1 + length (members hs)) (int (Suc idx + length hs)) z
      (overlay (addr6[idx := h]) (Suc idx) hs)"
  proof (rule Cons.IH)
    show "cstr m (p + length (hx h) + 1) (members hs @ r)" using m by (simp add: cstr_append)
  qed (use Cons.prems in simp_all)
  finally show ?case using Cons.prems(3,4) by (simp add: overlay_Cons add.assoc)
qed simp

lemma pton6_end: "m p = Some 0 \<Longrightarrow> pton6_loop m src p idx z addr6 = Some (Some (idx, z, addr6))"
  by (subst pton6_loop.simps) simp

lemma pton6_tail:
  assumes m: "cstr m p (join 58 (map hx hs))" and len: "length (join 58 (map hx hs)) < 2 ^ 31"
    and idx: "idx + length hs \<le> 8" "length addr6 = 8"
  shows "pton6_loop m src p (int idx) z addr6 = Some (Some (int (idx + length hs), z, overlay addr6 idx hs))"
proof (cases hs rule: rev_cases)
  case Nil
  with m show ?thesis by (simp add: pton6_end)
next
  case (snoc gs h)
  have m': "cstr m p (members gs @ hx h)" and len': "length (members gs @ hx h) < 2 ^ 31"
    using m len by (simp_all only: snoc join_snoc)
  have mh: "cstr m (p + length (members gs)) (hx h @ [])" using m' by (simp add: cstr_append)
  have "pton6_loop m src p (int idx) z addr6 =
      pton6_loop m src (p + length (members gs)) (int (idx + length gs)) z (overlay addr6 idx gs)"
    using pton6_members [OF m' len'] idx snoc by simp
  also have "\<dots> = pton6_loop m src (p + length (members gs) + length (hx h)) (int (idx + length gs) + 1) z
      ((overlay addr6 idx gs)[nat (int (idx + length gs)) := h])"
    using pton6_member [OF mh, of "int (idx + length gs)"] idx snoc hx_length [of h] by simp
  also have "\<dots> = Some (Some (int (idx + length gs) + 1, z, (overlay addr6 idx gs)[nat (int (idx + length gs)) := h]))"
    using cstr_end [OF mh] by (intro pton6_end) simp
  also have "(overlay addr6 idx gs)[nat (int (idx + length gs)) := h] = overlay addr6 idx (gs @ [h])"
  proof -
    have "(overlay addr6 idx gs)[idx + length gs := h] = overlay (overlay addr6 idx gs) (idx + length gs) [h]"
      using idx snoc overlay_length [of idx gs addr6] by (simp add: overlay_def upd_conv_take_nth_drop)
    then show ?thesis unfolding nat_int using idx snoc by (simp add: overlay_overlay)
  qed
  finally show ?thesis by (simp add: snoc)
qed

lemma xdigits_none: "cstr m p (58 # r) \<Longrightarrow> xdigits_end m p = Some p"
  using xdigits_end_spec [of m p "[]" "58 # r"] by (simp add: hd0_def digit_of_def)

lemma pton6_gap:
  assumes "cstr m p (58 # r)" and "p \<noteq> src" and "idx \<le> 7"
  shows "pton6_loop m src p idx (-1) addr6 = pton6_loop m src (p + 1) idx idx addr6"
  using assms xdigits_none [OF assms(1)] by (subst pton6_loop.simps) (simp add: n_hextets_def)

lemma pton6_gap_first:
  assumes "cstr m src (58 # 58 # r)"
  shows "pton6_loop m src src 0 (-1) addr6 = pton6_loop m src (src + 2) 0 0 addr6"
  using assms xdigits_none [OF assms(1)] by (subst pton6_loop.simps) (simp add: n_hextets_def numeral_2_eq_2)


lemma collect_map: "(\<And>x. x \<in> set xs \<Longrightarrow> f x = Some (g x)) \<Longrightarrow> collect f xs = Some (map g xs)"
  by (induction xs) auto

lemma upto_nth: "i < 8 \<Longrightarrow> [0..n_hextets - 1] ! i = int i"
  by (simp add: n_hextets_def nth_upto)

lemma fill_full:
  assumes "length addr6 = 8"
  shows "collect (fill_hextet addr6 n_hextets (-1)) [0..n_hextets - 1] = Some addr6"
proof -
  have "collect (fill_hextet addr6 n_hextets (-1)) [0..n_hextets - 1] = Some (map (\<lambda>i. addr6 ! nat i) [0..n_hextets - 1])"
    using assms by (intro collect_map) (auto simp: fill_hextet_def member_def n_hextets_def)
  also have "map (\<lambda>i. addr6 ! nat i) [0..n_hextets - 1] = addr6"
    using assms by (intro nth_equalityI) (simp_all add: n_hextets_def nth_upto)
  finally show ?thesis .
qed

lemma fill_gap:
  assumes n: "length pre + length post < 8" and addr6: "addr6 = pre @ post @ ys" and len: "length addr6 = 8"
  shows "collect (fill_hextet addr6 (int (length pre + length post)) (int (length pre))) [0..n_hextets - 1] =
    Some (pre @ replicate (8 - (length pre + length post)) (0, 0) @ post)"
proof -
  define idx where "idx = length pre + length post"
  let ?v = "pre @ replicate (8 - idx) (0, 0) @ post"
  have lv: "length ?v = 8" using n by (simp add: idx_def)
  have "fill_hextet addr6 (int idx) (int (length pre)) i = Some (?v ! nat i)" if i: "i \<in> set [0..n_hextets - 1]" for i
  proof -
    obtain k where k: "i = int k" "k < 8" using i nonneg_int_cases [of i] by (auto simp: n_hextets_def)
    consider "k < length pre" | "length pre \<le> k" "k < 8 - idx + length pre" | "8 - idx + length pre \<le> k" by linarith
    then show ?thesis
    proof cases
      case 1
      then show ?thesis using k len n by (simp add: fill_hextet_def member_def n_hextets_def nth_append addr6 idx_def)
    next
      case 2
      then have "k - length pre < 8 - idx" "int k < n_hextets - int idx + int (length pre)"
        using n by (simp_all add: idx_def n_hextets_def)
      with 2 show ?thesis by (simp add: fill_hextet_def k nth_append)
    next
      case 3
      define j where "j = k - (8 - idx)"
      have j: "int k - (n_hextets - int idx) = int j" "length pre \<le> j" "j < idx" "j < length addr6"
        using 3 k(2) n len by (simp_all add: idx_def j_def n_hextets_def)
      have gt: "\<not> int k < n_hextets - int idx + int (length pre)" using 3 n by (simp add: idx_def n_hextets_def)
      have "?v ! k = post ! (j - length pre)"
      proof -
        have "\<not> k < length pre" "\<not> k - length pre < 8 - idx" "k - length pre - (8 - idx) = j - length pre"
          using 3 by (simp_all add: j_def)
        then show ?thesis by (simp add: nth_append)
      qed
      moreover have "j - length pre < length post" using j by (simp add: idx_def)
      then have "addr6 ! j = post ! (j - length pre)" using j(2) by (simp add: addr6 nth_append)
      ultimately show ?thesis unfolding fill_hextet_def k(1) if_not_P [OF gt] using gt j by (simp add: member_def)
    qed
  qed
  then have "collect (fill_hextet addr6 (int idx) (int (length pre))) [0..n_hextets - 1] = Some (map (\<lambda>i. ?v ! nat i) [0..n_hextets - 1])"
    by (rule collect_map)
  also have "map (\<lambda>i. ?v ! nat i) [0..n_hextets - 1] = ?v"
    using lv by (intro nth_equalityI) (simp_all add: n_hextets_def nth_upto)
  finally show ?thesis by (simp add: idx_def)
qed

text \<open>The text forms an address is printed in, and what the parser makes of them.\<close>

definition text_full :: "hextet list \<Rightarrow> byte list" where
  "text_full hs = join 58 (map hx hs)"

definition text_gap :: "hextet list \<Rightarrow> hextet list \<Rightarrow> byte list" where
  "text_gap pre post = join 58 (map hx pre) @ [58, 58] @ join 58 (map hx post)"

lemma overlay_start: "length hs \<le> 8 \<Longrightarrow> overlay (replicate 8 (0, 0)) 0 hs = hs @ replicate (8 - length hs) (0, 0)"
  by (simp add: overlay_def)

lemma pton6_full:
  assumes m: "cstr m src (text_full hs)" and hs: "length hs = 8" and len: "length (text_full hs) < 2 ^ 31"
  shows "inet_pton6 m src = Some (Some (bytes_of hs))"
proof -
  have "pton6_loop m src src 0 (-1) (replicate 8 (0, 0)) = Some (Some (8, -1, hs))"
    using pton6_tail [of m src hs 0 "replicate 8 (0, 0)" src "-1"] m hs len by (simp add: text_full_def overlay_def)
  moreover have "collect (fill_hextet hs 8 (-1)) [0..n_hextets - 1] = Some hs"
    using fill_full [OF hs] by (simp add: n_hextets_def)
  ultimately show ?thesis by (simp add: inet_pton6_def n_hextets_def)
qed

text \<open>What is left of the main loop behind the gap decides the address.\<close>

lemma pton6_behind_gap:
  assumes m: "cstr m src (join 58 (map hx pre) @ [58, 58] @ s)" and pre: "length pre \<le> 7"
    and len: "length (join 58 (map hx pre) @ [58, 58] @ s) < 2 ^ 31"
  shows "\<exists>p. cstr m p s \<and> p \<noteq> src \<and> pton6_loop m src src 0 (-1) (replicate 8 (0, 0)) =
    pton6_loop m src p (int (length pre)) (int (length pre)) (overlay (replicate 8 (0, 0)) 0 pre)"
proof (cases pre rule: rev_cases)
  case Nil
  with m have "cstr m src (58 # 58 # s)" by simp
  moreover from this have "cstr m (src + 2) s" by (simp add: numeral_2_eq_2)
  ultimately show ?thesis using pton6_gap_first [of m src s] Nil by (intro exI [of _ "src + 2"]) simp
next
  case (snoc gs g)
  have join: "join 58 (map hx pre) @ [58, 58] @ s = members pre @ 58 # s" by (simp only: snoc join_snoc) simp
  let ?p = "src + length (members pre)"
  have m': "cstr m src (members pre @ 58 # s)" "length (members pre @ 58 # s) < 2 ^ 31"
    using m len unfolding join by simp_all
  have mp: "cstr m ?p (58 # s)" using m'(1) by (simp add: cstr_append)
  have ne: "?p \<noteq> src" by (simp add: snoc)
  have "pton6_loop m src src 0 (-1) (replicate 8 (0, 0)) =
      pton6_loop m src ?p (int (length pre)) (-1) (overlay (replicate 8 (0, 0)) 0 pre)"
    using pton6_members [OF m', of 0 "replicate 8 (0, 0)" src "-1"] pre by simp
  also have "\<dots> = pton6_loop m src (?p + 1) (int (length pre)) (int (length pre)) (overlay (replicate 8 (0, 0)) 0 pre)"
    using pton6_gap [OF mp ne] pre by simp
  finally show ?thesis using mp by (intro exI [of _ "?p + 1"]) simp
qed

lemma pton6_gap_text:
  assumes m: "cstr m src (text_gap pre post)" and n: "length pre + length post < 8"
    and len: "length (text_gap pre post) < 2 ^ 31"
  shows "inet_pton6 m src = Some (Some (bytes_of (pre @ replicate (8 - (length pre + length post)) (0, 0) @ post)))"
proof -
  let ?a = "overlay (replicate 8 (0, 0)) 0 pre"
  have "length pre \<le> 7" using n by simp
  from pton6_behind_gap [OF m [unfolded text_gap_def] this len [unfolded text_gap_def]] obtain p where
    p: "cstr m p (join 58 (map hx post))" and loop: "pton6_loop m src src 0 (-1) (replicate 8 (0, 0)) =
      pton6_loop m src p (int (length pre)) (int (length pre)) ?a" by blast
  have lp: "length (join 58 (map hx post)) < 2 ^ 31" using len by (simp add: text_gap_def)
  have la: "length ?a = 8" using n by (subst overlay_length) simp_all
  have "pton6_loop m src src 0 (-1) (replicate 8 (0, 0)) =
      Some (Some (int (length pre + length post), int (length pre), overlay ?a (length pre) post))"
    unfolding loop using pton6_tail [OF p lp _ la, of "length pre"] n by simp
  moreover have "overlay ?a (length pre) post = pre @ post @ replicate (8 - (length pre + length post)) (0, 0)"
    using overlay_overlay [of 0 pre "replicate 8 (0, 0)" post] n overlay_start [of "pre @ post"] by simp
  moreover have "length (pre @ post @ replicate (8 - (length pre + length post)) (0, 0)) = 8" using n by simp
  ultimately show ?thesis
    using n fill_gap [OF n refl, of "replicate (8 - (length pre + length post)) (0, 0)"]
    by (simp add: inet_pton6_def n_hextets_def)
qed


lemma hd0_46: "digit_of (hd0 (46 # r)) = 99"
  by (simp add: hd0_def digit_of_def)

lemma pton6_v4:
  assumes m: "cstr m p (dotted b)" and b: "length b = 4" and idx: "idx + 2 \<le> 8" and len: "length addr6 = 8"
  shows "pton6_loop m src p (int idx) z addr6 =
    Some (Some (int (idx + 2), z, overlay addr6 idx [(b ! 0, b ! 1), (b ! 2, b ! 3)]))"
proof -
  let ?d = "dec (unat (b ! 0))"
  obtain r where r: "dotted b = ?d @ 46 # r" by (simp add: dotted_def)
  have d: "\<forall>c \<in> set ?d. digit_of c < 16" using dec_bytes [of _ "unat (b ! 0)"] by (fastforce simp: digit_of_def)
  have e: "xdigits_end m p = Some (p + length ?d)"
    using xdigits_end_spec [of m p ?d "46 # r"] m d hd0_46 [of r] unfolding r by simp
  have me: "m (p + length ?d) = Some 46" using m unfolding r by (simp add: cstr_append)
  have mp: "m p = Some (hd ?d)" using cstr_hd0 [OF m] unfolding r by (simp add: dec_nonempty)
  have nz: "hd ?d \<noteq> 0" using dec_no_zero [of "unat (b ! 0)"] hd_in_set [OF dec_nonempty [of "unat (b ! 0)"]] by metis
  have upd: "addr6[idx := x, Suc idx := y] = overlay addr6 idx [x, y]" for x y
  proof -
    have "addr6[idx := x, Suc idx := y] = overlay ((addr6[idx := x])[Suc idx := y]) (Suc (Suc idx)) []" by simp
    also have "\<dots> = overlay addr6 idx [x, y]" using idx len by (simp only: overlay_Cons length_list_update)
    finally show ?thesis .
  qed
  show ?thesis
    using idx len upd
    by (subst pton6_loop.simps) (simp add: n_hextets_def mp nz e me dec_nonempty pton4_dotted [OF m b] copy_addr4_def
        nat_add_distrib)
qed

lemma pton6_mapped_text:
  assumes m: "cstr m src ([58, 58] @ members mid @ dotted b)" and b: "length b = 4" and n: "length mid \<le> 5"
  shows "inet_pton6 m src =
    Some (Some (bytes_of (replicate (6 - length mid) (0, 0) @ mid @ [(b ! 0, b ! 1), (b ! 2, b ! 3)])))"
proof -
  let ?b = "[(b ! 0, b ! 1), (b ! 2, b ! 3)]" and ?z = "replicate 8 (0, 0)"
  have "length (members mid) \<le> 5 * length mid"
  proof (induction mid)
    case (Cons h hs)
    then show ?case using hx_length [of h] by simp
  qed simp
  with n length_dotted [OF b] have len: "length ([58, 58] @ members mid @ dotted b) < 2 ^ 31" by simp
  from pton6_behind_gap [of m src "[]" "members mid @ dotted b"] m len obtain p where
    p: "cstr m p (members mid @ dotted b)" and loop: "pton6_loop m src src 0 (-1) ?z = pton6_loop m src p 0 0 ?z"
    by auto
  have q: "cstr m (p + length (members mid)) (dotted b)" using p by (simp add: cstr_append)
  have la: "length (overlay ?z 0 mid) = 8" using n by (subst overlay_length) simp_all
  have "pton6_loop m src src 0 (-1) ?z = Some (Some (int (length mid + 2), 0, overlay (overlay ?z 0 mid) (length mid) ?b))"
    unfolding loop using pton6_members [OF p _ _ _, of 0 ?z src 0] pton6_v4 [OF q b _ la, of "length mid" src 0] n len
    by simp
  moreover have "overlay (overlay ?z 0 mid) (length mid) ?b = mid @ ?b @ replicate (8 - (length mid + 2)) (0, 0)"
    using overlay_overlay [of 0 mid ?z ?b] n overlay_start [of "mid @ ?b"] by simp
  moreover have "length ([] @ (mid @ ?b) @ replicate (8 - (length mid + 2)) (0, 0)) = 8" using n by simp
  moreover have "length ([] :: hextet list) + length (mid @ ?b) < 8" using n by simp
  ultimately show ?thesis
    using fill_gap [of "[]" "mid @ ?b" _ "replicate (8 - (length mid + 2)) (0, 0)", OF _ refl] n
    by (simp add: inet_pton6_def n_hextets_def)
qed


subsection \<open>IPv6: the printer\<close>

text \<open>The members of an address in memory.\<close>

definition hextets :: "byte list \<Rightarrow> hextet list" where
  "hextets b = map (hextet b) [0..n_hextets - 1]"

lemma hextets_nth: "i < 8 \<Longrightarrow> hextets b ! i = hextet b (int i)"
  by (simp add: hextets_def n_hextets_def nth_upto)

lemma hextets_length [simp]: "length (hextets b) = 8"
  by (simp add: hextets_def n_hextets_def)

lemma bytes_of_hextets:
  assumes "length b = 16"
  shows "bytes_of (hextets b) = b"
proof -
  from assms obtain b0 b1 b2 b3 b4 b5 b6 b7 b8 b9 b10 b11 b12 b13 b14 b15
    where b: "b = [b0, b1, b2, b3, b4, b5, b6, b7, b8, b9, b10, b11, b12, b13, b14, b15]"
    by (auto simp: numeral_eq_Suc length_Suc_conv)
  have "[0..n_hextets - 1] = [0, 1, 2, 3, 4, 5, 6, 7]" by (simp add: n_hextets_def upto_rec1)
  then show ?thesis by (simp add: b bytes_of_def hextets_def hextet_def)
qed

text \<open>The run of zeros the search finds.\<close>

definition zero_run :: "byte list \<Rightarrow> int \<Rightarrow> int \<Rightarrow> bool" where
  "zero_run b i n \<longleftrightarrow> 0 \<le> i \<and> (\<forall>k. i \<le> k \<and> k < i + n \<longrightarrow> hextet b k = (0, 0))"

definition search_inv :: "byte list \<Rightarrow> int \<Rightarrow> int \<times> int \<times> int \<times> int \<Rightarrow> bool" where
  "search_inv b k = (\<lambda>(ti, tl, zi, zl).
     (zi = -1 \<and> zl = 0 \<or> zero_run b zi zl \<and> 2 \<le> zl \<and> zi + zl \<le> n_hextets) \<and>
     (ti = -1 \<or> zero_run b ti tl \<and> 1 \<le> tl \<and> ti + tl = k))"

lemma zero_run_extend: "zero_run b i n \<Longrightarrow> hextet b (i + n) = (0, 0) \<Longrightarrow> zero_run b i (n + 1)"
  unfolding zero_run_def by (metis add.assoc less_le zle_add1_eq_le)

lemma search_step:
  assumes "search_inv b k s" and "0 \<le> k" and "k < n_hextets"
  shows "search_inv b (k + 1) (zero_step b k s)"
proof -
  obtain ti tl zi zl where s: "s = (ti, tl, zi, zl)" by (cases s)
  have one: "zero_run b k 1" if "hextet b k = (0, 0)"
    using that assms(2) unfolding zero_run_def by (metis order_antisym zle_add1_eq_le)
  have more: "zero_run b ti (tl + 1)" if "hextet b k = (0, 0)" "ti \<noteq> -1"
    using zero_run_extend [of b ti tl] that assms(1) by (simp add: search_inv_def s)
  show ?thesis
    using assms one more by (auto simp: search_inv_def zero_step_def s Let_def split: if_splits prod.splits)
qed

lemma longest_zeros_spec:
  assumes "longest_zeros b = (zi, zl)"
  shows "zi = -1 \<and> zl = 0 \<or> zero_run b zi zl \<and> 2 \<le> zl \<and> zi + zl \<le> n_hextets"
proof -
  have run: "search_inv b (int n) (fold (zero_step b) [0..int n - 1] (-1, 0, -1, 0))" if "n \<le> 8" for n
    using that
  proof (induction n)
    case 0
    then show ?case by (simp add: search_inv_def)
  next
    case (Suc n)
    have "[0..int (Suc n) - 1] = [0..int n - 1] @ [int n]" using upto_rec2 [of 0 "int n"] by simp
    with Suc search_step [of b "int n"] show ?case by (simp add: n_hextets_def add.commute)
  qed
  from run [of 8] assms show ?thesis
    by (auto simp: longest_zeros_def n_hextets_def search_inv_def split: prod.splits)
qed

text \<open>The destination while it is filled: the text so far, NULs behind it.\<close>

definition filled :: "mem \<Rightarrow> addr \<Rightarrow> nat \<Rightarrow> byte list \<Rightarrow> mem" where
  "filled m d n out = put m d (out @ replicate (n - length out) 0)"

lemma filled_store:
  assumes "length out < n" and "mapped m d n"
  shows "store (filled m d n out) (d + length out) c = Some (filled m d n (out @ [c]))"
proof -
  have ne: "filled m d n out (d + length out) \<noteq> None"
    using assms(1) by (simp add: filled_def put_lookup)
  have "(filled m d n out)(d + length out \<mapsto> c) = filled m d n (out @ [c])"
    using assms(1) by (auto simp: filled_def put_lookup nth_append fun_eq_iff)
  with ne show ?thesis by simp
qed

lemma filled_snprintf:
  assumes "length out + length t < n" and "length t < k" and "mapped m d n"
  shows "snprintf (filled m d n out) (d + length out) k t = Some (filled m d n (out @ t), length t)"
proof -
  have "mapped (filled m d n out) (d + length out) (length (t @ [0 :: byte]))"
    using mapped_le [OF mapped_shift [OF assms(3), of "length out"], of "Suc (length t)"] assms(1)
    by (simp add: filled_def)
  moreover have "put (filled m d n out) (d + length out) (t @ [0]) = filled m d n (out @ t)"
    using assms(1) by (auto simp: filled_def put_lookup nth_append fun_eq_iff)
  ultimately show ?thesis using assms(2) by (simp add: snprintf_def store_bytes_def)
qed

lemma filled_cstr: "length out < n \<Longrightarrow> 0 \<notin> set out \<Longrightarrow> cstr (filled m d n out) d out"
proof -
  assume "length out < n" "0 \<notin> set out"
  moreover from this obtain k where "n - length out = Suc k" by (cases "n - length out") auto
  ultimately have "out @ replicate (n - length out) 0 = (out @ [0]) @ replicate (n - length out - 1) 0" by simp
  then have "bytes_at (filled m d n out) d (out @ [0])"
    by (metis bytes_at_append bytes_at_put filled_def)
  with \<open>0 \<notin> set out\<close> show ?thesis by (simp add: cstr_iff)
qed


definition sep :: "int \<Rightarrow> byte list" where
  "sep k = (if k \<noteq> 0 then [58] else [])"

definition seg :: "byte list \<Rightarrow> int \<Rightarrow> int \<Rightarrow> byte list" where
  "seg b i j = concat (map (\<lambda>k. sep k @ hx (hextet b k)) [i..j - 1])"

lemma seg_empty [simp]: "seg b i i = []"
  by (simp add: seg_def)

lemma seg_Cons: "i < j \<Longrightarrow> seg b i j = sep i @ hx (hextet b i) @ seg b (i + 1) j"
  by (simp add: seg_def upto_rec1 [of i])

lemma seg_length: "length (seg b i j) \<le> 5 * nat (j - i)"
proof -
  have "length (concat (map (\<lambda>k. sep k @ hx (hextet b k)) ks)) \<le> 5 * length ks" for ks
  proof (induction ks)
    case (Cons k ks)
    have "length (sep k) \<le> 1" by (simp add: sep_def)
    with Cons hx_length [of "hextet b k"] show ?case by simp
  qed simp
  from this [of "[i..j - 1]"] show ?thesis by (simp add: seg_def)
qed

lemma ntop6_sep:
  assumes "length out < n" and "mapped m d n"
  shows "(if i \<noteq> 0 then do { m \<leftarrow> store (filled m d n out) (d + length out) 58; Some (m, d + length out + 1) }
      else Some (filled m d n out, d + length out)) = Some (filled m d n (out @ sep i), d + length (out @ sep i))"
  using filled_store [OF assms, of 58] by (simp add: sep_def)

lemma ntop6_step:
  assumes i: "i < n_hextets" "i \<noteq> zi" and out: "length out + 5 < n" and m: "mapped m d n"
  shows "ntop6_loop b zi zl (filled m d n out) i (d + length out) =
    ntop6_loop b zi zl (filled m d n (out @ sep i @ hx (hextet b i))) (i + 1) (d + length (out @ sep i @ hx (hextet b i)))"
proof -
  have 1: "length (sep i) \<le> 1" by (simp add: sep_def)
  have 2: "snprintf (filled m d n (out @ sep i)) (d + length (out @ sep i)) 5 (hx (hextet b i)) =
      Some (filled m d n ((out @ sep i) @ hx (hextet b i)), length (hx (hextet b i)))"
    using out 1 hx_length [of "hextet b i"] m by (intro filled_snprintf) simp_all
  have "length out < n" using out by simp
  note sep = ntop6_sep [OF this m]
  have "ntop6_loop b zi zl (filled m d n out) i (d + length out) = do {
      (m, n) \<leftarrow> snprintf (filled m d n (out @ sep i)) (d + length (out @ sep i)) 5 (hx (hextet b i));
      ntop6_loop b zi zl m (i + 1) (d + length (out @ sep i) + n) }"
    by (subst ntop6_loop.simps)
      (simp only: sep if_P [OF i(1)] if_not_P [OF i(2)] bind.bind_lunit prod.case hx_def [symmetric])
  then show ?thesis unfolding 2 by (simp add: add.assoc)
qed

lemma ntop6_run:
  assumes "0 \<le> i" and "i \<le> j" and "j \<le> n_hextets" and "zi < i \<or> j \<le> zi"
    and "length out + 5 * nat (j - i) < n" and "mapped m d n"
  shows "ntop6_loop b zi zl (filled m d n out) i (d + length out) =
    ntop6_loop b zi zl (filled m d n (out @ seg b i j)) j (d + length (out @ seg b i j))"
  using assms
proof (induction "nat (j - i)" arbitrary: i out)
  case 0
  then show ?case by simp
next
  case (Suc k)
  then have ij: "i < j" by simp
  let ?out = "out @ sep i @ hx (hextet b i)"
  have "length (sep i) \<le> 1" by (simp add: sep_def)
  then have lo: "length ?out \<le> length out + 5" using hx_length [of "hextet b i"] by simp
  have "ntop6_loop b zi zl (filled m d n out) i (d + length out) =
      ntop6_loop b zi zl (filled m d n ?out) (i + 1) (d + length ?out)"
    using Suc.prems ij by (intro ntop6_step) auto
  also have "\<dots> = ntop6_loop b zi zl (filled m d n (?out @ seg b (i + 1) j)) j (d + length (?out @ seg b (i + 1) j))"
  proof (rule Suc.hyps)
    show "length ?out + 5 * nat (j - (i + 1)) < n"
      using lo Suc.prems(5) ij by (simp add: nat_diff_distrib')
  qed (use Suc ij in auto)
  finally show ?case using seg_Cons [OF ij, of b] by simp
qed


lemma ntop6_stop: "n_hextets \<le> i \<Longrightarrow> ntop6_loop b zi zl m i p = Some (m, p)"
  by (subst ntop6_loop.simps) simp

lemma ntop6_jump:
  assumes "zi < n_hextets" and "length out < n" and "mapped m d n"
  shows "ntop6_loop b zi zl (filled m d n out) zi (d + length out) =
    ntop6_loop b zi zl (filled m d n (out @ sep zi)) (zi + zl) (d + length (out @ sep zi))"
  by (subst ntop6_loop.simps)
    (simp only: ntop6_sep [OF assms(2,3)] if_P [OF assms(1)] refl if_True bind.bind_lunit prod.case)

text \<open>The texts of the loop are joined members.\<close>

lemma join_concat: "join 58 (hx h # map hx hs) = hx h @ concat (map (\<lambda>h. 58 # hx h) hs)"
  by (induction hs arbitrary: h) simp_all

definition part :: "byte list \<Rightarrow> int \<Rightarrow> int \<Rightarrow> hextet list" where
  "part b i j = map (hextet b) [i..j - 1]"

lemma part_empty [simp]: "part b i i = []"
  by (simp add: part_def)

lemma part_length [simp]: "length (part b i j) = nat (j - i)"
  by (simp add: part_def)

lemma part_Cons: "i < j \<Longrightarrow> part b i j = hextet b i # part b (i + 1) j"
  by (simp add: part_def upto_rec1 [of i])

lemma part_append: "i \<le> j \<Longrightarrow> j \<le> k \<Longrightarrow> part b i k = part b i j @ part b j k"
proof (cases "j = k")
  case False
  assume "i \<le> j" "j \<le> k"
  with False have "[i..k - 1] = [i..j - 1] @ [j..k - 1]" by (intro upto_split1) simp_all
  then show ?thesis by (simp add: part_def)
qed simp

lemma part_all: "part b 0 n_hextets = hextets b"
  by (simp add: part_def hextets_def)

lemma zero_run_part: "zero_run b i n \<Longrightarrow> part b i (i + n) = replicate (nat n) (0, 0)"
  by (intro replicate_eqI) (auto simp: part_def zero_run_def)

lemma seg_part: "0 < i \<Longrightarrow> seg b i j = concat (map (\<lambda>h. 58 # hx h) (part b i j))"
  by (simp add: seg_def part_def comp_def) (rule arg_cong [where f = concat], simp add: sep_def)

lemma seg_front:
  assumes "0 \<le> i"
  shows "seg b 0 i = join 58 (map hx (part b 0 i))"
proof (cases "i = 0")
  case False
  with assms have "0 < i" by simp
  then show ?thesis
    using seg_Cons [of 0 i b] seg_part [of 1 b i] by (simp add: part_Cons [of 0 i] join_concat sep_def)
qed simp

lemma seg_back:
  assumes "0 < i" and "i < j"
  shows "seg b i j = 58 # join 58 (map hx (part b i j))"
  using seg_part [OF assms(1)] by (simp add: part_Cons [OF assms(2)] join_concat)

text \<open>What \<open>inet_ntop6\<close> writes.\<close>

definition text6 :: "byte list \<Rightarrow> byte list" where
  "text6 b =
     (if V4MAPPED b then [58, 58] @ members [(255, 255)] @ dotted (drop 12 b)
      else if V4COMPAT b then [58, 58] @ dotted (drop 12 b)
      else case longest_zeros b of (zi, zl) \<Rightarrow>
        if zi = -1 then text_full (hextets b) else text_gap (part b 0 zi) (part b (zi + zl) n_hextets))"

lemma inet_ntop6_general:
  assumes b: "length b = 16" "bytes_at m src b" "apart dst sz src 16" and dst: "mapped m dst sz" "46 \<le> sz"
    and v4: "\<not> V4MAPPED b" "\<not> V4COMPAT b"
  shows "inet_ntop6 m src dst sz = Some (filled m dst sz (text6 b), dst, None)" and "length (text6 b) < 46"
proof -
  obtain zi zl where z: "longest_zeros b = (zi, zl)" by (cases "longest_zeros b")
  let ?f = "filled m dst sz"
  have start: "memset m dst 0 sz = Some (?f [])" using dst(1) by (simp add: memset_mapped filled_def)
  have read: "load_bytes (?f []) src 16 = Some b"
    unfolding load_bytes_Some using b bytes_at_put_other [of dst "replicate sz 0" src b m]
    by (simp add: filled_def apart_def)
  have both: "inet_ntop6 m src dst sz = Some (?f (text6 b), dst, None) \<and> length (text6 b) < 46"
  proof (cases "zi = -1")
    case True
    with longest_zeros_spec [OF z] have zl: "zl = 0" by (auto simp: zero_run_def)
    have t: "text6 b = seg b 0 8" using v4 z True seg_front [of 8 b] part_all [of b]
      by (simp add: text6_def text_full_def n_hextets_def)
    have "ntop6_loop b zi zl (?f []) 0 (dst + length ([] :: byte list)) =
        ntop6_loop b zi zl (?f ([] @ seg b 0 8)) 8 (dst + length ([] @ seg b 0 8))"
      using dst True by (intro ntop6_run) (simp_all add: n_hextets_def)
    then have "ntop6_loop b zi zl (?f []) 0 dst = Some (?f (text6 b), dst + length (text6 b))"
      by (simp add: ntop6_stop n_hextets_def t)
    moreover have "length (text6 b) < 46" using seg_length [of b 0 8] by (simp add: t)
    ultimately show ?thesis
      using dst v4 True zl start read z by (simp add: inet_ntop6_def INET6_ADDRSTRLEN_def n_hextets_def)
  next
    case False
    then have run: "zero_run b zi zl" "2 \<le> zl" "zi + zl \<le> 8" "0 \<le> zi"
      using longest_zeros_spec [OF z] by (auto simp: zero_run_def n_hextets_def)
    have t: "text6 b = text_gap (part b 0 zi) (part b (zi + zl) 8)" using v4 z False by (simp add: text6_def n_hextets_def)
    define j where "j = zi + zl"
    define front where "front = seg b 0 zi @ [58]"
    have lf: "length front \<le> 5 * nat zi + 1" using seg_length [of b 0 zi] by (simp add: front_def)
    have first: "(if zi = 0 then do { m \<leftarrow> store (?f []) dst 58; Some (m, dst + 1, zl) } else Some (?f [], dst, 0)) \<bind>
        (\<lambda>(m, dst_ptr, i). ntop6_loop b zi zl m i dst_ptr) = ntop6_loop b zi zl (?f front) j (dst + length front)"
    proof (cases "zi = 0")
      case True
      then show ?thesis using filled_store [of "[]" sz m dst 58] dst by (simp add: front_def j_def)
    next
      case False
      have "ntop6_loop b zi zl (?f []) 0 (dst + length ([] :: byte list)) =
          ntop6_loop b zi zl (?f ([] @ seg b 0 zi)) zi (dst + length ([] @ seg b 0 zi))"
        using dst run False by (intro ntop6_run) (simp_all add: n_hextets_def)
      also have "\<dots> = ntop6_loop b zi zl (?f (([] @ seg b 0 zi) @ sep zi)) (zi + zl) (dst + length (([] @ seg b 0 zi) @ sep zi))"
        using dst run seg_length [of b 0 zi] by (intro ntop6_jump) (simp_all add: n_hextets_def)
      finally show ?thesis using False by (simp add: front_def j_def sep_def)
    qed
    have rest: "ntop6_loop b zi zl (?f front) j (dst + length front) =
        Some (?f (front @ seg b j 8), dst + length (front @ seg b j 8))"
    proof -
      have "ntop6_loop b zi zl (?f front) j (dst + length front) =
          ntop6_loop b zi zl (?f (front @ seg b j 8)) 8 (dst + length (front @ seg b j 8))"
        using dst run lf by (intro ntop6_run) (simp_all add: n_hextets_def j_def)
      then show ?thesis by (simp add: ntop6_stop n_hextets_def)
    qed
    have len: "length (front @ seg b j 8) \<le> 41" using lf seg_length [of b j 8] run by (simp add: j_def)
    have fin: "(if zi + zl = n_hextets then store (?f (front @ seg b j 8)) (dst + length (front @ seg b j 8)) 58
        else Some (?f (front @ seg b j 8))) = Some (?f (text6 b)) \<and> length (text6 b) < 46"
    proof (cases "j = 8")
      case True
      then have "text6 b = front @ [58]" using t seg_front [of zi b] run by (simp add: text_gap_def front_def j_def)
      then show ?thesis using True len dst filled_store [of front sz m dst 58] by (simp add: n_hextets_def j_def)
    next
      case False
      then have "seg b j 8 = 58 # join 58 (map hx (part b j 8))" using run by (intro seg_back) (simp_all add: j_def)
      then have "text6 b = front @ seg b j 8"
        using t seg_front [of zi b] run by (simp add: text_gap_def front_def j_def)
      then show ?thesis using False len by (simp add: n_hextets_def j_def)
    qed
    have assoc: "X \<bind> (\<lambda>(m, p, i). L m p i \<bind> K) = (X \<bind> (\<lambda>(m, p, i). L m p i)) \<bind> K"
      for X :: "(mem \<times> addr \<times> int) option" and L :: "mem \<Rightarrow> addr \<Rightarrow> int \<Rightarrow> (mem \<times> addr) option"
        and K :: "mem \<times> addr \<Rightarrow> (mem \<times> addr \<times> errno option) option"
      by (cases X) auto
    have "inet_ntop6 m src dst sz = Some (?f (text6 b), dst, None)"
    proof -
      have big: "\<not> sz < 46" using dst(2) by simp
      have gen: "\<not> (V4MAPPED b \<or> V4COMPAT b)" using v4 by simp
      show ?thesis
        unfolding inet_ntop6_def INET6_ADDRSTRLEN_def if_not_P [OF big] start bind.bind_lunit read if_not_P [OF gen]
          z Let_def prod.case assoc first rest fin [THEN conjunct1] ..
    qed
    with fin show ?thesis by simp
  qed
  then show "inet_ntop6 m src dst sz = Some (?f (text6 b), dst, None)" "length (text6 b) < 46" by simp_all
qed


lemma length16: "length b = 16 \<Longrightarrow> \<exists>b0 b1 b2 b3 b4 b5 b6 b7 b8 b9 b10 b11 b12 b13 b14 b15. b = [b0, b1, b2, b3, b4, b5, b6, b7, b8, b9, b10, b11, b12, b13, b14, b15]"
proof -
  assume "length b = 16"
  then obtain b0 b1 b2 b3 b4 b5 b6 b7 b8 b9 b10 b11 b12 b13 b14 b15 where "b = [b0, b1, b2, b3, b4, b5, b6, b7, b8, b9, b10, b11, b12, b13, b14, b15]" by (auto simp: numeral_eq_Suc length_Suc_conv)
  then show ?thesis by blast
qed

lemma V4_list:
  fixes b0 b1 b2 b3 b4 b5 b6 b7 b8 b9 b10 b11 b12 b13 b14 b15 :: byte
  shows "V4MAPPED [b0, b1, b2, b3, b4, b5, b6, b7, b8, b9, b10, b11, b12, b13, b14, b15] \<longleftrightarrow>
      [b0, b1, b2, b3, b4, b5, b6, b7, b8, b9, b10, b11] = [0, 0, 0, 0, 0, 0, 0, 0, 0, 0, 255, 255]"
    and "V4COMPAT [b0, b1, b2, b3, b4, b5, b6, b7, b8, b9, b10, b11, b12, b13, b14, b15] \<Longrightarrow>
      [b0, b1, b2, b3, b4, b5, b6, b7, b8, b9, b10, b11] = [0, 0, 0, 0, 0, 0, 0, 0, 0, 0, 0, 0]"
proof -
  have t: "take 12 [b0, b1, b2, b3, b4, b5, b6, b7, b8, b9, b10, b11, b12, b13, b14, b15] = [b0, b1, b2, b3, b4, b5, b6, b7, b8, b9, b10, b11]" by simp
  have r: "replicate 10 0 @ [255, 255 :: byte] = [0, 0, 0, 0, 0, 0, 0, 0, 0, 0, 255, 255]"
    "replicate 12 (0 :: byte) = [0, 0, 0, 0, 0, 0, 0, 0, 0, 0, 0, 0]" by code_simp+
  show "V4MAPPED [b0, b1, b2, b3, b4, b5, b6, b7, b8, b9, b10, b11, b12, b13, b14, b15] \<longleftrightarrow>
      [b0, b1, b2, b3, b4, b5, b6, b7, b8, b9, b10, b11] = [0, 0, 0, 0, 0, 0, 0, 0, 0, 0, 255, 255]"
    unfolding V4MAPPED_def t r ..
  show "V4COMPAT [b0, b1, b2, b3, b4, b5, b6, b7, b8, b9, b10, b11, b12, b13, b14, b15] \<Longrightarrow>
      [b0, b1, b2, b3, b4, b5, b6, b7, b8, b9, b10, b11] = [0, 0, 0, 0, 0, 0, 0, 0, 0, 0, 0, 0]"
    unfolding V4COMPAT_def t r by (elim conjE)
qed

lemma ffff: "str ''ffff:'' = members [(255, 255)]" "str ''::'' = [58, 58]"
proof -
  have "hexs 65535 = [102, 102, 102, 102]"
    by (simp add: hexs.simps [of 65535] hexs.simps [of 4095] hexs.simps [of 255] hexs.simps [of 15] xchar_def)
  then show "str ''ffff:'' = members [(255, 255)]" by (simp add: str_def hx_def ntohs_def)
  show "str ''::'' = [58, 58]" by (simp add: str_def)
qed

lemma dotted_tail: "length b = 16 \<Longrightarrow> length (drop 12 b) = 4"
  by simp

lemma inet_ntop6_mapped:
  assumes b: "length b = 16" "bytes_at m src b" "apart dst sz src 16" and dst: "mapped m dst sz" "46 \<le> sz"
    and v4: "V4MAPPED b \<or> V4COMPAT b"
  shows "inet_ntop6 m src dst sz = Some (filled m dst sz (text6 b), dst, None)" and "length (text6 b) < 46"
proof -
  let ?f = "filled m dst sz"
  have start: "memset m dst 0 sz = Some (?f [])" using dst(1) by (simp add: memset_mapped filled_def)
  have read: "load_bytes (?f []) src 16 = Some b"
    unfolding load_bytes_Some using b bytes_at_put_other [of dst "replicate sz 0" src b m]
    by (simp add: filled_def apart_def)
  have h5: "hextet b 5 = (255, 255) \<longleftrightarrow> V4MAPPED b"
  proof -
    from length16 [OF b(1)] obtain b0 b1 b2 b3 b4 b5 b6 b7 b8 b9 b10 b11 b12 b13 b14 b15 where l: "b = [b0, b1, b2, b3, b4, b5, b6, b7, b8, b9, b10, b11, b12, b13, b14, b15]" by blast
    show ?thesis using v4 V4_list unfolding l by (auto simp: hextet_def)
  qed
  have t: "text6 b = str ''::'' @ (if hextet b 5 = (255, 255) then str ''ffff:'' else []) @ dotted (drop 12 b)"
    using v4 unfolding text6_def h5 ffff by auto
  have "length (members [(255, 255)]) \<le> 5" using hx_length [of "(255, 255)"] by simp
  then show len: "length (text6 b) < 46"
    using length_dotted [OF dotted_tail [OF b(1)]] by (simp add: t ffff del: members_simps)
  have "snprintf (?f []) dst 46 (text6 b) = Some (?f (text6 b), length (text6 b))"
    using filled_snprintf [of "[]" "text6 b" sz 46 m dst] len dst by simp
  then show "inet_ntop6 m src dst sz = Some (?f (text6 b), dst, None)"
    using dst(2) v4 by (simp add: inet_ntop6_def INET6_ADDRSTRLEN_def start read t)
qed

lemma text6_no_zero: "0 \<notin> set (text6 b)"
proof -
  have join: "0 \<notin> set (join 58 (map hx hs))" for hs
  proof (induction hs)
    case (Cons h hs)
    then show ?case by (cases hs) simp_all
  qed simp
  have "0 \<notin> set (members hs)" for hs by (induction hs) simp_all
  with join show ?thesis
    by (auto simp: text6_def text_full_def text_gap_def dotted_no_zero split: prod.splits)
qed

lemma pton6_text6:
  assumes m: "cstr m p (text6 b)" and b: "length b = 16" and len: "length (text6 b) < 46"
  shows "inet_pton6 m p = Some (Some b)"
proof -
  have tail: "length (drop 12 b) = 4" using b by simp
  consider "V4MAPPED b" | "\<not> V4MAPPED b" "V4COMPAT b" | "\<not> V4MAPPED b" "\<not> V4COMPAT b" by blast
  then show ?thesis
  proof cases
    case 1
    then have t: "text6 b = [58, 58] @ members [(255, 255)] @ dotted (drop 12 b)" by (simp add: text6_def)
    have "bytes_of (replicate (6 - length [(255 :: byte, 255 :: byte)]) (0, 0) @ [(255, 255)] @
        [(drop 12 b ! 0, drop 12 b ! 1), (drop 12 b ! 2, drop 12 b ! 3)]) = b"
    proof -
      from length16 [OF b] obtain b0 b1 b2 b3 b4 b5 b6 b7 b8 b9 b10 b11 b12 b13 b14 b15 where l: "b = [b0, b1, b2, b3, b4, b5, b6, b7, b8, b9, b10, b11, b12, b13, b14, b15]" by blast
      show ?thesis using 1 V4_list(1) unfolding l by (simp add: bytes_of_def numeral_eq_Suc)
    qed
    with pton6_mapped_text [OF m [unfolded t] tail] show ?thesis by simp
  next
    case 2
    then have t: "text6 b = [58, 58] @ members [] @ dotted (drop 12 b)" by (simp add: text6_def)
    have "bytes_of (replicate (6 - length ([] :: hextet list)) (0, 0) @ [] @
        [(drop 12 b ! 0, drop 12 b ! 1), (drop 12 b ! 2, drop 12 b ! 3)]) = b"
    proof -
      from length16 [OF b] obtain b0 b1 b2 b3 b4 b5 b6 b7 b8 b9 b10 b11 b12 b13 b14 b15 where l: "b = [b0, b1, b2, b3, b4, b5, b6, b7, b8, b9, b10, b11, b12, b13, b14, b15]" by blast
      show ?thesis using V4_list(2) [OF 2(2) [unfolded l]] unfolding l by (simp add: bytes_of_def numeral_eq_Suc)
    qed
    with pton6_mapped_text [OF m [unfolded t] tail] show ?thesis by simp
  next
    case 3
    obtain zi zl where z: "longest_zeros b = (zi, zl)" by (cases "longest_zeros b")
    have small: "length (text6 b) < 2 ^ 31" using len by simp
    show ?thesis
    proof (cases "zi = -1")
      case True
      then have t: "text6 b = text_full (hextets b)" using 3 z by (simp add: text6_def)
      show ?thesis using pton6_full [OF m [unfolded t] _ small [unfolded t]] bytes_of_hextets [OF b] by simp
    next
      case False
      then have run: "zero_run b zi zl" "2 \<le> zl" "zi + zl \<le> n_hextets" "0 \<le> zi"
        using longest_zeros_spec [OF z] by (auto simp: zero_run_def)
      have t: "text6 b = text_gap (part b 0 zi) (part b (zi + zl) n_hextets)" using 3 z False by (simp add: text6_def)
      have n: "length (part b 0 zi) + length (part b (zi + zl) n_hextets) < 8"
        "8 - (length (part b 0 zi) + length (part b (zi + zl) n_hextets)) = nat zl"
        using run by (simp_all add: n_hextets_def)
      have "part b 0 zi @ replicate (nat zl) (0, 0) @ part b (zi + zl) n_hextets = hextets b"
        using part_append [of 0 zi n_hextets b] part_append [of zi "zi + zl" n_hextets b] run zero_run_part [OF run(1)]
        by (simp add: part_all)
      then show ?thesis
        using pton6_gap_text [OF m [unfolded t] n(1) small [unfolded t], unfolded n(2)] bytes_of_hextets [OF b] by simp
    qed
  qed
qed

text \<open>The length of an address of a family, and the room its text is given.\<close>

fun addr_len :: "family \<Rightarrow> nat" where
  "addr_len AF_INET = 4" | "addr_len AF_INET6 = 16" | "addr_len AF_OTHER = 0"

fun addr_strlen :: "family \<Rightarrow> nat" where
  "addr_strlen AF_INET = INET_ADDRSTRLEN" | "addr_strlen AF_INET6 = INET6_ADDRSTRLEN" | "addr_strlen AF_OTHER = 0"

text \<open>
  C31. \<open>inet_pton\<close> reads back what \<open>inet_ntop\<close> writes: for every address of either family and every buffer of
  the documented size the text is written inside the buffer, NUL terminated, nothing else in memory
  changes, and parsing it returns 1 and the bytes of the address - whether the text is the full form, has a
  run of zeros cut out at either end or in the middle, or ends with a dotted IPv4 address.
\<close>

theorem ntop_pton_roundtrip:
  assumes "af \<noteq> AF_OTHER" and "bytes_at m src b" and "length b = addr_len af" and "mapped m dst sz"
    and "addr_strlen af \<le> sz" and "apart dst sz src (addr_len af)" and "src \<noteq> NULL" and "dst \<noteq> NULL" and "buf \<noteq> NULL"
  shows "\<exists>m' t. inet_ntop m af src dst sz = Some (m', dst, None) \<and> cstr m' dst t \<and> length t < addr_strlen af \<and>
    (\<exists>ws. m' = put m dst ws \<and> length ws \<le> sz) \<and> inet_pton m' af dst buf = Some (1, Some b, None)"
proof (cases af)
  case AF_INET
  with assms have b: "length b = 4" and sz: "16 \<le> sz" by (simp_all add: INET_ADDRSTRLEN_def)
  let ?t = "dotted b" let ?m = "put m dst (?t @ [0])"
  note len = length_dotted [OF b]
  have read: "load_bytes m src 4 = Some b" using assms(2) b by (simp add: load_bytes_Some)
  have "mapped m dst (length (?t @ [0]))" using assms(4) len sz by (auto intro: mapped_le)
  then have "inet_ntop m af src dst sz = Some (?m, dst, None)"
    using assms(7,8) len sz
    by (simp add: AF_INET inet_ntop_def inet_ntop4_def INET_ADDRSTRLEN_def read snprintf_def store_bytes_def)
  moreover have str: "cstr ?m dst ?t" by (rule cstr_put [OF dotted_no_zero])
  moreover have "inet_pton ?m af dst buf = Some (1, Some b, None)"
    using assms(8,9) pton4_dotted [OF str b] by (simp add: AF_INET inet_pton_def)
  moreover have "length ?t < addr_strlen af" using len by (simp add: AF_INET INET_ADDRSTRLEN_def)
  moreover have "length (?t @ [0]) \<le> sz" using len sz by simp
  ultimately show ?thesis by (intro exI [of _ ?m] exI [of _ ?t] conjI exI [of _ "?t @ [0]"]) auto
next
  case AF_INET6
  with assms have b: "length b = 16" and sz: "46 \<le> sz" and ap: "apart dst sz src 16"
    by (simp_all add: INET6_ADDRSTRLEN_def)
  let ?t = "text6 b" let ?m = "filled m dst sz ?t"
  have out: "inet_ntop6 m src dst sz = Some (?m, dst, None)" and len: "length ?t < 46"
    using inet_ntop6_general [OF b assms(2) ap assms(4) sz] inet_ntop6_mapped [OF b assms(2) ap assms(4) sz] by blast+
  have str: "cstr ?m dst ?t" using len sz by (intro filled_cstr text6_no_zero) simp
  have "inet_ntop m af src dst sz = Some (?m, dst, None)" using assms(7,8) out by (simp add: AF_INET6 inet_ntop_def)
  moreover have "inet_pton ?m af dst buf = Some (1, Some b, None)"
    using assms(8,9) pton6_text6 [OF str b len] by (simp add: AF_INET6 inet_pton_def)
  moreover have "length ?t < addr_strlen af" using len by (simp add: AF_INET6 INET6_ADDRSTRLEN_def)
  moreover have "\<exists>ws. ?m = put m dst ws \<and> length ws \<le> sz"
    using len sz by (intro exI [of _ "?t @ replicate (sz - length ?t) 0"]) (simp add: filled_def)
  ultimately show ?thesis using str by blast
next
  case AF_OTHER
  with assms(1) show ?thesis by simp
qed


definition loopback :: "byte list" where "loopback = replicate 15 0 @ [1]"

definition loopback_mem :: mem where "loopback_mem = put (put Map.empty 1 loopback) 100 (replicate 46 0)"

theorem ntop_pton_roundtrip_witness:
  "\<exists>m' t. inet_ntop loopback_mem AF_INET6 1 100 46 = Some (m', 100, None) \<and> cstr m' 100 t \<and>
    length t < addr_strlen AF_INET6 \<and> (\<exists>ws. m' = put loopback_mem 100 ws \<and> length ws \<le> 46) \<and>
    inet_pton m' AF_INET6 100 8 = Some (1, Some loopback, None)"
proof (rule ntop_pton_roundtrip)
  have "bytes_at (put Map.empty 1 loopback) 1 loopback" by (rule bytes_at_put)
  then show "bytes_at loopback_mem 1 loopback"
    unfolding loopback_mem_def by (subst bytes_at_put_other) (simp_all add: loopback_def)
  show "mapped loopback_mem 100 46" by (simp add: loopback_mem_def mapped_iff put_lookup)
qed (simp_all add: loopback_def INET6_ADDRSTRLEN_def apart_def)

declare pton6_loop.simps [code] xdigits_end.simps [code] aton_loop.simps [code] skip_space.simps [code]
  strtoul_loop.simps [code]

definition image :: "string \<Rightarrow> mem" where
  "image s = image_at 1 (str s @ [0])"


end
