(* ===== verification/Spec2Isabelle.thy ===== *)
theory Spec2Isabelle
  imports CMem CType CString StrSearch StrCopy StrNum WChar Atexit Bignum Calendar TimeZone TzParse MemStream
    Stdio StdioFile DList RBTree RBRemove RBClients Semaphore Barrier Inet
begin

section \<open>libphoenix, the standard C library of Phoenix-RTOS\<close>

text \<open>
  The library stands between the programs of the system and its microkernel. This development models
  the parts of it that compute by themselves: strings and characters, number and time conversions,
  exit handlers, streams, lists, synchronisation and network addresses. What crosses the kernel boundary
  (system calls, messages, locks, memory from \<open>mmap\<close>) is a parameter of the definitions that use it.

  \<^bold>\<open>Conventions.\<close> A C function is a HOL function of the memory it reads and the objects it changes.
  The result is in \<open>option\<close>: \<open>None\<close> is a run without a defined outcome (an access to unmapped memory,
  a signed overflow, a division by zero, a loop that does not end), so a theorem \<open>f x = Some y\<close> also says
  that the call returns and is free of such faults. Errors the code reports are values: \<open>errno + 'a\<close>, a
  -1 with the \<open>errno\<close> it leaves, or a field of the state. Loops are recursions over the data, or
  \<open>partial_function (option)\<close> where the end of the loop needs a proof; no fuel is used. Integers are
  words where the code relies on their width and integers with a range check (\<open>to_int\<close>, \<open>to_long\<close>) where
  overflow is undefined. Memory comes in three forms, each local to its theories: byte memory (\<open>mem\<close>), memory of
  pointer cells (\<open>cells\<close>) and objects passed as lists of bytes.

  \<^bold>\<open>Theories\<close>, in the order of their imports, with the code they model:

  \<^item> \<open>CMem\<close>: the prelude. Addresses, bytes, memory, \<open>errno\<close>, regions and strings in memory, C integer
    conversions, and the collection \<open>mem_simps\<close>.
  \<^item> \<open>CType\<close>: ctype/ctype.c and the inline versions of include/ctype.h, over all \<open>int\<close> arguments.
  \<^item> \<open>CString\<close>, \<open>StrSearch\<close>, \<open>StrCopy\<close>: string/string.c, comparing, searching and copying. Each
    routine is shown equal to a specification on lists, reading and writing only what it may.
  \<^item> \<open>StrNum\<close>: stdlib/strtoul.c, strtoull.c and the \<open>ato*\<close> functions. \<open>strtoul\<close> and \<open>strtol\<close> return what
    ISO C asks, for every string and base; the second implementation agrees with the first.
  \<^item> \<open>WChar\<close>: wchar/wchar.c, wchar/uchar.c, wctype/wctype.c. Wide functions are related to the narrow
    ones by the embedding of bytes; wide conversions go through a buffer of 511 characters.
  \<^item> \<open>Atexit\<close>: stdlib/atexit.c. The handler lists are blocks of 32 slots linked in a store; the
    invariant is \<open>wf_list\<close>, the abstraction the stack of pending handlers. A locale states what the walk needs
    of the code that runs a handler (handlers may register and finalize themselves).
  \<^item> \<open>Bignum\<close>: stdio/bignum.c, the numbers of the floating point formatter; digits are 32-bit words, the
    abstraction is the number they stand for.
  \<^item> \<open>Calendar\<close>, \<open>TimeZone\<close>, \<open>TzParse\<close>: time/time.c, from days to dates, the rules of a time zone,
    and the TZ variable with its cache. \<open>gmtime_r\<close> and \<open>timegm\<close>, \<open>localtime_r\<close> and \<open>mktime\<close>, and
    writing and parsing a zone are inverse to each other.
  \<^item> \<open>MemStream\<close>: stdio/memstream.c, the primitives of \<open>open_memstream\<close> and \<open>fmemopen\<close>; the locale
    \<open>seekable\<close> is the contract of their positions.
  \<^item> \<open>Stdio\<close>, \<open>StdioFile\<close>: stdio/file.c, buffered streams over any device. The locale \<open>raw_file\<close> is what
    a stream needs of its device (reads and writes may be short); its lemmas show for each
    operation what it does to the file the stream stands for, and the interpretation on the hooks of \<open>fmemopen\<close>
    puts both layers together.
  \<^item> \<open>DList\<close>: sys/list.c, rings of objects in pointer memory, and the list of open streams with \<open>fclose\<close>.
  \<^item> \<open>RBTree\<close>, \<open>RBRemove\<close>, \<open>RBClients\<close>: sys/rb.c, red-black trees of nodes in memory with parent links.
    A tree in memory is described by a tree of addresses, a place in it by the frames up to the root. The locales
    \<open>rb_order\<close> (comparison) and \<open>rb_user\<close>, \<open>rb_map\<close>, \<open>rb_removable\<close> (what the augment callback keeps) are the interface;
    the cells of errno/errno.c are the first client.
  \<^item> \<open>Semaphore\<close>: pthread/sem_unnamed.c and posix/sem.c. The post, the waits and their cancellation are
    programs of atomic steps (one per access to the value, one per system call); \<open>sem_step\<close> interleaves
    any number of threads, the invariant counts the units.
  \<^item> \<open>Barrier\<close>: pthread/barrier.c, one step per stretch of code under the mutex, with spurious wake-ups.
  \<^item> \<open>Inet\<close>: net/inet_*.c, the text forms of IPv4 and IPv6 addresses.

  \<^bold>\<open>How the parts meet.\<close> \<open>StrNum\<close> and \<open>WChar\<close> call the classes of \<open>CType\<close>; \<open>Inet\<close> parses octets with
  \<open>strtoul\<close>; \<open>TzParse\<close> gives \<open>TimeZone\<close> its rules, which give \<open>localtime_r\<close> the calendar; streams of
  \<open>Stdio\<close> run on the hooks of \<open>MemStream\<close>; closing a stream goes through \<open>DList\<close>.

  \<^bold>\<open>Properties.\<close> A theorem behind a paragraph that begins with C and a number is a property of the program,
  followed by an instance at concrete values. Some properties record behaviour that is not what the code means
  to do: a timed wait that can starve, the zone slot that is overwritten, data lost by \<open>fread\<close> at a
  read error, address texts that are accepted or written past the end.

  \<^bold>\<open>Bounds.\<close> Objects are below the sizes the types can express: \<open>SSIZE_MAX\<close> for streams, 2 GiB for
  \<open>memmove\<close> (its backward index is an \<open>int\<close>), 4 GiB for \<open>strlen\<close> (its counter is \<open>unsigned int\<close>), years
  that fit in an \<open>int\<close>, fewer than 2^32 threads and rounds for the barrier. Each is a hypothesis or a case of the
  theorem it concerns.

  \<^bold>\<open>Not modelled.\<close> Floating point (libm, \<open>strtod\<close>, the formatter and scanner around \<open>Bignum\<close>), code in
  assembly, system call wrappers and message passing (unistd, sockets, mounts, signals, terminals), thread
  creation, cancellation and keys in pthread/pthread.c, the allocator stdlib/malloc_dl.c, which the clients
  see as an oracle that may fail, and the vendored regular expression engine. In time/time.c \<open>strftime\<close> and
  the clock calls are left out, in stdio/file.c \<open>freopen\<close>, \<open>popen\<close>, \<open>tmpfile\<close> and the set-up of the standard streams.
  The locks of the library make a call one step where the model says so.
\<close>

end
